(* ===== verification/Prelude.thy ===== *)
theory Prelude
  imports Main "HOL-Library.Word" "HOL-Library.Code_Target_Nat"
begin

text \<open>
  Shared vocabulary of the development. Rust's fixed-width unsigned integers are natural
  numbers below \<open>2 ^ w\<close>, with the checked, saturating and wrapping operations written out;
  where bits matter (hashes, probe masks, gate words) the value is a word. \<open>usize\<close> is 64 bits
  wide. A fallible call returns \<open>'e + 'a\<close> with \<open>Inl\<close> for the error; a fallible call that
  mutates its receiver returns the new state beside that result, because Rust keeps every
  write made before an early return.
\<close>

unbundle bit_operations_syntax

named_theorems arith_defs \<open>definitions of the machine-integer operations\<close>
named_theorems codec_simps \<open>lengths and slices of little-endian byte strings\<close>

type_synonym byte = "8 word"
type_synonym bytes = "byte list"
type_synonym u64w = "64 word"

section \<open>Machine integers\<close>

definition u8_max :: nat where "u8_max = 2 ^ 8 - 1"
definition u16_max :: nat where "u16_max = 2 ^ 16 - 1"
definition u32_max :: nat where "u32_max = 2 ^ 32 - 1"
definition u64_max :: nat where "u64_max = 2 ^ 64 - 1"
definition u128_max :: nat where "u128_max = 2 ^ 128 - 1"

text \<open>\<open>checked_add\<close> and its kin take the largest value of the type as first argument.\<close>

definition checked_add :: "nat \<Rightarrow> nat \<Rightarrow> nat \<Rightarrow> nat option" where
  [arith_defs]: "checked_add m a b = (if a + b \<le> m then Some (a + b) else None)"

definition checked_mul :: "nat \<Rightarrow> nat \<Rightarrow> nat \<Rightarrow> nat option" where
  [arith_defs]: "checked_mul m a b = (if a * b \<le> m then Some (a * b) else None)"

definition checked_sub :: "nat \<Rightarrow> nat \<Rightarrow> nat option" where
  [arith_defs]: "checked_sub a b = (if b \<le> a then Some (a - b) else None)"

definition saturating_add :: "nat \<Rightarrow> nat \<Rightarrow> nat \<Rightarrow> nat" where
  [arith_defs]: "saturating_add m a b = min m (a + b)"

definition saturating_mul :: "nat \<Rightarrow> nat \<Rightarrow> nat \<Rightarrow> nat" where
  [arith_defs]: "saturating_mul m a b = min m (a * b)"

definition saturating_sub :: "nat \<Rightarrow> nat \<Rightarrow> nat" where
  [arith_defs]: "saturating_sub a b = a - b"

definition wrapping_add :: "nat \<Rightarrow> nat \<Rightarrow> nat \<Rightarrow> nat" where
  [arith_defs]: "wrapping_add m a b = (a + b) mod (m + 1)"

definition div_ceil :: "nat \<Rightarrow> nat \<Rightarrow> nat" where
  [arith_defs]: "div_ceil a b = (a + b - 1) div b"

definition is_power_of_two :: "nat \<Rightarrow> bool" where
  "is_power_of_two n = (n \<noteq> 0 \<and> (\<exists>k\<le>n. n = 2 ^ k))"

text \<open>\<open>next_multiple_of\<close> of the standard library.\<close>

definition next_multiple_of :: "nat \<Rightarrow> nat \<Rightarrow> nat" where
  [arith_defs]: "next_multiple_of a b = (if a mod b = 0 then a else a + (b - a mod b))"

text \<open>The bounds as numerals, for evaluation.\<close>

lemma u64_max_code [code]: "u64_max = 18446744073709551615"
  by (simp add: u64_max_def)

lemma u128_max_code [code]: "u128_max = 340282366920938463463374607431768211455"
  by (simp add: u128_max_def)

lemmas max_defs = u8_max_def u16_max_def u32_max_def u64_max_def u128_max_def

lemma checked_add_Some [simp]: "checked_add m a b = Some c \<longleftrightarrow> c = a + b \<and> a + b \<le> m"
  by (auto simp: arith_defs)

lemma checked_add_None [simp]: "checked_add m a b = None \<longleftrightarrow> m < a + b"
  by (auto simp: arith_defs)

lemma checked_mul_Some [simp]: "checked_mul m a b = Some c \<longleftrightarrow> c = a * b \<and> a * b \<le> m"
  by (auto simp: arith_defs)

lemma checked_mul_None [simp]: "checked_mul m a b = None \<longleftrightarrow> m < a * b"
  by (auto simp: arith_defs)

lemma checked_sub_Some [simp]: "checked_sub a b = Some c \<longleftrightarrow> c = a - b \<and> b \<le> a"
  by (auto simp: arith_defs)

lemma checked_sub_None [simp]: "checked_sub a b = None \<longleftrightarrow> a < b"
  by (auto simp: arith_defs)

lemma saturating_add_le [simp]: "saturating_add m a b \<le> m"
  by (simp add: arith_defs)

lemma saturating_add_exact: "a + b \<le> m \<Longrightarrow> saturating_add m a b = a + b"
  by (simp add: arith_defs)

lemma wrapping_add_exact: "a + b \<le> m \<Longrightarrow> wrapping_add m a b = a + b"
  by (simp add: arith_defs)

lemma div_ceil_least: "0 < b \<Longrightarrow> a \<le> div_ceil a b * b \<and> (\<forall>c. a \<le> c * b \<longrightarrow> div_ceil a b \<le> c)"
proof (intro conjI allI impI)
  assume b: "0 < b"
  let ?q = "(a + b - 1) div b"
  have "a + b - 1 = b * ?q + (a + b - 1) mod b" by simp
  moreover have "(a + b - 1) mod b < b" using b by simp
  ultimately have "a \<le> b * ?q" using b by linarith
  then show "a \<le> div_ceil a b * b" by (simp add: div_ceil_def mult.commute)
next
  fix c assume b: "0 < b" and "a \<le> c * b"
  then have "a + b - 1 < (c + 1) * b" by (simp add: algebra_simps)
  then have "(a + b - 1) div b < c + 1" using b by (simp add: div_less_iff_less_mult)
  then show "div_ceil a b \<le> c" by (simp add: div_ceil_def)
qed

lemma is_power_of_two_iff: "is_power_of_two n \<longleftrightarrow> (\<exists>k. n = 2 ^ k)"
proof
  assume "is_power_of_two n"
  then show "\<exists>k. n = 2 ^ k" by (auto simp: is_power_of_two_def)
next
  assume "\<exists>k. n = 2 ^ k"
  then obtain k where k: "n = 2 ^ k" by auto
  have "k < 2 ^ k" by (rule less_exp)
  with k show "is_power_of_two n" by (auto simp: is_power_of_two_def intro: less_imp_le)
qed

lemma is_power_of_two_pos: "is_power_of_two n \<Longrightarrow> 0 < n"
  by (simp add: is_power_of_two_def)

lemma mod_add_left_inj:
  fixes d e h n :: nat
  assumes "(h + d) mod n = (h + e) mod n" "d < n" "e < n"
  shows "d = e"
proof -
  have le: "x = y" if "(h + x) mod n = (h + y) mod n" "x < n" "y < n" "x \<le> y" for x y
  proof -
    have "n dvd (h + y) - (h + x)"
      using that mod_eq_dvd_iff_nat [of "h + x" "h + y" n] by simp
    then have "n dvd y - x" by simp
    with that show ?thesis by (auto dest: dvd_imp_le)
  qed
  show ?thesis using le [of d e] le [of e d] assms by (metis nat_le_linear)
qed

lemma mult_add_div: "(r::nat) < m \<Longrightarrow> (k * m + r) div m = k"
  by (simp add: div_mult_self3)

lemma mult_add_mod: "(r::nat) < m \<Longrightarrow> (k * m + r) mod m = r"
  by simp

lemma nth_list_update_not: "\<not> P s \<Longrightarrow> \<not> P (xs ! j) \<Longrightarrow> \<not> P (xs[i := s] ! j)"
  by (cases "i < length xs"; cases "i = j") (auto simp: list_update_beyond)

section \<open>Results\<close>

definition ok_or :: "'e \<Rightarrow> 'a option \<Rightarrow> 'e + 'a" where
  "ok_or e r = (case r of None \<Rightarrow> Inl e | Some x \<Rightarrow> Inr x)"

lemma ok_or_simps [simp]: "ok_or e None = Inl e" "ok_or e (Some x) = Inr x"
  by (simp_all add: ok_or_def)

lemma ok_or_Inr [simp]: "ok_or e r = Inr x \<longleftrightarrow> r = Some x"
  by (cases r) auto

lemma ok_or_Inl [simp]: "ok_or e r = Inl f \<longleftrightarrow> r = None \<and> f = e"
  by (cases r) auto

lemma map_eqI: "(\<And>k v. m k = Some v \<longleftrightarrow> m' k = Some v) \<Longrightarrow> m = m'"
  by (rule ext) (metis not_None_eq)

section \<open>Little-endian byte strings\<close>

text \<open>\<open>to_le_bytes\<close> and \<open>from_le_bytes\<close> of the unsigned integer types, \<open>n\<close> bytes wide.\<close>

definition to_le_bytes :: "nat \<Rightarrow> nat \<Rightarrow> bytes" where
  "to_le_bytes n x = map (\<lambda>i. word_of_nat (x div 256 ^ i)) [0..<n]"

fun from_le_bytes :: "bytes \<Rightarrow> nat" where
  "from_le_bytes [] = 0"
| "from_le_bytes (b # bs) = unat b + 256 * from_le_bytes bs"

text \<open>\<open>sub_slice xs i j\<close> is Rust's \<open>xs[i..j]\<close> for \<open>i \<le> j \<le> xs.len()\<close>.\<close>

definition sub_slice :: "'a list \<Rightarrow> nat \<Rightarrow> nat \<Rightarrow> 'a list" where
  "sub_slice xs i j = take (j - i) (drop i xs)"

lemma length_to_le_bytes [simp, codec_simps]: "length (to_le_bytes n x) = n"
  by (simp add: to_le_bytes_def)

lemma to_le_bytes_Suc:
  "to_le_bytes (Suc n) x = word_of_nat x # to_le_bytes n (x div 256)"
  unfolding to_le_bytes_def
  by (simp add: upt_conv_Cons map_Suc_upt [symmetric] div_mult2_eq del: upt_Suc)

lemma from_to_le_bytes [codec_simps]: "from_le_bytes (to_le_bytes n x) = x mod 256 ^ n"
proof (induction n arbitrary: x)
  case 0
  then show ?case by (simp add: to_le_bytes_def)
next
  case (Suc n)
  have "x mod 256 ^ Suc n = 256 * (x div 256 mod 256 ^ n) + x mod 256"
    by (simp add: mod_mult2_eq)
  with Suc show ?case by (simp add: to_le_bytes_Suc unat_of_nat)
qed

lemma from_le_bytes_bound: "from_le_bytes bs < 256 ^ length bs"
proof (induction bs)
  case Nil
  then show ?case by simp
next
  case (Cons b bs)
  have "unat b < 256" using unsigned_less [of b] by simp
  with Cons show ?case by simp
qed

lemma to_from_le_bytes: "to_le_bytes (length bs) (from_le_bytes bs) = bs"
proof (induction bs)
  case Nil
  then show ?case by (simp add: to_le_bytes_def)
next
  case (Cons b bs)
  have "unat b < 256" using unsigned_less [of b] by simp
  then have "(unat b + 256 * from_le_bytes bs) div 256 = from_le_bytes bs" by simp
  moreover have "(256 :: byte) = 0" by simp
  then have "word_of_nat (unat b + 256 * from_le_bytes bs) = b"
    by (simp only: of_nat_add of_nat_mult of_nat_numeral) simp
  ultimately show ?case using Cons by (simp add: to_le_bytes_Suc)
qed

lemma sub_slice_append_left [codec_simps]: "j \<le> length xs \<Longrightarrow> sub_slice (xs @ ys) i j = sub_slice xs i j"
  by (simp add: sub_slice_def)

lemma sub_slice_append_right [codec_simps]:
  "length xs \<le> i \<Longrightarrow> sub_slice (xs @ ys) i j = sub_slice ys (i - length xs) (j - length xs)"
  by (simp add: sub_slice_def)

lemma sub_slice_full [codec_simps]: "j = length xs \<Longrightarrow> sub_slice xs 0 j = xs"
  by (simp add: sub_slice_def)

lemma length_sub_slice [simp]: "j \<le> length xs \<Longrightarrow> length (sub_slice xs i j) = j - i"
  by (simp add: sub_slice_def)

lemma div_ceil_le_iff: "0 < b \<Longrightarrow> div_ceil a b \<le> w \<longleftrightarrow> a \<le> w * b"
proof -
  assume b: "0 < b"
  have "div_ceil a b \<le> w \<longleftrightarrow> (a + b - 1) div b < Suc w" by (simp add: div_ceil_def less_Suc_eq_le)
  also have "\<dots> \<longleftrightarrow> a + b - 1 < Suc w * b" using b by (rule div_less_iff_less_mult)
  also have "\<dots> \<longleftrightarrow> a \<le> w * b" using b by auto
  finally show ?thesis .
qed

lemma find_SomeD: "find P xs = Some x \<Longrightarrow> P x \<and> x \<in> set xs"
  by (induction xs) (auto split: if_splits)

end
