(* ===== verification/Probe.thy ===== *)
theory Probe
  imports Prelude
begin

text \<open>
  The open-addressing discipline shared by the current-state tables (\<open>counter/src/lib.rs\<close>,
  \<open>lock/src/state.rs\<close>): an FNV-1a hash of the key, linear probing by a power-of-two mask, a
  scan that stops at the first empty slot. \<open>probe_wf\<close> is the table invariant those tables keep
  and the locale \<open>probing\<close> proves, once for every such table, what a scan finds and which
  slot writes keep the invariant. A slot type enters through two predicates: \<open>emp s\<close>, the slot
  stops a scan, and \<open>holds s k\<close>, the slot carries the entry of key \<open>k\<close>.
\<close>

definition SLOT_EMPTY :: nat where [simp]: "SLOT_EMPTY = 0"
definition SLOT_OCCUPIED :: nat where [simp]: "SLOT_OCCUPIED = 1"
definition SLOT_TOMBSTONE :: nat where [simp]: "SLOT_TOMBSTONE = 2"

definition FNV_OFFSET_BASIS :: u64w where "FNV_OFFSET_BASIS = 0xcbf29ce484222325"
definition FNV_PRIME :: u64w where "FNV_PRIME = 0x100000001b3"

fun fnv_from :: "u64w \<Rightarrow> bytes \<Rightarrow> u64w" where
  "fnv_from hash [] = hash"
| "fnv_from hash (b # bs) = fnv_from ((hash XOR ucast b) * FNV_PRIME) bs"

definition fnv1a :: "bytes \<Rightarrow> u64w" where
  "fnv1a bs = fnv_from FNV_OFFSET_BASIS bs"

text \<open>\<open>(hash as usize).wrapping_add(offset) & (capacity - 1)\<close>\<close>

definition probe_index :: "u64w \<Rightarrow> nat \<Rightarrow> nat \<Rightarrow> nat" where
  "probe_index hash offset capacity =
     unat ((hash + word_of_nat offset) AND word_of_nat (capacity - 1))"

text \<open>The scan of the tables: offsets in order, stopping at an empty slot or a match.\<close>

fun scan :: "('s \<Rightarrow> bool) \<Rightarrow> ('s \<Rightarrow> bool) \<Rightarrow> (nat \<Rightarrow> nat) \<Rightarrow> 's list \<Rightarrow> nat list \<Rightarrow> nat option" where
  "scan emp hit path slots [] = None"
| "scan emp hit path slots (o1 # os) =
     (let s = slots ! path o1
      in if emp s then None else if hit s then Some (path o1) else scan emp hit path slots os)"

text \<open>The first empty slot of a probe sequence: where an absent key is installed.\<close>

fun first_empty :: "('s \<Rightarrow> bool) \<Rightarrow> (nat \<Rightarrow> nat) \<Rightarrow> 's list \<Rightarrow> nat list \<Rightarrow> nat option" where
  "first_empty emp path slots [] = None"
| "first_empty emp path slots (o1 # os) =
     (if emp (slots ! path o1) then Some (path o1) else first_empty emp path slots os)"

definition table_size :: "'s list \<Rightarrow> bool" where
  "table_size slots \<longleftrightarrow> is_power_of_two (length slots) \<and> length slots \<le> 2 ^ 63"

definition probe_wf ::
    "('s \<Rightarrow> bool) \<Rightarrow> ('s \<Rightarrow> 'k \<Rightarrow> bool) \<Rightarrow> ('k \<Rightarrow> u64w) \<Rightarrow> 's list \<Rightarrow> bool" where
  "probe_wf emp holds hash slots \<longleftrightarrow>
     (\<forall>i<length slots. \<forall>k. holds (slots ! i) k \<longrightarrow>
        (\<exists>d<length slots. probe_index (hash k) d (length slots) = i \<and>
           (\<forall>e<d. \<not> emp (slots ! probe_index (hash k) e (length slots))))) \<and>
     (\<forall>i<length slots. \<forall>j<length slots. \<forall>k.
        holds (slots ! i) k \<longrightarrow> holds (slots ! j) k \<longrightarrow> i = j)"

section \<open>The probe sequence\<close>

lemma probe_index_mod:
  assumes "is_power_of_two n" "n \<le> 2 ^ 63" "d < n"
  shows "probe_index h d n = (unat h + d) mod n"
proof -
  from assms(1) obtain k where k: "n = 2 ^ k" by (auto simp: is_power_of_two_iff)
  with assms(2) have k63: "k \<le> 63" by (metis one_less_numeral_iff power_increasing_iff semiring_norm(76))
  have mask: "word_of_nat (n - 1) = (mask k :: u64w)"
    by (simp add: k mask_eq_exp_minus_1 of_nat_diff)
  have d: "unat (word_of_nat d :: u64w) = d"
    using assms(2,3) by (simp add: unat_of_nat)
  have "probe_index h d n = unat (take_bit k (h + word_of_nat d))"
    by (simp only: probe_index_def mask take_bit_eq_mask)
  also have "\<dots> = unat (h + word_of_nat d) mod 2 ^ k"
    by (simp only: unsigned_take_bit_eq) (simp only: take_bit_eq_mod)
  also have "\<dots> = ((unat h + d) mod 2 ^ 64) mod 2 ^ k"
    by (simp add: unat_word_ariths d)
  also have "\<dots> = (unat h + d) mod n"
  proof -
    have "(2::nat) ^ k dvd 2 ^ 64" using k63 by (intro le_imp_power_dvd) simp
    then show ?thesis by (simp only: k mod_mod_cancel)
  qed
  finally show ?thesis .
qed

lemma probe_index_less:
  assumes "table_size slots" "d < length slots"
  shows "probe_index h d (length slots) < length slots"
  using assms probe_index_mod [of "length slots" d h]
  by (simp add: table_size_def) (metis assms(2) gr0I length_greater_0_conv list.size(3) mod_less_divisor not_less_zero)

lemma probe_index_inj:
  assumes "table_size slots" "d < length slots" "e < length slots"
    "probe_index h d (length slots) = probe_index h e (length slots)"
  shows "d = e"
proof -
  let ?n = "length slots"
  have "(unat h + d) mod ?n = (unat h + e) mod ?n"
    using assms by (simp add: table_size_def probe_index_mod)
  then show ?thesis using assms(2,3) by (rule mod_add_left_inj)
qed

lemma probe_index_surj:
  assumes "table_size slots" "i < length slots"
  shows "\<exists>d<length slots. probe_index h d (length slots) = i"
proof -
  let ?n = "length slots"
  let ?f = "\<lambda>d. probe_index h d ?n"
  have "inj_on ?f {..<?n}" using probe_index_inj [OF assms(1)] by (auto intro: inj_onI)
  moreover have "?f ` {..<?n} \<subseteq> {..<?n}" using probe_index_less [OF assms(1)] by auto
  ultimately have "?f ` {..<?n} = {..<?n}" by (simp add: endo_inj_surj)
  with assms(2) show ?thesis by (metis imageE lessThan_iff)
qed

section \<open>What a scan finds\<close>

lemma scan_Some:
  assumes "scan emp hit path slots (map f [a..<b]) = Some i"
  shows "\<exists>d. a \<le> d \<and> d < b \<and> i = path (f d) \<and> hit (slots ! i) \<and> \<not> emp (slots ! i) \<and>
    (\<forall>e. a \<le> e \<and> e < d \<longrightarrow> \<not> emp (slots ! path (f e)) \<and> \<not> hit (slots ! path (f e)))"
  using assms
proof (induction "b - a" arbitrary: a)
  case 0
  then show ?case by simp
next
  case (Suc n)
  then have ab: "a < b" by simp
  then have step: "[a..<b] = a # [Suc a..<b]" by (rule upt_conv_Cons)
  show ?case
  proof (cases "hit (slots ! path (f a))")
    case True
    with Suc.prems ab show ?thesis
      by (intro exI [of _ a]) (auto simp: step Let_def split: if_splits)
  next
    case False
    with Suc.prems have ne: "\<not> emp (slots ! path (f a))"
      and rest: "scan emp hit path slots (map f [Suc a..<b]) = Some i"
      by (auto simp: step Let_def split: if_splits)
    from Suc.hyps(2) have "n = b - Suc a" by simp
    from Suc.hyps(1) [OF this rest] obtain d where d: "Suc a \<le> d" "d < b" "i = path (f d)"
      "hit (slots ! i)" "\<not> emp (slots ! i)"
      "\<forall>e. Suc a \<le> e \<and> e < d \<longrightarrow> \<not> emp (slots ! path (f e)) \<and> \<not> hit (slots ! path (f e))"
      by blast
    have "\<forall>e. a \<le> e \<and> e < d \<longrightarrow> \<not> emp (slots ! path (f e)) \<and> \<not> hit (slots ! path (f e))"
      using d(6) ne False by (metis Suc_leI le_neq_implies_less)
    with d show ?thesis by (intro exI [of _ d]) auto
  qed
qed

lemma scan_None:
  assumes "scan emp hit path slots (map f [a..<b]) = None"
    and "a \<le> d" "d < b" "\<forall>e. a \<le> e \<and> e < d \<longrightarrow> \<not> emp (slots ! path (f e))"
    and "\<not> emp (slots ! path (f d))"
  shows "\<not> hit (slots ! path (f d))"
  using assms
proof (induction "b - a" arbitrary: a)
  case 0
  then show ?case by simp
next
  case (Suc n)
  then have step: "[a..<b] = a # [Suc a..<b]" by (simp add: upt_conv_Cons)
  show ?case
  proof (cases "d = a")
    case True
    with Suc.prems show ?thesis by (auto simp: step Let_def split: if_splits)
  next
    case False
    with Suc.prems have "\<not> emp (slots ! path (f a))" by auto
    with Suc.prems(1) have "scan emp hit path slots (map f [Suc a..<b]) = None"
      by (auto simp: step Let_def split: if_splits)
    moreover from Suc.hyps(2) have "n = b - Suc a" by simp
    ultimately show ?thesis using Suc.hyps(1) [of "Suc a"] Suc.prems False by auto
  qed
qed

lemma first_empty_Some:
  assumes "first_empty emp path slots [a..<b] = Some i"
  shows "\<exists>d. a \<le> d \<and> d < b \<and> i = path d \<and> emp (slots ! i) \<and>
    (\<forall>e. a \<le> e \<and> e < d \<longrightarrow> \<not> emp (slots ! path e))"
  using assms
proof (induction "b - a" arbitrary: a)
  case 0
  then show ?case by simp
next
  case (Suc n)
  then have ab: "a < b" by simp
  then have step: "[a..<b] = a # [Suc a..<b]" by (rule upt_conv_Cons)
  show ?case
  proof (cases "emp (slots ! path a)")
    case True
    with Suc.prems ab show ?thesis by (intro exI [of _ a]) (auto simp: step)
  next
    case False
    from Suc.hyps(2) have "n = b - Suc a" by simp
    with Suc.hyps(1) [of "Suc a"] Suc.prems False obtain d where d: "Suc a \<le> d" "d < b" "i = path d"
      "emp (slots ! i)" "\<forall>e. Suc a \<le> e \<and> e < d \<longrightarrow> \<not> emp (slots ! path e)"
      by (auto simp: step)
    have "\<forall>e. a \<le> e \<and> e < d \<longrightarrow> \<not> emp (slots ! path e)"
      using d(5) False by (metis Suc_leI le_neq_implies_less)
    with d show ?thesis by (intro exI [of _ d]) auto
  qed
qed

lemma first_empty_None:
  "first_empty emp path slots os = None \<longleftrightarrow> (\<forall>d\<in>set os. \<not> emp (slots ! path d))"
  by (induction os) auto

lemmas scan_upt_Some = scan_Some [where f = id, simplified]
lemmas scan_upt_None = scan_None [where f = id, simplified]

section \<open>The table contract\<close>

locale probing =
  fixes emp :: "'s \<Rightarrow> bool"
    and holds :: "'s \<Rightarrow> 'k \<Rightarrow> bool"
    and hash :: "'k \<Rightarrow> u64w"
  assumes holds_not_emp: "holds s k \<Longrightarrow> \<not> emp s"
    and holds_unique: "holds s k \<Longrightarrow> holds s k' \<Longrightarrow> k = k'"
begin

lemma wf_path:
  assumes "probe_wf emp holds hash slots" "i < length slots" "holds (slots ! i) k"
  shows "\<exists>d<length slots. probe_index (hash k) d (length slots) = i \<and>
    (\<forall>e<d. \<not> emp (slots ! probe_index (hash k) e (length slots)))"
  using assms by (simp add: probe_wf_def)

lemma wf_unique:
  assumes "probe_wf emp holds hash slots" "i < length slots" "j < length slots"
    "holds (slots ! i) k" "holds (slots ! j) k"
  shows "i = j"
  using assms unfolding probe_wf_def by blast

text \<open>A scan for \<open>k\<close> decides whether any slot of the table holds \<open>k\<close>.\<close>

lemma scan_finds:
  assumes "table_size slots" "probe_wf emp holds hash slots"
    and hit: "\<And>s. s \<in> set slots \<Longrightarrow> hit s = holds s k"
  shows "scan emp hit (\<lambda>d. probe_index (hash k) d (length slots)) slots [0..<length slots] = Some i
    \<longleftrightarrow> i < length slots \<and> holds (slots ! i) k"
proof
  assume "scan emp hit (\<lambda>d. probe_index (hash k) d (length slots)) slots [0..<length slots] = Some i"
  then obtain d where "d < length slots" "i = probe_index (hash k) d (length slots)" "hit (slots ! i)"
    by (auto dest!: scan_upt_Some)
  with assms(1) hit show "i < length slots \<and> holds (slots ! i) k"
    by (simp add: probe_index_less)
next
  assume i: "i < length slots \<and> holds (slots ! i) k"
  let ?p = "\<lambda>d. probe_index (hash k) d (length slots)"
  from wf_path [OF assms(2)] i obtain d where d: "d < length slots" "?p d = i"
    "\<forall>e<d. \<not> emp (slots ! ?p e)" by blast
  show "scan emp hit ?p slots [0..<length slots] = Some i"
  proof (cases "scan emp hit ?p slots [0..<length slots]")
    case None
    have "\<not> hit (slots ! ?p d)"
      using scan_upt_None [OF None, of d] d i holds_not_emp by auto
    with d i hit show ?thesis by simp
  next
    case (Some j)
    then have "j < length slots \<and> holds (slots ! j) k"
      using assms(1) hit by (auto dest!: scan_upt_Some simp: probe_index_less)
    with i Some wf_unique [OF assms(2)] show ?thesis by blast
  qed
qed

lemma scan_none_iff:
  assumes "table_size slots" "probe_wf emp holds hash slots"
    and hit: "\<And>s. s \<in> set slots \<Longrightarrow> hit s = holds s k"
  shows "scan emp hit (\<lambda>d. probe_index (hash k) d (length slots)) slots [0..<length slots] = None
    \<longleftrightarrow> (\<forall>i<length slots. \<not> holds (slots ! i) k)"
  using scan_finds [OF assms] by (metis not_None_eq)

text \<open>Overwriting a slot without emptying it, by one that holds at most what it held.\<close>

lemma wf_update_shrink:
  assumes "probe_wf emp holds hash slots" "i < length slots" "\<not> emp s"
    and "\<And>k. holds s k \<Longrightarrow> holds (slots ! i) k"
  shows "probe_wf emp holds hash (slots[i := s])"
  unfolding probe_wf_def length_list_update
proof (intro conjI allI impI)
  fix j k assume j: "j < length slots" "holds (slots[i := s] ! j) k"
  then have "holds (slots ! j) k" using assms(2,4) by (cases "i = j") auto
  from wf_path [OF assms(1) j(1) this] obtain d where "d < length slots"
    "probe_index (hash k) d (length slots) = j"
    "\<forall>e<d. \<not> emp (slots ! probe_index (hash k) e (length slots))" by blast
  then show "\<exists>d<length slots. probe_index (hash k) d (length slots) = j \<and>
      (\<forall>e<d. \<not> emp (slots[i := s] ! probe_index (hash k) e (length slots)))"
    using nth_list_update_not [of emp] assms(3) by (intro exI [of _ d]) blast
next
  fix j l k assume "j < length slots" "l < length slots"
    "holds (slots[i := s] ! j) k" "holds (slots[i := s] ! l) k"
  moreover from this have "holds (slots ! j) k" "holds (slots ! l) k"
    using assms(2,4) by (auto simp: nth_list_update split: if_splits)
  ultimately show "j = l" using wf_unique [OF assms(1)] by blast
qed

text \<open>Installing an absent key at a slot that every scan for it reaches.\<close>

lemma wf_insert:
  assumes "probe_wf emp holds hash slots" "table_size slots" "d < length slots"
    and "\<forall>e<d. \<not> emp (slots ! probe_index (hash k) e (length slots))"
    and "holds s k" "\<forall>j<length slots. \<not> holds (slots ! j) k"
  shows "probe_wf emp holds hash (slots[probe_index (hash k) d (length slots) := s])"
  unfolding probe_wf_def length_list_update
proof (intro conjI allI impI)
  let ?i = "probe_index (hash k) d (length slots)"
  have i: "?i < length slots" using probe_index_less [OF assms(2,3)] .
  have ns: "\<not> emp s" using assms(5) by (rule holds_not_emp)
  fix j k' assume j: "j < length slots" "holds (slots[?i := s] ! j) k'"
  show "\<exists>d'<length slots. probe_index (hash k') d' (length slots) = j \<and>
      (\<forall>e<d'. \<not> emp (slots[?i := s] ! probe_index (hash k') e (length slots)))"
  proof (cases "j = ?i")
    case True
    with j i have "holds s k'" by simp
    then have "k' = k" using assms(5) holds_unique by blast
    with assms(3,4) True ns show ?thesis
      using nth_list_update_not [of emp] by (intro exI [of _ d]) blast
  next
    case False
    with j have "holds (slots ! j) k'" by simp
    from wf_path [OF assms(1) j(1) this] obtain d' where "d' < length slots"
      "probe_index (hash k') d' (length slots) = j"
      "\<forall>e<d'. \<not> emp (slots ! probe_index (hash k') e (length slots))" by blast
    then show ?thesis 
      using ns nth_list_update_not [of emp] by (intro exI [of _ d']) blast
  qed
next
  let ?i = "probe_index (hash k) d (length slots)"
  have i: "?i < length slots" using probe_index_less [OF assms(2,3)] .
  fix j l k' assume jl: "j < length slots" "l < length slots"
    "holds (slots[?i := s] ! j) k'" "holds (slots[?i := s] ! l) k'"
  have elsewhere: "holds (slots ! m) k'" if "m < length slots" "m \<noteq> ?i" "holds (slots[?i := s] ! m) k'" for m
    using that by simp
  have same: "k' = k" if "m = ?i" "holds (slots[?i := s] ! m) k'" for m
    using that i assms(5) holds_unique by (metis nth_list_update_eq)
  show "j = l"
    using jl elsewhere same assms(6) wf_unique [OF assms(1)] by metis
qed

lemma first_empty_table_None:
  assumes "table_size slots"
  shows "first_empty emp (\<lambda>d. probe_index h d (length slots)) slots [0..<length slots] = None
    \<longleftrightarrow> (\<forall>s\<in>set slots. \<not> emp s)"
proof -
  let ?p = "\<lambda>d. probe_index h d (length slots)"
  have "(\<forall>d<length slots. \<not> emp (slots ! ?p d)) \<longleftrightarrow> (\<forall>i<length slots. \<not> emp (slots ! i))"
    using probe_index_surj [OF assms] probe_index_less [OF assms] by metis
  then show ?thesis by (auto simp: first_empty_None all_set_conv_all_nth)
qed

text \<open>Installing an absent key at the first empty slot of its probe sequence.\<close>

lemma wf_install_first_empty:
  assumes "probe_wf emp holds hash slots" "table_size slots" "holds s k"
    and "\<forall>j<length slots. \<not> holds (slots ! j) k"
    and "first_empty emp (\<lambda>d. probe_index (hash k) d (length slots)) slots [0..<length slots] = Some i"
  shows "i < length slots" and "emp (slots ! i)" and "probe_wf emp holds hash (slots[i := s])"
proof -
  from first_empty_Some [OF assms(5)] obtain d where d: "d < length slots"
    "i = probe_index (hash k) d (length slots)" "emp (slots ! i)"
    "\<forall>e<d. \<not> emp (slots ! probe_index (hash k) e (length slots))" by auto
  show "i < length slots" using d assms(2) by (simp add: probe_index_less)
  show "emp (slots ! i)" by (rule d(3))
  show "probe_wf emp holds hash (slots[i := s])"
    unfolding d(2) by (rule wf_insert [OF assms(1,2) d(1,4) assms(3,4)])
qed

lemma wf_all_empty:
  assumes "\<And>s. s \<in> set slots \<Longrightarrow> emp s"
  shows "probe_wf emp holds hash slots"
  using assms holds_not_emp unfolding probe_wf_def by (meson nth_mem)

end

end
