(* ===== verification/Counter.thy ===== *)
theory Counter
  imports Probe
begin

text \<open>
  The keyed fleet counters of \<open>counter/src/lib.rs\<close>: a fixed table of slots, installed once per
  key by linear probing and then updated in place. A table is the list of its slots; an
  operation returns the new list beside its result, since Rust keeps writes made before an
  error. \<open>key_max\<close> is the compile-time \<open>COUNTER_KEY_MAX\<close>. Values are signed 64-bit: integers
  with the range written out.
\<close>

section \<open>Data\<close>

datatype counter_error =
    KeyEmpty
  | KeyTooLarge nat nat
  | NegativeAmount int
  | Overflow
  | StateFull nat

record counter_slot =
  cs_state :: nat
  cs_key_hash :: u64w
  cs_value :: int
  cs_key_len :: nat
  cs_key :: bytes

definition i64_range :: "int \<Rightarrow> bool" where
  "i64_range v \<longleftrightarrow> - (2 ^ 63) \<le> v \<and> v < 2 ^ 63"

definition checked_add_i64 :: "int \<Rightarrow> int \<Rightarrow> int option" where
  "checked_add_i64 a b = (if i64_range (a + b) then Some (a + b) else None)"

definition slot_empty :: "nat \<Rightarrow> counter_slot" where
  "slot_empty key_max = \<lparr>cs_state = SLOT_EMPTY, cs_key_hash = 0, cs_value = 0, cs_key_len = 0,
     cs_key = replicate key_max 0\<rparr>"

text \<open>\<open>CounterSlot::matches\<close>: the iterator zips the stored prefix with the key.\<close>

definition slot_matches :: "counter_slot \<Rightarrow> u64w \<Rightarrow> bytes \<Rightarrow> bool" where
  "slot_matches slot hash key \<longleftrightarrow>
     cs_state slot = SLOT_OCCUPIED \<and> cs_key_hash slot = hash \<and> cs_key_len slot = length key \<and>
     list_all (\<lambda>(stored, expected). stored = expected) (zip (take (length key) (cs_key slot)) key)"

text \<open>
  \<open>CounterSlot::install\<close>: every key byte is stored, those past the key as zero; the length is
  truncated to 16 bits.
\<close>

definition slot_install :: "counter_slot \<Rightarrow> u64w \<Rightarrow> bytes \<Rightarrow> int \<Rightarrow> counter_slot" where
  "slot_install slot hash key value =
     slot\<lparr>cs_key_hash := hash, cs_key_len := length key mod 2 ^ 16,
       cs_key := map (\<lambda>index. if index < length key then key ! index else 0)
                   [0..<length (cs_key slot)],
       cs_value := value, cs_state := SLOT_OCCUPIED\<rparr>"

section \<open>Table operations\<close>

text \<open>\<open>update_value\<close>: the new slot and the value after the update, or the unchanged slot.\<close>

definition update_value :: "counter_slot \<Rightarrow> int \<Rightarrow> counter_slot \<times> (counter_error + int)" where
  "update_value slot delta =
     (case checked_add_i64 (cs_value slot) delta of
        Some v \<Rightarrow> (slot\<lparr>cs_value := v\<rparr>, Inr (cs_value slot + delta))
      | None \<Rightarrow> (slot, Inl Overflow))"

definition validate_key :: "nat \<Rightarrow> bytes \<Rightarrow> counter_error + unit" where
  "validate_key key_max key =
     (if key = [] then Inl KeyEmpty
      else if length key > key_max then Inl (KeyTooLarge (length key) key_max)
      else Inr ())"

definition validate_amount :: "int \<Rightarrow> counter_error + unit" where
  "validate_amount by' = (if by' < 0 then Inl (NegativeAmount by') else Inr ())"

definition counter_hash :: "bytes \<Rightarrow> u64w" where
  "counter_hash key = fnv1a key"

text \<open>\<open>find_slot\<close>, as the index of the slot it returns.\<close>

fun find_slot_at :: "counter_slot list \<Rightarrow> u64w \<Rightarrow> bytes \<Rightarrow> nat list \<Rightarrow> nat option" where
  "find_slot_at slots hash key [] = None"
| "find_slot_at slots hash key (offset # offsets) =
     (let index = probe_index hash offset (length slots); slot = slots ! index
      in if cs_state slot = SLOT_EMPTY then None
         else if cs_state slot = SLOT_OCCUPIED \<and> slot_matches slot hash key then Some index
         else find_slot_at slots hash key offsets)"

definition find_slot :: "counter_slot list \<Rightarrow> u64w \<Rightarrow> bytes \<Rightarrow> nat option" where
  "find_slot slots hash key = find_slot_at slots hash key [0..<length slots]"

fun update_or_install_at ::
    "counter_slot list \<Rightarrow> u64w \<Rightarrow> bytes \<Rightarrow> int \<Rightarrow> nat list
      \<Rightarrow> counter_slot list \<times> (counter_error + int)" where
  "update_or_install_at slots hash key delta [] = (slots, Inl (StateFull (length slots)))"
| "update_or_install_at slots hash key delta (offset # offsets) =
     (let index = probe_index hash offset (length slots); slot = slots ! index
      in if cs_state slot = SLOT_EMPTY
         then (slots[index := slot_install slot hash key delta], Inr delta)
         else if cs_state slot = SLOT_OCCUPIED \<and> slot_matches slot hash key
         then (let (slot', r) = update_value slot delta in (slots[index := slot'], r))
         else update_or_install_at slots hash key delta offsets)"

definition update_or_install ::
    "counter_slot list \<Rightarrow> u64w \<Rightarrow> bytes \<Rightarrow> int \<Rightarrow> counter_slot list \<times> (counter_error + int)" where
  "update_or_install slots hash key delta =
     update_or_install_at slots hash key delta [0..<length slots]"

fun reset_or_install_at ::
    "counter_slot list \<Rightarrow> u64w \<Rightarrow> bytes \<Rightarrow> nat list
      \<Rightarrow> counter_slot list \<times> (counter_error + unit)" where
  "reset_or_install_at slots hash key [] = (slots, Inl (StateFull (length slots)))"
| "reset_or_install_at slots hash key (offset # offsets) =
     (let index = probe_index hash offset (length slots); slot = slots ! index
      in if cs_state slot = SLOT_EMPTY
         then (slots[index := slot_install slot hash key 0], Inr ())
         else if cs_state slot = SLOT_OCCUPIED \<and> slot_matches slot hash key
         then (slots[index := slot\<lparr>cs_value := 0\<rparr>], Inr ())
         else reset_or_install_at slots hash key offsets)"

definition reset_or_install ::
    "counter_slot list \<Rightarrow> u64w \<Rightarrow> bytes \<Rightarrow> counter_slot list \<times> (counter_error + unit)" where
  "reset_or_install slots hash key = reset_or_install_at slots hash key [0..<length slots]"

definition clear_slots :: "counter_slot list \<Rightarrow> counter_slot list" where
  "clear_slots slots = map (\<lambda>slot. slot\<lparr>cs_value := 0, cs_state := SLOT_EMPTY\<rparr>) slots"

section \<open>The counter API\<close>

text \<open>
  \<open>Counter::get\<close>, \<open>increment\<close>, \<open>decrement\<close>, \<open>reset\<close> and \<open>reset_all\<close>. Both backings run the
  same table functions; the shared-memory one first tries the lock-free \<open>find_slot\<close> path
  (\<open>update_shm\<close>, \<open>reset_shm\<close>).
\<close>

datatype backing = InMemory | Shm

definition counter_new :: "nat \<Rightarrow> nat \<Rightarrow> counter_slot list" where
  "counter_new capacity key_max = replicate capacity (slot_empty key_max)"

definition counter_get :: "nat \<Rightarrow> counter_slot list \<Rightarrow> bytes \<Rightarrow> counter_error + int option" where
  "counter_get key_max slots key =
     (case validate_key key_max key of Inl e \<Rightarrow> Inl e
      | Inr _ \<Rightarrow> Inr (map_option (\<lambda>i. cs_value (slots ! i))
                      (find_slot slots (counter_hash key) key)))"

definition counter_update ::
    "backing \<Rightarrow> nat \<Rightarrow> counter_slot list \<Rightarrow> bytes \<Rightarrow> int
      \<Rightarrow> counter_slot list \<times> (counter_error + int)" where
  "counter_update b key_max slots key delta =
     (case validate_key key_max key of Inl e \<Rightarrow> (slots, Inl e)
      | Inr _ \<Rightarrow>
          let hash = counter_hash key in
          (case b of
             InMemory \<Rightarrow> update_or_install slots hash key delta
           | Shm \<Rightarrow>
               (case find_slot slots hash key of
                  Some i \<Rightarrow> (let (slot', r) = update_value (slots ! i) delta
                             in (slots[i := slot'], r))
                | None \<Rightarrow> update_or_install slots hash key delta)))"

definition counter_increment ::
    "backing \<Rightarrow> nat \<Rightarrow> counter_slot list \<Rightarrow> bytes \<Rightarrow> int
      \<Rightarrow> counter_slot list \<times> (counter_error + int)" where
  "counter_increment b key_max slots key by' =
     (case validate_amount by' of Inl e \<Rightarrow> (slots, Inl e)
      | Inr _ \<Rightarrow> counter_update b key_max slots key by')"

definition counter_decrement ::
    "backing \<Rightarrow> nat \<Rightarrow> counter_slot list \<Rightarrow> bytes \<Rightarrow> int
      \<Rightarrow> counter_slot list \<times> (counter_error + int)" where
  "counter_decrement b key_max slots key by' =
     (case validate_amount by' of Inl e \<Rightarrow> (slots, Inl e)
      | Inr _ \<Rightarrow> counter_update b key_max slots key (- by'))"

definition counter_reset ::
    "backing \<Rightarrow> nat \<Rightarrow> counter_slot list \<Rightarrow> bytes \<Rightarrow> counter_slot list \<times> (counter_error + unit)" where
  "counter_reset b key_max slots key =
     (case validate_key key_max key of Inl e \<Rightarrow> (slots, Inl e)
      | Inr _ \<Rightarrow>
          let hash = counter_hash key in
          (case b of
             InMemory \<Rightarrow> reset_or_install slots hash key
           | Shm \<Rightarrow>
               (case find_slot slots hash key of
                  Some i \<Rightarrow> (slots[i := (slots ! i)\<lparr>cs_value := 0\<rparr>], Inr ())
                | None \<Rightarrow> reset_or_install slots hash key)))"

definition counter_reset_all :: "counter_slot list \<Rightarrow> counter_slot list" where
  "counter_reset_all slots = clear_slots slots"

text \<open>
  A schedule of updates by any number of processes: each call is one atomic step, in the order
  the updates commit.
\<close>

fun counter_run ::
    "backing \<Rightarrow> nat \<Rightarrow> counter_slot list \<Rightarrow> (bytes \<times> int) list
      \<Rightarrow> counter_slot list \<times> (counter_error + int) list" where
  "counter_run b key_max slots [] = (slots, [])"
| "counter_run b key_max slots ((key, delta) # ops) =
     (let (slots', r) = counter_update b key_max slots key delta;
          (slots'', rs) = counter_run b key_max slots' ops
      in (slots'', r # rs))"

section \<open>Invariant and abstraction\<close>

definition counter_emp :: "counter_slot \<Rightarrow> bool" where
  "counter_emp slot \<longleftrightarrow> cs_state slot = SLOT_EMPTY"

definition counter_holds :: "counter_slot \<Rightarrow> bytes \<Rightarrow> bool" where
  "counter_holds slot key \<longleftrightarrow>
     length key \<le> length (cs_key slot) \<and> slot_matches slot (counter_hash key) key"

text \<open>A slot is well formed when its buffer has the compiled size and its fields are in range.\<close>

definition counter_slot_ok :: "nat \<Rightarrow> counter_slot \<Rightarrow> bool" where
  "counter_slot_ok key_max slot \<longleftrightarrow>
     length (cs_key slot) = key_max \<and> i64_range (cs_value slot) \<and>
     cs_state slot \<in> {SLOT_EMPTY, SLOT_OCCUPIED}"

definition counter_ok :: "nat \<Rightarrow> counter_slot list \<Rightarrow> bool" where
  "counter_ok key_max slots \<longleftrightarrow>
     table_size slots \<and> key_max \<le> u16_max \<and> list_all (counter_slot_ok key_max) slots \<and>
     probe_wf counter_emp counter_holds counter_hash slots"

text \<open>The contract: the finite map from keys to values that \<open>get\<close> shows.\<close>

definition counter_map :: "nat \<Rightarrow> counter_slot list \<Rightarrow> bytes \<Rightarrow> int option" where
  "counter_map key_max slots key =
     (case counter_get key_max slots key of Inl _ \<Rightarrow> None | Inr v \<Rightarrow> v)"

section \<open>Lemmas\<close>

lemma zip_all_eq: "length xs = length ys \<Longrightarrow> list_all (\<lambda>(a, b). a = b) (zip xs ys) \<longleftrightarrow> xs = ys"
  by (induction xs ys rule: list_induct2) auto

lemma slot_matches_eq:
  assumes "length key \<le> length (cs_key slot)"
  shows "slot_matches slot hash key \<longleftrightarrow>
    cs_state slot = SLOT_OCCUPIED \<and> cs_key_hash slot = hash \<and> cs_key_len slot = length key \<and>
    take (length key) (cs_key slot) = key"
  using assms by (simp add: slot_matches_def zip_all_eq)

interpretation ct: probing counter_emp counter_holds counter_hash
proof unfold_locales
  fix s k assume "counter_holds s k"
  then show "\<not> counter_emp s"
    by (simp add: counter_holds_def counter_emp_def slot_matches_def)
next
  fix s k k' assume "counter_holds s k" "counter_holds s k'"
  then show "k = k'" by (metis counter_holds_def slot_matches_eq)
qed

lemma find_slot_scan:
  "find_slot_at slots hash key os =
     scan counter_emp (\<lambda>s. slot_matches s hash key) (\<lambda>d. probe_index hash d (length slots)) slots os"
  by (induction os) (auto simp: counter_emp_def slot_matches_def Let_def)

lemma update_or_install_at_eq:
  "update_or_install_at slots hash key delta os =
     (case find_slot_at slots hash key os of
        Some i \<Rightarrow> (slots[i := fst (update_value (slots ! i) delta)], snd (update_value (slots ! i) delta))
      | None \<Rightarrow> (case first_empty counter_emp (\<lambda>d. probe_index hash d (length slots)) slots os of
          Some i \<Rightarrow> (slots[i := slot_install (slots ! i) hash key delta], Inr delta)
        | None \<Rightarrow> (slots, Inl (StateFull (length slots)))))"
  by (induction os) (auto simp: Let_def counter_emp_def split: prod.split option.split)

lemma reset_or_install_at_eq:
  "reset_or_install_at slots hash key os =
     (case find_slot_at slots hash key os of
        Some i \<Rightarrow> (slots[i := (slots ! i)\<lparr>cs_value := 0\<rparr>], Inr ())
      | None \<Rightarrow> (case first_empty counter_emp (\<lambda>d. probe_index hash d (length slots)) slots os of
          Some i \<Rightarrow> (slots[i := slot_install (slots ! i) hash key 0], Inr ())
        | None \<Rightarrow> (slots, Inl (StateFull (length slots)))))"
  by (induction os) (auto simp: Let_def counter_emp_def split: option.split)

lemma counter_okD:
  assumes "counter_ok key_max slots"
  shows "table_size slots" "key_max \<le> u16_max"
    "\<And>s. s \<in> set slots \<Longrightarrow> counter_slot_ok key_max s"
    "probe_wf counter_emp counter_holds counter_hash slots"
  using assms by (auto simp: counter_ok_def list_all_iff)

lemma validate_key_Inr: "validate_key key_max key = Inr u \<longleftrightarrow> key \<noteq> [] \<and> length key \<le> key_max"
  by (auto simp: validate_key_def)

lemma find_slot_iff:
  assumes "counter_ok key_max slots" "length key \<le> key_max"
  shows "find_slot slots (counter_hash key) key = Some i \<longleftrightarrow>
    i < length slots \<and> counter_holds (slots ! i) key"
  unfolding find_slot_def find_slot_scan
  using assms(2) counter_okD [OF assms(1)]
  by (intro ct.scan_finds) (auto simp: counter_holds_def counter_slot_ok_def)

lemma counter_map_iff:
  assumes "counter_ok key_max slots"
  shows "counter_map key_max slots key = Some v \<longleftrightarrow> key \<noteq> [] \<and> length key \<le> key_max \<and>
    (\<exists>i<length slots. counter_holds (slots ! i) key \<and> cs_value (slots ! i) = v)"
  using find_slot_iff [OF assms]
  by (auto simp: counter_map_def counter_get_def validate_key_def)

text \<open>Writing a slot for \<open>key\<close> over one that held at most \<open>key\<close> is a map update.\<close>

lemma counter_map_write:
  assumes "counter_ok km slots" "counter_ok km (slots[i := s])" "i < length slots"
    and "counter_holds s key" "key \<noteq> []" "length key \<le> km"
    and old: "\<And>k. counter_holds (slots ! i) k \<Longrightarrow> k = key"
    and else: "\<And>j. j < length slots \<Longrightarrow> j \<noteq> i \<Longrightarrow> \<not> counter_holds (slots ! j) key"
  shows "counter_map km (slots[i := s]) = (counter_map km slots)(key \<mapsto> cs_value s)"
proof (rule map_eqI)
  fix k v
  show "counter_map km (slots[i := s]) k = Some v \<longleftrightarrow>
    ((counter_map km slots)(key \<mapsto> cs_value s)) k = Some v"
  proof (cases "k = key")
    case True
    then show ?thesis
      using assms by (auto simp: counter_map_iff nth_list_update)
  next
    case False
    then have "\<not> counter_holds s k" using ct.holds_unique assms(4) by blast
    with False show ?thesis
      using assms(3) old by (fastforce simp: counter_map_iff [OF assms(1)] counter_map_iff [OF assms(2)] nth_list_update)
  qed
qed

lemma counter_write_ok:
  assumes "counter_ok km slots" "counter_slot_ok km s"
    and "probe_wf counter_emp counter_holds counter_hash (slots[i := s])"
  shows "counter_ok km (slots[i := s])"
proof -
  have "set (slots[i := s]) \<subseteq> insert s (set slots)" by (rule set_update_subset_insert)
  with assms show ?thesis by (auto simp: counter_ok_def table_size_def list_all_iff)
qed

lemma set_value:
  assumes "counter_ok km slots" "i < length slots" "counter_holds (slots ! i) key"
    and "key \<noteq> []" "length key \<le> km" "i64_range v"
  shows "counter_ok km (slots[i := (slots ! i)\<lparr>cs_value := v\<rparr>])" (is "counter_ok km ?t")
    and "counter_map km (slots[i := (slots ! i)\<lparr>cs_value := v\<rparr>]) = (counter_map km slots)(key \<mapsto> v)"
proof -
  let ?s = "(slots ! i)\<lparr>cs_value := v\<rparr>"
  note wf = counter_okD(4) [OF assms(1)]
  have holds: "counter_holds ?s k = counter_holds (slots ! i) k" for k
    by (simp add: counter_holds_def slot_matches_def)
  have "probe_wf counter_emp counter_holds counter_hash ?t"
    using holds assms(3) ct.holds_not_emp by (intro ct.wf_update_shrink [OF wf assms(2)]) (auto simp: counter_emp_def)
  moreover have "counter_slot_ok km ?s"
    using counter_okD(3) [OF assms(1)] assms(2,6) by (simp add: counter_slot_ok_def)
  ultimately show ok: "counter_ok km ?t" by (intro counter_write_ok [OF assms(1)])
  show "counter_map km ?t = (counter_map km slots)(key \<mapsto> v)"
    using counter_map_write [OF assms(1) ok assms(2), of key] holds assms ct.holds_unique ct.wf_unique [OF wf]
    by fastforce
qed

lemma slot_install_holds:
  assumes "length key \<le> length (cs_key slot)" "length key \<le> u16_max"
  shows "counter_holds (slot_install slot (counter_hash key) key v) key"
proof -
  let ?n = "length (cs_key slot)"
  have "take (length key) (map (\<lambda>j. if j < length key then key ! j else 0) [0..<?n]) = key"
    using assms(1) by (intro nth_equalityI) auto
  moreover have "length key mod 2 ^ 16 = length key" using assms(2) by (simp add: u16_max_def)
  ultimately show ?thesis
    using assms(1) by (simp add: counter_holds_def slot_matches_eq slot_install_def)
qed

lemma install_key:
  assumes "counter_ok km slots" "key \<noteq> []" "length key \<le> km" "i64_range v"
    and absent: "\<forall>j<length slots. \<not> counter_holds (slots ! j) key"
    and i: "first_empty counter_emp (\<lambda>d. probe_index (counter_hash key) d (length slots)) slots
         [0..<length slots] = Some i"
  shows "counter_ok km (slots[i := slot_install (slots ! i) (counter_hash key) key v])" (is "counter_ok km ?t")
    and "counter_map km (slots[i := slot_install (slots ! i) (counter_hash key) key v])
      = (counter_map km slots)(key \<mapsto> v)"
proof -
  let ?s = "slot_install (slots ! i) (counter_hash key) key v"
  note okD = counter_okD [OF assms(1)]
  have len: "length key \<le> length (cs_key (slots ! i))" if "i < length slots"
    using okD(3) that assms(3) by (simp add: counter_slot_ok_def)
  have il: "i < length slots" using first_empty_Some [OF i] probe_index_less [OF okD(1)] by auto
  have holds: "counter_holds ?s key"
    using slot_install_holds len [OF il] okD(2) assms(3) by simp
  note ins = ct.wf_install_first_empty [OF okD(4,1) holds absent i]
  have "counter_slot_ok km ?s"
    using okD(3) il assms(4) by (simp add: counter_slot_ok_def slot_install_def)
  then show ok: "counter_ok km ?t" using ins(3) by (intro counter_write_ok [OF assms(1)])
  have "cs_value ?s = v" by (simp add: slot_install_def)
  moreover have "\<not> counter_holds (slots ! i) k" for k using ins(2) ct.holds_not_emp by blast
  ultimately show "counter_map km ?t = (counter_map km slots)(key \<mapsto> v)"
    using counter_map_write [OF assms(1) ok il holds assms(2,3)] absent by simp
qed

section \<open>The counters implement a bounded map\<close>

text \<open>
  The abstract operation behind \<open>increment\<close>, \<open>decrement\<close> and \<open>reset\<close>: add to the key's value,
  a missing key counting as absent, refusing what leaves the signed range and refusing a new
  key when \<open>full\<close>.
\<close>

definition spec_update ::
    "bool \<Rightarrow> nat \<Rightarrow> (bytes \<Rightarrow> int option) \<Rightarrow> bytes \<Rightarrow> int
      \<Rightarrow> (bytes \<Rightarrow> int option) \<times> (counter_error + int)" where
  "spec_update full n m key delta =
     (case m key of
        Some v \<Rightarrow> if i64_range (v + delta) then (m(key \<mapsto> v + delta), Inr (v + delta)) else (m, Inl Overflow)
      | None \<Rightarrow> if full then (m, Inl (StateFull n)) else (m(key \<mapsto> delta), Inr delta))"

definition counter_full :: "counter_slot list \<Rightarrow> bool" where
  "counter_full slots \<longleftrightarrow> list_all (\<lambda>s. cs_state s \<noteq> SLOT_EMPTY) slots"

lemma first_empty_full:
  assumes "counter_ok km slots"
  shows "first_empty counter_emp (\<lambda>d. probe_index h d (length slots)) slots [0..<length slots] = None
    \<longleftrightarrow> counter_full slots"
  using ct.first_empty_table_None [OF counter_okD(1) [OF assms]]
  by (simp add: counter_full_def list_all_iff counter_emp_def)

lemma absent_iff:
  assumes "counter_ok km slots" "key \<noteq> []" "length key \<le> km"
  shows "counter_map km slots key = None \<longleftrightarrow> (\<forall>j<length slots. \<not> counter_holds (slots ! j) key)"
  using counter_map_iff [OF assms(1), of key] assms(2,3) by (metis not_None_eq)

lemma find_slot_absent:
  assumes "counter_ok km slots" "length key \<le> km"
  shows "find_slot slots (counter_hash key) key = None \<longleftrightarrow> (\<forall>j<length slots. \<not> counter_holds (slots ! j) key)"
  using find_slot_iff [OF assms] by (metis not_None_eq)

lemma update_or_install_refines:
  assumes "counter_ok km slots" "key \<noteq> []" "length key \<le> km" "i64_range delta"
  defines "r \<equiv> update_or_install slots (counter_hash key) key delta"
  shows "counter_ok km (fst r) \<and> (counter_map km (fst r), snd r) =
    spec_update (counter_full slots) (length slots) (counter_map km slots) key delta"
proof (cases "find_slot slots (counter_hash key) key")
  case (Some i)
  then have i: "i < length slots" "counter_holds (slots ! i) key"
    using find_slot_iff [OF assms(1,3)] by auto
  let ?v = "cs_value (slots ! i)"
  have m: "counter_map km slots key = Some ?v"
    using i assms(2,3) by (auto simp: counter_map_iff [OF assms(1)])
  show ?thesis
  proof (cases "i64_range (?v + delta)")
    case True
    then show ?thesis
      using set_value [OF assms(1) i assms(2,3) True] Some m
      by (simp add: r_def update_or_install_def update_or_install_at_eq find_slot_def
          update_value_def checked_add_i64_def spec_update_def)
  next
    case False
    then show ?thesis
      using assms(1) Some m i(1)
      by (simp add: r_def update_or_install_def update_or_install_at_eq find_slot_def
          update_value_def checked_add_i64_def spec_update_def)
  qed
next
  case None
  then have absent: "\<forall>j<length slots. \<not> counter_holds (slots ! j) key"
    using find_slot_absent [OF assms(1,3)] by simp
  then have m: "counter_map km slots key = None" using absent_iff [OF assms(1-3)] by simp
  show ?thesis
    using install_key [OF assms(1-4) absent] first_empty_full [OF assms(1)] None m assms(1)
    by (auto simp: r_def update_or_install_def update_or_install_at_eq find_slot_def
          spec_update_def split: option.split)
qed

lemma shm_path_same:
  assumes "counter_ok km slots" "length key \<le> km"
  shows "counter_update b km slots key delta = counter_update InMemory km slots key delta"
  by (cases b) (auto simp: counter_update_def update_or_install_def update_or_install_at_eq
      find_slot_def [symmetric] Let_def split: option.split sum.split prod.split)

lemma update_is_update_or_install:
  assumes "counter_ok km slots" "key \<noteq> []" "length key \<le> km"
  shows "counter_update b km slots key delta = update_or_install slots (counter_hash key) key delta"
proof -
  have "counter_update InMemory km slots key delta = update_or_install slots (counter_hash key) key delta"
    using assms(2,3) by (simp add: counter_update_def validate_key_def)
  with shm_path_same [OF assms(1,3)] show ?thesis by (rule trans)
qed

lemma counter_new_ok:
  assumes "is_power_of_two capacity" "capacity \<le> 2 ^ 63" "km \<le> u16_max"
  shows "counter_ok km (counter_new capacity km)"
  using assms ct.wf_all_empty [of "counter_new capacity km"]
  by (auto simp: counter_ok_def counter_new_def table_size_def list_all_iff slot_empty_def
      counter_slot_ok_def i64_range_def counter_emp_def)

lemma counter_new_map:
  assumes "is_power_of_two capacity" "capacity \<le> 2 ^ 63" "km \<le> u16_max"
  shows "counter_map km (counter_new capacity km) = Map.empty"
proof (rule map_eqI)
  fix k v
  show "counter_map km (counter_new capacity km) k = Some v \<longleftrightarrow> Map.empty k = Some v"
    unfolding counter_map_iff [OF counter_new_ok [OF assms]]
    by (auto simp: counter_new_def slot_empty_def counter_holds_def slot_matches_def)
qed

lemma counter_new_not_full: "0 < capacity \<Longrightarrow> \<not> counter_full (counter_new capacity km)"
  by (cases capacity) (auto simp: counter_full_def counter_new_def slot_empty_def)

lemma reset_refines:
  assumes "counter_ok km slots" "key \<noteq> []" "length key \<le> km"
    and "counter_reset b km slots key = (slots', r)"
  shows "counter_ok km slots' \<and>
    (if counter_map km slots key = None \<and> counter_full slots
     then slots' = slots \<and> r = Inl (StateFull (length slots))
     else counter_map km slots' = (counter_map km slots)(key \<mapsto> 0) \<and> r = Inr ())"
proof (cases "find_slot slots (counter_hash key) key")
  case (Some i)
  then have i: "i < length slots" "counter_holds (slots ! i) key"
    using find_slot_iff [OF assms(1,3)] by auto
  have "slots' = slots[i := (slots ! i)\<lparr>cs_value := 0\<rparr>]" "r = Inr ()"
    using assms(2-4) Some
    by (auto simp: counter_reset_def validate_key_def reset_or_install_def reset_or_install_at_eq
        find_slot_def Let_def split: backing.splits)
  moreover have "counter_map km slots key \<noteq> None" using i absent_iff [OF assms(1-3)] by blast
  ultimately show ?thesis
    using set_value [OF assms(1) i assms(2,3), of 0] by (simp add: i64_range_def)
next
  case None
  then have absent: "\<forall>j<length slots. \<not> counter_holds (slots ! j) key"
    using find_slot_absent [OF assms(1,3)] by simp
  then have m: "counter_map km slots key = None" using absent_iff [OF assms(1-3)] by simp
  have "(slots', r) = reset_or_install slots (counter_hash key) key"
    using assms(2-4) None by (auto simp: counter_reset_def validate_key_def Let_def split: backing.splits)
  then show ?thesis
    using install_key [OF assms(1-3) _ absent, of 0] first_empty_full [OF assms(1)] None m assms(1)
    by (auto simp: reset_or_install_def reset_or_install_at_eq find_slot_def i64_range_def
        split: option.splits)
qed

lemma reset_all_ok:
  assumes "counter_ok km slots"
  shows "counter_ok km (counter_reset_all slots)" and "counter_map km (counter_reset_all slots) = Map.empty"
proof -
  have "probe_wf counter_emp counter_holds counter_hash (counter_reset_all slots)"
    by (rule ct.wf_all_empty) (auto simp: counter_reset_all_def clear_slots_def counter_emp_def)
  then show ok: "counter_ok km (counter_reset_all slots)"
    using assms by (auto simp: counter_ok_def counter_reset_all_def clear_slots_def table_size_def
        list_all_iff counter_slot_ok_def i64_range_def)
  show "counter_map km (counter_reset_all slots) = Map.empty"
  proof (rule map_eqI)
    fix k v
    show "counter_map km (counter_reset_all slots) k = Some v \<longleftrightarrow> Map.empty k = Some v"
      unfolding counter_map_iff [OF ok]
      by (auto simp: counter_reset_all_def clear_slots_def counter_holds_def slot_matches_def)
  qed
qed

text \<open>
  C28: \<open>increment\<close> and \<open>decrement\<close> (through \<open>update\<close>), on either backing, implement the bounded
  map: a valid key's value moves by the signed amount and is returned, a missing key starts at
  the amount, an update that leaves the signed 64-bit range is refused without a write, a new
  key in a full table is refused without a write, and the table invariant is kept.
\<close>

theorem counter_update_refines:
  assumes "counter_ok km slots" "key \<noteq> []" "length key \<le> km" "i64_range delta"
    and "counter_update b km slots key delta = (slots', r)"
  shows "counter_ok km slots' \<and>
    (counter_map km slots', r) = spec_update (counter_full slots) (length slots) (counter_map km slots) key delta"
  using assms(5) update_or_install_refines [OF assms(1-4)] update_is_update_or_install [OF assms(1-3)]
  by simp

theorem counter_update_refines_witness:
  "counter_map 4 (fst (counter_update Shm 4 (counter_new 2 4) [1] 5)) [1] = Some 5 \<and>
   snd (counter_update Shm 4 (counter_new 2 4) [1] 5) = Inr 5"
proof -
  have p: "is_power_of_two 2" by (auto simp: is_power_of_two_iff intro: exI [of _ 1])
  note ok = counter_new_ok [OF p, of 4, simplified u16_max_def, simplified]
  have m: "counter_map 4 (counter_new 2 4) = Map.empty"
    using counter_new_map [OF p, of 4] by (simp add: u16_max_def)
  obtain s r where u: "counter_update Shm 4 (counter_new 2 4) [1] 5 = (s, r)" by fastforce
  have "counter_ok 4 s \<and> (counter_map 4 s, r) =
      spec_update (counter_full (counter_new 2 4)) (length (counter_new 2 4)) (counter_map 4 (counter_new 2 4)) [1] 5"
    by (rule counter_update_refines [OF ok _ _ _ u]) (simp_all add: i64_range_def)
  with u counter_new_not_full [of 2 4] show ?thesis by (simp add: spec_update_def m)
qed

text \<open>
  \<open>reset\<close> on either backing sets exactly the given key to zero, installing it when missing;
  only a missing key in a full table is refused, and then nothing is written.
\<close>

lemma counter_reset_refines:
  assumes "counter_ok km slots" "key \<noteq> []" "length key \<le> km"
    and "counter_reset b km slots key = (slots', r)"
  shows "counter_ok km slots' \<and>
    (if counter_map km slots key = None \<and> counter_full slots
     then slots' = slots \<and> r = Inl (StateFull (length slots))
     else counter_map km slots' = (counter_map km slots)(key \<mapsto> 0) \<and> r = Inr ())"
  using assms by (rule reset_refines)

definition value_of :: "int option \<Rightarrow> int" where
  "value_of r = (case r of None \<Rightarrow> 0 | Some v \<Rightarrow> v)"

fun accepted_sum :: "bytes \<Rightarrow> (bytes \<times> int) list \<Rightarrow> (counter_error + int) list \<Rightarrow> int" where
  "accepted_sum key ((k, d) # ops) (r # rs) =
     (if k = key \<and> (case r of Inl _ \<Rightarrow> False | Inr _ \<Rightarrow> True) then d else 0) + accepted_sum key ops rs"
| "accepted_sum key _ _ = 0"

lemma update_step_value:
  assumes "counter_ok km slots" "k \<noteq> []" "length k \<le> km" "i64_range d"
    and "counter_update b km slots k d = (slots', r)"
  shows "counter_ok km slots' \<and> value_of (counter_map km slots' key) =
    value_of (counter_map km slots key)
      + (if k = key \<and> (case r of Inl _ \<Rightarrow> False | Inr _ \<Rightarrow> True) then d else 0)"
proof -
  from assms(5) update_or_install_refines [OF assms(1-4)] update_is_update_or_install [OF assms(1-3)]
  have "counter_ok km slots'" and
    "(counter_map km slots', r) = spec_update (counter_full slots) (length slots) (counter_map km slots) k d"
    by simp_all
  then show ?thesis
    by (auto simp: spec_update_def value_of_def split: option.splits if_splits)
qed

text \<open>
  No update is lost or counted twice under any interleaving: after any schedule of updates
  by any number of processes, every key's value is its value before plus the amounts of exactly
  the updates that were accepted for that key.
\<close>

lemma counter_run_sum:
  assumes "counter_ok km slots" "\<forall>(k, d)\<in>set ops. k \<noteq> [] \<and> length k \<le> km \<and> i64_range d"
    and "counter_run b km slots ops = (slots', rs)"
  shows "counter_ok km slots' \<and>
    value_of (counter_map km slots' key) = value_of (counter_map km slots key) + accepted_sum key ops rs"
  using assms
proof (induction ops arbitrary: slots slots' rs)
  case Nil
  then show ?case by simp
next
  case (Cons op ops)
  obtain k d where op: "op = (k, d)" by fastforce
  obtain s1 r where u: "counter_update b km slots k d = (s1, r)" by fastforce
  obtain s2 rs' where rest: "counter_run b km s1 ops = (s2, rs')" by fastforce
  from Cons.prems u rest have eqs: "slots' = s2" "rs = r # rs'" by (simp_all add: op)
  from Cons.prems(2) have "k \<noteq> []" "length k \<le> km" "i64_range d" by (auto simp: op)
  from update_step_value [OF Cons.prems(1) this u]
  have st: "counter_ok km s1" "value_of (counter_map km s1 key) = value_of (counter_map km slots key)
      + (if k = key \<and> (case r of Inl _ \<Rightarrow> False | Inr _ \<Rightarrow> True) then d else 0)" by auto
  have "counter_ok km s2 \<and> value_of (counter_map km s2 key) =
      value_of (counter_map km s1 key) + accepted_sum key ops rs'"
    by (rule Cons.IH [OF st(1) _ rest]) (use Cons.prems(2) in auto)
  with st(2) show ?case by (simp add: op eqs)
qed

text \<open>
  Every rejected call leaves the table untouched and names its cause: a negative amount, an
  empty key and an oversized key are refused before the table is read, in that order.
\<close>

lemma counter_rejects:
  "(by' < 0 \<longrightarrow> counter_increment b km slots key by' = (slots, Inl (NegativeAmount by')) \<and>
      counter_decrement b km slots key by' = (slots, Inl (NegativeAmount by'))) \<and>
   (by' \<ge> 0 \<and> key = [] \<longrightarrow> counter_increment b km slots key by' = (slots, Inl KeyEmpty) \<and>
      counter_decrement b km slots key by' = (slots, Inl KeyEmpty)) \<and>
   (by' \<ge> 0 \<and> length key > km \<longrightarrow>
      counter_increment b km slots key by' = (slots, Inl (if key = [] then KeyEmpty else KeyTooLarge (length key) km)) \<and>
      counter_decrement b km slots key by' = (slots, Inl (if key = [] then KeyEmpty else KeyTooLarge (length key) km)))"
  by (auto simp: counter_increment_def counter_decrement_def validate_amount_def counter_update_def
      validate_key_def)

end
