(* ===== verification/Core_Misc.thy ===== *)
theory Core_Misc
  imports Prelude
begin

text \<open>
  Two leaf modules of the core: the epoch carried in \<open>Frame::ver\<close> (\<open>core/src/epoch.rs\<close>) and the
  compile-time geometry parser (\<open>core/src/compile.rs\<close>). Durations are milliseconds.
\<close>

section \<open>Epochs\<close>

type_synonym orbit_epoch = nat

text \<open>\<open>since\<close> is the time elapsed since the Unix epoch, or \<open>None\<close> before it.\<close>

definition epoch_from_system_time :: "nat option \<Rightarrow> orbit_epoch" where
  "epoch_from_system_time since = min (case since of Some ms \<Rightarrow> ms | None \<Rightarrow> 0) u64_max"

definition epoch_age_at :: "orbit_epoch \<Rightarrow> orbit_epoch \<Rightarrow> nat" where
  "epoch_age_at self now = saturating_sub now self"

definition epoch_is_fresh_at :: "orbit_epoch \<Rightarrow> orbit_epoch \<Rightarrow> nat \<Rightarrow> bool" where
  "epoch_is_fresh_at self now max_age \<longleftrightarrow> epoch_age_at self now \<le> max_age"

section \<open>Compile-time geometry\<close>

text \<open>\<open>None\<close> is the failed constant evaluation that stops the build.\<close>

definition SEP :: byte where "SEP = 95"

definition is_digit :: "byte \<Rightarrow> bool" where
  "is_digit b \<longleftrightarrow> 48 \<le> unat b \<and> unat b \<le> 57"

fun env_walk :: "nat \<Rightarrow> bool \<Rightarrow> bool \<Rightarrow> bytes \<Rightarrow> nat option" where
  "env_walk parsed saw_digit previous_was_separator [] = (if previous_was_separator then None else Some parsed)"
| "env_walk parsed saw_digit previous_was_separator (b # bs) =
     (if b = SEP
      then if saw_digit \<and> \<not> previous_was_separator \<and> bs \<noteq> [] then env_walk parsed saw_digit True bs else None
      else if \<not> is_digit b then None
      else let digit = unat b - 48
           in if parsed \<le> (u64_max - digit) div 10 then env_walk (parsed * 10 + digit) True False bs else None)"

definition usize_from_env :: "bytes option \<Rightarrow> nat \<Rightarrow> nat option" where
  "usize_from_env val dflt =
     (case val of
        None \<Rightarrow> Some dflt
      | Some bytes \<Rightarrow> if bytes = [] then None else env_walk 0 False False bytes)"

definition decimal :: "nat \<Rightarrow> bytes \<Rightarrow> nat" where
  "decimal n bs = fold (\<lambda>b acc. acc * 10 + (unat b - 48)) bs n"

lemma digit_fits:
  assumes "d \<le> 9"
  shows "parsed \<le> (u64_max - d) div 10 \<longleftrightarrow> parsed * 10 + d \<le> u64_max"
proof -
  have "d \<le> u64_max" using assms by (simp add: u64_max_def)
  then show ?thesis by (simp add: less_eq_div_iff_mult_less_eq) linarith
qed

lemma env_walk_sound:
  "env_walk parsed saw prev bs = Some n \<Longrightarrow> parsed \<le> u64_max \<Longrightarrow>
     n = decimal parsed (filter (\<lambda>b. b \<noteq> SEP) bs) \<and> n \<le> u64_max \<and> (\<forall>b\<in>set bs. b = SEP \<or> is_digit b)"
proof (induction parsed saw prev bs rule: env_walk.induct)
  case (1 parsed saw prev)
  then show ?case by (simp add: decimal_def split: if_splits)
next
  case (2 parsed saw prev b bs)
  show ?case
  proof (cases "b = SEP")
    case True
    with 2 show ?thesis by (auto split: if_splits)
  next
    case False
    let ?d = "unat b - 48"
    from False 2(3) have dg: "is_digit b" "parsed \<le> (u64_max - ?d) div 10" "env_walk (parsed * 10 + ?d) True False bs = Some n"
      by (auto simp: Let_def split: if_splits)
    have "?d \<le> 9" using dg(1) by (auto simp: is_digit_def)
    from digit_fits [OF this] dg(2) have "parsed * 10 + ?d \<le> u64_max" by simp
    with 2(2) [OF False _ refl dg(2,3)] dg(1) False show ?thesis by (simp add: decimal_def)
  qed
qed

lemma decimal_mono: "n \<le> decimal n bs"
proof (induction bs arbitrary: n)
  case (Cons b bs)
  from Cons [of "n * 10 + (unat b - 48)"] show ?case by (simp add: decimal_def)
qed (simp add: decimal_def)

lemma env_walk_complete:
  assumes "\<forall>b\<in>set bs. is_digit b" "decimal parsed bs \<le> u64_max"
  shows "env_walk parsed saw False bs = Some (decimal parsed bs)"
  using assms
proof (induction bs arbitrary: parsed saw)
  case Nil
  then show ?case by (simp add: decimal_def)
next
  case (Cons b bs)
  let ?d = "unat b - 48"
  have d: "is_digit b" "?d \<le> 9" "b \<noteq> SEP" using Cons.prems(1) by (auto simp: is_digit_def SEP_def)
  have dec: "decimal parsed (b # bs) = decimal (parsed * 10 + ?d) bs" by (simp add: decimal_def)
  have "parsed * 10 + ?d \<le> u64_max" using decimal_mono [of "parsed * 10 + ?d" bs] Cons.prems(2) dec by simp
  with digit_fits [OF d(2)] have "parsed \<le> (u64_max - ?d) div 10" by simp
  with d Cons.IH [of "parsed * 10 + ?d" True] Cons.prems dec show ?case by (simp add: Let_def)
qed

text \<open>
  The geometry parser computes decimal values. Whatever it accepts consists of digits and
  separators and equals the decimal value of the digits, which fits 64 bits; and every non-empty string
  of digits whose value fits is accepted with that value.
\<close>

lemma usize_from_env_decimal:
  assumes "bytes \<noteq> []"
  shows "(usize_from_env (Some bytes) dflt = Some n \<longrightarrow>
      n = decimal 0 (filter (\<lambda>b. b \<noteq> SEP) bytes) \<and> n \<le> u64_max \<and> (\<forall>b\<in>set bytes. b = SEP \<or> is_digit b)) \<and>
    ((\<forall>b\<in>set bytes. is_digit b) \<and> decimal 0 bytes \<le> u64_max \<longrightarrow>
      usize_from_env (Some bytes) dflt = Some (decimal 0 bytes))"
  using env_walk_sound [of 0 False False bytes n] env_walk_complete [of bytes 0 False] assms
  by (simp add: usize_from_env_def)

end
