(* ===== verification/Net_Id.thy ===== *)
theory Net_Id
  imports Prelude
begin

text \<open>
  \<open>NetId64\<close> comes from the external crate \<open>netid64\<close> (re-exported by \<open>core/src/lib.rs\<close>): a
  64-bit identity packing a kind byte, a 16-bit node and a counter. Its packing is a parameter
  of the model: an id is its raw 64-bit value and \<open>netid_ops\<close> carries the constructor and the
  three accessors. \<open>netid_laws\<close> is what the callers rely on: the accessors return what \<open>make\<close>
  was given, for counters of at most 40 bits (\<open>LOCK_COUNTER_MAX\<close> in \<open>lock/src/state.rs\<close>).
  \<open>packed_netid\<close> is an instance that satisfies the laws.
\<close>

record netid_ops =
  nid_make :: "nat \<Rightarrow> nat \<Rightarrow> nat \<Rightarrow> nat"
  nid_kind :: "nat \<Rightarrow> nat"
  nid_node :: "nat \<Rightarrow> nat"
  nid_counter :: "nat \<Rightarrow> nat"

definition NETID_COUNTER_MAX :: nat where "NETID_COUNTER_MAX = 0xffffffffff"

definition netid_laws :: "netid_ops \<Rightarrow> bool" where
  "netid_laws ops \<longleftrightarrow>
     (\<forall>k n c. k \<le> u8_max \<longrightarrow> n \<le> u16_max \<longrightarrow> c \<le> NETID_COUNTER_MAX \<longrightarrow>
        nid_kind ops (nid_make ops k n c) = k \<and> nid_node ops (nid_make ops k n c) = n \<and>
        nid_counter ops (nid_make ops k n c) = c \<and> nid_make ops k n c \<le> u64_max)"

definition packed_netid :: netid_ops where
  "packed_netid = \<lparr>nid_make = (\<lambda>k n c. k * 2 ^ 56 + n * 2 ^ 40 + c),
     nid_kind = (\<lambda>i. i div 2 ^ 56), nid_node = (\<lambda>i. i div 2 ^ 40 mod 2 ^ 16),
     nid_counter = (\<lambda>i. i mod 2 ^ 40)\<rparr>"

lemma netid_lawsD:
  assumes "netid_laws ops" "k \<le> u8_max" "n \<le> u16_max" "c \<le> NETID_COUNTER_MAX"
  shows "nid_kind ops (nid_make ops k n c) = k" "nid_node ops (nid_make ops k n c) = n"
    "nid_counter ops (nid_make ops k n c) = c" "nid_make ops k n c \<le> u64_max"
  using assms by (auto simp: netid_laws_def)

lemma packed_netid_laws: "netid_laws packed_netid"
  unfolding netid_laws_def
proof (intro allI impI)
  fix k n c :: nat
  assume "k \<le> u8_max" "n \<le> u16_max" "c \<le> NETID_COUNTER_MAX"
  then have b: "k < 2 ^ 8" "n < 2 ^ 16" "c < 2 ^ 40"
    by (simp_all add: max_defs NETID_COUNTER_MAX_def)
  have low: "n * 2 ^ 40 + c < 2 ^ 56" using b by simp
  have e: "k * 2 ^ 56 + n * 2 ^ 40 + c = (k * 2 ^ 16 + n) * 2 ^ 40 + c" by simp
  have "(k * 2 ^ 56 + n * 2 ^ 40 + c) div 2 ^ 56 = k"
    unfolding add.assoc by (rule mult_add_div [OF low])
  moreover have "(k * 2 ^ 56 + n * 2 ^ 40 + c) div 2 ^ 40 mod 2 ^ 16 = n"
    unfolding e mult_add_div [OF b(3)] by (rule mult_add_mod [OF b(2)])
  moreover have "(k * 2 ^ 56 + n * 2 ^ 40 + c) mod 2 ^ 40 = c"
    unfolding e by (rule mult_add_mod [OF b(3)])
  moreover have "k * 2 ^ 56 + n * 2 ^ 40 + c \<le> u64_max" using b low by (simp add: u64_max_def)
  ultimately show "nid_kind packed_netid (nid_make packed_netid k n c) = k \<and>
      nid_node packed_netid (nid_make packed_netid k n c) = n \<and>
      nid_counter packed_netid (nid_make packed_netid k n c) = c \<and>
      nid_make packed_netid k n c \<le> u64_max"
    by (simp add: packed_netid_def)
qed

end
