(* ===== verification/Lock_Types.thy ===== *)
theory Lock_Types
  imports Net_Id
begin

text \<open>
  Data of the lock crate (\<open>lock/src/lib.rs\<close>, \<open>lock/src/error.rs\<close>, \<open>lock/src/fence.rs\<close>): keys,
  leases, transitions, errors, and the resource-side fence.
\<close>

record lock_key =
  lk_namespace :: bytes
  lk_label :: bytes

type_synonym lock_owner = bytes

record lock_lease =
  ll_lock_id :: nat
  ll_key :: lock_key
  ll_owner :: lock_owner
  ll_acquired_at_ms :: nat
  ll_expires_at_ms :: nat
  ll_state_revision :: nat

datatype lock_acquire = LkAcquired lock_lease | LkOccupied lock_lease

datatype lock_transition =
    TrAcquired lock_lease
  | TrRenewed lock_lease
  | TrReleased nat lock_key lock_owner nat

datatype lock_error =
    InvalidLayout string
  | NamespaceEmpty
  | LockKeyEmpty
  | OwnerEmpty
  | EntryTooLarge nat nat nat nat
  | LockStateFull nat
  | IdExhausted
  | TtlZero
  | TtlOverflow
  | LockIo

fun tr_lock_id :: "lock_transition \<Rightarrow> nat" where
  "tr_lock_id (TrAcquired lease) = ll_lock_id lease"
| "tr_lock_id (TrRenewed lease) = ll_lock_id lease"
| "tr_lock_id (TrReleased i _ _ _) = i"

fun tr_key :: "lock_transition \<Rightarrow> lock_key" where
  "tr_key (TrAcquired lease) = ll_key lease"
| "tr_key (TrRenewed lease) = ll_key lease"
| "tr_key (TrReleased _ k _ _) = k"

fun tr_owner :: "lock_transition \<Rightarrow> lock_owner" where
  "tr_owner (TrAcquired lease) = ll_owner lease"
| "tr_owner (TrRenewed lease) = ll_owner lease"
| "tr_owner (TrReleased _ _ ow _) = ow"

fun tr_state_revision :: "lock_transition \<Rightarrow> nat" where
  "tr_state_revision (TrAcquired lease) = ll_state_revision lease"
| "tr_state_revision (TrRenewed lease) = ll_state_revision lease"
| "tr_state_revision (TrReleased _ _ _ r) = r"

definition lease_fencing_token :: "netid_ops \<Rightarrow> lock_lease \<Rightarrow> nat" where
  "lease_fencing_token ops lease = nid_counter ops (ll_lock_id lease)"

definition lease_is_expired_at :: "lock_lease \<Rightarrow> nat \<Rightarrow> bool" where
  "lease_is_expired_at lease now_ms \<longleftrightarrow> ll_expires_at_ms lease \<le> now_ms"

fun acquire_acquired :: "lock_acquire \<Rightarrow> lock_lease option" where
  "acquire_acquired (LkAcquired lease) = Some lease"
| "acquire_acquired (LkOccupied _) = None"

fun acquire_holder :: "lock_acquire \<Rightarrow> lock_lease" where
  "acquire_holder (LkAcquired lease) = lease"
| "acquire_holder (LkOccupied lease) = lease"

section \<open>The resource-side fence\<close>

text \<open>The fence is its high-water mark; \<open>admit\<close> is one atomic \<open>fetch_max\<close>.\<close>

record fence = high_water :: nat

definition fence_new :: fence where "fence_new = \<lparr>high_water = 0\<rparr>"

definition fence_with_high_water :: "nat \<Rightarrow> fence" where
  "fence_with_high_water token = \<lparr>high_water = token\<rparr>"

definition fence_admit :: "fence \<Rightarrow> nat \<Rightarrow> fence \<times> bool" where
  "fence_admit f token =
     (let previous = high_water f
      in (f\<lparr>high_water := max previous token\<rparr>, previous \<le> token))"

fun fence_run :: "fence \<Rightarrow> nat list \<Rightarrow> fence \<times> bool list" where
  "fence_run f [] = (f, [])"
| "fence_run f (t # ts) =
     (let (f', a) = fence_admit f t; (f'', as) = fence_run f' ts in (f'', a # as))"

lemma fence_run_high_water: "high_water (fst (fence_run f ts)) = fold max ts (high_water f)"
  by (induction ts arbitrary: f) (auto simp: fence_admit_def Let_def max.commute case_prod_beta)

lemma fence_run_length [simp]: "length (snd (fence_run f ts)) = length ts"
  by (induction ts arbitrary: f) (auto simp: Let_def case_prod_beta)

lemma fence_run_mono: "high_water f \<le> high_water (fst (fence_run f ts))"
proof (induction ts arbitrary: f)
  case Nil
  then show ?case by simp
next
  case (Cons t ts)
  have "high_water f \<le> high_water (fst (fence_admit f t))" by (simp add: fence_admit_def Let_def)
  with Cons [of "fst (fence_admit f t)"] show ?case
    by (auto simp: Let_def case_prod_beta intro: order_trans)
qed

lemma fence_run_admitted:
  "i < length ts \<Longrightarrow> snd (fence_run f ts) ! i \<longleftrightarrow> high_water f \<le> ts ! i \<and> (\<forall>j<i. ts ! j \<le> ts ! i)"
proof (induction ts arbitrary: f i)
  case Nil
  then show ?case by simp
next
  case (Cons t ts)
  show ?case
  proof (cases i)
    case 0
    then show ?thesis by (auto simp: Let_def fence_admit_def case_prod_beta)
  next
    case (Suc i')
    have "snd (fence_run f (t # ts)) ! i = snd (fence_run (fst (fence_admit f t)) ts) ! i'"
      by (simp add: Suc Let_def case_prod_beta)
    also have "\<dots> \<longleftrightarrow> max (high_water f) t \<le> ts ! i' \<and> (\<forall>j<i'. ts ! j \<le> ts ! i')"
      using Cons Suc by (simp add: fence_admit_def Let_def)
    also have "\<dots> \<longleftrightarrow> high_water f \<le> (t # ts) ! i \<and> (\<forall>j<i. (t # ts) ! j \<le> (t # ts) ! i)"
      by (auto simp: Suc less_Suc_eq_0_disj)
    finally show ?thesis .
  qed
qed

text \<open>
  A fence admits a token exactly when no newer token was observed before it: in any sequence
  of admissions, the \<open>i\<close>-th is granted if and only if its token is at least the initial mark and
  at least every token presented earlier, and the mark ends at the maximum of all.
\<close>

lemma fence_admits_iff_not_stale:
  assumes "i < length ts"
  shows "(snd (fence_run f ts) ! i \<longleftrightarrow> high_water f \<le> ts ! i \<and> (\<forall>j<i. ts ! j \<le> ts ! i)) \<and>
    high_water (fst (fence_run f ts)) = fold max ts (high_water f)"
  using fence_run_admitted [OF assms] fence_run_high_water by simp

end
