(* ===== verification/Lock_State.thy ===== *)
theory Lock_State
  imports Lock_Types Probe
begin

text \<open>
  The authoritative lock table of \<open>lock/src/state.rs\<close>: a header with two counters and a fixed
  array of slots probed linearly, with tombstones. Every operation runs under the table's
  exclusive hold (\<open>with_table\<close>), so it is one function from a table to a table. The \<open>publish\<close>
  callback is a parameter acting on a world \<open>'w\<close> (the transition ring); its error aborts the
  operation after the counters moved and before the slot is written, as in the source.
  \<open>lock_cfg\<close> holds the compile-time geometry, the layout's kind and the caller's node.
\<close>

section \<open>Data\<close>

record lock_cfg =
  lc_netid :: netid_ops
  lc_state_kind :: nat
  lc_node_id :: nat
  lc_capacity :: nat
  lc_payload_max :: nat

record lock_header =
  lh_magic :: nat
  lh_version :: nat
  lh_header_size :: nat
  lh_capacity :: nat
  lh_slot_size :: nat
  next_lock :: nat
  next_revision :: nat

record lock_slot =
  ls_state :: nat
  ls_namespace_len :: nat
  ls_key_len :: nat
  ls_owner_len :: nat
  ls_key_hash :: u64w
  ls_lock_id :: nat
  ls_state_revision :: nat
  ls_acquired_at_ms :: nat
  ls_expires_at_ms :: nat
  ls_payload :: bytes

record lock_table =
  lt_header :: lock_header
  lt_slots :: "lock_slot list"

type_synonym 'w publish = "'w \<Rightarrow> lock_transition \<Rightarrow> 'w \<times> (lock_error + unit)"

definition LOCK_COUNTER_MAX :: nat where "LOCK_COUNTER_MAX = 0xffffffffff"
definition STATE_MAGIC :: nat where "STATE_MAGIC = 0x4f4c5354"
definition STATE_VERSION :: nat where "STATE_VERSION = 2"
definition LOCK_HEADER_SIZE :: nat where "LOCK_HEADER_SIZE = 64"

text \<open>\<open>size_of::<LockStateSlot>()\<close>: 48 bytes of fixed fields and the payload, aligned to 64.\<close>

definition lock_slot_size :: "lock_cfg \<Rightarrow> nat" where
  "lock_slot_size cfg = next_multiple_of (48 + lc_payload_max cfg) 64"

section \<open>Slots\<close>

definition lock_slot_empty :: "lock_cfg \<Rightarrow> lock_slot" where
  "lock_slot_empty cfg = \<lparr>ls_state = SLOT_EMPTY, ls_namespace_len = 0, ls_key_len = 0, ls_owner_len = 0,
     ls_key_hash = 0, ls_lock_id = 0, ls_state_revision = 0, ls_acquired_at_ms = 0,
     ls_expires_at_ms = 0, ls_payload = replicate (lc_payload_max cfg) 0\<rparr>"

definition namespace_bytes :: "lock_slot \<Rightarrow> bytes" where
  "namespace_bytes slot = sub_slice (ls_payload slot) 0 (ls_namespace_len slot)"

definition key_bytes :: "lock_slot \<Rightarrow> bytes" where
  "key_bytes slot =
     (let start = ls_namespace_len slot; end' = start + ls_key_len slot
      in sub_slice (ls_payload slot) start end')"

definition slot_owner :: "lock_slot \<Rightarrow> bytes" where
  "slot_owner slot =
     (let start = ls_namespace_len slot + ls_key_len slot; end' = start + ls_owner_len slot
      in sub_slice (ls_payload slot) start end')"

definition lock_slot_matches :: "lock_slot \<Rightarrow> u64w \<Rightarrow> lock_key \<Rightarrow> bool" where
  "lock_slot_matches slot hash key \<longleftrightarrow>
     ls_state slot = SLOT_OCCUPIED \<and> ls_key_hash slot = hash \<and>
     namespace_bytes slot = lk_namespace key \<and> key_bytes slot = lk_label key"

definition slot_lease :: "lock_slot \<Rightarrow> lock_lease" where
  "slot_lease slot =
     \<lparr>ll_lock_id = ls_lock_id slot,
      ll_key = \<lparr>lk_namespace = namespace_bytes slot, lk_label = key_bytes slot\<rparr>,
      ll_owner = slot_owner slot, ll_acquired_at_ms = ls_acquired_at_ms slot,
      ll_expires_at_ms = ls_expires_at_ms slot, ll_state_revision = ls_state_revision slot\<rparr>"

text \<open>\<open>dst[start..start + src.len()].copy_from_slice(src)\<close>\<close>

definition copy_into :: "bytes \<Rightarrow> nat \<Rightarrow> bytes \<Rightarrow> bytes" where
  "copy_into dst start src = take start dst @ src @ drop (start + length src) dst"

definition slot_write :: "lock_slot \<Rightarrow> u64w \<Rightarrow> lock_lease \<Rightarrow> lock_slot" where
  "slot_write slot hash lease =
     (let ns = lk_namespace (ll_key lease); label = lk_label (ll_key lease); ow = ll_owner lease;
          blank = replicate (length (ls_payload slot)) 0;
          namespace_end = length ns;
          key_end = namespace_end + length label;
          payload = copy_into (copy_into (copy_into blank 0 ns) namespace_end label) key_end ow
      in slot\<lparr>ls_namespace_len := length ns mod 2 ^ 16, ls_key_len := length label mod 2 ^ 16,
           ls_owner_len := length ow mod 2 ^ 16, ls_key_hash := hash,
           ls_lock_id := ll_lock_id lease, ls_state_revision := ll_state_revision lease,
           ls_acquired_at_ms := ll_acquired_at_ms lease, ls_expires_at_ms := ll_expires_at_ms lease,
           ls_payload := payload, ls_state := SLOT_OCCUPIED\<rparr>)"

definition slot_tombstone :: "lock_slot \<Rightarrow> lock_slot" where
  "slot_tombstone slot = slot\<lparr>ls_state := SLOT_TOMBSTONE\<rparr>"

definition slot_clear :: "lock_slot \<Rightarrow> lock_slot" where
  "slot_clear slot = slot\<lparr>ls_state := SLOT_EMPTY\<rparr>"

section \<open>Hashing, validation and minting\<close>

definition lock_hash :: "lock_key \<Rightarrow> u64w" where
  "lock_hash key = fnv1a (lk_namespace key @ lk_label key)"

definition lock_validate_key :: "lock_cfg \<Rightarrow> lock_key \<Rightarrow> lock_error + unit" where
  "lock_validate_key cfg key =
     (if lk_namespace key = [] then Inl NamespaceEmpty
      else if lk_label key = [] then Inl LockKeyEmpty
      else if length (lk_namespace key) > u16_max \<or> length (lk_label key) > u16_max \<or>
              saturating_add u64_max (length (lk_namespace key)) (length (lk_label key)) > lc_payload_max cfg
      then Inl (EntryTooLarge (length (lk_namespace key)) (length (lk_label key)) 0 (lc_payload_max cfg))
      else Inr ())"

definition lock_validate_entry :: "lock_cfg \<Rightarrow> lock_key \<Rightarrow> lock_owner \<Rightarrow> lock_error + unit" where
  "lock_validate_entry cfg key owner =
     (case lock_validate_key cfg key of Inl e \<Rightarrow> Inl e
      | Inr _ \<Rightarrow>
          if owner = [] then Inl OwnerEmpty
          else if length (lk_namespace key) > u16_max \<or> length (lk_label key) > u16_max \<or>
                  length owner > u16_max \<or>
                  saturating_add u64_max
                    (saturating_add u64_max (length (lk_namespace key)) (length (lk_label key)))
                    (length owner) > lc_payload_max cfg
          then Inl (EntryTooLarge (length (lk_namespace key)) (length (lk_label key)) (length owner)
                      (lc_payload_max cfg))
          else Inr ())"

definition mint_lock_id :: "lock_cfg \<Rightarrow> lock_header \<Rightarrow> lock_header \<times> (lock_error + nat)" where
  "mint_lock_id cfg header =
     (case checked_add u64_max (next_lock header) 1 of
        None \<Rightarrow> (header, Inl IdExhausted)
      | Some counter \<Rightarrow>
          if counter > LOCK_COUNTER_MAX then (header, Inl IdExhausted)
          else (header\<lparr>next_lock := counter\<rparr>,
                Inr (nid_make (lc_netid cfg) (lc_state_kind cfg) (lc_node_id cfg) counter)))"

definition mint_revision :: "lock_header \<Rightarrow> lock_header \<times> (lock_error + nat)" where
  "mint_revision header =
     (case checked_add u64_max (next_revision header) 1 of
        None \<Rightarrow> (header, Inl IdExhausted)
      | Some revision \<Rightarrow> (header\<lparr>next_revision := revision\<rparr>, Inr revision))"

section \<open>Lookup\<close>

fun lock_find_at :: "lock_slot list \<Rightarrow> u64w \<Rightarrow> lock_key \<Rightarrow> nat list \<Rightarrow> nat option" where
  "lock_find_at slots hash key [] = None"
| "lock_find_at slots hash key (offset # offsets) =
     (let index = probe_index hash offset (length slots); slot = slots ! index
      in if ls_state slot = SLOT_EMPTY then None
         else if ls_state slot = SLOT_OCCUPIED \<and> lock_slot_matches slot hash key then Some index
         else lock_find_at slots hash key offsets)"

definition lock_find_slot :: "lock_slot list \<Rightarrow> u64w \<Rightarrow> lock_key \<Rightarrow> nat option" where
  "lock_find_slot slots hash key = lock_find_at slots hash key [0..<length slots]"

text \<open>\<open>live_slot\<close> returns the index of the unexpired slot, tombstoning an expired one.\<close>

definition live_slot :: "lock_slot list \<Rightarrow> lock_key \<Rightarrow> nat \<Rightarrow> lock_slot list \<times> nat option" where
  "live_slot slots key now_ms =
     (let hash = lock_hash key
      in case lock_find_slot slots hash key of
           None \<Rightarrow> (slots, None)
         | Some index \<Rightarrow>
             if ls_expires_at_ms (slots ! index) \<le> now_ms
             then (slots[index := slot_tombstone (slots ! index)], None)
             else (slots, Some index))"

section \<open>Operations\<close>

text \<open>
  The probe loop of \<open>acquire\<close>: \<open>Inl\<close> is the early \<open>Occupied\<close> return, \<open>Inr\<close> the insertion slot
  the loop leaves behind. Expired leases met on the way are tombstoned.
\<close>

definition get_or_insert :: "nat option \<Rightarrow> nat \<Rightarrow> nat option" where
  "get_or_insert insertion index = (case insertion of None \<Rightarrow> Some index | Some i \<Rightarrow> Some i)"

fun acquire_scan ::
    "lock_slot list \<Rightarrow> u64w \<Rightarrow> lock_key \<Rightarrow> nat \<Rightarrow> nat option \<Rightarrow> nat list
      \<Rightarrow> lock_slot list \<times> (lock_lease + nat option)" where
  "acquire_scan slots hash key now_ms insertion [] = (slots, Inr insertion)"
| "acquire_scan slots hash key now_ms insertion (offset # offsets) =
     (let index = probe_index hash offset (length slots); slot = slots ! index
      in if ls_state slot = SLOT_EMPTY then (slots, Inr (get_or_insert insertion index))
         else if ls_state slot = SLOT_TOMBSTONE
         then acquire_scan slots hash key now_ms (get_or_insert insertion index) offsets
         else if ls_state slot = SLOT_OCCUPIED \<and> ls_expires_at_ms slot \<le> now_ms
         then acquire_scan (slots[index := slot_tombstone slot]) hash key now_ms
                (get_or_insert insertion index) offsets
         else if ls_state slot = SLOT_OCCUPIED \<and> lock_slot_matches slot hash key
         then (slots, Inl (slot_lease slot))
         else acquire_scan slots hash key now_ms insertion offsets)"

definition lock_acquire_op ::
    "lock_cfg \<Rightarrow> 'w publish \<Rightarrow> 'w \<Rightarrow> lock_table \<Rightarrow> lock_key \<Rightarrow> lock_owner \<Rightarrow> nat \<Rightarrow> nat
      \<Rightarrow> 'w \<times> lock_table \<times> (lock_error + lock_acquire)" where
  "lock_acquire_op cfg publish w t key owner now_ms expires_at_ms =
     (case lock_validate_entry cfg key owner of Inl e \<Rightarrow> (w, t, Inl e)
      | Inr _ \<Rightarrow>
          let hash = lock_hash key;
              (slots, found) = acquire_scan (lt_slots t) hash key now_ms None [0..<length (lt_slots t)]
          in case found of
               Inl lease \<Rightarrow> (w, t\<lparr>lt_slots := slots\<rparr>, Inr (LkOccupied lease))
             | Inr None \<Rightarrow> (w, t\<lparr>lt_slots := slots\<rparr>, Inl (LockStateFull (length slots)))
             | Inr (Some index) \<Rightarrow>
                 (case mint_lock_id cfg (lt_header t) of
                    (h1, Inl e) \<Rightarrow> (w, \<lparr>lt_header = h1, lt_slots = slots\<rparr>, Inl e)
                  | (h1, Inr lock_id) \<Rightarrow>
                      (case mint_revision h1 of
                         (h2, Inl e) \<Rightarrow> (w, \<lparr>lt_header = h2, lt_slots = slots\<rparr>, Inl e)
                       | (h2, Inr revision) \<Rightarrow>
                           let lease = \<lparr>ll_lock_id = lock_id, ll_key = key, ll_owner = owner,
                                 ll_acquired_at_ms = now_ms, ll_expires_at_ms = expires_at_ms,
                                 ll_state_revision = revision\<rparr>
                           in case publish w (TrAcquired lease) of
                                (w', Inl e) \<Rightarrow> (w', \<lparr>lt_header = h2, lt_slots = slots\<rparr>, Inl e)
                              | (w', Inr _) \<Rightarrow>
                                  (w', \<lparr>lt_header = h2,
                                        lt_slots = slots[index := slot_write (slots ! index) hash lease]\<rparr>,
                                   Inr (LkAcquired lease)))))"

definition renew_slot ::
    "'w publish \<Rightarrow> 'w \<Rightarrow> lock_table \<Rightarrow> nat \<Rightarrow> nat \<Rightarrow> 'w \<times> lock_table \<times> (lock_error + lock_lease option)" where
  "renew_slot publish w t index requested_expires_at_ms =
     (let slot = lt_slots t ! index;
          lease0 = (slot_lease slot)\<lparr>ll_expires_at_ms :=
                     max (ll_expires_at_ms (slot_lease slot)) requested_expires_at_ms\<rparr>
      in case mint_revision (lt_header t) of
           (h, Inl e) \<Rightarrow> (w, t\<lparr>lt_header := h\<rparr>, Inl e)
         | (h, Inr revision) \<Rightarrow>
             let lease = lease0\<lparr>ll_state_revision := revision\<rparr>
             in case publish w (TrRenewed lease) of
                  (w', Inl e) \<Rightarrow> (w', t\<lparr>lt_header := h\<rparr>, Inl e)
                | (w', Inr _) \<Rightarrow>
                    (w', \<lparr>lt_header = h,
                          lt_slots = (lt_slots t)[index := slot_write slot (ls_key_hash slot) lease]\<rparr>,
                     Inr (Some lease)))"

definition release_slot ::
    "'w publish \<Rightarrow> 'w \<Rightarrow> lock_table \<Rightarrow> nat \<Rightarrow> 'w \<times> lock_table \<times> (lock_error + bool)" where
  "release_slot publish w t index =
     (let slot = lt_slots t ! index; lease = slot_lease slot
      in case mint_revision (lt_header t) of
           (h, Inl e) \<Rightarrow> (w, t\<lparr>lt_header := h\<rparr>, Inl e)
         | (h, Inr revision) \<Rightarrow>
             (case publish w (TrReleased (ll_lock_id lease) (ll_key lease) (ll_owner lease) revision) of
                (w', Inl e) \<Rightarrow> (w', t\<lparr>lt_header := h\<rparr>, Inl e)
              | (w', Inr _) \<Rightarrow>
                  (w', \<lparr>lt_header = h, lt_slots = (lt_slots t)[index := slot_tombstone slot]\<rparr>, Inr True)))"

definition renew_id ::
    "lock_cfg \<Rightarrow> 'w publish \<Rightarrow> 'w \<Rightarrow> lock_table \<Rightarrow> lock_lease \<Rightarrow> nat \<Rightarrow> nat
      \<Rightarrow> 'w \<times> lock_table \<times> (lock_error + lock_lease option)" where
  "renew_id cfg publish w t lease now_ms requested_expires_at_ms =
     (case lock_validate_entry cfg (ll_key lease) (ll_owner lease) of Inl e \<Rightarrow> (w, t, Inl e)
      | Inr _ \<Rightarrow>
          (case live_slot (lt_slots t) (ll_key lease) now_ms of
             (slots, None) \<Rightarrow> (w, t\<lparr>lt_slots := slots\<rparr>, Inr None)
           | (slots, Some index) \<Rightarrow>
               if ls_lock_id (slots ! index) \<noteq> ll_lock_id lease then (w, t\<lparr>lt_slots := slots\<rparr>, Inr None)
               else renew_slot publish w (t\<lparr>lt_slots := slots\<rparr>) index requested_expires_at_ms))"

definition renew_owner ::
    "lock_cfg \<Rightarrow> 'w publish \<Rightarrow> 'w \<Rightarrow> lock_table \<Rightarrow> lock_key \<Rightarrow> lock_owner \<Rightarrow> nat \<Rightarrow> nat
      \<Rightarrow> 'w \<times> lock_table \<times> (lock_error + lock_lease option)" where
  "renew_owner cfg publish w t key owner now_ms requested_expires_at_ms =
     (case lock_validate_entry cfg key owner of Inl e \<Rightarrow> (w, t, Inl e)
      | Inr _ \<Rightarrow>
          (case live_slot (lt_slots t) key now_ms of
             (slots, None) \<Rightarrow> (w, t\<lparr>lt_slots := slots\<rparr>, Inr None)
           | (slots, Some index) \<Rightarrow>
               if slot_owner (slots ! index) \<noteq> owner then (w, t\<lparr>lt_slots := slots\<rparr>, Inr None)
               else renew_slot publish w (t\<lparr>lt_slots := slots\<rparr>) index requested_expires_at_ms))"

definition release_id ::
    "lock_cfg \<Rightarrow> 'w publish \<Rightarrow> 'w \<Rightarrow> lock_table \<Rightarrow> lock_lease \<Rightarrow> nat
      \<Rightarrow> 'w \<times> lock_table \<times> (lock_error + bool)" where
  "release_id cfg publish w t lease now_ms =
     (case lock_validate_entry cfg (ll_key lease) (ll_owner lease) of Inl e \<Rightarrow> (w, t, Inl e)
      | Inr _ \<Rightarrow>
          (case live_slot (lt_slots t) (ll_key lease) now_ms of
             (slots, None) \<Rightarrow> (w, t\<lparr>lt_slots := slots\<rparr>, Inr False)
           | (slots, Some index) \<Rightarrow>
               if ls_lock_id (slots ! index) \<noteq> ll_lock_id lease then (w, t\<lparr>lt_slots := slots\<rparr>, Inr False)
               else release_slot publish w (t\<lparr>lt_slots := slots\<rparr>) index))"

definition release_owner ::
    "lock_cfg \<Rightarrow> 'w publish \<Rightarrow> 'w \<Rightarrow> lock_table \<Rightarrow> lock_key \<Rightarrow> lock_owner \<Rightarrow> nat
      \<Rightarrow> 'w \<times> lock_table \<times> (lock_error + bool)" where
  "release_owner cfg publish w t key owner now_ms =
     (case lock_validate_entry cfg key owner of Inl e \<Rightarrow> (w, t, Inl e)
      | Inr _ \<Rightarrow>
          (case live_slot (lt_slots t) key now_ms of
             (slots, None) \<Rightarrow> (w, t\<lparr>lt_slots := slots\<rparr>, Inr False)
           | (slots, Some index) \<Rightarrow>
               if slot_owner (slots ! index) \<noteq> owner then (w, t\<lparr>lt_slots := slots\<rparr>, Inr False)
               else release_slot publish w (t\<lparr>lt_slots := slots\<rparr>) index))"

definition force_release ::
    "lock_cfg \<Rightarrow> 'w publish \<Rightarrow> 'w \<Rightarrow> lock_table \<Rightarrow> lock_key \<Rightarrow> nat
      \<Rightarrow> 'w \<times> lock_table \<times> (lock_error + bool)" where
  "force_release cfg publish w t key now_ms =
     (case lock_validate_key cfg key of Inl e \<Rightarrow> (w, t, Inl e)
      | Inr _ \<Rightarrow>
          (case lock_find_slot (lt_slots t) (lock_hash key) key of
             None \<Rightarrow> (w, t, Inr False)
           | Some index \<Rightarrow>
               let slot = lt_slots t ! index
               in if ls_expires_at_ms slot \<le> now_ms
                  then (w, t\<lparr>lt_slots := (lt_slots t)[index := slot_tombstone slot]\<rparr>, Inr False)
                  else release_slot publish w t index))"

definition lock_current ::
    "lock_cfg \<Rightarrow> lock_table \<Rightarrow> lock_key \<Rightarrow> nat \<Rightarrow> lock_table \<times> (lock_error + lock_lease option)" where
  "lock_current cfg t key now_ms =
     (case lock_validate_key cfg key of Inl e \<Rightarrow> (t, Inl e)
      | Inr _ \<Rightarrow>
          (case live_slot (lt_slots t) key now_ms of
             (slots, r) \<Rightarrow> (t\<lparr>lt_slots := slots\<rparr>, Inr (map_option (\<lambda>i. slot_lease (slots ! i)) r))))"

definition lock_reset :: "lock_table \<Rightarrow> lock_table" where
  "lock_reset t = \<lparr>lt_header = (lt_header t)\<lparr>next_lock := 0, next_revision := 0\<rparr>,
     lt_slots = map slot_clear (lt_slots t)\<rparr>"

section \<open>Opening the table\<close>

definition lock_header_new :: "lock_cfg \<Rightarrow> lock_header" where
  "lock_header_new cfg = \<lparr>lh_magic = STATE_MAGIC, lh_version = STATE_VERSION,
     lh_header_size = LOCK_HEADER_SIZE mod 2 ^ 16, lh_capacity = lc_capacity cfg mod 2 ^ 32,
     lh_slot_size = lock_slot_size cfg mod 2 ^ 32, next_lock = 0, next_revision = 0\<rparr>"

definition memory_table_new :: "lock_cfg \<Rightarrow> lock_table" where
  "memory_table_new cfg = \<lparr>lt_header = lock_header_new cfg,
     lt_slots = replicate (lc_capacity cfg) (lock_slot_empty cfg)\<rparr>"

text \<open>
  \<open>ShmLockTable::open_or_create\<close> under its initialization hold: a created region is written
  (zeroed slots are empty slots), an existing one is checked against this build's layout.
\<close>

definition lock_open_or_create :: "lock_cfg \<Rightarrow> lock_table option \<Rightarrow> lock_error + lock_table" where
  "lock_open_or_create cfg existing =
     (case existing of
        None \<Rightarrow> Inr (memory_table_new cfg)
      | Some t \<Rightarrow>
          let header = lt_header t
          in if lh_magic header \<noteq> STATE_MAGIC then Inl LockIo
             else if lh_version header \<noteq> STATE_VERSION \<or> lh_header_size header \<noteq> LOCK_HEADER_SIZE \<or>
                     lh_capacity header \<noteq> lc_capacity cfg \<or> lh_slot_size header \<noteq> lock_slot_size cfg
             then Inl LockIo
             else Inr t)"

end
