(* ===== verification/Lock_Table.thy ===== *)
theory Lock_Table
  imports Lock_State
begin

text \<open>
  Invariant and abstraction of the lock table. \<open>lock_ok\<close> says that probing reaches every
  occupied slot, that a key occupies at most one slot, that slots are well formed and that every
  identity in use was minted below the header's counter. \<open>tenure\<close> reads the table as a map from
  keys to leases and \<open>live\<close> keeps the unexpired ones. \<open>reaped\<close> relates a table to the same table
  with some expired leases tombstoned, the only silent change an operation makes.
\<close>

definition lock_emp :: "lock_slot \<Rightarrow> bool" where
  "lock_emp slot \<longleftrightarrow> ls_state slot = SLOT_EMPTY"

definition lock_holds :: "lock_slot \<Rightarrow> lock_key \<Rightarrow> bool" where
  "lock_holds slot key \<longleftrightarrow> lock_slot_matches slot (lock_hash key) key"

definition slot_key :: "lock_slot \<Rightarrow> lock_key" where
  "slot_key slot = ll_key (slot_lease slot)"

definition lock_slot_ok :: "lock_cfg \<Rightarrow> lock_header \<Rightarrow> lock_slot \<Rightarrow> bool" where
  "lock_slot_ok cfg header slot \<longleftrightarrow>
     length (ls_payload slot) = lc_payload_max cfg \<and>
     ls_state slot \<in> {SLOT_EMPTY, SLOT_OCCUPIED, SLOT_TOMBSTONE} \<and>
     (ls_state slot = SLOT_OCCUPIED \<longrightarrow>
        ls_namespace_len slot + ls_key_len slot + ls_owner_len slot \<le> lc_payload_max cfg \<and>
        ls_namespace_len slot \<le> u16_max \<and> ls_key_len slot \<le> u16_max \<and> ls_owner_len slot \<le> u16_max \<and>
        ls_key_hash slot = lock_hash (slot_key slot) \<and>
        0 < nid_counter (lc_netid cfg) (ls_lock_id slot) \<and>
        nid_counter (lc_netid cfg) (ls_lock_id slot) \<le> next_lock header \<and>
        ls_state_revision slot \<le> next_revision header)"

definition lock_cfg_ok :: "lock_cfg \<Rightarrow> bool" where
  "lock_cfg_ok cfg \<longleftrightarrow>
     is_power_of_two (lc_capacity cfg) \<and> lc_capacity cfg \<le> u32_max \<and> 0 < lc_payload_max cfg \<and>
     lc_payload_max cfg \<le> u32_max \<and>
     lc_state_kind cfg \<le> u8_max \<and> lc_node_id cfg \<le> u16_max \<and> netid_laws (lc_netid cfg)"

definition ids_distinct :: "lock_cfg \<Rightarrow> lock_slot list \<Rightarrow> bool" where
  "ids_distinct cfg slots \<longleftrightarrow>
     (\<forall>i<length slots. \<forall>j<length slots. i \<noteq> j \<longrightarrow> ls_state (slots ! i) = SLOT_OCCUPIED \<longrightarrow>
        ls_state (slots ! j) = SLOT_OCCUPIED \<longrightarrow>
        nid_counter (lc_netid cfg) (ls_lock_id (slots ! i)) \<noteq> nid_counter (lc_netid cfg) (ls_lock_id (slots ! j)))"

definition lock_ok :: "lock_cfg \<Rightarrow> lock_table \<Rightarrow> bool" where
  "lock_ok cfg t \<longleftrightarrow>
     length (lt_slots t) = lc_capacity cfg \<and> next_lock (lt_header t) \<le> LOCK_COUNTER_MAX \<and>
     next_revision (lt_header t) \<le> u64_max \<and>
     list_all (lock_slot_ok cfg (lt_header t)) (lt_slots t) \<and>
     probe_wf lock_emp lock_holds lock_hash (lt_slots t) \<and> ids_distinct cfg (lt_slots t)"

definition tenure :: "lock_slot list \<Rightarrow> lock_key \<Rightarrow> lock_lease option" where
  "tenure slots key = map_option (\<lambda>i. slot_lease (slots ! i)) (lock_find_slot slots (lock_hash key) key)"

definition live :: "nat \<Rightarrow> lock_slot list \<Rightarrow> lock_key \<Rightarrow> lock_lease option" where
  "live now_ms slots key =
     (case tenure slots key of
        None \<Rightarrow> None
      | Some lease \<Rightarrow> if lease_is_expired_at lease now_ms then None else Some lease)"

definition expired_slot :: "nat \<Rightarrow> lock_slot \<Rightarrow> bool" where
  "expired_slot now_ms slot \<longleftrightarrow> ls_state slot = SLOT_OCCUPIED \<and> ls_expires_at_ms slot \<le> now_ms"

definition occupied_live :: "nat \<Rightarrow> lock_slot \<Rightarrow> bool" where
  "occupied_live now_ms slot \<longleftrightarrow> ls_state slot = SLOT_OCCUPIED \<and> now_ms < ls_expires_at_ms slot"

definition reaped :: "nat \<Rightarrow> lock_slot list \<Rightarrow> lock_slot list \<Rightarrow> bool" where
  "reaped now_ms slots slots' \<longleftrightarrow> length slots' = length slots \<and>
     (\<forall>i<length slots. slots' ! i = slots ! i \<or>
        expired_slot now_ms (slots ! i) \<and> slots' ! i = slot_tombstone (slots ! i))"

section \<open>Slots\<close>

interpretation lkt: probing lock_emp lock_holds lock_hash
proof unfold_locales
  fix s k assume "lock_holds s k"
  then show "\<not> lock_emp s"
    by (simp add: lock_holds_def lock_emp_def lock_slot_matches_def)
next
  fix s k k' assume "lock_holds s k" "lock_holds s k'"
  then show "k = k'"
    by (simp add: lock_holds_def lock_slot_matches_def)
qed

lemma lock_holds_key: "lock_holds s k \<Longrightarrow> slot_key s = k"
  by (simp add: lock_holds_def lock_slot_matches_def slot_key_def slot_lease_def)

lemma lock_holds_occupied: "lock_holds s k \<Longrightarrow> ls_state s = SLOT_OCCUPIED"
  by (simp add: lock_holds_def lock_slot_matches_def)

lemma occupied_holds_own:
  "lock_slot_ok cfg h s \<Longrightarrow> ls_state s = SLOT_OCCUPIED \<Longrightarrow> lock_holds s (slot_key s)"
  by (simp add: lock_slot_ok_def lock_holds_def lock_slot_matches_def slot_key_def slot_lease_def)

lemma tombstone_simps [simp]:
  "ls_state (slot_tombstone s) = SLOT_TOMBSTONE" "\<not> lock_emp (slot_tombstone s)"
  "\<not> lock_holds (slot_tombstone s) k" "ls_payload (slot_tombstone s) = ls_payload s"
  by (simp_all add: slot_tombstone_def lock_emp_def lock_holds_def lock_slot_matches_def)

lemma lock_slot_ok_tombstone: "lock_slot_ok cfg h s \<Longrightarrow> lock_slot_ok cfg h (slot_tombstone s)"
  by (simp add: lock_slot_ok_def)

lemma slot_lease_expires [simp]: "ll_expires_at_ms (slot_lease s) = ls_expires_at_ms s"
  by (simp add: slot_lease_def)

lemma slot_lease_id [simp]: "ll_lock_id (slot_lease s) = ls_lock_id s"
  by (simp add: slot_lease_def)

lemma slot_lease_owner [simp]: "ll_owner (slot_lease s) = slot_owner s"
  by (simp add: slot_lease_def)

lemma slot_lease_key [simp]: "ll_key (slot_lease s) = slot_key s"
  by (simp add: slot_key_def)

text \<open>Writing a lease that fits the payload and reading it back.\<close>

definition lease_fits :: "lock_cfg \<Rightarrow> lock_lease \<Rightarrow> bool" where
  "lease_fits cfg lease \<longleftrightarrow>
     length (lk_namespace (ll_key lease)) \<le> u16_max \<and> length (lk_label (ll_key lease)) \<le> u16_max \<and>
     length (ll_owner lease) \<le> u16_max \<and>
     length (lk_namespace (ll_key lease)) + length (lk_label (ll_key lease)) + length (ll_owner lease)
       \<le> lc_payload_max cfg"

lemma copy_into_blank:
  assumes "length ns + length lb + length ow \<le> n"
  shows "copy_into (copy_into (copy_into (replicate n 0) 0 ns) (length ns) lb) (length ns + length lb) ow
    = ns @ lb @ ow @ replicate (n - (length ns + length lb + length ow)) 0"
  using assms by (simp add: copy_into_def diff_diff_left)

lemma slot_write_simps [simp]:
  "ls_state (slot_write s h l) = SLOT_OCCUPIED" "ls_key_hash (slot_write s h l) = h"
  "ls_lock_id (slot_write s h l) = ll_lock_id l" "ls_expires_at_ms (slot_write s h l) = ll_expires_at_ms l"
  "ls_state_revision (slot_write s h l) = ll_state_revision l"
  by (simp_all add: slot_write_def Let_def)

lemma slot_write_lease:
  assumes "lease_fits cfg l" "length (ls_payload s) = lc_payload_max cfg"
  shows "slot_lease (slot_write s h l) = l" and "length (ls_payload (slot_write s h l)) = lc_payload_max cfg"
proof -
  let ?ns = "lk_namespace (ll_key l)" and ?lb = "lk_label (ll_key l)" and ?ow = "ll_owner l"
  from assms have fit: "length ?ns + length ?lb + length ?ow \<le> length (ls_payload s)"
    by (simp add: lease_fits_def)
  have u16: "length ?ns < 2 ^ 16" "length ?lb < 2 ^ 16" "length ?ow < 2 ^ 16"
    using assms(1) by (auto simp: lease_fits_def u16_max_def)
  show "slot_lease (slot_write s h l) = l"
    using u16 copy_into_blank [OF fit]
    by (simp add: slot_write_def slot_lease_def namespace_bytes_def key_bytes_def slot_owner_def
        Let_def sub_slice_def)
  show "length (ls_payload (slot_write s h l)) = lc_payload_max cfg"
    using fit assms(2) copy_into_blank [OF fit] by (simp add: slot_write_def Let_def)
qed

lemma slot_write_holds:
  assumes "lease_fits cfg l" "length (ls_payload s) = lc_payload_max cfg" "h = lock_hash (ll_key l)"
  shows "lock_holds (slot_write s h l) (ll_key l)"
proof -
  have "slot_lease (slot_write s h l) = l" by (rule slot_write_lease [OF assms(1,2)])
  moreover have "namespace_bytes x = lk_namespace (ll_key (slot_lease x))"
    "key_bytes x = lk_label (ll_key (slot_lease x))" for x by (simp_all add: slot_lease_def del: slot_lease_key)
  ultimately have "namespace_bytes (slot_write s h l) = lk_namespace (ll_key l)"
    "key_bytes (slot_write s h l) = lk_label (ll_key l)" by metis+
  then show ?thesis using assms(3) by (simp add: lock_holds_def lock_slot_matches_def)
qed

section \<open>Lookup\<close>

lemma lock_find_scan:
  "lock_find_at slots hash key os =
     scan lock_emp (\<lambda>s. lock_slot_matches s hash key) (\<lambda>d. probe_index hash d (length slots)) slots os"
  by (induction os) (auto simp: lock_emp_def lock_slot_matches_def Let_def)

lemma lock_find_iff:
  assumes "table_size slots" "probe_wf lock_emp lock_holds lock_hash slots"
  shows "lock_find_slot slots (lock_hash key) key = Some i \<longleftrightarrow> i < length slots \<and> lock_holds (slots ! i) key"
  unfolding lock_find_slot_def lock_find_scan
  by (rule lkt.scan_finds [OF assms]) (simp add: lock_holds_def)

lemma tenure_iff:
  assumes "table_size slots" "probe_wf lock_emp lock_holds lock_hash slots"
  shows "tenure slots key = Some l \<longleftrightarrow>
    (\<exists>i<length slots. lock_holds (slots ! i) key \<and> slot_lease (slots ! i) = l)"
  using lock_find_iff [OF assms] by (auto simp: tenure_def)

lemma live_iff:
  assumes "table_size slots" "probe_wf lock_emp lock_holds lock_hash slots"
  shows "live now slots key = Some l \<longleftrightarrow>
    (\<exists>i<length slots. lock_holds (slots ! i) key \<and> slot_lease (slots ! i) = l \<and> now < ls_expires_at_ms (slots ! i))"
proof -
  have "live now slots key = Some l \<longleftrightarrow> tenure slots key = Some l \<and> now < ll_expires_at_ms l"
    by (auto simp: live_def lease_is_expired_at_def split: option.splits)
  then show ?thesis by (auto simp: tenure_iff [OF assms])
qed

section \<open>Reaping\<close>

lemma reaped_refl [simp]: "reaped now slots slots"
  by (simp add: reaped_def)

lemma reaped_step:
  assumes "reaped now (slots[i := slot_tombstone (slots ! i)]) slots'" "i < length slots" "expired_slot now (slots ! i)"
  shows "reaped now slots slots'"
  unfolding reaped_def
proof (intro conjI allI impI)
  show "length slots' = length slots" using assms(1) by (simp add: reaped_def)
  fix j assume j: "j < length slots"
  have nt: "\<not> expired_slot now (slot_tombstone (slots ! i))" by (simp add: expired_slot_def)
  from assms(1) j have "slots' ! j = slots[i := slot_tombstone (slots ! i)] ! j \<or>
      expired_slot now (slots[i := slot_tombstone (slots ! i)] ! j) \<and>
      slots' ! j = slot_tombstone (slots[i := slot_tombstone (slots ! i)] ! j)"
    by (simp add: reaped_def)
  then show "slots' ! j = slots ! j \<or> expired_slot now (slots ! j) \<and> slots' ! j = slot_tombstone (slots ! j)"
    using assms(2,3) nt by (cases "i = j") auto
qed

lemma reaped_one:
  "i < length slots \<Longrightarrow> expired_slot now (slots ! i) \<Longrightarrow> reaped now slots (slots[i := slot_tombstone (slots ! i)])"
  by (rule reaped_step) auto

lemma reaped_live:
  assumes "reaped now slots slots'" "now \<le> t"
    and "table_size slots" "probe_wf lock_emp lock_holds lock_hash slots"
      "probe_wf lock_emp lock_holds lock_hash slots'"
  shows "live t slots' = live t slots"
proof (rule map_eqI)
  fix k l
  have len: "length slots' = length slots" using assms(1) by (simp add: reaped_def)
  then have ts': "table_size slots'" using assms(3) by (simp add: table_size_def)
  have "(lock_holds (slots' ! i) k \<and> slot_lease (slots' ! i) = l \<and> t < ls_expires_at_ms (slots' ! i)) =
      (lock_holds (slots ! i) k \<and> slot_lease (slots ! i) = l \<and> t < ls_expires_at_ms (slots ! i))"
    if "i < length slots" for i
    using assms(1,2) that by (auto simp: reaped_def expired_slot_def)
  then show "live t slots' k = Some l \<longleftrightarrow> live t slots k = Some l"
    by (auto simp: live_iff [OF assms(3,4)] live_iff [OF ts' assms(5)] len)
qed

section \<open>The probe loop of acquire\<close>

definition scan_state :: "nat \<Rightarrow> u64w \<Rightarrow> lock_key \<Rightarrow> nat \<Rightarrow> nat option \<Rightarrow> lock_slot list \<Rightarrow> bool" where
  "scan_state a hash key now insertion slots \<longleftrightarrow>
     (\<forall>e<a. \<not> lock_emp (slots ! probe_index hash e (length slots)) \<and>
        \<not> lock_holds (slots ! probe_index hash e (length slots)) key) \<and>
     (case insertion of
        None \<Rightarrow> \<forall>e<a. occupied_live now (slots ! probe_index hash e (length slots))
      | Some i \<Rightarrow> \<exists>d<a. i = probe_index hash d (length slots) \<and> ls_state (slots ! i) = SLOT_TOMBSTONE)"

definition scan_result :: "u64w \<Rightarrow> lock_key \<Rightarrow> nat \<Rightarrow> lock_slot list \<Rightarrow> lock_lease + nat option \<Rightarrow> bool" where
  "scan_result hash key now slots r =
     (case r of
        Inl l \<Rightarrow> \<exists>i<length slots. lock_holds (slots ! i) key \<and> l = slot_lease (slots ! i) \<and> now < ls_expires_at_ms (slots ! i)
      | Inr None \<Rightarrow> (\<forall>i<length slots. occupied_live now (slots ! i)) \<and> (\<forall>i<length slots. \<not> lock_holds (slots ! i) key)
      | Inr (Some i) \<Rightarrow> (\<forall>j<length slots. \<not> lock_holds (slots ! j) key) \<and>
          (\<exists>d<length slots. i = probe_index hash d (length slots) \<and> ls_state (slots ! i) \<noteq> SLOT_OCCUPIED \<and>
             (\<forall>e<d. \<not> lock_emp (slots ! probe_index hash e (length slots)))))"

lemma scan_state_advance:
  assumes "scan_state a hash key now insertion slots" "\<not> lock_emp (slots ! probe_index hash a (length slots))"
    "\<not> lock_holds (slots ! probe_index hash a (length slots)) key"
    and "insertion = None \<Longrightarrow> occupied_live now (slots ! probe_index hash a (length slots))"
  shows "scan_state (Suc a) hash key now insertion slots"
  using assms unfolding scan_state_def
  by (auto simp: less_Suc_eq split: option.splits)

lemma scan_state_mark:
  assumes "scan_state a hash key now insertion slots"
    "ls_state (slots ! probe_index hash a (length slots)) = SLOT_TOMBSTONE"
  shows "scan_state (Suc a) hash key now (get_or_insert insertion (probe_index hash a (length slots))) slots"
proof -
  have "\<not> lock_emp (slots ! probe_index hash a (length slots))"
    "\<not> lock_holds (slots ! probe_index hash a (length slots)) key"
    using assms(2) by (auto simp: lock_emp_def lock_holds_def lock_slot_matches_def)
  with assms show ?thesis unfolding scan_state_def get_or_insert_def
    by (auto simp: less_Suc_eq split: option.splits)
qed

lemma scan_state_reap:
  assumes "scan_state a hash key now insertion slots" "table_size slots" "a < length slots"
  defines "i \<equiv> probe_index hash a (length slots)"
  shows "scan_state a hash key now insertion (slots[i := slot_tombstone (slots ! i)])"
proof -
  have other: "probe_index hash e (length slots) \<noteq> i" if "e < a" for e
    using probe_index_inj [OF assms(2), of e a hash] that assms(3) by (auto simp: i_def)
  have same: "slots[i := slot_tombstone (slots ! i)] ! probe_index hash e (length slots)
      = slots ! probe_index hash e (length slots)" if "e < a" for e
    using other [OF that] by simp
  show ?thesis
    using assms(1) same other unfolding scan_state_def length_list_update
    by (auto split: option.splits)
qed

lemma no_holder_past_empty:
  assumes "scan_state a hash key now insertion slots" "probe_wf lock_emp lock_holds lock_hash slots"
    "hash = lock_hash key" "lock_emp (slots ! probe_index hash a (length slots))" "j < length slots"
  shows "\<not> lock_holds (slots ! j) key"
proof
  assume h: "lock_holds (slots ! j) key"
  from lkt.wf_path [OF assms(2,5) h] obtain d where d: "probe_index hash d (length slots) = j"
    "\<forall>e<d. \<not> lock_emp (slots ! probe_index hash e (length slots))" by (auto simp: assms(3))
  show False
  proof (rule linorder_cases [of d a])
    assume "d < a" with assms(1) d h show False by (auto simp: scan_state_def)
  next
    assume "d = a" with assms(4) d h lkt.holds_not_emp show False by auto
  next
    assume "a < d" with assms(4) d show False by auto
  qed
qed

lemma scan_result_empty:
  assumes "scan_state a hash key now insertion slots" "probe_wf lock_emp lock_holds lock_hash slots"
    "hash = lock_hash key" "lock_emp (slots ! probe_index hash a (length slots))" "a < length slots"
  shows "scan_result hash key now slots (Inr (get_or_insert insertion (probe_index hash a (length slots))))"
proof -
  have "\<forall>j<length slots. \<not> lock_holds (slots ! j) key"
    using no_holder_past_empty [OF assms(1-4)] by blast
  moreover have "\<exists>d<length slots. get_or_insert insertion (probe_index hash a (length slots)) =
      Some (probe_index hash d (length slots)) \<and> ls_state (slots ! probe_index hash d (length slots)) \<noteq> SLOT_OCCUPIED
      \<and> (\<forall>e<d. \<not> lock_emp (slots ! probe_index hash e (length slots)))"
  proof (cases insertion)
    case None
    with assms show ?thesis
      by (intro exI [of _ a]) (auto simp: get_or_insert_def lock_emp_def scan_state_def)
  next
    case (Some i)
    with assms(1) obtain d where "d < a" "i = probe_index hash d (length slots)"
      "ls_state (slots ! i) = SLOT_TOMBSTONE" by (auto simp: scan_state_def)
    with assms(1,5) Some show ?thesis
      by (intro exI [of _ d]) (auto simp: get_or_insert_def scan_state_def)
  qed
  ultimately show ?thesis by (auto simp: scan_result_def)
qed

lemma scan_result_end:
  assumes "scan_state (length slots) hash key now insertion slots" "table_size slots"
  shows "scan_result hash key now slots (Inr insertion)"
proof -
  have every: "\<forall>j<length slots. P (slots ! j)"
    if "\<forall>e<length slots. P (slots ! probe_index hash e (length slots))" for P
    using that probe_index_surj [OF assms(2)] by metis
  have "\<forall>j<length slots. \<not> lock_holds (slots ! j) key"
    using every [of "\<lambda>s. \<not> lock_holds s key"] assms(1) by (simp add: scan_state_def)
  moreover have "\<forall>j<length slots. occupied_live now (slots ! j)" if "insertion = None"
    using every [of "occupied_live now"] assms(1) that by (simp add: scan_state_def)
  moreover have "\<exists>d<length slots. i = probe_index hash d (length slots) \<and> ls_state (slots ! i) \<noteq> SLOT_OCCUPIED \<and>
      (\<forall>e<d. \<not> lock_emp (slots ! probe_index hash e (length slots)))" if "insertion = Some i" for i
  proof -
    from assms(1) that obtain d where "d < length slots" "i = probe_index hash d (length slots)"
      "ls_state (slots ! i) = SLOT_TOMBSTONE" by (auto simp: scan_state_def)
    with assms(1) show ?thesis by (intro exI [of _ d]) (auto simp: scan_state_def)
  qed
  ultimately show ?thesis by (auto simp: scan_result_def split: option.split)
qed

lemma acquire_scan_spec:
  assumes "acquire_scan slots hash key now insertion [a..<length slots] = (slots', r)"
    and "scan_state a hash key now insertion slots" "a \<le> length slots" "table_size slots"
    and "probe_wf lock_emp lock_holds lock_hash slots" "hash = lock_hash key"
    and "\<forall>s\<in>set slots. ls_state s \<in> {SLOT_EMPTY, SLOT_OCCUPIED, SLOT_TOMBSTONE}"
  shows "reaped now slots slots' \<and> probe_wf lock_emp lock_holds lock_hash slots' \<and>
    scan_result hash key now slots' r"
  using assms
proof (induction "length slots - a" arbitrary: a slots insertion)
  case 0
  then show ?case using scan_result_end [of slots hash key now insertion] by auto
next
  case (Suc n)
  then have al: "a < length slots" and n: "n = length slots - Suc a" by simp_all
  let ?i = "probe_index hash a (length slots)"
  let ?s = "slots ! ?i"
  have il: "?i < length slots" by (rule probe_index_less [OF Suc.prems(4) al])
  have step: "[a..<length slots] = a # [Suc a..<length slots]" using al by (rule upt_conv_Cons)
  note IH = Suc.hyps(1) and prems = Suc.prems
  consider (empty) "ls_state ?s = SLOT_EMPTY" | (tomb) "ls_state ?s = SLOT_TOMBSTONE"
    | (occ) "ls_state ?s = SLOT_OCCUPIED" using prems(7) il nth_mem by fastforce
  then show ?case
  proof cases
    case empty
    then have "slots' = slots" "r = Inr (get_or_insert insertion ?i)"
      using prems(1) by (auto simp: step)
    with scan_result_empty [OF prems(2,5,6) _ al] empty prems(5) show ?thesis by (simp add: lock_emp_def)
  next
    case tomb
    then have "acquire_scan slots hash key now (get_or_insert insertion ?i) [Suc a..<length slots] = (slots', r)"
      using prems(1) by (simp add: step Let_def)
    from IH [OF n this scan_state_mark [OF prems(2) tomb] _ prems(4-7)] al show ?thesis by simp
  next
    case occ
    show ?thesis
    proof (cases "ls_expires_at_ms ?s \<le> now")
      case True
      let ?t = "slots[?i := slot_tombstone ?s]"
      have ex: "expired_slot now ?s" using occ True by (simp add: expired_slot_def)
      have run: "acquire_scan ?t hash key now (get_or_insert insertion ?i) [Suc a..<length ?t] = (slots', r)"
        using occ True prems(1) by (simp add: step Let_def)
      have wf: "probe_wf lock_emp lock_holds lock_hash ?t"
        by (rule lkt.wf_update_shrink [OF prems(5) il]) auto
      have st: "scan_state (Suc a) hash key now (get_or_insert insertion ?i) ?t"
        using scan_state_mark [OF scan_state_reap [OF prems(2,4) al]] il by simp
      have states: "\<forall>s\<in>set ?t. ls_state s \<in> {SLOT_EMPTY, SLOT_OCCUPIED, SLOT_TOMBSTONE}"
        using prems(7) set_update_subset_insert [of slots ?i "slot_tombstone ?s"] by fastforce
      from IH [OF _ run st _ _ wf prems(6) states] n al prems(4)
      have "reaped now ?t slots' \<and> probe_wf lock_emp lock_holds lock_hash slots' \<and> scan_result hash key now slots' r"
        by (simp add: table_size_def)
      with reaped_step [OF _ il ex] show ?thesis by blast
    next
      case False
      show ?thesis
      proof (cases "lock_slot_matches ?s hash key")
        case True
        with occ False prems(1) have "slots' = slots" "r = Inl (slot_lease ?s)" by (auto simp: step)
        with True il False prems(5,6) show ?thesis
          by (auto simp: scan_result_def lock_holds_def)
      next
        case nm: False
        have run: "acquire_scan slots hash key now insertion [Suc a..<length slots] = (slots', r)"
          using occ False nm prems(1) by (simp add: step Let_def)
        have st: "scan_state (Suc a) hash key now insertion slots"
          using scan_state_advance [OF prems(2)] occ False nm prems(6)
          by (simp add: lock_emp_def lock_holds_def occupied_live_def)
        from IH [OF n run st _ prems(4-7)] al show ?thesis by simp
      qed
    qed
  qed
qed

end
