(* ===== verification/Lock_Ops.thy ===== *)
theory Lock_Ops
  imports Lock_Table
begin

text \<open>
  What each lock operation does to the table seen as a map: \<open>acquire\<close>, \<open>renew\<close>, \<open>release\<close>,
  \<open>force_release\<close>, \<open>current\<close> and \<open>reset\<close> keep \<open>lock_ok\<close> and change \<open>live\<close> exactly at their key.
\<close>

section \<open>Keeping the invariant\<close>

definition header_grows :: "lock_header \<Rightarrow> lock_header \<Rightarrow> bool" where
  "header_grows h h' \<longleftrightarrow> next_lock h \<le> next_lock h' \<and> next_lock h' \<le> LOCK_COUNTER_MAX \<and>
     next_revision h \<le> next_revision h' \<and> next_revision h' \<le> u64_max"

lemma lock_slot_ok_grows: "lock_slot_ok cfg h s \<Longrightarrow> header_grows h h' \<Longrightarrow> lock_slot_ok cfg h' s"
  by (auto simp: lock_slot_ok_def header_grows_def)

lemma lock_okD:
  assumes "lock_ok cfg t"
  shows "length (lt_slots t) = lc_capacity cfg" "next_lock (lt_header t) \<le> LOCK_COUNTER_MAX"
    "next_revision (lt_header t) \<le> u64_max"
    "\<And>s. s \<in> set (lt_slots t) \<Longrightarrow> lock_slot_ok cfg (lt_header t) s"
    "probe_wf lock_emp lock_holds lock_hash (lt_slots t)" "ids_distinct cfg (lt_slots t)"
  using assms by (auto simp: lock_ok_def list_all_iff)

lemma lock_ok_size: "lock_cfg_ok cfg \<Longrightarrow> lock_ok cfg t \<Longrightarrow> table_size (lt_slots t)"
  by (auto simp: lock_cfg_ok_def lock_ok_def table_size_def u32_max_def)

lemma lock_ok_states:
  "lock_ok cfg t \<Longrightarrow> \<forall>s\<in>set (lt_slots t). ls_state s \<in> {SLOT_EMPTY, SLOT_OCCUPIED, SLOT_TOMBSTONE}"
  by (auto simp: lock_ok_def list_all_iff lock_slot_ok_def)

lemma lock_ok_header:
  assumes "lock_ok cfg t" "header_grows (lt_header t) h"
  shows "lock_ok cfg (t\<lparr>lt_header := h\<rparr>)"
  using assms lock_slot_ok_grows [OF _ assms(2)]
  by (auto simp: lock_ok_def list_all_iff header_grows_def)

lemma reaped_occupied:
  assumes "reaped now slots slots'" "i < length slots" "ls_state (slots' ! i) = SLOT_OCCUPIED"
  shows "slots' ! i = slots ! i"
  using assms by (auto simp: reaped_def)

lemma lock_ok_reaped:
  assumes "lock_ok cfg t" "reaped now (lt_slots t) slots'" "probe_wf lock_emp lock_holds lock_hash slots'"
  shows "lock_ok cfg (t\<lparr>lt_slots := slots'\<rparr>)"
proof -
  have len: "length slots' = length (lt_slots t)" using assms(2) by (simp add: reaped_def)
  have "lock_slot_ok cfg (lt_header t) (slots' ! i)" if "i < length slots'" for i
  proof -
    from that len have "lock_slot_ok cfg (lt_header t) (lt_slots t ! i)"
      using lock_okD(4) [OF assms(1)] by simp
    moreover from assms(2) that len have "slots' ! i = lt_slots t ! i \<or> slots' ! i = slot_tombstone (lt_slots t ! i)"
      by (auto simp: reaped_def)
    ultimately show ?thesis using lock_slot_ok_tombstone by fastforce
  qed
  moreover have "ids_distinct cfg slots'"
    unfolding ids_distinct_def len
  proof (intro allI impI)
    fix i j assume ij: "i < length (lt_slots t)" "j < length (lt_slots t)" "i \<noteq> j"
      "ls_state (slots' ! i) = SLOT_OCCUPIED" "ls_state (slots' ! j) = SLOT_OCCUPIED"
    have "slots' ! i = lt_slots t ! i" "slots' ! j = lt_slots t ! j"
      using reaped_occupied [OF assms(2)] ij by blast+
    with lock_okD(6) [OF assms(1)] ij show "nid_counter (lc_netid cfg) (ls_lock_id (slots' ! i)) \<noteq>
        nid_counter (lc_netid cfg) (ls_lock_id (slots' ! j))" by (simp add: ids_distinct_def)
  qed
  ultimately show ?thesis
    using assms(1,3) len by (auto simp: lock_ok_def list_all_iff in_set_conv_nth)
qed

lemma lock_ok_update:
  assumes "lock_ok cfg t" "header_grows (lt_header t) h" "i < length (lt_slots t)" "lock_slot_ok cfg h s"
    and "probe_wf lock_emp lock_holds lock_hash ((lt_slots t)[i := s])"
    and "\<And>j. j < length (lt_slots t) \<Longrightarrow> j \<noteq> i \<Longrightarrow> ls_state (lt_slots t ! j) = SLOT_OCCUPIED \<Longrightarrow>
      ls_state s = SLOT_OCCUPIED \<Longrightarrow>
      nid_counter (lc_netid cfg) (ls_lock_id (lt_slots t ! j)) \<noteq> nid_counter (lc_netid cfg) (ls_lock_id s)"
  shows "lock_ok cfg \<lparr>lt_header = h, lt_slots = (lt_slots t)[i := s]\<rparr>"
proof -
  have "\<forall>x\<in>set ((lt_slots t)[i := s]). lock_slot_ok cfg h x"
    using set_update_subset_insert [of "lt_slots t" i s] assms(4) lock_okD(4) [OF assms(1)]
      lock_slot_ok_grows [OF _ assms(2)] by blast
  moreover have "ids_distinct cfg ((lt_slots t)[i := s])"
    unfolding ids_distinct_def length_list_update
  proof (intro allI impI)
    fix a b assume ab: "a < length (lt_slots t)" "b < length (lt_slots t)" "a \<noteq> b"
      "ls_state ((lt_slots t)[i := s] ! a) = SLOT_OCCUPIED" "ls_state ((lt_slots t)[i := s] ! b) = SLOT_OCCUPIED"
    consider "a = i" | "b = i" | "a \<noteq> i" "b \<noteq> i" by blast
    then show "nid_counter (lc_netid cfg) (ls_lock_id ((lt_slots t)[i := s] ! a)) \<noteq>
        nid_counter (lc_netid cfg) (ls_lock_id ((lt_slots t)[i := s] ! b))"
    proof cases
      case 1
      with ab assms(3) assms(6) [of b] show ?thesis by auto
    next
      case 2
      with ab assms(3) assms(6) [of a] show ?thesis by auto
    next
      case 3
      with ab lock_okD(6) [OF assms(1)] show ?thesis by (simp add: ids_distinct_def)
    qed
  qed
  ultimately show ?thesis
    using assms(1,2,5) by (simp add: lock_ok_def list_all_iff header_grows_def)
qed

section \<open>Counters\<close>

lemma mint_lock_id_spec:
  assumes "mint_lock_id cfg h = (h', r)" "lock_cfg_ok cfg" "next_lock h \<le> LOCK_COUNTER_MAX"
  shows "(case r of
      Inl e \<Rightarrow> h' = h \<and> e = IdExhausted \<and> next_lock h = LOCK_COUNTER_MAX
    | Inr i \<Rightarrow> h' = h\<lparr>next_lock := next_lock h + 1\<rparr> \<and> next_lock h < LOCK_COUNTER_MAX \<and>
        nid_counter (lc_netid cfg) i = next_lock h + 1 \<and> nid_node (lc_netid cfg) i = lc_node_id cfg \<and>
        nid_kind (lc_netid cfg) i = lc_state_kind cfg)"
proof -
  have "LOCK_COUNTER_MAX + 1 \<le> u64_max" by (simp add: LOCK_COUNTER_MAX_def u64_max_def)
  with assms netid_lawsD [of "lc_netid cfg" "lc_state_kind cfg" "lc_node_id cfg" "next_lock h + 1"]
  show ?thesis
    by (auto simp: mint_lock_id_def lock_cfg_ok_def LOCK_COUNTER_MAX_def NETID_COUNTER_MAX_def
        checked_add_def split: if_splits)
qed

lemma mint_revision_spec:
  assumes "mint_revision h = (h', r)" "next_revision h \<le> u64_max"
  shows "(case r of
      Inl e \<Rightarrow> h' = h \<and> e = IdExhausted \<and> next_revision h = u64_max
    | Inr v \<Rightarrow> h' = h\<lparr>next_revision := next_revision h + 1\<rparr> \<and> v = next_revision h + 1 \<and> next_revision h < u64_max)"
  using assms by (auto simp: mint_revision_def checked_add_def split: if_splits)

lemma header_grows_refl: "next_lock h \<le> LOCK_COUNTER_MAX \<Longrightarrow> next_revision h \<le> u64_max \<Longrightarrow> header_grows h h"
  by (simp add: header_grows_def)

section \<open>Validation\<close>

lemma validate_entry_fits:
  assumes "lock_validate_entry cfg key owner = Inr u" "lc_payload_max cfg \<le> u32_max"
  shows "lease_fits cfg \<lparr>ll_lock_id = i, ll_key = key, ll_owner = owner, ll_acquired_at_ms = a,
      ll_expires_at_ms = e, ll_state_revision = r\<rparr>"
    and "lk_namespace key \<noteq> []" "lk_label key \<noteq> []" "owner \<noteq> []"
  using assms
  by (auto simp: lock_validate_entry_def lock_validate_key_def lease_fits_def saturating_add_def
      u32_max_def u64_max_def split: sum.splits if_splits)

section \<open>The live map after a slot write\<close>

lemma live_update:
  assumes "table_size slots" "probe_wf lock_emp lock_holds lock_hash slots"
    "probe_wf lock_emp lock_holds lock_hash (slots[i := s])" "i < length slots"
    and s: "lock_holds s key \<or> (\<forall>k. \<not> lock_holds s k)"
    and old: "\<And>k. lock_holds (slots ! i) k \<Longrightarrow> k = key"
    and other: "\<And>j. j < length slots \<Longrightarrow> j \<noteq> i \<Longrightarrow> \<not> lock_holds (slots ! j) key"
  shows "live u (slots[i := s]) = (live u slots)(key :=
    if lock_holds s key \<and> u < ls_expires_at_ms s then Some (slot_lease s) else None)"
proof (rule map_eqI)
  fix k l
  have ts: "table_size (slots[i := s])" using assms(1) by (simp add: table_size_def)
  have sk: "\<not> lock_holds s k" if "k \<noteq> key" using s that lkt.holds_unique by blast
  show "live u (slots[i := s]) k = Some l \<longleftrightarrow> ((live u slots)(key :=
      if lock_holds s key \<and> u < ls_expires_at_ms s then Some (slot_lease s) else None)) k = Some l"
  proof (cases "k = key")
    case True
    with assms(4) other show ?thesis by (auto simp: live_iff [OF ts assms(3)] nth_list_update)
  next
    case False
    with assms(4) sk old show ?thesis
      by (fastforce simp: live_iff [OF ts assms(3)] live_iff [OF assms(1,2)] nth_list_update)
  qed
qed

lemma slot_write_ok:
  assumes "lease_fits cfg l" "length (ls_payload s) = lc_payload_max cfg"
    and "0 < nid_counter (lc_netid cfg) (ll_lock_id l)" "nid_counter (lc_netid cfg) (ll_lock_id l) \<le> next_lock h"
    and "ll_state_revision l \<le> next_revision h"
  shows "lock_slot_ok cfg h (slot_write s (lock_hash (ll_key l)) l)"
proof -
  have "slot_key (slot_write s (lock_hash (ll_key l)) l) = ll_key l"
    using slot_write_lease(1) [OF assms(1,2)] by (metis slot_lease_key)
  then show ?thesis
    using assms slot_write_lease(2) [OF assms(1,2)]
    by (simp add: lock_slot_ok_def) (simp add: slot_write_def Let_def lease_fits_def u16_max_def)
qed

section \<open>acquire\<close>

text \<open>The lease \<open>acquire\<close> grants, in terms of the table before it.\<close>

definition granted :: "lock_cfg \<Rightarrow> lock_table \<Rightarrow> lock_key \<Rightarrow> lock_owner \<Rightarrow> nat \<Rightarrow> nat \<Rightarrow> lock_lease \<Rightarrow> bool" where
  "granted cfg t key owner now_ms expires_at_ms l \<longleftrightarrow>
     ll_key l = key \<and> ll_owner l = owner \<and> ll_acquired_at_ms l = now_ms \<and> ll_expires_at_ms l = expires_at_ms \<and>
     lease_fencing_token (lc_netid cfg) l = next_lock (lt_header t) + 1 \<and>
     ll_state_revision l = next_revision (lt_header t) + 1"

lemma acquire_scan_table:
  assumes "lock_cfg_ok cfg" "lock_ok cfg t"
    and "acquire_scan (lt_slots t) (lock_hash key) key now None [0..<length (lt_slots t)] = (slots, r)"
  shows "reaped now (lt_slots t) slots" "probe_wf lock_emp lock_holds lock_hash slots"
    "scan_result (lock_hash key) key now slots r" "length slots = length (lt_slots t)"
    "table_size slots" "lock_ok cfg (t\<lparr>lt_slots := slots\<rparr>)"
    "\<And>u. now \<le> u \<Longrightarrow> live u slots = live u (lt_slots t)"
proof -
  have "scan_state 0 (lock_hash key) key now None (lt_slots t)" by (simp add: scan_state_def)
  from acquire_scan_spec [OF assms(3) this _ lock_ok_size [OF assms(1,2)] lock_okD(5) [OF assms(2)] refl
      lock_ok_states [OF assms(2)]]
  show r: "reaped now (lt_slots t) slots" "probe_wf lock_emp lock_holds lock_hash slots"
    "scan_result (lock_hash key) key now slots r" by auto
  then show len: "length slots = length (lt_slots t)" by (simp add: reaped_def)
  then show "table_size slots" using lock_ok_size [OF assms(1,2)] by (simp add: table_size_def)
  show "lock_ok cfg (t\<lparr>lt_slots := slots\<rparr>)" by (rule lock_ok_reaped [OF assms(2) r(1,2)])
  show "live u slots = live u (lt_slots t)" if "now \<le> u" for u
    by (rule reaped_live [OF r(1) that lock_ok_size [OF assms(1,2)] lock_okD(5) [OF assms(2)] r(2)])
qed

lemma acquire_install:
  assumes "lock_cfg_ok cfg" "lock_ok cfg t" "lease_fits cfg l"
    and r: "scan_result (lock_hash (ll_key l)) (ll_key l) now (lt_slots t) (Inr (Some i))"
    and h: "header_grows (lt_header t) h" "next_lock (lt_header t) < nid_counter (lc_netid cfg) (ll_lock_id l)"
      "nid_counter (lc_netid cfg) (ll_lock_id l) \<le> next_lock h" "ll_state_revision l \<le> next_revision h"
  defines "s \<equiv> slot_write (lt_slots t ! i) (lock_hash (ll_key l)) l"
  shows "lock_ok cfg \<lparr>lt_header = h, lt_slots = (lt_slots t)[i := s]\<rparr>"
    and "live u ((lt_slots t)[i := s]) =
      (live u (lt_slots t))(ll_key l := if u < ll_expires_at_ms l then Some l else None)"
proof -
  let ?n = "length (lt_slots t)"
  note ts = lock_ok_size [OF assms(1,2)] and wf = lock_okD(5) [OF assms(2)]
  from r obtain d where d: "d < ?n" "i = probe_index (lock_hash (ll_key l)) d ?n"
    "ls_state (lt_slots t ! i) \<noteq> SLOT_OCCUPIED"
    "\<forall>e<d. \<not> lock_emp (lt_slots t ! probe_index (lock_hash (ll_key l)) e ?n)"
    and absent: "\<forall>j<?n. \<not> lock_holds (lt_slots t ! j) (ll_key l)" by (auto simp: scan_result_def)
  have i: "i < ?n" using probe_index_less [OF ts d(1)] d(2) by simp
  have len: "length (ls_payload (lt_slots t ! i)) = lc_payload_max cfg"
    using lock_okD(4) [OF assms(2)] i by (simp add: lock_slot_ok_def)
  have hs: "lock_holds s (ll_key l)" unfolding s_def by (rule slot_write_holds [OF assms(3) len refl])
  have wf': "probe_wf lock_emp lock_holds lock_hash ((lt_slots t)[i := s])"
    unfolding d(2) by (rule lkt.wf_insert [OF wf ts d(1,4) hs absent])
  have sok: "lock_slot_ok cfg h s" unfolding s_def
    by (rule slot_write_ok [OF assms(3) len _ h(3,4)]) (use h(2) in simp)
  have fresh: "nid_counter (lc_netid cfg) (ls_lock_id (lt_slots t ! j)) \<noteq> nid_counter (lc_netid cfg) (ls_lock_id s)"
    if "j < ?n" "ls_state (lt_slots t ! j) = SLOT_OCCUPIED" for j
  proof -
    have "lock_slot_ok cfg (lt_header t) (lt_slots t ! j)" using lock_okD(4) [OF assms(2)] that(1) by simp
    with that(2) h(2) show ?thesis by (simp add: s_def lock_slot_ok_def)
  qed
  show "lock_ok cfg \<lparr>lt_header = h, lt_slots = (lt_slots t)[i := s]\<rparr>"
    by (rule lock_ok_update [OF assms(2) h(1) i sok wf']) (use fresh in blast)
  have sl: "slot_lease s = l" "ls_expires_at_ms s = ll_expires_at_ms l"
    unfolding s_def using slot_write_lease [OF assms(3) len] by simp_all
  have "live u ((lt_slots t)[i := s]) = (live u (lt_slots t))(ll_key l :=
      if lock_holds s (ll_key l) \<and> u < ls_expires_at_ms s then Some (slot_lease s) else None)"
    by (rule live_update [OF ts wf wf' i]) (use hs d(3) lock_holds_occupied absent in blast)+
  then show "live u ((lt_slots t)[i := s]) =
      (live u (lt_slots t))(ll_key l := if u < ll_expires_at_ms l then Some l else None)"
    by (simp only: sl hs simp_thms)
qed

text \<open>The granting half of \<open>acquire\<close>: the scan left an insertion slot.\<close>

lemma acquire_granting:
  assumes "lock_cfg_ok cfg" "lock_ok cfg t" "lock_validate_entry cfg key owner = Inr v"
    and sc: "acquire_scan (lt_slots t) (lock_hash key) key now None [0..<length (lt_slots t)] = (slots, Inr (Some i))"
    and op: "lock_acquire_op cfg publish w t key owner now expires = (w', t', r)"
  shows "lock_ok cfg t' \<and>
    (case r of
       Inl e \<Rightarrow> next_lock (lt_header t) \<le> next_lock (lt_header t') \<and>
         (\<forall>u\<ge>now. live u (lt_slots t') = live u (lt_slots t))
     | Inr (LkOccupied l) \<Rightarrow> live now (lt_slots t) key = Some l \<and> lt_header t' = lt_header t \<and> w' = w \<and>
         (\<forall>u\<ge>now. live u (lt_slots t') = live u (lt_slots t))
     | Inr (LkAcquired l) \<Rightarrow> live now (lt_slots t) key = None \<and> granted cfg t key owner now expires l \<and>
         next_lock (lt_header t') = next_lock (lt_header t) + 1 \<and>
         (\<forall>u\<ge>now. live u (lt_slots t') = (live u (lt_slots t))(key := if u < expires then Some l else None)))"
proof -
  note scan = acquire_scan_table [OF assms(1,2) sc]
  let ?t1 = "t\<lparr>lt_slots := slots\<rparr>"
  have none: "live now (lt_slots t) key = None"
    using scan(3) scan(7) [of now] live_iff [OF scan(5,2), of now key]
    by (auto simp: scan_result_def) (metis not_None_eq)
  obtain h1 r1 where m1: "mint_lock_id cfg (lt_header t) = (h1, r1)" by fastforce
  note s1 = mint_lock_id_spec [OF m1 assms(1) lock_okD(2) [OF assms(2)]]
  show ?thesis
  proof (cases r1)
    case (Inl e)
    with s1 have "h1 = lt_header t" by simp
    with op assms(3) sc m1 Inl have "t' = ?t1" "r = Inl e" by (auto simp: lock_acquire_op_def Let_def)
    with scan(6,7) show ?thesis by simp
  next
    case r1: (Inr lock_id)
    obtain h2 r2 where m2: "mint_revision h1 = (h2, r2)" by fastforce
    from s1 r1 lock_okD(3) [OF assms(2)] have rev: "next_revision h1 \<le> u64_max" by simp
    note s2 = mint_revision_spec [OF m2 rev]
    have grows: "header_grows (lt_header t) h2"
      using s1 s2 r1 lock_okD(2,3) [OF assms(2)] by (auto simp: header_grows_def split: sum.splits)
    have ok2: "lock_ok cfg \<lparr>lt_header = h2, lt_slots = slots\<rparr>"
      using lock_ok_header [OF scan(6), of h2] grows by (cases t) simp
    show ?thesis
    proof (cases r2)
      case (Inl e)
      with op assms(3) sc m1 m2 r1 have "t' = \<lparr>lt_header = h2, lt_slots = slots\<rparr>" "r = Inl e"
        by (auto simp: lock_acquire_op_def Let_def)
      with ok2 scan(7) grows show ?thesis by (simp add: header_grows_def)
    next
      case r2: (Inr revision)
      define l where "l = \<lparr>ll_lock_id = lock_id, ll_key = key, ll_owner = owner, ll_acquired_at_ms = now,
        ll_expires_at_ms = expires, ll_state_revision = revision\<rparr>"
      obtain w1 p where pub: "publish w (TrAcquired l) = (w1, p)" by fastforce
      have l: "granted cfg t key owner now expires l" "ll_key l = key" "ll_expires_at_ms l = expires"
        using s1 s2 r1 r2 by (auto simp: granted_def l_def lease_fencing_token_def)
      show ?thesis
      proof (cases p)
        case (Inl e)
        with op assms(3) sc m1 m2 r1 r2 pub have "t' = \<lparr>lt_header = h2, lt_slots = slots\<rparr>" "r = Inl e"
          by (auto simp: lock_acquire_op_def Let_def l_def)
        with ok2 scan(7) grows show ?thesis by (simp add: header_grows_def)
      next
        case p: (Inr x)
        with op assms(3) sc m1 m2 r1 r2 pub
        have res: "t' = \<lparr>lt_header = h2, lt_slots = slots[i := slot_write (slots ! i) (lock_hash (ll_key l)) l]\<rparr>"
          "r = Inr (LkAcquired l)" by (auto simp: lock_acquire_op_def Let_def l_def)
        have fits: "lease_fits cfg l"
          unfolding l_def using validate_entry_fits [OF assms(3)] assms(1) by (simp add: lock_cfg_ok_def)
        have inst: "lock_ok cfg \<lparr>lt_header = h2, lt_slots = slots[i := slot_write (slots ! i) (lock_hash (ll_key l)) l]\<rparr>"
          "live u (slots[i := slot_write (slots ! i) (lock_hash (ll_key l)) l]) =
            (live u slots)(ll_key l := if u < ll_expires_at_ms l then Some l else None)" for u
          using acquire_install(1) [OF assms(1) scan(6) fits, where now = now and i = i and h = h2]
            acquire_install(2) [OF assms(1) scan(6) fits, where now = now and i = i and h = h2 and u = u]
            scan(3) grows s1 s2 r1 r2 l
          by (auto simp: l_def)
        with res none l scan(7) s1 s2 r1 r2 show ?thesis by auto
      qed
    qed
  qed
qed

lemma acquire_outcome:
  assumes "lock_cfg_ok cfg" "lock_ok cfg t"
    and "lock_acquire_op cfg publish w t key owner now expires = (w', t', r)"
  shows "lock_ok cfg t' \<and>
    (case r of
       Inl e \<Rightarrow> next_lock (lt_header t) \<le> next_lock (lt_header t') \<and>
         (\<forall>u\<ge>now. live u (lt_slots t') = live u (lt_slots t))
     | Inr (LkOccupied l) \<Rightarrow> live now (lt_slots t) key = Some l \<and> lt_header t' = lt_header t \<and> w' = w \<and>
         (\<forall>u\<ge>now. live u (lt_slots t') = live u (lt_slots t))
     | Inr (LkAcquired l) \<Rightarrow> live now (lt_slots t) key = None \<and> granted cfg t key owner now expires l \<and>
         next_lock (lt_header t') = next_lock (lt_header t) + 1 \<and>
         (\<forall>u\<ge>now. live u (lt_slots t') = (live u (lt_slots t))(key := if u < expires then Some l else None)))"
proof (cases "lock_validate_entry cfg key owner")
  case (Inl e)
  with assms show ?thesis by (auto simp: lock_acquire_op_def Let_def)
next
  case (Inr v)
  obtain slots found where sc: "acquire_scan (lt_slots t) (lock_hash key) key now None [0..<length (lt_slots t)] = (slots, found)"
    by fastforce
  note scan = acquire_scan_table [OF assms(1,2) sc]
  let ?t1 = "t\<lparr>lt_slots := slots\<rparr>"
  have okL: "lock_ok cfg t \<and> lock_ok cfg ?t1" using assms(2) scan(6) by simp
  consider (occ) l where "found = Inl l" | (full) "found = Inr None" | (ins) i where "found = Inr (Some i)"
    by (metis old.sum.exhaust option.exhaust)
  then show ?thesis
  proof cases
    case occ
    then have res: "t' = ?t1" "w' = w" "r = Inr (LkOccupied l)"
      using assms(3) Inr sc by (auto simp: lock_acquire_op_def Let_def)
    have "live now slots key = Some l"
      using scan(3) occ unfolding live_iff [OF scan(5,2)] by (auto simp: scan_result_def)
    with res scan(6,7) show ?thesis by simp
  next
    case full
    then have "t' = ?t1" "r = Inl (LockStateFull (length slots))"
      using assms(3) Inr sc by (auto simp: lock_acquire_op_def Let_def)
    with scan(6,7) show ?thesis by simp
  next
    case ins
    from acquire_granting [OF assms(1,2) Inr sc [unfolded ins] assms(3)] show ?thesis .
  qed
qed

section \<open>renew, release and current\<close>

lemma live_slot_spec:
  assumes "lock_cfg_ok cfg" "lock_ok cfg t" "live_slot (lt_slots t) key now = (slots, r)"
  shows "lock_ok cfg (t\<lparr>lt_slots := slots\<rparr>)" "\<And>u. now \<le> u \<Longrightarrow> live u slots = live u (lt_slots t)"
    "case r of None \<Rightarrow> live now (lt_slots t) key = None
     | Some i \<Rightarrow> slots = lt_slots t \<and> i < length slots \<and> lock_holds (slots ! i) key \<and>
         now < ls_expires_at_ms (slots ! i) \<and> live now (lt_slots t) key = Some (slot_lease (slots ! i))"
proof -
  note ts = lock_ok_size [OF assms(1,2)] and wf = lock_okD(5) [OF assms(2)]
  have "lock_ok cfg (t\<lparr>lt_slots := slots\<rparr>) \<and> (\<forall>u\<ge>now. live u slots = live u (lt_slots t)) \<and>
    (case r of None \<Rightarrow> live now (lt_slots t) key = None
     | Some i \<Rightarrow> slots = lt_slots t \<and> i < length slots \<and> lock_holds (slots ! i) key \<and>
         now < ls_expires_at_ms (slots ! i) \<and> live now (lt_slots t) key = Some (slot_lease (slots ! i)))"
  proof (cases "lock_find_slot (lt_slots t) (lock_hash key) key")
    case None
    then have "live now (lt_slots t) key = None" by (simp add: live_def tenure_def)
    with None assms show ?thesis by (auto simp: live_slot_def)
  next
    case (Some i)
    then have i: "i < length (lt_slots t)" "lock_holds (lt_slots t ! i) key"
      using lock_find_iff [OF ts wf] by auto
    show ?thesis
    proof (cases "ls_expires_at_ms (lt_slots t ! i) \<le> now")
      case True
      then have ex: "expired_slot now (lt_slots t ! i)"
        using i lock_holds_occupied by (simp add: expired_slot_def)
      from True Some assms(3) have res: "slots = (lt_slots t)[i := slot_tombstone (lt_slots t ! i)]" "r = None"
        by (auto simp: live_slot_def)
      have wf': "probe_wf lock_emp lock_holds lock_hash slots"
        unfolding res by (rule lkt.wf_update_shrink [OF wf i(1)]) auto
      have rp: "reaped now (lt_slots t) slots" unfolding res by (rule reaped_one [OF i(1) ex])
      from True Some have "live now (lt_slots t) key = None"
        by (simp add: live_def tenure_def lease_is_expired_at_def)
      with res(2) lock_ok_reaped [OF assms(2) rp wf'] reaped_live [OF rp _ ts wf wf'] show ?thesis by simp
    next
      case False
      with Some assms(3) have "slots = lt_slots t" "r = Some i" by (auto simp: live_slot_def)
      with False Some i assms(2) show ?thesis
        by (simp add: live_def tenure_def lease_is_expired_at_def)
    qed
  qed
  then show "lock_ok cfg (t\<lparr>lt_slots := slots\<rparr>)" "\<And>u. now \<le> u \<Longrightarrow> live u slots = live u (lt_slots t)"
    "case r of None \<Rightarrow> live now (lt_slots t) key = None
     | Some i \<Rightarrow> slots = lt_slots t \<and> i < length slots \<and> lock_holds (slots ! i) key \<and>
         now < ls_expires_at_ms (slots ! i) \<and> live now (lt_slots t) key = Some (slot_lease (slots ! i))"
    by blast+
qed

text \<open>Overwriting the one slot that holds a key, by its own renewed lease or by a tombstone.\<close>

lemma only_holder:
  assumes "lock_ok cfg t" "i < length (lt_slots t)" "lock_holds (lt_slots t ! i) key"
  shows "\<And>k. lock_holds (lt_slots t ! i) k \<Longrightarrow> k = key"
    "\<And>j. j < length (lt_slots t) \<Longrightarrow> j \<noteq> i \<Longrightarrow> \<not> lock_holds (lt_slots t ! j) key"
  using assms lkt.holds_unique lkt.wf_unique [OF lock_okD(5) [OF assms(1)]] by blast+

lemma slot_lease_fits:
  assumes "lock_slot_ok cfg h s" "ls_state s = SLOT_OCCUPIED"
  shows "lease_fits cfg (slot_lease s)"
  using assms by (auto simp: lock_slot_ok_def lease_fits_def slot_lease_def namespace_bytes_def
      key_bytes_def slot_owner_def Let_def sub_slice_def simp del: slot_lease_key slot_lease_owner)

lemma renew_slot_outcome:
  assumes "lock_cfg_ok cfg" "lock_ok cfg t" "i < length (lt_slots t)" "lock_holds (lt_slots t ! i) key"
    and "renew_slot publish w t i requested = (w', t', r)"
  shows "lock_ok cfg t' \<and> next_lock (lt_header t') = next_lock (lt_header t) \<and>
    (case r of
       Inl e \<Rightarrow> lt_slots t' = lt_slots t
     | Inr None \<Rightarrow> False
     | Inr (Some l) \<Rightarrow>
         l = (slot_lease (lt_slots t ! i))\<lparr>ll_expires_at_ms := max (ls_expires_at_ms (lt_slots t ! i)) requested,
               ll_state_revision := next_revision (lt_header t) + 1\<rparr> \<and>
         (\<forall>u. live u (lt_slots t') = (live u (lt_slots t))(key := if u < ll_expires_at_ms l then Some l else None)))"
proof -
  let ?s = "lt_slots t ! i"
  note ts = lock_ok_size [OF assms(1,2)] and wf = lock_okD(5) [OF assms(2)]
  have sok: "lock_slot_ok cfg (lt_header t) ?s" using lock_okD(4) [OF assms(2)] assms(3) by simp
  have occ: "ls_state ?s = SLOT_OCCUPIED" by (rule lock_holds_occupied [OF assms(4)])
  obtain h r1 where m: "mint_revision (lt_header t) = (h, r1)" by fastforce
  note ms = mint_revision_spec [OF m lock_okD(3) [OF assms(2)]]
  have grows: "header_grows (lt_header t) h" and nl: "next_lock h = next_lock (lt_header t)"
    using ms lock_okD(2,3) [OF assms(2)] by (auto simp: header_grows_def split: sum.splits)
  show ?thesis
  proof (cases r1)
    case (Inl e)
    with assms(5) m have "t' = t\<lparr>lt_header := h\<rparr>" "r = Inl e" by (auto simp: renew_slot_def Let_def)
    with lock_ok_header [OF assms(2) grows] nl show ?thesis by simp
  next
    case r1: (Inr revision)
    define l where "l = (slot_lease ?s)\<lparr>ll_expires_at_ms := max (ls_expires_at_ms ?s) requested,
      ll_state_revision := revision\<rparr>"
    obtain w1 p where pub: "publish w (TrRenewed l) = (w1, p)" by fastforce
    show ?thesis
    proof (cases p)
      case (Inl e)
      with assms(5) m r1 pub have "t' = t\<lparr>lt_header := h\<rparr>" "r = Inl e"
        by (auto simp: renew_slot_def Let_def l_def)
      with lock_ok_header [OF assms(2) grows] nl show ?thesis by simp
    next
      case (Inr x)
      let ?s' = "slot_write ?s (lock_hash (ll_key l)) l"
      have key: "ll_key l = key" "ls_key_hash ?s = lock_hash (ll_key l)"
        using lock_holds_key [OF assms(4)] sok occ by (auto simp: l_def lock_slot_ok_def)
      from Inr assms(5) m r1 pub key(2) have res: "t' = \<lparr>lt_header = h, lt_slots = (lt_slots t)[i := ?s']\<rparr>" "r = Inr (Some l)"
        by (auto simp: renew_slot_def Let_def l_def)
      have fits: "lease_fits cfg l" using slot_lease_fits [OF sok occ] by (simp add: l_def lease_fits_def)
      have len: "length (ls_payload ?s) = lc_payload_max cfg" using sok by (simp add: lock_slot_ok_def)
      have hs: "lock_holds ?s' key" using slot_write_holds [OF fits len refl] key(1) by simp
      have sok': "lock_slot_ok cfg h ?s'"
        using sok occ ms r1 grows by (intro slot_write_ok [OF fits len]) (auto simp: l_def lock_slot_ok_def header_grows_def)
      have wf': "probe_wf lock_emp lock_holds lock_hash ((lt_slots t)[i := ?s'])"
        using hs lkt.holds_unique lkt.holds_not_emp assms(4)
        by (intro lkt.wf_update_shrink [OF wf assms(3)]) blast+
      have ok': "lock_ok cfg t'" unfolding res
        by (rule lock_ok_update [OF assms(2) grows assms(3) sok' wf'])
           (use lock_okD(6) [OF assms(2)] occ assms(3) in \<open>auto simp: ids_distinct_def l_def\<close>)
      have lease': "slot_lease ?s' = l" "ls_expires_at_ms ?s' = ll_expires_at_ms l"
        using slot_write_lease [OF fits len] by simp_all
      have "live u ((lt_slots t)[i := ?s']) = (live u (lt_slots t))(key :=
          if lock_holds ?s' key \<and> u < ls_expires_at_ms ?s' then Some (slot_lease ?s') else None)" for u
        by (rule live_update [OF ts wf wf' assms(3)]) (use hs only_holder [OF assms(2-4)] in blast)+
      then have "live u (lt_slots t') = (live u (lt_slots t))(key := if u < ll_expires_at_ms l then Some l else None)" for u
        using res(1) by (simp only: lease' hs simp_thms lock_table.simps)
      with ok' res ms r1 nl show ?thesis by (simp add: l_def)
    qed
  qed
qed

lemma release_slot_outcome:
  assumes "lock_cfg_ok cfg" "lock_ok cfg t" "i < length (lt_slots t)" "lock_holds (lt_slots t ! i) key"
    and "release_slot publish w t i = (w', t', r)"
  shows "lock_ok cfg t' \<and> next_lock (lt_header t') = next_lock (lt_header t) \<and>
    (case r of
       Inl e \<Rightarrow> lt_slots t' = lt_slots t
     | Inr b \<Rightarrow> b \<and> (\<forall>u. live u (lt_slots t') = (live u (lt_slots t))(key := None)))"
proof -
  let ?s = "lt_slots t ! i"
  note ts = lock_ok_size [OF assms(1,2)] and wf = lock_okD(5) [OF assms(2)]
  have sok: "lock_slot_ok cfg (lt_header t) ?s" using lock_okD(4) [OF assms(2)] assms(3) by simp
  obtain h r1 where m: "mint_revision (lt_header t) = (h, r1)" by fastforce
  note ms = mint_revision_spec [OF m lock_okD(3) [OF assms(2)]]
  have grows: "header_grows (lt_header t) h" and nl: "next_lock h = next_lock (lt_header t)"
    using ms lock_okD(2,3) [OF assms(2)] by (auto simp: header_grows_def split: sum.splits)
  have wf': "probe_wf lock_emp lock_holds lock_hash ((lt_slots t)[i := slot_tombstone ?s])"
    by (rule lkt.wf_update_shrink [OF wf assms(3)]) auto
  have ok': "lock_ok cfg \<lparr>lt_header = h, lt_slots = (lt_slots t)[i := slot_tombstone ?s]\<rparr>"
    by (rule lock_ok_update [OF assms(2) grows assms(3) _ wf'])
       (use lock_slot_ok_tombstone [OF lock_slot_ok_grows [OF sok grows]] in auto)
  have dead: "live u ((lt_slots t)[i := slot_tombstone ?s]) = (live u (lt_slots t))(key := None)" for u
    using live_update [OF ts wf wf' assms(3), of key u] only_holder [OF assms(2-4)] by auto
  show ?thesis
  proof (cases r1)
    case (Inl e)
    with assms(5) m have "t' = t\<lparr>lt_header := h\<rparr>" "r = Inl e" by (auto simp: release_slot_def Let_def)
    with lock_ok_header [OF assms(2) grows] nl show ?thesis by simp
  next
    case r1: (Inr revision)
    obtain w1 p where pub: "publish w (TrReleased (ls_lock_id ?s) (slot_key ?s) (slot_owner ?s) revision) = (w1, p)"
      by fastforce
    show ?thesis
    proof (cases p)
      case (Inl e)
      with assms(5) m r1 pub have "t' = t\<lparr>lt_header := h\<rparr>" "r = Inl e" by (auto simp: release_slot_def Let_def)
      with lock_ok_header [OF assms(2) grows] nl show ?thesis by simp
    next
      case (Inr x)
      with assms(5) m r1 pub
      have "t' = \<lparr>lt_header = h, lt_slots = (lt_slots t)[i := slot_tombstone ?s]\<rparr>" "r = Inr True"
        by (auto simp: release_slot_def Let_def)
      with ok' dead nl show ?thesis by simp
    qed
  qed
qed

end
