(* ===== verification/Lock_Contract.thy ===== *)
theory Lock_Contract
  imports Lock_Ops
begin

text \<open>
  The contract of the lock table as its callers see it: what acquiring, renewing, releasing, reading
  and resetting do to the map of live leases, that a live lease survives every operation except a
  release of that very lease, and that a fenced resource never admits a superseded holder.
\<close>

section \<open>Operations on the lease that satisfies a caller's claim\<close>

text \<open>
  \<open>renew_id\<close>/\<open>renew_owner\<close> and \<open>release_id\<close>/\<open>release_owner\<close>/\<open>force_release\<close> differ only in the claim
  \<open>mine\<close> the caller makes on the live lease.
\<close>

definition renew_where ::
    "(lock_lease \<Rightarrow> bool) \<Rightarrow> 'w publish \<Rightarrow> 'w \<Rightarrow> lock_table \<Rightarrow> lock_key \<Rightarrow> nat \<Rightarrow> nat
      \<Rightarrow> 'w \<times> lock_table \<times> (lock_error + lock_lease option)" where
  "renew_where mine publish w t key now_ms requested =
     (case live_slot (lt_slots t) key now_ms of
        (slots, None) \<Rightarrow> (w, t\<lparr>lt_slots := slots\<rparr>, Inr None)
      | (slots, Some index) \<Rightarrow>
          if \<not> mine (slot_lease (slots ! index)) then (w, t\<lparr>lt_slots := slots\<rparr>, Inr None)
          else renew_slot publish w (t\<lparr>lt_slots := slots\<rparr>) index requested)"

definition release_where ::
    "(lock_lease \<Rightarrow> bool) \<Rightarrow> 'w publish \<Rightarrow> 'w \<Rightarrow> lock_table \<Rightarrow> lock_key \<Rightarrow> nat
      \<Rightarrow> 'w \<times> lock_table \<times> (lock_error + bool)" where
  "release_where mine publish w t key now_ms =
     (case live_slot (lt_slots t) key now_ms of
        (slots, None) \<Rightarrow> (w, t\<lparr>lt_slots := slots\<rparr>, Inr False)
      | (slots, Some index) \<Rightarrow>
          if \<not> mine (slot_lease (slots ! index)) then (w, t\<lparr>lt_slots := slots\<rparr>, Inr False)
          else release_slot publish w (t\<lparr>lt_slots := slots\<rparr>) index)"

lemma renew_id_where:
  "renew_id cfg publish w t lease now requested =
     (case lock_validate_entry cfg (ll_key lease) (ll_owner lease) of Inl e \<Rightarrow> (w, t, Inl e)
      | Inr _ \<Rightarrow> renew_where (\<lambda>l. ll_lock_id l = ll_lock_id lease) publish w t (ll_key lease) now requested)"
  by (simp add: renew_id_def renew_where_def split: sum.split prod.split option.split)

lemma renew_owner_where:
  "renew_owner cfg publish w t key owner now requested =
     (case lock_validate_entry cfg key owner of Inl e \<Rightarrow> (w, t, Inl e)
      | Inr _ \<Rightarrow> renew_where (\<lambda>l. ll_owner l = owner) publish w t key now requested)"
  by (simp add: renew_owner_def renew_where_def split: sum.split prod.split option.split)

lemma release_id_where:
  "release_id cfg publish w t lease now =
     (case lock_validate_entry cfg (ll_key lease) (ll_owner lease) of Inl e \<Rightarrow> (w, t, Inl e)
      | Inr _ \<Rightarrow> release_where (\<lambda>l. ll_lock_id l = ll_lock_id lease) publish w t (ll_key lease) now)"
  by (simp add: release_id_def release_where_def split: sum.split prod.split option.split)

lemma release_owner_where:
  "release_owner cfg publish w t key owner now =
     (case lock_validate_entry cfg key owner of Inl e \<Rightarrow> (w, t, Inl e)
      | Inr _ \<Rightarrow> release_where (\<lambda>l. ll_owner l = owner) publish w t key now)"
  by (simp add: release_owner_def release_where_def split: sum.split prod.split option.split)

lemma force_release_where:
  "force_release cfg publish w t key now =
     (case lock_validate_key cfg key of Inl e \<Rightarrow> (w, t, Inl e)
      | Inr _ \<Rightarrow> release_where (\<lambda>l. True) publish w t key now)"
  by (simp add: force_release_def release_where_def live_slot_def Let_def split: sum.split prod.split option.split)

lemma renew_where_outcome:
  assumes "lock_cfg_ok cfg" "lock_ok cfg t" "renew_where mine publish w t key now requested = (w', t', r)"
  shows "lock_ok cfg t' \<and> next_lock (lt_header t') = next_lock (lt_header t) \<and>
    (case r of
       Inl e \<Rightarrow> \<forall>u\<ge>now. live u (lt_slots t') = live u (lt_slots t)
     | Inr None \<Rightarrow> (\<forall>cur. live now (lt_slots t) key = Some cur \<longrightarrow> \<not> mine cur) \<and>
         (\<forall>u\<ge>now. live u (lt_slots t') = live u (lt_slots t))
     | Inr (Some l) \<Rightarrow> \<exists>cur. live now (lt_slots t) key = Some cur \<and> mine cur \<and>
         l = cur\<lparr>ll_expires_at_ms := max (ll_expires_at_ms cur) requested,
               ll_state_revision := next_revision (lt_header t) + 1\<rparr> \<and>
         (\<forall>u\<ge>now. live u (lt_slots t') = (live u (lt_slots t))(key := if u < ll_expires_at_ms l then Some l else None)))"
proof -
  obtain slots found where ls: "live_slot (lt_slots t) key now = (slots, found)" by fastforce
  note sp = live_slot_spec [OF assms(1,2) ls]
  show ?thesis
  proof (cases "\<exists>i. found = Some i \<and> mine (slot_lease (slots ! i))")
    case False
    with assms(3) ls have "t' = t\<lparr>lt_slots := slots\<rparr>" "r = Inr None"
      by (auto simp: renew_where_def split: option.splits)
    with sp False show ?thesis by (auto split: option.splits)
  next
    case True
    then obtain i where i: "found = Some i" "mine (slot_lease (slots ! i))" by blast
    with sp(3) have sl: "slots = lt_slots t" "i < length (lt_slots t)" "lock_holds (lt_slots t ! i) key"
      "live now (lt_slots t) key = Some (slot_lease (lt_slots t ! i))" by auto
    with i assms(3) ls have op: "renew_slot publish w t i requested = (w', t', r)"
      by (auto simp: renew_where_def)
    from renew_slot_outcome [OF assms(1,2) sl(2,3) op] sl(4) i(2) sl(1) show ?thesis
      by (auto split: sum.splits option.splits)
  qed
qed

lemma release_where_outcome:
  assumes "lock_cfg_ok cfg" "lock_ok cfg t" "release_where mine publish w t key now = (w', t', r)"
  shows "lock_ok cfg t' \<and> next_lock (lt_header t') = next_lock (lt_header t) \<and>
    (case r of
       Inl e \<Rightarrow> \<forall>u\<ge>now. live u (lt_slots t') = live u (lt_slots t)
     | Inr False \<Rightarrow> (\<forall>cur. live now (lt_slots t) key = Some cur \<longrightarrow> \<not> mine cur) \<and>
         (\<forall>u\<ge>now. live u (lt_slots t') = live u (lt_slots t))
     | Inr True \<Rightarrow> (\<exists>cur. live now (lt_slots t) key = Some cur \<and> mine cur) \<and>
         (\<forall>u\<ge>now. live u (lt_slots t') = (live u (lt_slots t))(key := None)))"
proof -
  obtain slots found where ls: "live_slot (lt_slots t) key now = (slots, found)" by fastforce
  note sp = live_slot_spec [OF assms(1,2) ls]
  show ?thesis
  proof (cases "\<exists>i. found = Some i \<and> mine (slot_lease (slots ! i))")
    case False
    with assms(3) ls have "t' = t\<lparr>lt_slots := slots\<rparr>" "r = Inr False"
      by (auto simp: release_where_def split: option.splits)
    with sp False show ?thesis by (auto split: option.splits)
  next
    case True
    then obtain i where i: "found = Some i" "mine (slot_lease (slots ! i))" by blast
    with sp(3) have sl: "slots = lt_slots t" "i < length (lt_slots t)" "lock_holds (lt_slots t ! i) key"
      "live now (lt_slots t) key = Some (slot_lease (lt_slots t ! i))" by auto
    with i assms(3) ls have op: "release_slot publish w t i = (w', t', r)"
      by (auto simp: release_where_def)
    from release_slot_outcome [OF assms(1,2) sl(2,3) op] sl(4) i(2) sl(1) show ?thesis
      by (auto split: sum.splits bool.splits)
  qed
qed

section \<open>Acquire against its specification\<close>

definition next_lease :: "lock_cfg \<Rightarrow> lock_table \<Rightarrow> lock_key \<Rightarrow> lock_owner \<Rightarrow> nat \<Rightarrow> nat \<Rightarrow> lock_lease" where
  "next_lease cfg t key owner now_ms expires_at_ms =
     \<lparr>ll_lock_id = nid_make (lc_netid cfg) (lc_state_kind cfg) (lc_node_id cfg) (next_lock (lt_header t) + 1),
      ll_key = key, ll_owner = owner, ll_acquired_at_ms = now_ms, ll_expires_at_ms = expires_at_ms,
      ll_state_revision = next_revision (lt_header t) + 1\<rparr>"

text \<open>The outcome of \<open>acquire\<close> over the map of live leases, with no slots or probing in sight.\<close>

definition acquire_spec ::
    "lock_cfg \<Rightarrow> 'w publish \<Rightarrow> 'w \<Rightarrow> lock_table \<Rightarrow> lock_key \<Rightarrow> lock_owner \<Rightarrow> nat \<Rightarrow> nat
      \<Rightarrow> 'w \<times> (lock_error + lock_acquire)" where
  "acquire_spec cfg publish w t key owner now_ms expires_at_ms =
     (case lock_validate_entry cfg key owner of Inl e \<Rightarrow> (w, Inl e)
      | Inr _ \<Rightarrow>
          (case live now_ms (lt_slots t) key of Some holder \<Rightarrow> (w, Inr (LkOccupied holder))
           | None \<Rightarrow>
               if \<forall>s\<in>set (lt_slots t). occupied_live now_ms s then (w, Inl (LockStateFull (lc_capacity cfg)))
               else if next_lock (lt_header t) = LOCK_COUNTER_MAX \<or> next_revision (lt_header t) = u64_max
               then (w, Inl IdExhausted)
               else let lease = next_lease cfg t key owner now_ms expires_at_ms
                    in case publish w (TrAcquired lease) of
                         (w', Inl e) \<Rightarrow> (w', Inl e)
                       | (w', Inr _) \<Rightarrow> (w', Inr (LkAcquired lease))))"

lemma acquire_scan_found:
  assumes "lock_cfg_ok cfg" "lock_ok cfg t"
    and "acquire_scan (lt_slots t) (lock_hash key) key now None [0..<length (lt_slots t)] = (slots, r)"
  shows "case r of
      Inl l \<Rightarrow> live now (lt_slots t) key = Some l
    | Inr None \<Rightarrow> live now (lt_slots t) key = None \<and> (\<forall>s\<in>set (lt_slots t). occupied_live now s)
    | Inr (Some i) \<Rightarrow> live now (lt_slots t) key = None \<and> \<not> (\<forall>s\<in>set (lt_slots t). occupied_live now s)"
proof -
  note scan = acquire_scan_table [OF assms]
  have live: "live now (lt_slots t) key = live now slots key" using scan(7) by simp
  note lv = live_iff [OF scan(5,2), of now key]
  have absent: "live now slots key = None" if "\<forall>j<length slots. \<not> lock_holds (slots ! j) key"
    using lv that by (metis option.exhaust)
  have rp: "slots ! i = lt_slots t ! i \<or> expired_slot now (lt_slots t ! i) \<and> slots ! i = slot_tombstone (lt_slots t ! i)"
    if "i < length (lt_slots t)" for i using scan(1) that by (simp add: reaped_def)
  consider (occ) l where "r = Inl l" | (full) "r = Inr None" | (ins) i where "r = Inr (Some i)"
    by (metis old.sum.exhaust option.exhaust)
  then show ?thesis
  proof cases
    case occ
    with scan(3) live lv show ?thesis by (auto simp: scan_result_def)
  next
    case full
    with scan(3) have f: "\<forall>i<length slots. occupied_live now (slots ! i)"
      and a: "\<forall>i<length slots. \<not> lock_holds (slots ! i) key" by (auto simp: scan_result_def)
    have "occupied_live now s" if "s \<in> set (lt_slots t)" for s
    proof -
      from that obtain i where i: "i < length (lt_slots t)" "s = lt_slots t ! i" by (auto simp: in_set_conv_nth)
      with f scan(4) have "occupied_live now (slots ! i)" by simp
      with rp [OF i(1)] i(2) show ?thesis by (auto simp: occupied_live_def)
    qed
    with full live absent [OF a] show ?thesis by simp
  next
    case ins
    with scan(3) obtain d where a: "\<forall>j<length slots. \<not> lock_holds (slots ! j) key" and d: "d < length slots"
      "i = probe_index (lock_hash key) d (length slots)" "ls_state (slots ! i) \<noteq> SLOT_OCCUPIED"
      by (auto simp: scan_result_def)
    have i: "i < length (lt_slots t)" using probe_index_less [OF scan(5) d(1)] d(2) scan(4) by simp
    have "\<not> occupied_live now (lt_slots t ! i)"
      using rp [OF i] d(3) by (auto simp: occupied_live_def expired_slot_def)
    with nth_mem [OF i] ins live absent [OF a] show ?thesis by auto
  qed
qed

lemma acquire_result:
  assumes "lock_cfg_ok cfg" "lock_ok cfg t" "lock_acquire_op cfg publish w t key owner now expires = (w', t', r)"
  shows "(w', r) = acquire_spec cfg publish w t key owner now expires"
proof (cases "lock_validate_entry cfg key owner")
  case (Inl e)
  with assms(3) show ?thesis by (auto simp: lock_acquire_op_def acquire_spec_def)
next
  case valid: (Inr v)
  obtain slots found where sc: "acquire_scan (lt_slots t) (lock_hash key) key now None [0..<length (lt_slots t)] = (slots, found)"
    by fastforce
  have len: "length slots = lc_capacity cfg"
    using acquire_scan_table(4) [OF assms(1,2) sc] lock_okD(1) [OF assms(2)] by simp
  note fd = acquire_scan_found [OF assms(1,2) sc]
  have m1: "mint_lock_id cfg (lt_header t) = (if next_lock (lt_header t) = LOCK_COUNTER_MAX then (lt_header t, Inl IdExhausted)
      else ((lt_header t)\<lparr>next_lock := next_lock (lt_header t) + 1\<rparr>,
        Inr (nid_make (lc_netid cfg) (lc_state_kind cfg) (lc_node_id cfg) (next_lock (lt_header t) + 1))))"
    using lock_okD(2) [OF assms(2)] by (auto simp: mint_lock_id_def checked_add_def LOCK_COUNTER_MAX_def u64_max_def)
  have m2: "mint_revision h = (if next_revision h = u64_max then (h, Inl IdExhausted)
      else (h\<lparr>next_revision := next_revision h + 1\<rparr>, Inr (next_revision h + 1)))"
    if "next_revision h = next_revision (lt_header t)" for h
    using lock_okD(3) [OF assms(2)] that by (auto simp: mint_revision_def checked_add_def)
  show ?thesis
    using assms(3) valid sc fd len
    by (auto simp: lock_acquire_op_def acquire_spec_def next_lease_def m1 m2 Let_def
        split: sum.splits option.splits prod.splits if_splits)
qed

section \<open>Sequences of operations\<close>

datatype lock_op =
    OpAcquire lock_key lock_owner nat nat
  | OpRenewId lock_lease nat nat
  | OpRenewOwner lock_key lock_owner nat nat
  | OpReleaseId lock_lease nat
  | OpReleaseOwner lock_key lock_owner nat
  | OpForceRelease lock_key nat
  | OpCurrent lock_key nat

fun op_time :: "lock_op \<Rightarrow> nat" where
  "op_time (OpAcquire _ _ now _) = now"
| "op_time (OpRenewId _ now _) = now"
| "op_time (OpRenewOwner _ _ now _) = now"
| "op_time (OpReleaseId _ now) = now"
| "op_time (OpReleaseOwner _ _ now) = now"
| "op_time (OpForceRelease _ now) = now"
| "op_time (OpCurrent _ now) = now"

text \<open>Whether an operation is entitled to end the given lease.\<close>

fun op_may_release :: "lock_op \<Rightarrow> lock_lease \<Rightarrow> bool" where
  "op_may_release (OpReleaseId lease _) l \<longleftrightarrow> ll_key lease = ll_key l \<and> ll_lock_id lease = ll_lock_id l"
| "op_may_release (OpReleaseOwner key owner _) l \<longleftrightarrow> key = ll_key l \<and> owner = ll_owner l"
| "op_may_release (OpForceRelease key _) l \<longleftrightarrow> key = ll_key l"
| "op_may_release _ l \<longleftrightarrow> False"

definition drop_result :: "'w \<times> lock_table \<times> 'r \<Rightarrow> 'w \<times> lock_table" where
  "drop_result x = (fst x, fst (snd x))"

fun op_apply :: "lock_cfg \<Rightarrow> 'w publish \<Rightarrow> 'w \<times> lock_table \<Rightarrow> lock_op \<Rightarrow> 'w \<times> lock_table" where
  "op_apply cfg publish (w, t) (OpAcquire key owner now expires) =
     drop_result (lock_acquire_op cfg publish w t key owner now expires)"
| "op_apply cfg publish (w, t) (OpRenewId lease now requested) =
     drop_result (renew_id cfg publish w t lease now requested)"
| "op_apply cfg publish (w, t) (OpRenewOwner key owner now requested) =
     drop_result (renew_owner cfg publish w t key owner now requested)"
| "op_apply cfg publish (w, t) (OpReleaseId lease now) =
     drop_result (release_id cfg publish w t lease now)"
| "op_apply cfg publish (w, t) (OpReleaseOwner key owner now) =
     drop_result (release_owner cfg publish w t key owner now)"
| "op_apply cfg publish (w, t) (OpForceRelease key now) =
     drop_result (force_release cfg publish w t key now)"
| "op_apply cfg publish (w, t) (OpCurrent key now) = (w, fst (lock_current cfg t key now))"

text \<open>
  What an operation may do to the table: it keeps the invariant and never lowers the identity
  counter; a lease live at any later time stays live, with the same identity and owner and an expiry
  no earlier, unless the operation releases it; and a lease that is new carries a fresh counter.
\<close>

definition same_tenure :: "lock_lease \<Rightarrow> lock_lease \<Rightarrow> bool" where
  "same_tenure l l' \<longleftrightarrow> ll_lock_id l' = ll_lock_id l \<and> ll_key l' = ll_key l \<and> ll_owner l' = ll_owner l \<and>
     ll_acquired_at_ms l' = ll_acquired_at_ms l \<and> ll_expires_at_ms l \<le> ll_expires_at_ms l'"

definition step_ok :: "lock_cfg \<Rightarrow> lock_op \<Rightarrow> lock_table \<Rightarrow> lock_table \<Rightarrow> bool" where
  "step_ok cfg op t t' \<longleftrightarrow> lock_ok cfg t' \<and> next_lock (lt_header t) \<le> next_lock (lt_header t') \<and>
     (\<forall>u\<ge>op_time op. \<forall>k l. live u (lt_slots t) k = Some l \<longrightarrow>
        (\<exists>l'. live u (lt_slots t') k = Some l' \<and> same_tenure l l') \<or> op_may_release op l)"

lemma same_tenure_refl [simp]: "same_tenure l l" by (simp add: same_tenure_def)

lemma live_key:
  assumes "lock_cfg_ok cfg" "lock_ok cfg t" "live u (lt_slots t) k = Some l"
  shows "ll_key l = k"
  using live_iff [OF lock_ok_size [OF assms(1,2)] lock_okD(5) [OF assms(2)], of u k l] assms(3)
    lock_holds_key by auto

lemma live_earlier:
  assumes "live u slots k = Some l" "now \<le> u"
  shows "live now slots k = Some l"
  using assms by (auto simp: live_def lease_is_expired_at_def split: option.splits if_splits)

lemma renew_where_step:
  assumes "lock_cfg_ok cfg" "lock_ok cfg t" "op_time op = now"
  shows "step_ok cfg op t (snd (drop_result (renew_where mine publish w t key now requested)))"
proof -
  obtain w' t' r where r: "renew_where mine publish w t key now requested = (w', t', r)" by (metis prod_cases3)
  note o = renew_where_outcome [OF assms(1,2) r]
  have "\<exists>l'. live u (lt_slots t') k = Some l' \<and> same_tenure l l'"
    if u: "now \<le> u" and l: "live u (lt_slots t) k = Some l" for u k l
  proof (cases "\<exists>l'. r = Inr (Some l') \<and> k = key")
    case True
    with o live_earlier [OF l u] obtain l' where l': "l' = l\<lparr>ll_expires_at_ms := max (ll_expires_at_ms l) requested,
        ll_state_revision := next_revision (lt_header t) + 1\<rparr>"
      "live u (lt_slots t') key = (if u < ll_expires_at_ms l' then Some l' else None)" using u by auto
    have "u < ll_expires_at_ms l" using l by (auto simp: live_def lease_is_expired_at_def split: option.splits if_splits)
    with l' True show ?thesis by (auto simp: same_tenure_def less_max_iff_disj)
  next
    case False
    with o l u show ?thesis by (fastforce split: sum.splits option.splits)
  qed
  with o r assms(3) show ?thesis by (auto simp: step_ok_def drop_result_def)
qed

lemma release_where_step:
  assumes "lock_cfg_ok cfg" "lock_ok cfg t" "op_time op = now"
    and "\<And>l. mine l \<Longrightarrow> ll_key l = key \<Longrightarrow> op_may_release op l"
  shows "step_ok cfg op t (snd (drop_result (release_where mine publish w t key now)))"
proof -
  obtain w' t' r where r: "release_where mine publish w t key now = (w', t', r)" by (metis prod_cases3)
  note o = release_where_outcome [OF assms(1,2) r]
  have "(\<exists>l'. live u (lt_slots t') k = Some l' \<and> same_tenure l l') \<or> op_may_release op l"
    if u: "now \<le> u" and l: "live u (lt_slots t) k = Some l" for u k l
  proof (cases "r = Inr True \<and> k = key")
    case True
    with o live_earlier [OF l u] live_key [OF assms(1,2) l] assms(4) show ?thesis by auto
  next
    case False
    with o l u show ?thesis by (auto split: sum.splits bool.splits)
  qed
  with o r assms(3) show ?thesis by (auto simp: step_ok_def drop_result_def)
qed

lemma step_ok_refl: "lock_ok cfg t \<Longrightarrow> step_ok cfg op t t"
  by (simp add: step_ok_def)

lemma acquire_step:
  assumes "lock_cfg_ok cfg" "lock_ok cfg t"
  shows "step_ok cfg (OpAcquire key owner now expires) t
    (snd (drop_result (lock_acquire_op cfg publish w t key owner now expires)))"
proof -
  obtain w' t' r where r: "lock_acquire_op cfg publish w t key owner now expires = (w', t', r)" by (metis prod_cases3)
  note o = acquire_outcome [OF assms r]
  have "\<exists>l'. live u (lt_slots t') k = Some l' \<and> same_tenure l l'"
    if u: "now \<le> u" and l: "live u (lt_slots t) k = Some l" for u k l
    using o l u live_earlier [OF l u]
    by (cases "k = key") (auto split: sum.splits lock_acquire.splits)
  with o r show ?thesis by (auto simp: step_ok_def drop_result_def split: sum.splits lock_acquire.splits)
qed

lemma op_apply_step:
  assumes "lock_cfg_ok cfg" "lock_ok cfg t" "op_apply cfg publish (w, t) op = (w', t')"
  shows "step_ok cfg op t t'"
proof (cases op)
  case (OpAcquire key owner now expires)
  with acquire_step [OF assms(1,2)] assms(3) show ?thesis by (metis op_apply.simps(1) snd_conv)
next
  case (OpRenewId lease now requested)
  with renew_where_step [OF assms(1,2), of op now] step_ok_refl [OF assms(2)] assms(3) show ?thesis
    by (auto simp: renew_id_where drop_result_def split: sum.splits)
next
  case (OpRenewOwner key owner now requested)
  with renew_where_step [OF assms(1,2), of op now] step_ok_refl [OF assms(2)] assms(3) show ?thesis
    by (auto simp: renew_owner_where drop_result_def split: sum.splits)
next
  case (OpReleaseId lease now)
  with release_where_step [OF assms(1,2), of op now "\<lambda>l. ll_lock_id l = ll_lock_id lease" "ll_key lease"] step_ok_refl [OF assms(2)] assms(3) show ?thesis
    by (auto simp: release_id_where drop_result_def split: sum.splits)
next
  case (OpReleaseOwner key owner now)
  with release_where_step [OF assms(1,2), of op now "\<lambda>l. ll_owner l = owner" key] step_ok_refl [OF assms(2)] assms(3) show ?thesis
    by (auto simp: release_owner_where drop_result_def split: sum.splits)
next
  case (OpForceRelease key now)
  with release_where_step [OF assms(1,2), of op now "\<lambda>l. True" key] step_ok_refl [OF assms(2)] assms(3) show ?thesis
    by (auto simp: force_release_where drop_result_def split: sum.splits)
next
  case (OpCurrent key now)
  obtain slots r where "live_slot (lt_slots t) key now = (slots, r)" by fastforce
  with live_slot_spec [OF assms(1,2) this] step_ok_refl [OF assms(2)] OpCurrent assms(3) show ?thesis
    by (auto simp: lock_current_def step_ok_def split: sum.splits)
qed

fun ops_run :: "lock_cfg \<Rightarrow> 'w publish \<Rightarrow> 'w \<times> lock_table \<Rightarrow> lock_op list \<Rightarrow> 'w \<times> lock_table" where
  "ops_run cfg publish wt [] = wt"
| "ops_run cfg publish wt (op # ops) = ops_run cfg publish (op_apply cfg publish wt op) ops"

lemma ops_run_keeps:
  assumes "lock_cfg_ok cfg" "lock_ok cfg t" "live u (lt_slots t) k = Some l"
    and "\<forall>op\<in>set ops. op_time op \<le> u \<and> (\<forall>l'. same_tenure l l' \<longrightarrow> \<not> op_may_release op l')"
    and "ops_run cfg publish (w, t) ops = (w', t')"
  shows "lock_ok cfg t' \<and> (\<exists>l'. live u (lt_slots t') k = Some l' \<and> same_tenure l l')"
  using assms(2-5)
proof (induction ops arbitrary: w t l)
  case Nil
  then show ?case by auto
next
  case (Cons op ops)
  obtain w1 t1 where s: "op_apply cfg publish (w, t) op = (w1, t1)" by fastforce
  note st = op_apply_step [OF assms(1) Cons.prems(1) s]
  have "\<not> op_may_release op l" using Cons.prems(3) by simp
  moreover have "op_time op \<le> u" using Cons.prems(3) by simp
  ultimately obtain l1 where l1: "live u (lt_slots t1) k = Some l1" "same_tenure l l1"
    using st Cons.prems(2) unfolding step_ok_def by blast
  have trans: "same_tenure l1 l2 \<Longrightarrow> same_tenure l l2" for l2 using l1(2) by (auto simp: same_tenure_def)
  have "\<forall>op\<in>set ops. op_time op \<le> u \<and> (\<forall>l'. same_tenure l1 l' \<longrightarrow> \<not> op_may_release op l')"
    using Cons.prems(3) trans by simp
  moreover have "lock_ok cfg t1" using st by (simp add: step_ok_def)
  moreover have "ops_run cfg publish (w1, t1) ops = (w', t')" using Cons.prems(4) s by simp
  ultimately show ?case using Cons.IH [OF _ l1(1)] trans by blast
qed

lemma ops_run_ok:
  assumes "lock_cfg_ok cfg" "lock_ok cfg t" "ops_run cfg publish (w, t) ops = (w', t')"
  shows "lock_ok cfg t' \<and> next_lock (lt_header t) \<le> next_lock (lt_header t')"
  using assms(2,3)
proof (induction ops arbitrary: w t)
  case (Cons op ops)
  obtain w1 t1 where s: "op_apply cfg publish (w, t) op = (w1, t1)" by fastforce
  from op_apply_step [OF assms(1) Cons.prems(1) s] Cons.IH [of t1 w1] Cons.prems(2) s show ?case
    by (auto simp: step_ok_def intro: order_trans)
qed simp

section \<open>A fresh and a reset table\<close>

lemma empty_slots_ok:
  assumes "lock_cfg_ok cfg" "length slots = lc_capacity cfg" "next_lock h = 0" "next_revision h = 0"
    and "\<forall>s\<in>set slots. ls_state s = SLOT_EMPTY \<and> length (ls_payload s) = lc_payload_max cfg"
  shows "lock_ok cfg \<lparr>lt_header = h, lt_slots = slots\<rparr>" "live u slots k = None"
proof -
  have em: "ls_state (slots ! i) = SLOT_EMPTY" if "i < length slots" for i using assms(5) that by simp
  have wf: "probe_wf lock_emp lock_holds lock_hash slots"
    by (rule lkt.wf_all_empty) (use assms(5) in \<open>simp add: lock_emp_def\<close>)
  have "ids_distinct cfg slots" using em by (simp add: ids_distinct_def)
  with wf assms show ok: "lock_ok cfg \<lparr>lt_header = h, lt_slots = slots\<rparr>"
    by (simp add: lock_ok_def list_all_iff lock_slot_ok_def)
  show "live u slots k = None"
    using live_iff [OF lock_ok_size [OF assms(1) ok, simplified] wf, of u k] em lock_holds_occupied
    by (metis SLOT_EMPTY_def SLOT_OCCUPIED_def not_None_eq zero_neq_one)
qed

lemma memory_table_new_ok:
  assumes "lock_cfg_ok cfg"
  shows "lock_ok cfg (memory_table_new cfg)" "live u (lt_slots (memory_table_new cfg)) k = None"
proof -
  have "\<forall>s\<in>set (replicate (lc_capacity cfg) (lock_slot_empty cfg)).
      ls_state s = SLOT_EMPTY \<and> length (ls_payload s) = lc_payload_max cfg"
    by (simp add: lock_slot_empty_def)
  from empty_slots_ok [OF assms length_replicate _ _ this, of "lock_header_new cfg"]
  show "lock_ok cfg (memory_table_new cfg)" "live u (lt_slots (memory_table_new cfg)) k = None"
    by (simp_all add: memory_table_new_def lock_header_new_def)
qed

lemma lock_reset_ok:
  assumes "lock_cfg_ok cfg" "lock_ok cfg t"
  shows "lock_ok cfg (lock_reset t)" "live u (lt_slots (lock_reset t)) k = None"
proof -
  have "\<forall>s\<in>set (map slot_clear (lt_slots t)). ls_state s = SLOT_EMPTY \<and> length (ls_payload s) = lc_payload_max cfg"
    using lock_okD(4) [OF assms(2)] by (auto simp: slot_clear_def lock_slot_ok_def)
  from empty_slots_ok [OF assms(1) _ _ _ this, of "(lt_header t)\<lparr>next_lock := 0, next_revision := 0\<rparr>"]
    lock_okD(1) [OF assms(2)]
  show "lock_ok cfg (lock_reset t)" "live u (lt_slots (lock_reset t)) k = None"
    by (simp_all add: lock_reset_def)
qed

section \<open>Properties\<close>

definition demo_cfg :: lock_cfg where
  "demo_cfg = \<lparr>lc_netid = packed_netid, lc_state_kind = 228, lc_node_id = 1, lc_capacity = 2, lc_payload_max = 8\<rparr>"

definition demo_publish :: "lock_transition list publish" where
  "demo_publish w tr = (tr # w, Inr ())"

definition demo_key :: "nat \<Rightarrow> lock_key" where
  "demo_key n = \<lparr>lk_namespace = [1], lk_label = [word_of_nat n]\<rparr>"

lemma demo_cfg_ok: "lock_cfg_ok demo_cfg"
  using packed_netid_laws by (auto simp: lock_cfg_ok_def demo_cfg_def max_defs is_power_of_two_def intro: exI [of _ 1])

text \<open>
  C2: \<open>acquire\<close> refines its specification on the map of live leases. On a well-formed table its
  result and its publications are those of \<open>acquire_spec\<close>: an invalid entry is refused, a live
  holder is reported, a table whose every slot is live is full, an exhausted counter is reported,
  and otherwise the next lease is granted exactly when its transition was published. The table stays
  well formed, and from \<open>now\<close> on the live leases change at most at the key, by the granted lease.
\<close>

theorem lock_acquire_refines:
  assumes "lock_cfg_ok cfg" "lock_ok cfg t"
    and "lock_acquire_op cfg publish w t key owner now expires = (w', t', r)"
  shows "(w', r) = acquire_spec cfg publish w t key owner now expires \<and> lock_ok cfg t' \<and>
    (\<forall>u\<ge>now. live u (lt_slots t') =
       (case r of Inr (LkAcquired l) \<Rightarrow> (live u (lt_slots t))(key := if u < expires then Some l else None)
        | _ \<Rightarrow> live u (lt_slots t)))"
  using acquire_result [OF assms] acquire_outcome [OF assms]
  by (auto split: sum.splits lock_acquire.splits)

theorem lock_acquire_refines_witness:
  "\<exists>l t'. lock_acquire_op demo_cfg demo_publish [] (memory_table_new demo_cfg) (demo_key 7) [9] 10 40 =
      ([TrAcquired l], t', Inr (LkAcquired l)) \<and>
    live 39 (lt_slots t') (demo_key 7) = Some l \<and> live 40 (lt_slots t') (demo_key 7) = None"
proof -
  let ?l = "next_lease demo_cfg (memory_table_new demo_cfg) (demo_key 7) [9] 10 40"
  obtain w' t' r where op: "lock_acquire_op demo_cfg demo_publish [] (memory_table_new demo_cfg) (demo_key 7) [9] 10 40 =
      (w', t', r)" by (metis prod_cases3)
  note p = lock_acquire_refines [OF demo_cfg_ok memory_table_new_ok(1) [OF demo_cfg_ok] op]
  have "acquire_spec demo_cfg demo_publish [] (memory_table_new demo_cfg) (demo_key 7) [9] 10 40 =
      ([TrAcquired ?l], Inr (LkAcquired ?l))" by code_simp
  with p have r: "w' = [TrAcquired ?l]" "r = Inr (LkAcquired ?l)" by simp_all
  with p have "live 39 (lt_slots t') (demo_key 7) = Some ?l" "live 40 (lt_slots t') (demo_key 7) = None" by simp_all
  with op r show ?thesis by blast
qed

text \<open>
  C1: mutual exclusion. While a lease is live, no sequence of operations that does not release it
  (by its identity, by its owner, or by force) ends it or changes its owner, whatever the operations'
  clock readings up to that time, and in the state they lead to no attempt to acquire its key is granted.
\<close>

theorem lock_tenure_protected:
  assumes "lock_cfg_ok cfg" "lock_ok cfg t" "live u (lt_slots t) k = Some l"
    and "\<forall>op\<in>set ops. op_time op \<le> u \<and> (\<forall>l'. same_tenure l l' \<longrightarrow> \<not> op_may_release op l')"
    and "ops_run cfg publish (w, t) ops = (w', t')" "now \<le> u"
  shows "(\<exists>l'. live u (lt_slots t') k = Some l' \<and> same_tenure l l') \<and>
    (\<forall>owner expires lease. snd (snd (lock_acquire_op cfg publish w' t' k owner now expires)) \<noteq> Inr (LkAcquired lease))"
proof -
  obtain l' where l': "lock_ok cfg t'" "live u (lt_slots t') k = Some l'" "same_tenure l l'"
    using ops_run_keeps [OF assms(1-5)] by blast
  have "r \<noteq> Inr (LkAcquired lease)"
    if "lock_acquire_op cfg publish w' t' k owner now expires = (w2, t2, r)" for w2 t2 r owner expires lease
    using acquire_outcome [OF assms(1) l'(1) that] live_earlier [OF l'(2) assms(6)] by auto
  with l' show ?thesis by (metis prod.collapse)
qed

definition demo_table :: lock_table where
  "demo_table = fst (snd (lock_acquire_op demo_cfg demo_publish [] (memory_table_new demo_cfg) (demo_key 7) [9] 10 40))"

lemma demo_table_ok: "lock_ok demo_cfg demo_table"
  unfolding demo_table_def
  using acquire_outcome [OF demo_cfg_ok memory_table_new_ok(1) [OF demo_cfg_ok]] by (metis prod.collapse)

lemma demo_table_live: "live 30 (lt_slots demo_table) (demo_key 7) =
    Some (next_lease demo_cfg (memory_table_new demo_cfg) (demo_key 7) [9] 10 40)"
  by code_simp

theorem lock_tenure_protected_witness:
  "\<forall>lease. snd (snd (lock_acquire_op demo_cfg demo_publish (fst (ops_run demo_cfg demo_publish ([], demo_table)
      [OpReleaseOwner (demo_key 7) [8] 20, OpAcquire (demo_key 3) [8] 21 50]))
      (snd (ops_run demo_cfg demo_publish ([], demo_table)
      [OpReleaseOwner (demo_key 7) [8] 20, OpAcquire (demo_key 3) [8] 21 50]))
      (demo_key 7) [8] 22 90)) \<noteq> Inr (LkAcquired lease)"
proof -
  let ?l = "next_lease demo_cfg (memory_table_new demo_cfg) (demo_key 7) [9] 10 40"
  let ?ops = "[OpReleaseOwner (demo_key 7) [8] 20, OpAcquire (demo_key 3) [8] 21 50]"
  have "\<forall>op\<in>set ?ops. op_time op \<le> 30 \<and> (\<forall>l'. same_tenure ?l l' \<longrightarrow> \<not> op_may_release op l')"
    by (simp add: same_tenure_def next_lease_def)
  from lock_tenure_protected [OF demo_cfg_ok demo_table_ok demo_table_live this surjective_pairing, of 22 demo_publish "[]"]
  show ?thesis by simp
qed



text \<open>
  C35: renewal by identity. A renewal succeeds only for the live lease with that identity; it keeps
  everything but the revision and the expiry, which never moves earlier; a lease that is absent,
  expired or superseded is reported as none. Nothing else in the table changes.
\<close>

theorem lock_renew_exact:
  assumes "lock_cfg_ok cfg" "lock_ok cfg t"
    and "renew_id cfg publish w t lease now requested = (w', t', Inr r)"
  shows "lock_ok cfg t' \<and>
    (case r of
       None \<Rightarrow> (\<forall>cur. live now (lt_slots t) (ll_key lease) = Some cur \<longrightarrow> ll_lock_id cur \<noteq> ll_lock_id lease) \<and>
         (\<forall>u\<ge>now. live u (lt_slots t') = live u (lt_slots t))
     | Some l \<Rightarrow> \<exists>cur. live now (lt_slots t) (ll_key lease) = Some cur \<and> ll_lock_id cur = ll_lock_id lease \<and>
         l = cur\<lparr>ll_expires_at_ms := max (ll_expires_at_ms cur) requested,
               ll_state_revision := next_revision (lt_header t) + 1\<rparr> \<and>
         (\<forall>u\<ge>now. live u (lt_slots t') =
            (live u (lt_slots t))(ll_key lease := if u < ll_expires_at_ms l then Some l else None)))"
proof -
  have rw: "renew_where (\<lambda>l. ll_lock_id l = ll_lock_id lease) publish w t (ll_key lease) now requested = (w', t', Inr r)"
    using assms(3) by (auto simp: renew_id_where split: sum.splits)
  from renew_where_outcome [OF assms(1,2) rw] show ?thesis by simp
qed

theorem lock_renew_exact_witness:
  "\<exists>l w' t'. renew_id demo_cfg demo_publish [] demo_table (next_lease demo_cfg (memory_table_new demo_cfg) (demo_key 7) [9] 10 40)
      20 70 = (w', t', Inr (Some l)) \<and> live 60 (lt_slots t') (demo_key 7) = Some l"
proof -
  let ?l = "next_lease demo_cfg (memory_table_new demo_cfg) (demo_key 7) [9] 10 40"
  let ?l' = "?l\<lparr>ll_expires_at_ms := 70, ll_state_revision := 2\<rparr>"
  let ?op = "renew_id demo_cfg demo_publish [] demo_table ?l 20 70"
  have r: "?op = (fst ?op, fst (snd ?op), Inr (Some ?l'))" by code_simp
  from lock_renew_exact [OF demo_cfg_ok demo_table_ok r] have "\<forall>u\<ge>20. live u (lt_slots (fst (snd ?op))) =
      (live u (lt_slots demo_table))(ll_key ?l := if u < ll_expires_at_ms ?l' then Some ?l' else None)" by auto
  then have "live 60 (lt_slots (fst (snd ?op))) (demo_key 7) = Some ?l'" by (simp add: next_lease_def)
  with r show ?thesis by blast
qed

text \<open>
  Release by owner. It reports success exactly when the key's live lease belongs to that owner
  and then removes that lease only; otherwise no live lease changes. The identity counter never
  moves, so a released lease's token is never minted again.
\<close>

lemma lock_release_exact:
  assumes "lock_cfg_ok cfg" "lock_ok cfg t"
    and "release_owner cfg publish w t key owner now = (w', t', Inr b)"
  shows "lock_ok cfg t' \<and> next_lock (lt_header t') = next_lock (lt_header t) \<and>
    (b \<longleftrightarrow> (\<exists>cur. live now (lt_slots t) key = Some cur \<and> ll_owner cur = owner)) \<and>
    (\<forall>u\<ge>now. live u (lt_slots t') = (if b then (live u (lt_slots t))(key := None) else live u (lt_slots t)))"
proof -
  have rw: "release_where (\<lambda>l. ll_owner l = owner) publish w t key now = (w', t', Inr b)"
    using assms(3) by (auto simp: release_owner_where split: sum.splits)
  from release_where_outcome [OF assms(1,2) rw] show ?thesis by (auto split: bool.splits)
qed

end
