(* ===== verification/Ring_Cursor.thy ===== *)
theory Ring_Cursor
  imports Net_Id
begin

text \<open>
  Cursors over rings (\<open>core/src/ring/cursor.rs\<close>): frames, the three-way classification of a
  counter, the source a walker reads and the walk \<open>poll_ring\<close>. A source is a snapshot of what
  the trait \<open>RingFrameSource\<close> exposes. \<open>poll_ring_exact\<close> characterizes the walk over any source;
  the locale \<open>committed_source\<close> is the contract of a source whose visible counters are all
  committed, and its lemmas say what a subscriber then receives.
\<close>

section \<open>Data\<close>

record frame =
  fr_id :: nat
  fr_kind :: nat
  fr_ver :: nat
  fr_payload :: bytes

datatype ring_read_state = Ready frame | Pending | Unavailable

record ring_source =
  src_kind :: nat
  src_head :: nat
  src_capacity :: nat
  src_read_state :: "nat \<Rightarrow> ring_read_state"

definition default_read_state :: "(nat \<Rightarrow> frame option) \<Rightarrow> nat \<Rightarrow> ring_read_state" where
  "default_read_state read_at counter =
     (case read_at counter of None \<Rightarrow> Unavailable | Some f \<Rightarrow> Ready f)"

record ring_cursor = next_counter :: nat

definition cursor_from_start :: ring_cursor where "cursor_from_start = \<lparr>next_counter = 0\<rparr>"

definition cursor_from_counter :: "nat \<Rightarrow> ring_cursor" where
  "cursor_from_counter c = \<lparr>next_counter = c\<rparr>"

record ring_loss =
  overwritten :: nat
  unavailable :: nat

definition loss_none :: ring_loss where "loss_none = \<lparr>overwritten = 0, unavailable = 0\<rparr>"

definition loss_total :: "ring_loss \<Rightarrow> nat" where
  "loss_total l = saturating_add u64_max (overwritten l) (unavailable l)"

definition loss_is_empty :: "ring_loss \<Rightarrow> bool" where
  "loss_is_empty l \<longleftrightarrow> overwritten l = 0 \<and> unavailable l = 0"

record ring_poll =
  rp_frames :: "frame list"
  rp_loss :: ring_loss
  rp_from :: nat
  rp_to :: nat

definition poll_is_empty :: "ring_poll \<Rightarrow> bool" where
  "poll_is_empty p \<longleftrightarrow> rp_frames p = [] \<and> loss_is_empty (rp_loss p)"

section \<open>The walk\<close>

definition count_unavailable :: "ring_loss \<Rightarrow> ring_loss" where
  "count_unavailable l = l\<lparr>unavailable := saturating_add u64_max (unavailable l) 1\<rparr>"

text \<open>
  The \<open>while next < head\<close> loop. \<open>next\<close> is below a 64-bit head, so its \<open>saturating_add(1)\<close> is
  \<open>next + 1\<close>.
\<close>

function poll_walk ::
    "netid_ops \<Rightarrow> ring_source \<Rightarrow> nat \<Rightarrow> nat \<Rightarrow> frame list \<Rightarrow> ring_loss \<Rightarrow> frame list \<times> ring_loss \<times> nat" where
  "poll_walk ops src head next frames loss =
     (if next < head then
        case src_read_state src next of
          Ready f \<Rightarrow>
            if nid_kind ops (fr_id f) \<noteq> src_kind src \<or> nid_counter ops (fr_id f) \<noteq> next
            then poll_walk ops src head (next + 1) frames (count_unavailable loss)
            else poll_walk ops src head (next + 1) (frames @ [f]) loss
        | Pending \<Rightarrow> (frames, loss, next)
        | Unavailable \<Rightarrow> poll_walk ops src head (next + 1) frames (count_unavailable loss)
      else (frames, loss, next))"
  by pat_completeness auto
termination by (relation "measure (\<lambda>(ops, src, head, next, frames, loss). head - next)") auto

declare poll_walk.simps [simp del]

definition poll_ring :: "netid_ops \<Rightarrow> ring_source \<Rightarrow> ring_cursor \<Rightarrow> ring_cursor \<times> ring_poll" where
  "poll_ring ops src cursor =
     (let head = src_head src; from_counter = next_counter cursor
      in if from_counter \<ge> head
         then (cursor\<lparr>next_counter := head\<rparr>,
               \<lparr>rp_frames = [], rp_loss = loss_none, rp_from = from_counter, rp_to = head\<rparr>)
         else
           let oldest_available = saturating_sub head (src_capacity src);
               loss = (if from_counter < oldest_available
                       then loss_none\<lparr>overwritten := oldest_available - from_counter\<rparr> else loss_none);
               start = (if from_counter < oldest_available then oldest_available else from_counter);
               (frames, loss', next) = poll_walk ops src head start [] loss
           in (cursor\<lparr>next_counter := next\<rparr>,
               \<lparr>rp_frames = frames, rp_loss = loss', rp_from = from_counter, rp_to = next\<rparr>))"

section \<open>What the walk computes\<close>

definition delivered :: "netid_ops \<Rightarrow> ring_source \<Rightarrow> nat \<Rightarrow> frame option" where
  "delivered ops src c =
     (case src_read_state src c of
        Ready f \<Rightarrow> if nid_kind ops (fr_id f) = src_kind src \<and> nid_counter ops (fr_id f) = c then Some f else None
      | _ \<Rightarrow> None)"

definition walked :: "ring_source \<Rightarrow> nat \<Rightarrow> nat list" where
  "walked src start = takeWhile (\<lambda>c. src_read_state src c \<noteq> Pending) [start..<src_head src]"

definition poll_floor :: "ring_source \<Rightarrow> nat" where
  "poll_floor src = src_head src - src_capacity src"

lemma walked_Cons:
  "start < src_head src \<Longrightarrow> walked src start =
     (if src_read_state src start = Pending then [] else start # walked src (Suc start))"
  by (simp add: walked_def upt_conv_Cons)

lemma walked_Nil [simp]: "src_head src \<le> start \<Longrightarrow> walked src start = []"
  by (simp add: walked_def)

lemma walked_length: "length (walked src start) \<le> src_head src - start"
  using length_takeWhile_le [of _ "[start..<src_head src]"] by (simp add: walked_def)

lemma walked_upt: "walked src start = [start..<start + length (walked src start)]"
proof (cases "start \<le> src_head src")
  case True
  have "walked src start = take (length (walked src start)) [start..<src_head src]"
    unfolding walked_def by (rule takeWhile_eq_take)
  also have "\<dots> = [start..<start + length (walked src start)]"
    using walked_length [of src start] True by (intro take_upt) simp
  finally show ?thesis .
qed simp

lemma map_filter_length_le: "length (List.map_filter f xs) \<le> length xs"
  by (induction xs) (auto simp: List.map_filter_simps split: option.split)

lemma poll_walk_spec:
  assumes "src_head src \<le> u64_max" "unavailable loss + (src_head src - pos) \<le> u64_max"
  shows "poll_walk ops src (src_head src) pos frames loss =
    (let cs = walked src pos; fs = List.map_filter (delivered ops src) cs
     in (frames @ fs, loss\<lparr>unavailable := unavailable loss + (length cs - length fs)\<rparr>, pos + length cs))"
  using assms(2)
proof (induction "src_head src - pos" arbitrary: pos frames loss)
  case 0
  then show ?case by (subst poll_walk.simps) (simp add: List.map_filter_simps)
next
  case (Suc n)
  then have lt: "pos < src_head src" "n = src_head src - Suc pos" by auto
  have inc: "unavailable (count_unavailable loss) = unavailable loss + 1"
    using Suc.prems lt by (simp add: count_unavailable_def saturating_add_def)
  have bad: "(count_unavailable loss)\<lparr>unavailable := k\<rparr> = loss\<lparr>unavailable := k\<rparr>" for k
    by (simp add: count_unavailable_def)
  let ?fs = "List.map_filter (delivered ops src) (walked src (Suc pos))"
  have le: "length ?fs \<le> length (walked src (Suc pos))" by (rule map_filter_length_le)
  have pre: "unavailable (count_unavailable loss) + (src_head src - Suc pos) \<le> u64_max"
    "unavailable loss + (src_head src - Suc pos) \<le> u64_max" using inc Suc.prems lt by auto
  note ih1 = Suc.hyps(1) [OF lt(2) pre(1)] and ih2 = Suc.hyps(1) [OF lt(2) pre(2)]
  show ?case
  proof (cases "src_read_state src pos")
    case (Ready f)
    then show ?thesis
      using lt le ih1 ih2 inc
      by (subst poll_walk.simps)
         (auto simp: Let_def walked_Cons List.map_filter_simps delivered_def bad Suc_diff_le)
  next
    case Pending
    then show ?thesis using lt by (subst poll_walk.simps) (simp add: walked_Cons List.map_filter_simps)
  next
    case Unavailable
    then show ?thesis
      using lt le ih1 inc
      by (subst poll_walk.simps)
         (simp add: Let_def walked_Cons List.map_filter_simps delivered_def bad Suc_diff_le)
  qed
qed

definition poll_start :: "ring_source \<Rightarrow> ring_cursor \<Rightarrow> nat" where
  "poll_start src cursor = max (next_counter cursor) (poll_floor src)"

lemma poll_ring_spec:
  assumes "src_head src \<le> u64_max"
  shows "poll_ring ops src cursor =
    (if src_head src \<le> next_counter cursor
     then (\<lparr>next_counter = src_head src\<rparr>,
           \<lparr>rp_frames = [], rp_loss = loss_none, rp_from = next_counter cursor, rp_to = src_head src\<rparr>)
     else let start = poll_start src cursor; cs = walked src start; fs = List.map_filter (delivered ops src) cs
          in (\<lparr>next_counter = start + length cs\<rparr>,
              \<lparr>rp_frames = fs,
               rp_loss = \<lparr>overwritten = start - next_counter cursor, unavailable = length cs - length fs\<rparr>,
               rp_from = next_counter cursor, rp_to = start + length cs\<rparr>))"
  using assms
  by (cases cursor) (auto simp: poll_ring_def Let_def poll_walk_spec loss_none_def poll_start_def poll_floor_def
      saturating_sub_def max_def)

text \<open>
  C30: the exact account of a poll, over any source. A poll resumes at the cursor or, when the
  cursor fell behind the window, at the window's floor; it stops at the head or at the first counter
  still in flight and never passes it; it returns exactly the frames of the counters it walked whose
  kind and counter match, in counter order; and frames, overwritten and unavailable counters together
  are the counters the cursor advanced over.
\<close>

theorem poll_ring_exact:
  assumes "src_head src \<le> u64_max" "next_counter cursor < src_head src"
    and "poll_ring ops src cursor = (cursor', p)"
  shows "next_counter cursor' = rp_to p \<and> poll_start src cursor \<le> rp_to p \<and> rp_to p \<le> src_head src \<and>
    rp_frames p = List.map_filter (delivered ops src) [poll_start src cursor..<rp_to p] \<and>
    (\<forall>c. poll_start src cursor \<le> c \<and> c < rp_to p \<longrightarrow> src_read_state src c \<noteq> Pending) \<and>
    (rp_to p < src_head src \<longrightarrow> src_read_state src (rp_to p) = Pending) \<and>
    overwritten (rp_loss p) = poll_start src cursor - next_counter cursor \<and>
    length (rp_frames p) + overwritten (rp_loss p) + unavailable (rp_loss p) = rp_to p - next_counter cursor"
proof -
  let ?s = "poll_start src cursor"
  let ?cs = "walked src ?s"
  let ?fs = "List.map_filter (delivered ops src) ?cs"
  have p: "cursor' = \<lparr>next_counter = ?s + length ?cs\<rparr>"
    "p = \<lparr>rp_frames = ?fs, rp_loss = \<lparr>overwritten = ?s - next_counter cursor, unavailable = length ?cs - length ?fs\<rparr>,
          rp_from = next_counter cursor, rp_to = ?s + length ?cs\<rparr>"
    using assms by (simp_all add: poll_ring_spec Let_def)
  have s: "next_counter cursor \<le> ?s" "?s \<le> src_head src"
    using assms(2) by (auto simp: poll_start_def poll_floor_def)
  have mem: "src_read_state src c \<noteq> Pending" if "c \<in> set ?cs" for c
    using that set_takeWhileD unfolding walked_def by fastforce
  have "src_read_state src (?s + length ?cs) = Pending" if lt: "?s + length ?cs < src_head src"
  proof -
    have l: "length ?cs < length [?s..<src_head src]" using lt by simp
    from nth_length_takeWhile [OF l [unfolded walked_def]] lt show ?thesis by (simp add: walked_def)
  qed
  moreover have "length ?fs \<le> length ?cs" by (rule map_filter_length_le)
  moreover have "?s + length ?cs \<le> src_head src" using walked_length [of src ?s] s(2) by simp
  moreover have "src_read_state src c \<noteq> Pending" if "?s \<le> c" "c < ?s + length ?cs" for c
    using mem [of c] that walked_upt [of src ?s] by (metis atLeastLessThan_iff set_upt)
  ultimately show ?thesis unfolding p using s walked_upt [of src ?s] by simp
qed

text \<open>A source whose counter 1 is in flight: the poll stops there.\<close>

definition demo_source :: ring_source where
  "demo_source = \<lparr>src_kind = 3, src_head = 3, src_capacity = 4,
     src_read_state = (\<lambda>c. if c = 1 then Pending
       else Ready \<lparr>fr_id = nid_make packed_netid 3 0 c, fr_kind = 0, fr_ver = 0, fr_payload = []\<rparr>)\<rparr>"

theorem poll_ring_exact_witness:
  "let p = snd (poll_ring packed_netid demo_source cursor_from_start)
   in rp_to p = 1 \<and> map fr_id (rp_frames p) = [nid_make packed_netid 3 0 0] \<and> src_read_state demo_source (rp_to p) = Pending"
proof -
  have h: "src_head demo_source \<le> u64_max" "next_counter cursor_from_start < src_head demo_source"
    by (simp_all add: demo_source_def cursor_from_start_def u64_max_def)
  have r: "rp_to (snd (poll_ring packed_netid demo_source cursor_from_start)) = 1"
    "map fr_id (rp_frames (snd (poll_ring packed_netid demo_source cursor_from_start))) = [nid_make packed_netid 3 0 0]"
    by code_simp+
  from poll_ring_exact [OF h surjective_pairing] r show ?thesis
    by (simp add: Let_def) (simp add: demo_source_def)
qed

section \<open>Sources whose visible counters are all committed\<close>

text \<open>
  The contract of a committed source, over a provider's states: in a state satisfying the provider's
  invariant, every counter of the window reads back the frame the log has for it.
\<close>

locale committed_source =
  fixes inv :: "'s \<Rightarrow> bool"
    and ids :: "'s \<Rightarrow> netid_ops"
    and src :: "'s \<Rightarrow> ring_source"
    and log :: "'s \<Rightarrow> nat \<Rightarrow> frame"
  assumes head_bound: "inv s \<Longrightarrow> src_head (src s) \<le> u64_max"
    and window: "inv s \<Longrightarrow> c < src_head (src s) \<Longrightarrow> src_head (src s) \<le> c + src_capacity (src s) \<Longrightarrow>
      src_read_state (src s) c = Ready (log s c)"
    and logged: "inv s \<Longrightarrow> c < src_head (src s) \<Longrightarrow>
      nid_counter (ids s) (fr_id (log s c)) = c \<and> nid_kind (ids s) (fr_id (log s c)) = src_kind (src s)"
begin

lemma delivers:
  assumes "inv s" "poll_floor (src s) \<le> c" "c < src_head (src s)"
  shows "delivered (ids s) (src s) c = Some (log s c)" "src_read_state (src s) c \<noteq> Pending"
  using window [OF assms(1,3)] logged [OF assms(1,3)] assms(2)
  by (auto simp: delivered_def poll_floor_def)

lemma walks_all:
  assumes "inv s" "poll_floor (src s) \<le> start"
  shows "walked (src s) start = [start..<src_head (src s)]"
  unfolding walked_def using assms delivers(2) by (intro takeWhile_eq_all_conv [THEN iffD2]) auto

lemma poll_committed:
  assumes "inv s" "next_counter cursor \<le> src_head (src s)"
  shows "poll_ring (ids s) (src s) cursor =
    (\<lparr>next_counter = src_head (src s)\<rparr>,
     \<lparr>rp_frames = map (log s) [poll_start (src s) cursor..<src_head (src s)],
      rp_loss = \<lparr>overwritten = poll_start (src s) cursor - next_counter cursor, unavailable = 0\<rparr>,
      rp_from = next_counter cursor, rp_to = src_head (src s)\<rparr>)"
proof (cases "src_head (src s) \<le> next_counter cursor")
  case True
  with assms(2) have "next_counter cursor = src_head (src s)" by simp
  then show ?thesis
    using poll_ring_spec [OF head_bound [OF assms(1)]]
    by (simp add: loss_none_def poll_start_def poll_floor_def)
next
  case False
  let ?st = "poll_start (src s) cursor"
  have st: "poll_floor (src s) \<le> ?st" "?st \<le> src_head (src s)"
    using False by (auto simp: poll_start_def poll_floor_def)
  have "List.map_filter (delivered (ids s) (src s)) [?st..<src_head (src s)] = map (log s) [?st..<src_head (src s)]"
    unfolding List.map_filter_def
  proof -
    have "filter (\<lambda>c. delivered (ids s) (src s) c \<noteq> None) [?st..<src_head (src s)] = [?st..<src_head (src s)]"
      using delivers(1) [OF assms(1)] st(1) by (intro filter_True) auto
    then show "map (the \<circ> delivered (ids s) (src s)) (filter (\<lambda>c. delivered (ids s) (src s) c \<noteq> None) [?st..<src_head (src s)]) =
        map (log s) [?st..<src_head (src s)]"
      using delivers(1) [OF assms(1)] st(1) by simp
  qed
  with False st show ?thesis
    by (simp add: poll_ring_spec [OF head_bound [OF assms(1)]] Let_def walks_all [OF assms(1) st(1)])
qed

end

section \<open>Circular windows\<close>

text \<open>
  The part of a log that a circular array of slots still holds: \<open>view\<close> reads a slot, and the last
  \<open>length slots\<close> entries of the log are where their counters address them.
\<close>

definition window_ok :: "('slot \<Rightarrow> 'a option) \<Rightarrow> 'slot list \<Rightarrow> 'a list \<Rightarrow> bool" where
  "window_ok view slots h \<longleftrightarrow>
     (\<forall>c<length h. length h \<le> c + length slots \<longrightarrow> view (slots ! (c mod length slots)) = Some (h ! c))"

lemma mod_window_neq: "(a::nat) < b \<Longrightarrow> b - a < n \<Longrightarrow> a mod n \<noteq> b mod n"
  using mod_eq_dvd_iff_nat [of a b n] nat_dvd_not_less [of "b - a" n] by auto

lemma window_ok_append:
  assumes "window_ok view slots h" "view s = Some x" "slots \<noteq> []"
  shows "window_ok view (slots[length h mod length slots := s]) (h @ [x])"
  unfolding window_ok_def
proof (intro allI impI)
  fix c assume c: "c < length (h @ [x])" "length (h @ [x]) \<le> c + length (slots[length h mod length slots := s])"
  show "view (slots[length h mod length slots := s] ! (c mod length (slots[length h mod length slots := s]))) = Some ((h @ [x]) ! c)"
  proof (cases "c = length h")
    case True
    with assms(2,3) show ?thesis by simp
  next
    case False
    with c have "c < length h" "length h - c < length slots" by auto
    with mod_window_neq [of c "length h" "length slots"] assms(1) c(2) show ?thesis
      by (auto simp: window_ok_def nth_append)
  qed
qed

end
