(* ===== verification/Ring_Memory.thy ===== *)
theory Ring_Memory
  imports Ring_Cursor
begin

text \<open>
  The process-local ring of \<open>core/src/ring/mod.rs\<close>: lanes of optional frames, the three writer
  topologies, single and batch writes, counter- and identity-addressed reads, and the registry of
  rings by kind. A panic is \<open>None\<close>. A write is one step of the model: per-node and shared-ordered
  writers hold the lane's lock, and a shared write is its claim followed by its commit
  (\<open>ring_claim\<close>, \<open>ring_commit\<close>), which the interleaving below takes apart.
\<close>

section \<open>Data\<close>

datatype ring_topology = Shared | PerNode | SharedOrdered

record ring_spec =
  rs_capacity :: nat
  rs_payload_capacity :: nat
  rs_topology :: ring_topology

definition spec_new :: "nat \<Rightarrow> nat \<Rightarrow> ring_spec" where
  "spec_new capacity payload_capacity =
     \<lparr>rs_capacity = capacity, rs_payload_capacity = payload_capacity, rs_topology = Shared\<rparr>"

definition spec_per_node :: "nat \<Rightarrow> nat \<Rightarrow> ring_spec" where
  "spec_per_node capacity payload_capacity =
     \<lparr>rs_capacity = capacity, rs_payload_capacity = payload_capacity, rs_topology = PerNode\<rparr>"

definition spec_shared_ordered :: "nat \<Rightarrow> nat \<Rightarrow> ring_spec" where
  "spec_shared_ordered capacity payload_capacity =
     \<lparr>rs_capacity = capacity, rs_payload_capacity = payload_capacity, rs_topology = SharedOrdered\<rparr>"

definition spec_valid :: "ring_spec \<Rightarrow> bool" where
  "spec_valid spec \<longleftrightarrow> rs_capacity spec > 0 \<and> is_power_of_two (rs_capacity spec) \<and> rs_payload_capacity spec \<le> u32_max"

text \<open>The associated constants of an \<open>OrbitTyped\<close> type.\<close>

record orbit_typed =
  ot_kind :: nat
  ot_spec :: ring_spec

record ring_lane =
  write_pos :: nat
  lane_slots :: "frame option list"

definition lane_new :: "nat \<Rightarrow> ring_lane" where
  "lane_new capacity = \<lparr>write_pos = 0, lane_slots = replicate capacity None\<rparr>"

record ring =
  r_kind :: nat
  r_capacity :: nat
  r_payload_capacity :: nat
  r_topology :: ring_topology
  version_counter :: nat
  lanes :: "ring_lane list"

definition ring_lane_count :: "ring_spec \<Rightarrow> nat \<Rightarrow> nat" where
  "ring_lane_count spec fleet_capacity =
     (case rs_topology spec of PerNode \<Rightarrow> fleet_capacity | _ \<Rightarrow> 1)"

definition ring_new_for_fleet :: "orbit_typed \<Rightarrow> nat \<Rightarrow> ring option" where
  "ring_new_for_fleet T fleet_capacity =
     (if \<not> fleet_capacity > 0 \<or> \<not> spec_valid (ot_spec T) then None
      else Some \<lparr>r_kind = ot_kind T, r_capacity = rs_capacity (ot_spec T),
        r_payload_capacity = rs_payload_capacity (ot_spec T), r_topology = rs_topology (ot_spec T),
        version_counter = 0,
        lanes = replicate (ring_lane_count (ot_spec T) fleet_capacity) (lane_new (rs_capacity (ot_spec T)))\<rparr>)"

definition ring_spec_of :: "ring \<Rightarrow> ring_spec" where
  "ring_spec_of r = \<lparr>rs_capacity = r_capacity r, rs_payload_capacity = r_payload_capacity r,
     rs_topology = r_topology r\<rparr>"

section \<open>Lanes and versions\<close>

definition lane_index :: "ring_topology \<Rightarrow> nat \<Rightarrow> nat" where
  "lane_index topology node = (case topology of PerNode \<Rightarrow> node | _ \<Rightarrow> 0)"

text \<open>\<open>Ring::lane\<close> panics outside the lanes; \<open>lane_for_frame\<close> returns \<open>None\<close> there.\<close>

definition ring_lane_of :: "ring \<Rightarrow> nat \<Rightarrow> nat option" where
  "ring_lane_of r node =
     (let index = lane_index (r_topology r) node in if index < length (lanes r) then Some index else None)"

definition ring_head :: "ring \<Rightarrow> nat" where
  "ring_head r = write_pos (lanes r ! 0)"

definition ring_lane_head :: "ring \<Rightarrow> nat \<Rightarrow> nat option" where
  "ring_lane_head r node = map_option (\<lambda>i. write_pos (lanes r ! i)) (ring_lane_of r node)"

text \<open>\<open>fetch_add\<close> wraps before the \<open>expect\<close>, so the counter moves even when the call panics.\<close>

definition ring_next_version :: "ring \<Rightarrow> ring \<times> nat option" where
  "ring_next_version r =
     (r\<lparr>version_counter := wrapping_add u64_max (version_counter r) 1\<rparr>,
      checked_add u64_max (version_counter r) 1)"

section \<open>Writes\<close>

definition write_frame ::
    "netid_ops \<Rightarrow> ring \<Rightarrow> ring_lane \<Rightarrow> nat \<Rightarrow> nat \<Rightarrow> nat \<Rightarrow> nat \<Rightarrow> bytes \<Rightarrow> ring_lane \<times> nat" where
  "write_frame ops r lane node counter frame_kind ver payload =
     (let id = nid_make ops (r_kind r) node counter;
          slot_idx = counter mod r_capacity r;
          f = \<lparr>fr_id = id, fr_kind = frame_kind, fr_ver = ver, fr_payload = payload\<rparr>
      in (lane\<lparr>lane_slots := (lane_slots lane)[slot_idx := Some f]\<rparr>, id))"

definition set_lane :: "ring \<Rightarrow> nat \<Rightarrow> ring_lane \<Rightarrow> ring" where
  "set_lane r i lane = r\<lparr>lanes := (lanes r)[i := lane]\<rparr>"

definition ring_write ::
    "netid_ops \<Rightarrow> ring \<Rightarrow> nat \<Rightarrow> nat \<Rightarrow> nat \<Rightarrow> bytes \<Rightarrow> (ring \<times> nat) option" where
  "ring_write ops r node frame_kind ver payload =
     (if length payload > r_payload_capacity r then None
      else case ring_lane_of r node of
             None \<Rightarrow> None
           | Some i \<Rightarrow>
               let lane = lanes r ! i; counter = write_pos lane
               in case r_topology r of
                    Shared \<Rightarrow>
                      let claimed = lane\<lparr>write_pos := wrapping_add u64_max counter 1\<rparr>;
                          (lane', id) = write_frame ops r claimed node counter frame_kind ver payload
                      in Some (set_lane r i lane', id)
                  | _ \<Rightarrow>
                      let (lane', id) = write_frame ops r lane node counter frame_kind ver payload
                      in Some (set_lane r i (lane'\<lparr>write_pos := wrapping_add u64_max counter 1\<rparr>), id))"

text \<open>
  The two halves of a shared write: the atomic claim of a counter and the commit of its frame.
  Between them other writers may run.
\<close>

definition ring_claim :: "ring \<Rightarrow> nat \<Rightarrow> (ring \<times> nat) option" where
  "ring_claim r node =
     map_option (\<lambda>i. let lane = lanes r ! i; counter = write_pos lane
                     in (set_lane r i (lane\<lparr>write_pos := wrapping_add u64_max counter 1\<rparr>), counter))
       (ring_lane_of r node)"

definition ring_commit ::
    "netid_ops \<Rightarrow> ring \<Rightarrow> nat \<Rightarrow> nat \<Rightarrow> nat \<Rightarrow> nat \<Rightarrow> bytes \<Rightarrow> (ring \<times> nat) option" where
  "ring_commit ops r node counter frame_kind ver payload =
     map_option (\<lambda>i. let (lane', fid) = write_frame ops r (lanes r ! i) node counter frame_kind ver payload
                     in (set_lane r i lane', fid))
       (ring_lane_of r node)"

fun write_frames ::
    "netid_ops \<Rightarrow> ring \<Rightarrow> ring_lane \<Rightarrow> nat \<Rightarrow> nat \<Rightarrow> nat \<Rightarrow> nat \<Rightarrow> nat \<Rightarrow> bytes list \<Rightarrow> ring_lane \<times> nat list" where
  "write_frames ops r lane node start offset frame_kind ver [] = (lane, [])"
| "write_frames ops r lane node start offset frame_kind ver (payload # payloads) =
     (let (lane1, id) = write_frame ops r lane node (wrapping_add u64_max start offset) frame_kind ver payload;
          (lane2, ids) = write_frames ops r lane1 node start (offset + 1) frame_kind ver payloads
      in (lane2, id # ids))"

definition ring_write_batch ::
    "netid_ops \<Rightarrow> ring \<Rightarrow> nat \<Rightarrow> nat \<Rightarrow> nat \<Rightarrow> bytes list \<Rightarrow> (ring \<times> nat list) option" where
  "ring_write_batch ops r node frame_kind ver payloads =
     (if length payloads > r_capacity r then None
      else if \<exists>payload\<in>set payloads. length payload > r_payload_capacity r then None
      else if payloads = [] then Some (r, [])
      else case ring_lane_of r node of
             None \<Rightarrow> None
           | Some i \<Rightarrow>
               let lane = lanes r ! i; start = write_pos lane
               in case r_topology r of
                    Shared \<Rightarrow>
                      let claimed = lane\<lparr>write_pos := wrapping_add u64_max start (length payloads)\<rparr>;
                          (lane', ids) = write_frames ops r claimed node start 0 frame_kind ver payloads
                      in Some (set_lane r i lane', ids)
                  | _ \<Rightarrow>
                      let (lane', ids) = write_frames ops r lane node start 0 frame_kind ver payloads
                      in Some (set_lane r i (lane'\<lparr>write_pos := wrapping_add u64_max start (length ids)\<rparr>), ids))"

section \<open>Reads\<close>

definition ring_read :: "netid_ops \<Rightarrow> ring \<Rightarrow> nat \<Rightarrow> frame option" where
  "ring_read ops r fid =
     (if nid_kind ops fid \<noteq> r_kind r then None
      else case ring_lane_of r (nid_node ops fid) of
             None \<Rightarrow> None
           | Some i \<Rightarrow>
               (case lane_slots (lanes r ! i) ! (nid_counter ops fid mod r_capacity r) of
                  Some f \<Rightarrow> if fr_id f = fid then Some f else None
                | None \<Rightarrow> None))"

definition ring_read_at :: "ring \<Rightarrow> nat \<Rightarrow> frame option" where
  "ring_read_at r counter = lane_slots (lanes r ! 0) ! (counter mod r_capacity r)"

definition ring_read_head :: "ring \<Rightarrow> frame option" where
  "ring_read_head r =
     (let head = ring_head r
      in if head = 0 then None else lane_slots (lanes r ! 0) ! ((head - 1) mod r_capacity r))"

definition ring_read_state_at :: "netid_ops \<Rightarrow> ring \<Rightarrow> nat \<Rightarrow> ring_read_state" where
  "ring_read_state_at ops r counter =
     (case ring_read_at r counter of
        Some f \<Rightarrow> if nid_counter ops (fr_id f) = counter then Ready f
                  else if nid_counter ops (fr_id f) > counter then Unavailable
                  else Pending
      | None \<Rightarrow> Pending)"

text \<open>The lane reads panic outside the lanes, as \<open>Ring::lane\<close> does.\<close>

definition ring_read_lane_at :: "ring \<Rightarrow> nat \<Rightarrow> nat \<Rightarrow> frame option option" where
  "ring_read_lane_at r node counter =
     map_option (\<lambda>i. lane_slots (lanes r ! i) ! (counter mod r_capacity r)) (ring_lane_of r node)"

definition ring_read_lane_state_at :: "netid_ops \<Rightarrow> ring \<Rightarrow> nat \<Rightarrow> nat \<Rightarrow> ring_read_state option" where
  "ring_read_lane_state_at ops r node counter =
     map_option (\<lambda>slot. case slot of
        Some f \<Rightarrow> if nid_counter ops (fr_id f) = counter then Ready f
                  else if nid_counter ops (fr_id f) > counter then Unavailable
                  else if r_topology r \<noteq> Shared then Unavailable else Pending
      | None \<Rightarrow> if r_topology r \<noteq> Shared then Unavailable else Pending) (ring_read_lane_at r node counter)"

definition ring_reset :: "ring \<Rightarrow> ring" where
  "ring_reset r = r\<lparr>lanes := map (\<lambda>lane. lane\<lparr>lane_slots := map (\<lambda>_. None) (lane_slots lane), write_pos := 0\<rparr>) (lanes r),
     version_counter := 0\<rparr>"

text \<open>\<open>Ring\<close> as a frame source, and one lane as a source (the reads of \<open>FleetLaneSource\<close>).\<close>

definition ring_source_of :: "netid_ops \<Rightarrow> ring \<Rightarrow> ring_source" where
  "ring_source_of ops r = \<lparr>src_kind = r_kind r, src_head = ring_head r, src_capacity = r_capacity r,
     src_read_state = ring_read_state_at ops r\<rparr>"

section \<open>The registry\<close>

record ring_registry =
  rg_fleet_capacity :: nat
  rg_rings :: "nat \<Rightarrow> ring option"

definition registry_new :: "nat \<Rightarrow> ring_registry" where
  "registry_new fleet_capacity = \<lparr>rg_fleet_capacity = fleet_capacity, rg_rings = (\<lambda>_. None)\<rparr>"

definition registry_get_or_create :: "ring_registry \<Rightarrow> orbit_typed \<Rightarrow> (ring_registry \<times> ring) option" where
  "registry_get_or_create reg T =
     (case (case rg_rings reg (ot_kind T) of
              Some r \<Rightarrow> Some (reg, r)
            | None \<Rightarrow>
                map_option (\<lambda>r. (reg\<lparr>rg_rings := (rg_rings reg)(ot_kind T \<mapsto> r)\<rparr>, r))
                  (ring_new_for_fleet T (rg_fleet_capacity reg))) of
        None \<Rightarrow> None
      | Some (reg', r) \<Rightarrow> if ring_spec_of r \<noteq> ot_spec T then None else Some (reg', r))"

definition registry_lookup :: "ring_registry \<Rightarrow> nat \<Rightarrow> ring option" where
  "registry_lookup reg kind = rg_rings reg kind"

section \<open>The log a ring holds\<close>

definition entry_ok :: "netid_ops \<Rightarrow> nat \<Rightarrow> nat \<Rightarrow> frame \<Rightarrow> bool" where
  "entry_ok ops kind c f \<longleftrightarrow> nid_counter ops (fr_id f) = c \<and> nid_kind ops (fr_id f) = kind"

definition lane_logged :: "netid_ops \<Rightarrow> nat \<Rightarrow> nat \<Rightarrow> ring_lane \<Rightarrow> frame list \<Rightarrow> bool" where
  "lane_logged ops kind capacity lane h \<longleftrightarrow>
     write_pos lane = length h \<and> length h \<le> NETID_COUNTER_MAX + 1 \<and> length (lane_slots lane) = capacity \<and>
     (\<forall>c<length h. entry_ok ops kind c (h ! c)) \<and> window_ok id (lane_slots lane) h"

definition ring_logged :: "netid_ops \<Rightarrow> ring \<Rightarrow> frame list list \<Rightarrow> bool" where
  "ring_logged ops r hs \<longleftrightarrow>
     netid_laws ops \<and> r_kind r \<le> u8_max \<and> 0 < r_capacity r \<and> 0 < length (lanes r) \<and> length hs = length (lanes r) \<and>
     (r_topology r = PerNode \<longrightarrow> length (lanes r) \<le> u16_max + 1) \<and>
     (\<forall>i<length (lanes r). lane_logged ops (r_kind r) (r_capacity r) (lanes r ! i) (hs ! i))"

definition frame_at :: "netid_ops \<Rightarrow> ring \<Rightarrow> nat \<Rightarrow> nat \<Rightarrow> nat \<Rightarrow> nat \<Rightarrow> bytes \<Rightarrow> frame" where
  "frame_at ops r node counter frame_kind ver payload =
     \<lparr>fr_id = nid_make ops (r_kind r) node counter, fr_kind = frame_kind, fr_ver = ver, fr_payload = payload\<rparr>"

lemma write_frame_simp:
  "write_frame ops r lane node counter frame_kind ver payload =
    (lane\<lparr>lane_slots := (lane_slots lane)[counter mod r_capacity r := Some (frame_at ops r node counter frame_kind ver payload)]\<rparr>,
     nid_make ops (r_kind r) node counter)"
  by (simp add: write_frame_def frame_at_def Let_def)

lemma lane_update_swap: "lane\<lparr>lane_slots := s, write_pos := p\<rparr> = lane\<lparr>write_pos := p, lane_slots := s\<rparr>"
  by (cases lane) simp

lemma counter_no_wrap: "n \<le> NETID_COUNTER_MAX + 1 \<Longrightarrow> wrapping_add u64_max n 1 = n + 1"
  by (rule wrapping_add_exact) (simp add: NETID_COUNTER_MAX_def u64_max_def)

lemma lane_logged_append:
  assumes "netid_laws ops" "r_kind r \<le> u8_max" "0 < r_capacity r" "node \<le> u16_max" "length h \<le> NETID_COUNTER_MAX"
    and "lane_logged ops (r_kind r) (r_capacity r) lane h"
    and f_def: "f = frame_at ops r node (length h) frame_kind ver payload"
  shows "lane_logged ops (r_kind r) (r_capacity r)
    (lane\<lparr>write_pos := length h + 1, lane_slots := (lane_slots lane)[length h mod r_capacity r := Some f]\<rparr>) (h @ [f])"
proof -
  from assms(6) have l: "length (lane_slots lane) = r_capacity r" "\<forall>c<length h. entry_ok ops (r_kind r) c (h ! c)"
    "window_ok id (lane_slots lane) h" by (simp_all add: lane_logged_def)
  have "entry_ok ops (r_kind r) (length h) f"
    using netid_lawsD [OF assms(1,2,4,5)] by (simp add: entry_ok_def f_def frame_at_def)
  with l(2) have "\<forall>c<length (h @ [f]). entry_ok ops (r_kind r) c ((h @ [f]) ! c)"
    by (auto simp: nth_append less_Suc_eq)
  moreover have "window_ok id ((lane_slots lane)[length h mod r_capacity r := Some f]) (h @ [f])"
    using window_ok_append [OF l(3), of "Some f" f] l(1) assms(3) by fastforce
  ultimately show ?thesis using assms(5) l(1) by (simp add: lane_logged_def)
qed

lemma ring_loggedD:
  assumes "ring_logged ops r hs"
  shows "netid_laws ops" "r_kind r \<le> u8_max" "0 < r_capacity r" "0 < length (lanes r)" "length hs = length (lanes r)"
    "\<And>i. i < length (lanes r) \<Longrightarrow> lane_logged ops (r_kind r) (r_capacity r) (lanes r ! i) (hs ! i)"
  using assms by (auto simp: ring_logged_def)

lemma ring_logged_update:
  assumes "ring_logged ops r hs" "i < length (lanes r)"
    and "lane_logged ops (r_kind r) (r_capacity r) lane h"
  shows "ring_logged ops (set_lane r i lane) (hs[i := h])"
  using assms by (auto simp: ring_logged_def set_lane_def nth_list_update)

lemma ring_lane_of_less: "ring_lane_of r node = Some i \<Longrightarrow> i < length (lanes r)"
  by (auto simp: ring_lane_of_def Let_def split: if_splits)

lemma ring_write_appends:
  assumes "ring_logged ops r hs" "ring_lane_of r node = Some i" "node \<le> u16_max"
    and "length payload \<le> r_payload_capacity r" "length (hs ! i) \<le> NETID_COUNTER_MAX"
    and f_def: "f = frame_at ops r node (length (hs ! i)) frame_kind ver payload"
  shows "\<exists>r'. ring_write ops r node frame_kind ver payload = Some (r', fr_id f) \<and>
    ring_logged ops r' (hs[i := hs ! i @ [f]]) \<and> r_capacity r' = r_capacity r \<and> r_topology r' = r_topology r \<and>
    r_kind r' = r_kind r \<and> length (lanes r') = length (lanes r)"
proof -
  note i = ring_lane_of_less [OF assms(2)]
  note d = ring_loggedD [OF assms(1)]
  have wp: "write_pos (lanes r ! i) = length (hs ! i)" using d(6) [OF i] by (simp add: lane_logged_def)
  let ?lane = "(lanes r ! i)\<lparr>write_pos := length (hs ! i) + 1,
    lane_slots := (lane_slots (lanes r ! i))[length (hs ! i) mod r_capacity r := Some f]\<rparr>"
  have lg: "ring_logged ops (set_lane r i ?lane) (hs[i := hs ! i @ [f]])"
    by (rule ring_logged_update [OF assms(1) i]) (rule lane_logged_append [OF d(1-3) assms(3,5) d(6) [OF i] f_def])
  have w: "wrapping_add u64_max (length (hs ! i)) 1 = length (hs ! i) + 1"
    using assms(5) by (intro counter_no_wrap) simp
  have "ring_write ops r node frame_kind ver payload = Some (set_lane r i ?lane, fr_id f)"
    using assms(2,4) w by (cases "r_topology r") (simp_all add: ring_write_def Let_def write_frame_simp wp f_def frame_at_def lane_update_swap)
  with lg show ?thesis by (auto simp: set_lane_def)
qed

text \<open>The frames a batch appends, at consecutive counters.\<close>

fun batch_frames :: "netid_ops \<Rightarrow> ring \<Rightarrow> nat \<Rightarrow> nat \<Rightarrow> nat \<Rightarrow> nat \<Rightarrow> bytes list \<Rightarrow> frame list" where
  "batch_frames ops r node c frame_kind ver [] = []"
| "batch_frames ops r node c frame_kind ver (p # ps) =
     frame_at ops r node c frame_kind ver p # batch_frames ops r node (c + 1) frame_kind ver ps"

lemma length_batch_frames [simp]: "length (batch_frames ops r node c k v ps) = length ps"
  by (induction ps arbitrary: c) auto

lemma write_frames_logged:
  assumes "netid_laws ops" "r_kind r \<le> u8_max" "0 < r_capacity r" "node \<le> u16_max"
    and "lane_logged ops (r_kind r) (r_capacity r) (lane\<lparr>write_pos := length h\<rparr>) h" "length h = start + offset"
    and "length h + length ps \<le> NETID_COUNTER_MAX + 1"
    and "write_frames ops r lane node start offset frame_kind ver ps = (lane', ids)"
  shows "lane_logged ops (r_kind r) (r_capacity r) (lane'\<lparr>write_pos := length h + length ps\<rparr>)
      (h @ batch_frames ops r node (length h) frame_kind ver ps) \<and>
    ids = map fr_id (batch_frames ops r node (length h) frame_kind ver ps) \<and> write_pos lane' = write_pos lane"
  using assms(5-8)
proof (induction ps arbitrary: lane h offset lane' ids)
  case Nil
  then show ?case by simp
next
  case (Cons p ps)
  let ?f = "frame_at ops r node (length h) frame_kind ver p"
  have w: "wrapping_add u64_max start offset = length h"
    using Cons.prems(2,3) by (subst wrapping_add_exact) (auto simp: NETID_COUNTER_MAX_def u64_max_def)
  let ?lane1 = "lane\<lparr>lane_slots := (lane_slots lane)[length h mod r_capacity r := Some ?f]\<rparr>"
  obtain ids' where rest: "write_frames ops r ?lane1 node start (offset + 1) frame_kind ver ps = (lane', ids')"
    "ids = fr_id ?f # ids'"
    using Cons.prems(4) by (auto simp: w write_frame_simp Let_def frame_at_def split: prod.splits)
  have "length h \<le> NETID_COUNTER_MAX" using Cons.prems(3) by simp
  from lane_logged_append [OF assms(1-4) this Cons.prems(1) refl, of frame_kind ver p]
  have l1: "lane_logged ops (r_kind r) (r_capacity r) (?lane1\<lparr>write_pos := length (h @ [?f])\<rparr>) (h @ [?f])"
    by (simp add: lane_update_swap)
  from Cons.IH [OF l1 _ _ rest(1)] Cons.prems(2,3) rest(2) show ?case by simp
qed

lemma ring_write_batch_appends:
  assumes "ring_logged ops r hs" "ring_lane_of r node = Some i" "node \<le> u16_max"
    and "length ps \<le> r_capacity r" "\<forall>p\<in>set ps. length p \<le> r_payload_capacity r"
    and "length (hs ! i) + length ps \<le> NETID_COUNTER_MAX + 1"
    and fs_def: "fs = batch_frames ops r node (length (hs ! i)) frame_kind ver ps"
  shows "\<exists>r'. ring_write_batch ops r node frame_kind ver ps = Some (r', map fr_id fs) \<and>
    ring_logged ops r' (hs[i := hs ! i @ fs])"
proof (cases "ps = []")
  case True
  with assms(1,7) show ?thesis by (simp add: ring_write_batch_def)
next
  case False
  note i = ring_lane_of_less [OF assms(2)]
  note d = ring_loggedD [OF assms(1)]
  let ?lane = "lanes r ! i" and ?h = "hs ! i"
  have wp: "write_pos ?lane = length ?h" using d(6) [OF i] by (simp add: lane_logged_def)
  have w: "wrapping_add u64_max (length ?h) (length ps) = length ?h + length ps"
    using assms(6) by (intro wrapping_add_exact) (simp add: NETID_COUNTER_MAX_def u64_max_def)
  have go: "ring_logged ops (set_lane r i (lane'\<lparr>write_pos := length ?h + length ps\<rparr>)) (hs[i := ?h @ fs]) \<and>
      ids = map fr_id fs \<and> write_pos lane' = write_pos lane"
    if "write_frames ops r lane node (length ?h) 0 frame_kind ver ps = (lane', ids)"
      "lane\<lparr>write_pos := length ?h\<rparr> = ?lane" for lane lane' ids
    using write_frames_logged [OF d(1-3) assms(3) _ _ assms(6) that(1)] d(6) [OF i] that(2)
      ring_logged_update [OF assms(1) i] fs_def by simp
  have lens: "\<not> r_capacity r < length ps" "\<not> (\<exists>p\<in>set ps. r_payload_capacity r < length p)"
    using assms(4,5) by (auto simp: not_less)
  have self: "?lane\<lparr>write_pos := length ?h\<rparr> = ?lane" using wp by simp
  show ?thesis
  proof (cases "r_topology r = Shared")
    case True
    let ?cl = "?lane\<lparr>write_pos := length ?h + length ps\<rparr>"
    obtain lane' ids where wf: "write_frames ops r ?cl node (length ?h) 0 frame_kind ver ps = (lane', ids)" by fastforce
    from go [OF wf] self have g: "ring_logged ops (set_lane r i (lane'\<lparr>write_pos := length ?h + length ps\<rparr>)) (hs[i := ?h @ fs])"
      "ids = map fr_id fs" "write_pos lane' = length ?h + length ps" by simp_all
    then have "lane'\<lparr>write_pos := length ?h + length ps\<rparr> = lane'" by simp
    with g True False lens assms(2) wf show ?thesis by (simp add: ring_write_batch_def Let_def wp w)
  next
    case nsh: False
    obtain lane' ids where wf: "write_frames ops r ?lane node (length ?h) 0 frame_kind ver ps = (lane', ids)" by fastforce
    from go [OF wf self] have g: "ring_logged ops (set_lane r i (lane'\<lparr>write_pos := length ?h + length ps\<rparr>)) (hs[i := ?h @ fs])"
      "ids = map fr_id fs" by simp_all
    then have "length ids = length ps" using fs_def by simp
    with g nsh False lens assms(2) wf show ?thesis
      by (cases "r_topology r") (simp_all add: ring_write_batch_def Let_def wp w)
  qed
qed

section \<open>Reading the log back\<close>

lemma residue_in_window: "0 < n \<Longrightarrow> \<exists>c'. lo \<le> c' \<and> c' < lo + n \<and> c' mod n = c mod (n::nat)"
proof -
  assume n: "0 < n"
  let ?c = "lo + (c mod n + (n - lo mod n)) mod n"
  have "?c mod n = (lo + (c mod n + (n - lo mod n))) mod n" by (simp add: mod_add_right_eq)
  also have "\<dots> = (c mod n + n + n * (lo div n)) mod n"
  proof -
    have "lo + (c mod n + (n - lo mod n)) = c mod n + n + n * (lo div n)"
      using mod_less_divisor [OF n, of lo] mult_div_mod_eq [of n lo] by linarith
    then show ?thesis by (simp only:)
  qed
  also have "\<dots> = c mod n" by simp
  finally show ?thesis using n by (intro exI [of _ ?c]) simp
qed

lemma slot_of_counter:
  assumes "lane_logged ops kind n lane h" "0 < n" "c < length h"
  shows "\<exists>c'<length h. lane_slots lane ! (c mod n) = Some (h ! c') \<and> c \<le> c' \<and> (c' = c \<longleftrightarrow> length h \<le> c + n)"
proof -
  from assms(1) have l: "length (lane_slots lane) = n" "window_ok id (lane_slots lane) h" by (simp_all add: lane_logged_def)
  show ?thesis
  proof (cases "length h \<le> c + n")
    case True
    with l assms(3) show ?thesis by (intro exI [of _ c]) (simp add: window_ok_def)
  next
    case False
    obtain c' where c': "length h - n \<le> c'" "c' < length h - n + n" "c' mod n = c mod n"
      using residue_in_window [OF assms(2)] by blast
    from False c' have "c < c'" "c' < length h" "length h \<le> c' + n" by auto
    moreover from this l have "lane_slots lane ! (c' mod n) = Some (h ! c')" by (simp add: window_ok_def)
    ultimately show ?thesis using c'(3) False by (intro exI [of _ c']) simp
  qed
qed

lemma ring_read_exact:
  assumes "ring_logged ops r hs" "i < length (lanes r)" "c < length (hs ! i)"
    and "ring_lane_of r (nid_node ops (fr_id (hs ! i ! c))) = Some i"
  shows "ring_read ops r (fr_id (hs ! i ! c)) = (if length (hs ! i) \<le> c + r_capacity r then Some (hs ! i ! c) else None)"
proof -
  note d = ring_loggedD [OF assms(1)]
  have e: "entry_ok ops (r_kind r) j (hs ! i ! j)" if "j < length (hs ! i)" for j
    using d(6) [OF assms(2)] that by (simp add: lane_logged_def)
  obtain c' where c': "c' < length (hs ! i)" "lane_slots (lanes r ! i) ! (c mod r_capacity r) = Some (hs ! i ! c')"
    "c' = c \<longleftrightarrow> length (hs ! i) \<le> c + r_capacity r"
    using slot_of_counter [OF d(6) [OF assms(2)] d(3) assms(3)] by blast
  have k: "nid_kind ops (fr_id (hs ! i ! c)) = r_kind r" "nid_counter ops (fr_id (hs ! i ! c)) = c"
    using e [OF assms(3)] by (simp_all add: entry_ok_def)
  have "ring_read ops r (fr_id (hs ! i ! c)) =
      (if fr_id (hs ! i ! c') = fr_id (hs ! i ! c) then Some (hs ! i ! c') else None)"
    unfolding ring_read_def k assms(4) by (simp only: option.case c'(2) simp_thms if_False)
  also have "fr_id (hs ! i ! c') = fr_id (hs ! i ! c) \<longleftrightarrow> c' = c"
    using e [OF c'(1)] k(2) by (metis entry_ok_def)
  finally show ?thesis using c'(3) by (cases "c' = c") simp_all
qed

section \<open>The ring and its lanes as committed sources\<close>

definition lane_source_at :: "netid_ops \<Rightarrow> ring \<Rightarrow> nat \<Rightarrow> nat \<Rightarrow> ring_source" where
  "lane_source_at ops r node i = \<lparr>src_kind = r_kind r, src_head = write_pos (lanes r ! i), src_capacity = r_capacity r,
     src_read_state = (\<lambda>counter. case ring_read_lane_state_at ops r node counter of
        Some s \<Rightarrow> s | None \<Rightarrow> Unavailable)\<rparr>"

text \<open>\<open>FleetLaneSource\<close> of a node; \<open>None\<close> is the panic of \<open>Ring::lane\<close>.\<close>

definition ring_lane_source :: "netid_ops \<Rightarrow> ring \<Rightarrow> nat \<Rightarrow> ring_source option" where
  "ring_lane_source ops r node = map_option (lane_source_at ops r node) (ring_lane_of r node)"

lemma head_u64: "lane_logged ops kind n lane h \<Longrightarrow> write_pos lane \<le> u64_max"
  by (simp add: lane_logged_def NETID_COUNTER_MAX_def u64_max_def)

lemma lane_slot_in_window:
  assumes "lane_logged ops kind n lane h" "c < length h" "length h \<le> c + n"
  shows "lane_slots lane ! (c mod n) = Some (h ! c)" "entry_ok ops kind c (h ! c)"
  using assms by (auto simp: lane_logged_def window_ok_def)

interpretation mem: committed_source
  "\<lambda>(ops, r, hs). ring_logged ops r hs" "\<lambda>(ops, r, hs). ops" "\<lambda>(ops, r, hs). ring_source_of ops r"
  "\<lambda>(ops, r, hs) c. hs ! 0 ! c"
proof (unfold_locales, goal_cases)
  case (1 s)
  then obtain ops r hs where s: "s = (ops, r, hs)" "ring_logged ops r hs" by (cases s) auto
  with head_u64 [OF ring_loggedD(6) [OF s(2) ring_loggedD(4) [OF s(2)]]] show ?case
    by (simp add: ring_source_of_def ring_head_def)
next
  case (2 s c)
  then obtain ops r hs where s: "s = (ops, r, hs)" "ring_logged ops r hs" by (cases s) auto
  note l = ring_loggedD(6) [OF s(2) ring_loggedD(4) [OF s(2)]]
  from 2 s have "c < length (hs ! 0)" "length (hs ! 0) \<le> c + r_capacity r"
    using l by (simp_all add: ring_source_of_def ring_head_def lane_logged_def)
  from lane_slot_in_window [OF l this] s show ?case
    by (simp add: ring_source_of_def ring_read_state_at_def ring_read_at_def entry_ok_def)
next
  case (3 s c)
  then obtain ops r hs where s: "s = (ops, r, hs)" "ring_logged ops r hs" by (cases s) auto
  note l = ring_loggedD(6) [OF s(2) ring_loggedD(4) [OF s(2)]]
  with 3 s show ?case by (simp add: ring_source_of_def ring_head_def lane_logged_def entry_ok_def)
qed

interpretation lane: committed_source
  "\<lambda>(ops, r, hs, node, i). ring_logged ops r hs \<and> ring_lane_of r node = Some i" "\<lambda>(ops, r, hs, node, i). ops"
  "\<lambda>(ops, r, hs, node, i). lane_source_at ops r node i" "\<lambda>(ops, r, hs, node, i) c. hs ! i ! c"
proof (unfold_locales, goal_cases)
  case (1 s)
  then obtain ops r hs node i where s: "s = (ops, r, hs, node, i)" "ring_logged ops r hs" "ring_lane_of r node = Some i"
    by (cases s) auto
  from head_u64 [OF ring_loggedD(6) [OF s(2) ring_lane_of_less [OF s(3)]]] s(1) show ?case
    by (simp add: lane_source_at_def)
next
  case (2 s c)
  then obtain ops r hs node i where s: "s = (ops, r, hs, node, i)" "ring_logged ops r hs" "ring_lane_of r node = Some i"
    by (cases s) auto
  note l = ring_loggedD(6) [OF s(2) ring_lane_of_less [OF s(3)]]
  from 2 s have "c < length (hs ! i)" "length (hs ! i) \<le> c + r_capacity r"
    using l by (simp_all add: lane_source_at_def lane_logged_def)
  from lane_slot_in_window [OF l this] s show ?case
    by (simp add: lane_source_at_def ring_read_lane_state_at_def ring_read_lane_at_def entry_ok_def)
next
  case (3 s c)
  then obtain ops r hs node i where s: "s = (ops, r, hs, node, i)" "ring_logged ops r hs" "ring_lane_of r node = Some i"
    by (cases s) auto
  note l = ring_loggedD(6) [OF s(2) ring_lane_of_less [OF s(3)]]
  with 3 s show ?case by (simp add: lane_source_at_def lane_logged_def entry_ok_def)
qed

section \<open>Shared writes, taken apart\<close>

lemma ring_write_shared:
  assumes "r_topology r = Shared" "length payload \<le> r_payload_capacity r"
  shows "ring_write ops r node frame_kind ver payload =
    (case ring_claim r node of None \<Rightarrow> None | Some (r1, counter) \<Rightarrow> ring_commit ops r1 node counter frame_kind ver payload)"
  using assms
  by (auto simp: ring_write_def ring_claim_def ring_commit_def set_lane_def ring_lane_of_def Let_def write_frame_def
      split: option.split)

definition demo_shared :: ring where
  "demo_shared = \<lparr>r_kind = 3, r_capacity = 1, r_payload_capacity = 8, r_topology = Shared, version_counter = 0,
     lanes = [lane_new 1]\<rparr>"

text \<open>
  C40: on a shared in-memory ring a writer that stalls between its claim and its commit and is lapped
  there destroys a newer frame: the newest write, which had completed, no longer reads back by its
  identity, and its counter is classified as still in flight, so a cursor stops there.
\<close>

theorem lapped_shared_commit_hides_newest:
  "\<exists>r1 r2 r3 newest. ring_claim demo_shared 0 = Some (r1, 0) \<and>
     ring_write packed_netid r1 1 1 9 [2] = Some (r2, newest) \<and> ring_read packed_netid r2 newest \<noteq> None \<and>
     ring_commit packed_netid r2 0 0 1 9 [1] = Some (r3, nid_make packed_netid 3 0 0) \<and>
     ring_read packed_netid r3 newest = None \<and> ring_head r3 = 2 \<and> ring_read_state_at packed_netid r3 1 = Pending"
proof -
  let ?r1 = "fst (the (ring_claim demo_shared 0))"
  let ?w = "the (ring_write packed_netid ?r1 1 1 9 [2])"
  let ?r3 = "fst (the (ring_commit packed_netid (fst ?w) 0 0 1 9 [1]))"
  have "ring_claim demo_shared 0 = Some (?r1, 0)" by code_simp
  moreover have "ring_write packed_netid ?r1 1 1 9 [2] = Some (fst ?w, snd ?w)" by code_simp
  moreover have "ring_read packed_netid (fst ?w) (snd ?w) \<noteq> None" by code_simp
  moreover have "ring_commit packed_netid (fst ?w) 0 0 1 9 [1] = Some (?r3, nid_make packed_netid 3 0 0)" by code_simp
  moreover have "ring_read packed_netid ?r3 (snd ?w) = None" "ring_head ?r3 = 2" "ring_read_state_at packed_netid ?r3 1 = Pending"
    by code_simp+
  ultimately show ?thesis by blast
qed

end
