(* ===== verification/Ring_Shm.thy ===== *)
theory Ring_Shm
  imports Ring_Memory "HOL-Library.Multiset"
begin

text \<open>
  The shared-memory ring of \<open>core/src/ring/shm.rs\<close>: the segment's geometry, the header check of
  creators, attachers and observers, and the slot protocol. A slot write is the list of its atomic
  stores (\<open>write_slot_stores\<close>) and a slot read performs its loads one at a time, each at its own
  point of the slot's history (\<open>load_times\<close>), so that writer and reader interleave freely; stores
  and loads of one thread keep program order, which is what the release and acquire fences of the
  source establish.
\<close>

section \<open>Segment geometry\<close>

datatype shm_error = InvalidInput string | InvalidData string

definition SHM_RING_MAGIC :: nat where "SHM_RING_MAGIC = 0x4f524254"
definition SHM_RING_VERSION :: nat where "SHM_RING_VERSION = 3"
definition SLOT_ALIGNMENT :: nat where "SLOT_ALIGNMENT = 64"
definition SLOT_HEADER_SIZE :: nat where "SLOT_HEADER_SIZE = 32"
definition RING_HEADER_SIZE :: nat where "RING_HEADER_SIZE = 64"
definition LANE_HEADER_SIZE :: nat where "LANE_HEADER_SIZE = 64"

lemmas shm_sizes = SLOT_ALIGNMENT_def SLOT_HEADER_SIZE_def RING_HEADER_SIZE_def LANE_HEADER_SIZE_def

definition lane_count_for :: "ring_spec \<Rightarrow> nat \<Rightarrow> shm_error + nat" where
  "lane_count_for spec fleet_capacity =
     (if fleet_capacity = 0 then Inl (InvalidInput ''ShmRing fleet capacity must be > 0'')
      else Inr (case rs_topology spec of PerNode \<Rightarrow> fleet_capacity | _ \<Rightarrow> 1))"

definition checked_layout :: "ring_spec \<Rightarrow> nat \<Rightarrow> shm_error + (nat \<times> nat \<times> nat)" where
  "checked_layout spec fleet_capacity =
     (if rs_capacity spec = 0 then Inl (InvalidInput ''ShmRing capacity must be > 0'')
      else if \<not> is_power_of_two (rs_capacity spec) then Inl (InvalidInput ''ShmRing capacity must be a power of two'')
      else if rs_payload_capacity spec > u32_max then Inl (InvalidInput ''ShmRing payload capacity must fit in u32'')
      else case checked_add u64_max SLOT_HEADER_SIZE (rs_payload_capacity spec) of
             None \<Rightarrow> Inl (InvalidInput ''ShmRing slot size overflow'')
           | Some unaligned \<Rightarrow>
      (case checked_add u64_max unaligned (SLOT_ALIGNMENT - 1) of
             None \<Rightarrow> Inl (InvalidInput ''ShmRing slot stride overflow'')
           | Some v \<Rightarrow>
      let slot_stride = v div SLOT_ALIGNMENT * SLOT_ALIGNMENT
      in if slot_stride > u32_max then Inl (InvalidInput ''ShmRing slot stride must fit in u32'')
         else case lane_count_for spec fleet_capacity of Inl e \<Rightarrow> Inl e
              | Inr lane_count \<Rightarrow>
      (case checked_mul u64_max lane_count LANE_HEADER_SIZE of
             None \<Rightarrow> Inl (InvalidInput ''ShmRing lane header size overflow'')
           | Some lane_headers_size \<Rightarrow>
      (case checked_add u64_max RING_HEADER_SIZE lane_headers_size of
             None \<Rightarrow> Inl (InvalidInput ''ShmRing slots offset overflow'')
           | Some slots_offset \<Rightarrow>
      (case checked_mul u64_max (rs_capacity spec) slot_stride of
             None \<Rightarrow> Inl (InvalidInput ''ShmRing lane size overflow'')
           | Some slots_per_lane \<Rightarrow>
      (case checked_mul u64_max lane_count slots_per_lane of
             None \<Rightarrow> Inl (InvalidInput ''ShmRing slots size overflow'')
           | Some slots_size \<Rightarrow>
      (case checked_add u64_max slots_offset slots_size of
             None \<Rightarrow> Inl (InvalidInput ''ShmRing segment size overflow'')
           | Some segment_size \<Rightarrow> Inr (slot_stride, slots_offset, segment_size))))))))"

definition segment_size_for_spec_and_fleet :: "ring_spec \<Rightarrow> nat \<Rightarrow> shm_error + nat" where
  "segment_size_for_spec_and_fleet spec fleet_capacity =
     (case checked_layout spec fleet_capacity of Inl e \<Rightarrow> Inl e | Inr (_, _, segment_size) \<Rightarrow> Inr segment_size)"

text \<open>The byte offset of a slot, as \<open>slot_ptr\<close> computes it.\<close>

definition slot_offset :: "nat \<Rightarrow> nat \<Rightarrow> nat \<Rightarrow> nat \<Rightarrow> nat \<Rightarrow> nat" where
  "slot_offset slots_offset lane_stride slot_stride lane idx = slots_offset + lane * lane_stride + idx * slot_stride"

lemma checked_layoutD:
  assumes "checked_layout spec fc = Inr (slot_stride, slots_offset, segment_size)"
  obtains lane_count where "lane_count_for spec fc = Inr lane_count" "is_power_of_two (rs_capacity spec)"
    "slot_stride = (SLOT_HEADER_SIZE + rs_payload_capacity spec + 63) div 64 * 64" "slot_stride \<le> u32_max"
    "slots_offset = RING_HEADER_SIZE + lane_count * LANE_HEADER_SIZE"
    "segment_size = slots_offset + lane_count * (rs_capacity spec * slot_stride)" "segment_size \<le> u64_max"
  using assms
  by (auto simp: checked_layout_def Let_def SLOT_ALIGNMENT_def split: if_splits option.splits sum.splits)

lemma align_up: "(n::nat) \<le> (n + 63) div 64 * 64" "(n + 63) div 64 * 64 < n + 64"
  using div_mult_mod_eq [of "n + 63" 64] mod_less_divisor [of 64 "n + 63"] by linarith+

lemma slots_in_bounds:
  assumes "checked_layout spec fc = Inr (slot_stride, slots_offset, segment_size)"
    and "lane_count_for spec fc = Inr lane_count" "lane < lane_count" "idx < rs_capacity spec"
  defines "at \<equiv> slot_offset slots_offset (rs_capacity spec * slot_stride) slot_stride"
  shows "SLOT_HEADER_SIZE + rs_payload_capacity spec \<le> slot_stride \<and>
    RING_HEADER_SIZE + lane_count * LANE_HEADER_SIZE \<le> at lane idx \<and>
    at lane idx + slot_stride \<le> segment_size \<and> segment_size \<le> u64_max \<and> at lane idx mod SLOT_ALIGNMENT = 0 \<and>
    (\<forall>lane' idx'. idx' < rs_capacity spec \<and> (lane', idx') \<noteq> (lane, idx) \<longrightarrow>
       at lane idx + slot_stride \<le> at lane' idx' \<or> at lane' idx' + slot_stride \<le> at lane idx)"
proof -
  from checked_layoutD [OF assms(1)] assms(2) have
    st: "slot_stride = (SLOT_HEADER_SIZE + rs_payload_capacity spec + 63) div 64 * 64"
    and off: "slots_offset = RING_HEADER_SIZE + lane_count * LANE_HEADER_SIZE"
    and size: "segment_size = slots_offset + lane_count * (rs_capacity spec * slot_stride)" "segment_size \<le> u64_max"
    by (metis sum.inject(2))+
  let ?n = "rs_capacity spec"
  have at: "at l j = slots_offset + (l * ?n + j) * slot_stride" for l j
    by (simp add: at_def slot_offset_def algebra_simps)
  have mono: "(a + 1) * slot_stride \<le> b * slot_stride" if "a < b" for a b
    using that by (intro mult_le_mono1) simp
  have "(lane * ?n + idx) < lane_count * ?n"
    using assms(3,4) by (metis add.commute less_le_trans mult.commute mult_Suc_right mult_le_mono1 nat_add_left_cancel_less Suc_leI)
  from mono [OF this] have "at lane idx + slot_stride \<le> segment_size"
    by (simp add: at size(1) algebra_simps)
  moreover have "at lane idx mod SLOT_ALIGNMENT = 0" by (simp add: at off st shm_sizes)
  moreover have "at lane idx + slot_stride \<le> at lane' idx' \<or> at lane' idx' + slot_stride \<le> at lane idx"
    if "idx' < ?n" "(lane', idx') \<noteq> (lane, idx)" for lane' idx'
  proof -
    have "lane' * ?n + idx' \<noteq> lane * ?n + idx"
      using that assms(4) by (metis mult_add_div mult_add_mod)
    then consider "lane * ?n + idx < lane' * ?n + idx'" | "lane' * ?n + idx' < lane * ?n + idx" by linarith
    then show ?thesis by cases (use mono in \<open>fastforce simp: at algebra_simps\<close>)+
  qed
  ultimately show ?thesis using size(2) off st align_up(1) by (simp add: at)
qed

text \<open>
  C31: memory safety of the slot area. When the geometry is accepted, every slot a lane and index
  address starts on a cache line, lies inside the mapped segment behind the headers, is large enough
  for the slot header and the declared payload, and two different slots never overlap.
\<close>

theorem shm_slots_in_bounds:
  assumes "checked_layout spec fc = Inr (slot_stride, slots_offset, segment_size)"
    and "lane_count_for spec fc = Inr lane_count" "lane < lane_count" "idx < rs_capacity spec"
  defines "at \<equiv> slot_offset slots_offset (rs_capacity spec * slot_stride) slot_stride"
  shows "SLOT_HEADER_SIZE + rs_payload_capacity spec \<le> slot_stride \<and>
    RING_HEADER_SIZE + lane_count * LANE_HEADER_SIZE \<le> at lane idx \<and>
    at lane idx + slot_stride \<le> segment_size \<and> segment_size \<le> u64_max \<and> at lane idx mod SLOT_ALIGNMENT = 0 \<and>
    (\<forall>lane' idx'. idx' < rs_capacity spec \<and> (lane', idx') \<noteq> (lane, idx) \<longrightarrow>
       at lane idx + slot_stride \<le> at lane' idx' \<or> at lane' idx' + slot_stride \<le> at lane idx)"
  unfolding at_def by (rule slots_in_bounds [OF assms(1-4)])

theorem shm_slots_in_bounds_witness:
  "slot_offset 192 256 64 1 3 + 64 \<le> 704 \<and> slot_offset 192 256 64 1 3 mod SLOT_ALIGNMENT = 0"
proof -
  have l: "checked_layout (spec_per_node 4 18) 2 = Inr (64, 192, 704)" by code_simp
  have c: "lane_count_for (spec_per_node 4 18) 2 = Inr 2" by code_simp
  from shm_slots_in_bounds [OF l c, of 1 3] show ?thesis by (simp add: spec_per_node_def)
qed

section \<open>Slots, stores and loads\<close>

record shm_slot =
  ss_seq :: nat
  ss_id :: nat
  ss_ver :: nat
  ss_payload_len :: nat
  ss_kind :: nat
  ss_payload :: bytes

definition shm_slot_zero :: "nat \<Rightarrow> shm_slot" where
  "shm_slot_zero payload_capacity = \<lparr>ss_seq = 0, ss_id = 0, ss_ver = 0, ss_payload_len = 0, ss_kind = 0,
     ss_payload = replicate payload_capacity 0\<rparr>"

datatype slot_store = StSeq nat | StId nat | StVer nat | StLen nat | StKind nat | StByte nat byte

fun apply_store :: "slot_store \<Rightarrow> shm_slot \<Rightarrow> shm_slot" where
  "apply_store (StSeq v) s = s\<lparr>ss_seq := v\<rparr>"
| "apply_store (StId v) s = s\<lparr>ss_id := v\<rparr>"
| "apply_store (StVer v) s = s\<lparr>ss_ver := v\<rparr>"
| "apply_store (StLen v) s = s\<lparr>ss_payload_len := v\<rparr>"
| "apply_store (StKind v) s = s\<lparr>ss_kind := v\<rparr>"
| "apply_store (StByte i b) s = s\<lparr>ss_payload := (ss_payload s)[i := b]\<rparr>"

definition mid_seq :: "nat \<Rightarrow> nat option" where
  "mid_seq counter =
     (case checked_mul u64_max counter 2 of None \<Rightarrow> None | Some v \<Rightarrow> checked_add u64_max v 1)"

text \<open>The stores of \<open>write_slot\<close> in order; \<open>None\<close> is the \<open>seq overflow\<close> panic.\<close>

definition content_stores :: "frame \<Rightarrow> slot_store list" where
  "content_stores f =
     [StId (fr_id f), StVer (fr_ver f), StLen (length (fr_payload f) mod 2 ^ 32), StKind (fr_kind f)] @
     map (\<lambda>i. StByte i (fr_payload f ! i)) [0..<length (fr_payload f)]"

definition write_slot_stores :: "nat \<Rightarrow> frame \<Rightarrow> slot_store list option" where
  "write_slot_stores counter f =
     (case mid_seq counter of None \<Rightarrow> None
      | Some mid \<Rightarrow> Some (StSeq mid # content_stores f @ [StSeq (wrapping_add u64_max mid 1)]))"

text \<open>
  The loads of \<open>read_committed_frame\<close>, each at its point of the slot's history \<open>S\<close>; the payload
  bytes are read by index.
\<close>

record load_times =
  t_pre :: nat
  t_id :: nat
  t_kind :: nat
  t_ver :: nat
  t_len :: nat
  t_byte :: "nat \<Rightarrow> nat"
  t_post :: nat

definition read_committed_at :: "(nat \<Rightarrow> shm_slot) \<Rightarrow> load_times \<Rightarrow> nat \<Rightarrow> frame option" where
  "read_committed_at S T payload_capacity =
     (let seq_pre = ss_seq (S (t_pre T))
      in if seq_pre = 0 then None
         else if seq_pre mod 2 = 1 then None
         else
           let fid = ss_id (S (t_id T)); kind = ss_kind (S (t_kind T)); ver = ss_ver (S (t_ver T));
               payload_len = ss_payload_len (S (t_len T))
           in if payload_len > payload_capacity then None
              else
                let payload = map (\<lambda>index. ss_payload (S (t_byte T index)) ! index) [0..<payload_len];
                    seq_post = ss_seq (S (t_post T))
                in if seq_pre \<noteq> seq_post then None
                   else Some \<lparr>fr_id = fid, fr_kind = kind, fr_ver = ver, fr_payload = payload\<rparr>)"

text \<open>The loads of one attempt happen between its first and its last.\<close>

definition in_order :: "load_times \<Rightarrow> bool" where
  "in_order T \<longleftrightarrow> t_pre T \<le> t_id T \<and> t_id T \<le> t_post T \<and> t_pre T \<le> t_kind T \<and> t_kind T \<le> t_post T \<and>
     t_pre T \<le> t_ver T \<and> t_ver T \<le> t_post T \<and> t_pre T \<le> t_len T \<and> t_len T \<le> t_post T \<and>
     (\<forall>i. t_pre T \<le> t_byte T i \<and> t_byte T i \<le> t_post T) \<and> t_pre T \<le> t_post T"

definition still :: load_times where
  "still = \<lparr>t_pre = 0, t_id = 0, t_kind = 0, t_ver = 0, t_len = 0, t_byte = (\<lambda>_. 0), t_post = 0\<rparr>"

text \<open>Reading a slot no writer touches.\<close>

definition read_committed_frame :: "shm_slot \<Rightarrow> nat \<Rightarrow> frame option" where
  "read_committed_frame slot payload_capacity = read_committed_at (\<lambda>_. slot) still payload_capacity"

text \<open>The three attempts of the read loops.\<close>

fun read_attempts :: "(nat \<Rightarrow> shm_slot) \<Rightarrow> load_times list \<Rightarrow> nat \<Rightarrow> frame option" where
  "read_attempts S [] payload_capacity = None"
| "read_attempts S (T # Ts) payload_capacity =
     (case read_committed_at S T payload_capacity of
        Some f \<Rightarrow> Some f
      | None \<Rightarrow> read_attempts S Ts payload_capacity)"

text \<open>
  \<open>read_lane_index_state_at\<close>: each attempt loads the sequence and compares it with the committed
  sequence of the counter before it reads the slot; \<open>t_last\<close> is the load after the third attempt.
\<close>

definition expected_committed :: "nat \<Rightarrow> nat option" where
  "expected_committed counter =
     (case checked_mul u64_max counter 2 of None \<Rightarrow> None | Some v \<Rightarrow> checked_add u64_max v 2)"

definition behind :: "ring_topology \<Rightarrow> ring_read_state" where
  "behind topology = (if topology \<noteq> Shared then Unavailable else Pending)"

fun read_state_attempts ::
    "netid_ops \<Rightarrow> ring_topology \<Rightarrow> (nat \<Rightarrow> shm_slot) \<Rightarrow> nat \<Rightarrow> nat \<Rightarrow> nat \<Rightarrow> (nat \<times> load_times) list \<Rightarrow> nat \<Rightarrow> ring_read_state" where
  "read_state_attempts ops topology S counter expected payload_capacity [] t_last =
     (if ss_seq (S t_last) < expected then behind topology else Unavailable)"
| "read_state_attempts ops topology S counter expected payload_capacity ((t, T) # Ts) t_last =
     (let sequence = ss_seq (S t)
      in if sequence < expected then behind topology
         else if sequence > expected then Unavailable
         else case read_committed_at S T payload_capacity of
                Some f \<Rightarrow> if nid_counter ops (fr_id f) = counter then Ready f else Unavailable
              | None \<Rightarrow> read_state_attempts ops topology S counter expected payload_capacity Ts t_last)"

section \<open>One serialized writer per slot: the sequence lock\<close>

text \<open>
  The writers of one slot are serialized (the lane's lock), so its history is the concatenation of
  whole writes with increasing counters. \<open>slot_at\<close> is the slot after \<open>k\<close> of those stores.
\<close>

definition stores_of :: "(nat \<times> frame) list \<Rightarrow> slot_store list" where
  "stores_of ws = concat (map (\<lambda>(c, f). StSeq (2 * c + 1) # content_stores f @ [StSeq (2 * c + 2)]) ws)"

definition run_stores :: "slot_store list \<Rightarrow> shm_slot \<Rightarrow> shm_slot" where
  "run_stores sts s = fold apply_store sts s"

definition slot_at :: "slot_store list \<Rightarrow> shm_slot \<Rightarrow> nat \<Rightarrow> shm_slot" where
  "slot_at sts s k = run_stores (take k sts) s"

definition writes_ok :: "nat \<Rightarrow> (nat \<times> frame) list \<Rightarrow> bool" where
  "writes_ok payload_capacity ws \<longleftrightarrow> sorted_wrt (\<lambda>a b. fst a < fst b) ws \<and>
     (\<forall>(c, f)\<in>set ws. length (fr_payload f) \<le> payload_capacity)"

lemma write_slot_stores_eq:
  "2 * counter + 2 \<le> u64_max \<Longrightarrow>
     write_slot_stores counter f = Some (StSeq (2 * counter + 1) # content_stores f @ [StSeq (2 * counter + 2)])"
  by (simp add: write_slot_stores_def mid_seq_def checked_mul_def checked_add_def wrapping_add_def u64_max_def mult.commute)

abbreviation write_stores :: "nat \<Rightarrow> frame \<Rightarrow> slot_store list" where
  "write_stores c f \<equiv> StSeq (2 * c + 1) # content_stores f @ [StSeq (2 * c + 2)]"

lemma stores_of_Nil [simp]: "stores_of [] = []" by (simp add: stores_of_def)

lemma stores_of_Cons [simp]: "stores_of ((c, f) # ws) = write_stores c f @ stores_of ws"
  by (simp add: stores_of_def)

lemma stores_of_append: "stores_of (ws @ ws') = stores_of ws @ stores_of ws'"
  by (simp add: stores_of_def)

lemma run_stores_append [simp]: "run_stores (a @ b) s = run_stores b (run_stores a s)"
  by (simp add: run_stores_def)

lemma run_stores_Nil [simp]: "run_stores [] s = s" by (simp add: run_stores_def)

lemma run_stores_Cons [simp]: "run_stores (x # xs) s = run_stores xs (apply_store x s)"
  by (simp add: run_stores_def)

definition is_content :: "slot_store \<Rightarrow> bool" where
  "is_content st \<longleftrightarrow> (\<forall>v. st \<noteq> StSeq v)"

lemma apply_content_seq: "is_content st \<Longrightarrow> ss_seq (apply_store st s) = ss_seq s"
  by (cases st) (auto simp: is_content_def)

lemma run_content_seq: "list_all is_content sts \<Longrightarrow> ss_seq (run_stores sts s) = ss_seq s"
  by (induction sts arbitrary: s) (auto simp: apply_content_seq)

lemma content_stores_content: "list_all is_content (content_stores f)"
  by (auto simp: content_stores_def is_content_def list_all_iff)

lemma take_content: "list_all is_content (take k (content_stores f))"
  using content_stores_content by (metis append_take_drop_id list_all_append)

lemma run_bytes:
  assumes "length p \<le> length (ss_payload s)" "n \<le> length p"
  shows "run_stores (map (\<lambda>i. StByte i (p ! i)) [0..<n]) s = s\<lparr>ss_payload := take n p @ drop n (ss_payload s)\<rparr>"
  using assms(2)
proof (induction n)
  case (Suc n)
  have "(take n p @ drop n (ss_payload s))[n := p ! n] = take (Suc n) p @ drop (Suc n) (ss_payload s)"
    using Suc.prems assms(1)
    by (simp add: list_update_append take_Suc_conv_app_nth upd_conv_take_nth_drop min_absorb2 Cons_nth_drop_Suc [symmetric])
  with Suc show ?case by simp
qed simp

definition committed_slot :: "nat \<Rightarrow> frame \<Rightarrow> shm_slot \<Rightarrow> shm_slot" where
  "committed_slot c f s = \<lparr>ss_seq = 2 * c + 2, ss_id = fr_id f, ss_ver = fr_ver f,
     ss_payload_len = length (fr_payload f) mod 2 ^ 32, ss_kind = fr_kind f,
     ss_payload = fr_payload f @ drop (length (fr_payload f)) (ss_payload s)\<rparr>"

lemma run_write_stores:
  assumes "length (fr_payload f) \<le> length (ss_payload s)"
  shows "run_stores (write_stores c f) s = committed_slot c f s"
  using run_bytes [of "fr_payload f" _ "length (fr_payload f)"] assms
  by (cases s) (simp add: content_stores_def committed_slot_def)

fun progress :: "(nat \<times> frame) list \<Rightarrow> nat \<Rightarrow> nat \<times> bool" where
  "progress [] k = (0, False)"
| "progress ((c, f) # ws) k =
     (let n = length (content_stores f)
      in if k = 0 then (0, False) else if k < n + 2 then (0, True)
         else let (j, b) = progress ws (k - (n + 2)) in (Suc j, b))"

lemma progress_slot:
  assumes "progress ws k = (j, b)"
  shows "j \<le> length ws" "\<not> b \<Longrightarrow> slot_at (stores_of ws) s k = run_stores (stores_of (take j ws)) s"
    "b \<Longrightarrow> odd (ss_seq (slot_at (stores_of ws) s k))"
proof -
  have "j \<le> length ws \<and> (\<not> b \<longrightarrow> slot_at (stores_of ws) s k = run_stores (stores_of (take j ws)) s) \<and>
      (b \<longrightarrow> odd (ss_seq (slot_at (stores_of ws) s k)))"
    using assms
  proof (induction ws k arbitrary: s j b rule: progress.induct)
    case (1 k)
    then show ?case by (simp add: slot_at_def)
  next
    case (2 c f ws k)
    let ?n = "length (content_stores f)"
    consider (zero) "k = 0" | (busy) "0 < k" "k < ?n + 2" | (after) "?n + 2 \<le> k" by linarith
    then show ?case
    proof cases
      case zero
      with 2(2) show ?thesis by (auto simp: slot_at_def Let_def)
    next
      case busy
      then obtain k' where k: "k = Suc k'" "k' \<le> ?n" by (cases k) auto
      have "slot_at (stores_of ((c, f) # ws)) s k = run_stores (take k' (content_stores f)) (s\<lparr>ss_seq := 2 * c + 1\<rparr>)"
        using k by (simp add: slot_at_def)
      with run_content_seq [OF take_content] busy 2(2) show ?thesis by (auto simp: Let_def)
    next
      case after
      obtain j' where j': "progress ws (k - (?n + 2)) = (j', b)" "j = Suc j'"
        using 2(2) after by (auto simp: Let_def split: prod.splits)
      have "slot_at (stores_of ((c, f) # ws)) s k = slot_at (stores_of ws) (run_stores (write_stores c f) s) (k - (?n + 2))"
        using after by (simp add: slot_at_def take_Cons' numeral_2_eq_2)
      with 2(1) [OF refl _ _ j'(1), of "run_stores (write_stores c f) s"] after j'(2) show ?thesis by simp
    qed
  qed
  then show "j \<le> length ws" "\<not> b \<Longrightarrow> slot_at (stores_of ws) s k = run_stores (stores_of (take j ws)) s"
    "b \<Longrightarrow> odd (ss_seq (slot_at (stores_of ws) s k))" by auto
qed

lemma progress_mono:
  assumes "k \<le> k'" "progress ws k = (j, b)" "progress ws k' = (j', b')"
  shows "j < j' \<or> j = j' \<and> (b \<longrightarrow> b')"
  using assms
proof (induction ws k arbitrary: k' j b j' b' rule: progress.induct)
  case (1 k)
  then show ?case by simp
next
  case (2 c f ws k)
  show ?case
  proof (cases "k < length (content_stores f) + 2")
    case True
    with 2(2-4) show ?thesis by (auto simp: Let_def split: if_splits prod.splits)
  next
    case False
    with 2(2-4) obtain i i' where "progress ws (k - (length (content_stores f) + 2)) = (i, b)" "j = Suc i"
      "progress ws (k' - (length (content_stores f) + 2)) = (i', b')" "j' = Suc i'"
      by (auto simp: Let_def split: if_splits prod.splits)
    with 2(1) [OF refl _ False, of "k' - (length (content_stores f) + 2)"] False 2(2) show ?thesis by auto
  qed
qed

lemma after_writes:
  assumes "writes_ok n ws" "length (ss_payload s) = n" "0 < j" "j \<le> length ws"
  shows "\<exists>s'. length (ss_payload s') = n \<and>
    run_stores (stores_of (take j ws)) s = committed_slot (fst (ws ! (j - 1))) (snd (ws ! (j - 1))) s'"
  using assms(3,4)
proof (induction j)
  case (Suc j)
  let ?s = "run_stores (stores_of (take j ws)) s"
  have len: "length (ss_payload ?s) = n"
  proof (cases "j = 0")
    case False
    with Suc obtain s' where s': "length (ss_payload s') = n"
      "?s = committed_slot (fst (ws ! (j - 1))) (snd (ws ! (j - 1))) s'" by auto
    have "ws ! (j - 1) \<in> set ws" using Suc.prems False by simp
    with assms(1) have "length (fr_payload (snd (ws ! (j - 1)))) \<le> n" by (auto simp: writes_ok_def)
    with s' show ?thesis by (simp add: committed_slot_def)
  qed (simp add: assms(2))
  have "ws ! j \<in> set ws" using Suc.prems by simp
  with assms(1) have "length (fr_payload (snd (ws ! j))) \<le> length (ss_payload ?s)"
    unfolding len by (auto simp: writes_ok_def)
  moreover have "run_stores (stores_of (take (Suc j) ws)) s = run_stores (write_stores (fst (ws ! j)) (snd (ws ! j))) ?s"
    using Suc.prems by (simp add: take_Suc_conv_app_nth stores_of_append) (cases "ws ! j"; simp)
  ultimately show ?case using run_write_stores len by (intro exI [of _ ?s]) simp
qed simp

lemma read_committed_slot:
  assumes "length (fr_payload f) \<le> n" "n \<le> u32_max" "length (ss_payload s) = n"
  shows "read_committed_at (\<lambda>_. committed_slot c f s) T n = Some f"
proof -
  have "length (fr_payload f) < 2 ^ 32" using assms(1,2) by (simp add: u32_max_def)
  moreover have "map (\<lambda>i. (fr_payload f @ drop (length (fr_payload f)) (ss_payload s)) ! i) [0..<length (fr_payload f)] = fr_payload f"
    by (rule nth_equalityI) (simp_all add: nth_append)
  ultimately show ?thesis using assms(1) by (cases f) (simp add: read_committed_at_def committed_slot_def Let_def)
qed

lemma read_committed_stable:
  assumes "in_order T" "\<And>t. t_pre T \<le> t \<Longrightarrow> t \<le> t_post T \<Longrightarrow> S t = s"
  shows "read_committed_at S T n = read_committed_at (\<lambda>_. s) T n"
proof -
  from assms(1) have "S (t_pre T) = s" "S (t_id T) = s" "S (t_kind T) = s" "S (t_ver T) = s" "S (t_len T) = s"
    "S (t_post T) = s" "\<And>i. S (t_byte T i) = s"
    by (intro assms(2); simp add: in_order_def)+
  then show ?thesis by (simp only: read_committed_at_def)
qed

lemma writes_ok_inj: "writes_ok n ws \<Longrightarrow> i < length ws \<Longrightarrow> j < length ws \<Longrightarrow> fst (ws ! i) = fst (ws ! j) \<Longrightarrow> i = j"
  unfolding writes_ok_def by (metis less_irrefl linorder_neqE_nat sorted_wrt_nth_less)

lemma seqlock_read:
  assumes "writes_ok n ws" "n \<le> u32_max" "length (ss_payload s) = n" "ss_seq s = 0" "in_order T"
    and "read_committed_at (slot_at (stores_of ws) s) T n = Some f"
  shows "\<exists>c. (c, f) \<in> set ws \<and> ss_seq (slot_at (stores_of ws) s (t_pre T)) = 2 * c + 2"
proof -
  let ?S = "slot_at (stores_of ws) s"
  obtain j b where pre: "progress ws (t_pre T) = (j, b)" by fastforce
  obtain j' b' where post: "progress ws (t_post T) = (j', b')" by fastforce
  from assms(6) have seq: "ss_seq (?S (t_pre T)) \<noteq> 0" "even (ss_seq (?S (t_pre T)))" "ss_seq (?S (t_post T)) = ss_seq (?S (t_pre T))"
    by (auto simp: read_committed_at_def Let_def split: if_splits)
  with progress_slot(3) [OF pre, of s] progress_slot(3) [OF post, of s] have b: "\<not> b" "\<not> b'" by auto
  note at = progress_slot(2) [OF pre b(1)] progress_slot(2) [OF post b(2)]
  have le: "j \<le> j'" using progress_mono [OF _ pre post] assms(5) by (auto simp: in_order_def)
  have j: "0 < j" using seq(1) at(1) assms(4) by (cases j) auto
  have j': "0 < j'" using j le by simp
  obtain s1 where s1: "length (ss_payload s1) = n" "?S (t_pre T) = committed_slot (fst (ws ! (j - 1))) (snd (ws ! (j - 1))) s1"
    using after_writes [OF assms(1,3) j progress_slot(1) [OF pre]] unfolding at(1) by blast
  obtain s2 where s2: "?S (t_post T) = committed_slot (fst (ws ! (j' - 1))) (snd (ws ! (j' - 1))) s2"
    using after_writes [OF assms(1,3) j' progress_slot(1) [OF post]] unfolding at(2) by blast
  note s12 = s1 s2
  have lt: "j - 1 < length ws" "j' - 1 < length ws"
    using j le progress_slot(1) [OF pre] progress_slot(1) [OF post] by auto
  have "j' - 1 = j - 1" using s12 seq(3) by (intro writes_ok_inj [OF assms(1) lt(2,1)]) (simp add: committed_slot_def)
  with j le have jj: "j' = j" by simp
  have "?S t = ?S (t_pre T)" if "t_pre T \<le> t" "t \<le> t_post T" for t
  proof -
    obtain i c where p: "progress ws t = (i, c)" by fastforce
    from progress_mono [OF that(1) pre p] progress_mono [OF that(2) p post] jj b have "i = j" "\<not> c" by auto
    with progress_slot(2) [OF p] at(1) show ?thesis by simp
  qed
  note st = read_committed_stable [OF assms(5) this]
  have mem: "ws ! (j - 1) \<in> set ws" using lt(1) by simp
  with assms(1) have "length (fr_payload (snd (ws ! (j - 1)))) \<le> n" by (auto simp: writes_ok_def)
  from read_committed_slot [OF this assms(2) s12(1), of "fst (ws ! (j - 1))" T] st assms(6) s12(2)
  have "f = snd (ws ! (j - 1))" by simp
  with mem s12(2) show ?thesis by (intro exI [of _ "fst (ws ! (j - 1))"]) (simp add: committed_slot_def)
qed

text \<open>
  C4: no torn reads. On a slot whose writers are serialized, whatever way the loads of a reader
  interleave with the stores of the writers, an attempt that returns a frame returns one that was
  written whole, and classifying a counter as ready returns the very frame written under that counter.
\<close>

theorem seqlock_reads_whole_frames:
  assumes "writes_ok n ws" "n \<le> u32_max" "\<forall>(c, f)\<in>set ws. nid_counter ops (fr_id f) = c"
    and "\<forall>(t, T)\<in>set Ts. in_order T"
    and "read_state_attempts ops topology (slot_at (stores_of ws) (shm_slot_zero n)) counter expected n Ts t_last = Ready f"
  shows "(counter, f) \<in> set ws"
  using assms(4,5)
proof (induction Ts)
  case Nil
  then show ?case by (simp add: behind_def split: if_splits)
next
  case (Cons a Ts)
  obtain t T where a: "a = (t, T)" by fastforce
  show ?case
  proof (cases "read_committed_at (slot_at (stores_of ws) (shm_slot_zero n)) T n")
    case None
    with Cons a show ?thesis by (simp add: Let_def behind_def split: if_splits)
  next
    case (Some g)
    have "in_order T" using Cons.prems(1) a by simp
    from seqlock_read [OF assms(1,2) _ _ this Some] obtain c where c: "(c, g) \<in> set ws"
      by (auto simp: shm_slot_zero_def)
    with assms(3) have "nid_counter ops (fr_id g) = c" by auto
    moreover have "g = f" "nid_counter ops (fr_id g) = counter"
      using Cons.prems(2) a Some by (auto simp: Let_def behind_def split: if_splits)
    ultimately show ?thesis using c by simp
  qed
qed

definition demo_frame :: "nat \<Rightarrow> bytes \<Rightarrow> frame" where
  "demo_frame c p = \<lparr>fr_id = nid_make packed_netid 3 0 c, fr_kind = 1, fr_ver = 9, fr_payload = p\<rparr>"

definition at_time :: "nat \<Rightarrow> load_times" where
  "at_time t = \<lparr>t_pre = t, t_id = t, t_kind = t, t_ver = t, t_len = t, t_byte = (\<lambda>_. t), t_post = t\<rparr>"

theorem seqlock_reads_whole_frames_witness:
  "\<exists>f. read_state_attempts packed_netid PerNode
      (slot_at (stores_of [(0, demo_frame 0 [1, 1]), (4, demo_frame 4 [2, 2])]) (shm_slot_zero 2)) 4 10 2
      [(16, at_time 16)] 16 = Ready f \<and> (4, f) \<in> set [(0, demo_frame 0 [1, 1]), (4, demo_frame 4 [2, 2])]"
proof -
  let ?ws = "[(0, demo_frame 0 [1, 1]), (4, demo_frame 4 [2, 2])]"
  have w: "writes_ok 2 ?ws" by (simp add: writes_ok_def demo_frame_def)
  have i: "\<forall>(c, f)\<in>set ?ws. nid_counter packed_netid (fr_id f) = c"
    using netid_lawsD(3) [OF packed_netid_laws, of 3 0] by (simp add: demo_frame_def NETID_COUNTER_MAX_def max_defs)
  have o: "\<forall>(t, T)\<in>set [(16, at_time 16)]. in_order T" by (simp add: in_order_def at_time_def)
  have r: "read_state_attempts packed_netid PerNode (slot_at (stores_of ?ws) (shm_slot_zero 2)) 4 10 2 [(16, at_time 16)] 16 =
      Ready (demo_frame 4 [2, 2])" by code_simp
  from seqlock_reads_whole_frames [OF w _ i o r] r show ?thesis by (auto simp: max_defs)
qed

definition lapped_stores :: "slot_store list" where
  "lapped_stores =
     (let slow = write_stores 0 (demo_frame 0 [1, 1]); fast = write_stores 1 (demo_frame 1 [2, 2])
      in take 6 slow @ fast @ [slow ! 6])"

text \<open>
  C39: without that serialization the sequence does not detect tearing. Two shared-topology writers
  share a slot when one laps the other; if the slower one stores its payload after the faster one
  committed, a reader sees one even sequence throughout and returns a frame whose payload neither of
  them wrote.
\<close>

theorem lapped_shared_writer_tears:
  "\<exists>f. read_committed_at (slot_at lapped_stores (shm_slot_zero 2)) (at_time 15) 2 = Some f \<and>
     fr_id f = fr_id (demo_frame 1 [2, 2]) \<and> fr_payload f \<noteq> [1, 1] \<and> fr_payload f \<noteq> [2, 2] \<and>
     mset lapped_stores + mset [StSeq 2] = mset (write_stores 0 (demo_frame 0 [1, 1])) + mset (write_stores 1 (demo_frame 1 [2, 2]))"
proof -
  have "read_committed_at (slot_at lapped_stores (shm_slot_zero 2)) (at_time 15) 2 = Some (demo_frame 1 [2, 1])"
    by code_simp
  moreover have "mset lapped_stores + mset [StSeq 2] =
      mset (write_stores 0 (demo_frame 0 [1, 1])) + mset (write_stores 1 (demo_frame 1 [2, 2]))"
    by (simp add: lapped_stores_def content_stores_def demo_frame_def Let_def)
  ultimately show ?thesis by (auto simp: demo_frame_def)
qed

end
