(* ===== verification/Ring_Shm_Ops.thy ===== *)
theory Ring_Shm_Ops
  imports Ring_Shm Probe
begin

text \<open>
  \<open>ShmRing\<close> and \<open>ShmRingView\<close> (\<open>core/src/ring/shm.rs\<close>) over a mapped segment: creating and
  attaching with the header check, writes, reads, reset, the read-only observer and the registry.
  A panic is \<open>None\<close>, an \<open>io::Error\<close> is \<open>Inl\<close>. The operating system's part (opening the
  segment, the cross-process lock of ordered rings) enters as an argument holding its outcome. The
  reads here see one state of the segment; concurrent readers are treated in \<open>Ring_Shm\<close>.
\<close>

section \<open>Segments\<close>

record shm_header =
  sh_version_counter :: nat
  sh_capacity :: nat
  sh_magic :: nat
  sh_version :: nat
  sh_payload_capacity :: nat
  sh_slot_stride :: nat
  sh_kind :: nat
  sh_topology :: nat
  sh_lane_count :: nat
  sh_notification_generation :: nat
  sh_notification_waiters :: nat

record shm_lane =
  sl_write_pos :: nat
  sl_slots :: "shm_slot list"

record shm_segment =
  sg_size :: nat
  sg_header :: shm_header
  sg_lanes :: "shm_lane list"

record shm_ring =
  sr_seg :: shm_segment
  sr_created :: bool
  sr_kind :: nat
  sr_capacity :: nat
  sr_payload_capacity :: nat
  sr_topology :: ring_topology
  sr_lane_count :: nat
  sr_slot_stride :: nat
  sr_slots_offset :: nat
  sr_lane_stride :: nat

fun topology_tag :: "ring_topology \<Rightarrow> nat" where
  "topology_tag Shared = 0"
| "topology_tag PerNode = 1"
| "topology_tag SharedOrdered = 2"

definition topology_of_tag :: "nat \<Rightarrow> ring_topology option" where
  "topology_of_tag v =
     (if v = topology_tag Shared then Some Shared
      else if v = topology_tag PerNode then Some PerNode
      else if v = topology_tag SharedOrdered then Some SharedOrdered
      else None)"

definition segment_new :: "nat \<Rightarrow> ring_spec \<Rightarrow> nat \<Rightarrow> nat \<Rightarrow> nat \<Rightarrow> shm_segment" where
  "segment_new kind spec lane_count slot_stride seg_size =
     \<lparr>sg_size = seg_size,
      sg_header = \<lparr>sh_version_counter = 0, sh_capacity = rs_capacity spec, sh_magic = SHM_RING_MAGIC,
        sh_version = SHM_RING_VERSION, sh_payload_capacity = rs_payload_capacity spec mod 2 ^ 32,
        sh_slot_stride = slot_stride mod 2 ^ 32, sh_kind = kind, sh_topology = topology_tag (rs_topology spec),
        sh_lane_count = lane_count mod 2 ^ 16, sh_notification_generation = 0, sh_notification_waiters = 0\<rparr>,
      sg_lanes = replicate lane_count \<lparr>sl_write_pos = 0,
        sl_slots = replicate (rs_capacity spec) (shm_slot_zero (rs_payload_capacity spec))\<rparr>\<rparr>"

definition header_check :: "nat \<Rightarrow> ring_spec \<Rightarrow> nat \<Rightarrow> nat \<Rightarrow> shm_header \<Rightarrow> shm_error + unit" where
  "header_check kind spec lane_count slot_stride header =
     (if sh_magic header \<noteq> SHM_RING_MAGIC then Inl (InvalidData ''wrong magic'')
      else if sh_version header \<noteq> SHM_RING_VERSION then Inl (InvalidData ''version'')
      else if sh_kind header \<noteq> kind then Inl (InvalidData ''kind'')
      else if sh_topology header \<noteq> topology_tag (rs_topology spec) then Inl (InvalidData ''topology'')
      else if sh_lane_count header \<noteq> lane_count then Inl (InvalidData ''lane count'')
      else if sh_capacity header \<noteq> rs_capacity spec then Inl (InvalidData ''capacity'')
      else if sh_payload_capacity header \<noteq> rs_payload_capacity spec then Inl (InvalidData ''payload capacity'')
      else if sh_slot_stride header \<noteq> slot_stride then Inl (InvalidData ''slot stride'')
      else Inr ())"

text \<open>\<open>open_or_create_for_fleet_with_policy\<close>; \<open>existing\<close> is the segment already under the name.\<close>

definition shm_open :: "nat \<Rightarrow> ring_spec \<Rightarrow> nat \<Rightarrow> shm_segment option \<Rightarrow> shm_error + shm_ring" where
  "shm_open kind spec fleet_capacity existing =
     (case lane_count_for spec fleet_capacity of Inl e \<Rightarrow> Inl e
      | Inr lane_count \<Rightarrow>
     (case checked_layout spec fleet_capacity of Inl e \<Rightarrow> Inl e
      | Inr (slot_stride, slots_offset, seg_size) \<Rightarrow>
     (case checked_mul u64_max (rs_capacity spec) slot_stride of
        None \<Rightarrow> Inl (InvalidInput ''ShmRing lane stride overflow'')
      | Some lane_stride \<Rightarrow>
          let handle = (\<lambda>seg created. \<lparr>sr_seg = seg, sr_created = created, sr_kind = kind,
                sr_capacity = rs_capacity spec, sr_payload_capacity = rs_payload_capacity spec,
                sr_topology = rs_topology spec, sr_lane_count = lane_count, sr_slot_stride = slot_stride,
                sr_slots_offset = slots_offset, sr_lane_stride = lane_stride\<rparr>)
          in case existing of
               None \<Rightarrow> Inr (handle (segment_new kind spec lane_count slot_stride seg_size) True)
             | Some seg \<Rightarrow>
                 (case header_check kind spec lane_count slot_stride (sg_header seg) of
                    Inl e \<Rightarrow> Inl e
                  | Inr _ \<Rightarrow> Inr (handle seg False)))))"

definition shm_spec_of :: "shm_ring \<Rightarrow> ring_spec" where
  "shm_spec_of r = \<lparr>rs_capacity = sr_capacity r, rs_payload_capacity = sr_payload_capacity r,
     rs_topology = sr_topology r\<rparr>"

section \<open>Access\<close>

text \<open>\<open>lane_index\<close> asserts the bound; \<open>lane_index_for_frame\<close> returns \<open>None\<close> beyond it.\<close>

definition shm_lane_index :: "shm_ring \<Rightarrow> nat \<Rightarrow> nat option" where
  "shm_lane_index r node =
     (let lane = lane_index (sr_topology r) node in if lane < sr_lane_count r then Some lane else None)"

definition shm_lane :: "shm_ring \<Rightarrow> nat \<Rightarrow> shm_lane" where
  "shm_lane r i = sg_lanes (sr_seg r) ! i"

definition shm_set_lane :: "shm_ring \<Rightarrow> nat \<Rightarrow> shm_lane \<Rightarrow> shm_ring" where
  "shm_set_lane r i lane = r\<lparr>sr_seg := (sr_seg r)\<lparr>sg_lanes := (sg_lanes (sr_seg r))[i := lane]\<rparr>\<rparr>"

definition shm_head :: "shm_ring \<Rightarrow> nat" where
  "shm_head r = sl_write_pos (shm_lane r 0)"

definition shm_lane_head :: "shm_ring \<Rightarrow> nat \<Rightarrow> nat option" where
  "shm_lane_head r node = map_option (\<lambda>i. sl_write_pos (shm_lane r i)) (shm_lane_index r node)"

definition shm_next_version :: "shm_ring \<Rightarrow> shm_ring \<times> nat option" where
  "shm_next_version r =
     (let header = sg_header (sr_seg r); v = sh_version_counter header
      in (r\<lparr>sr_seg := (sr_seg r)\<lparr>sg_header := header\<lparr>sh_version_counter := wrapping_add u64_max v 1\<rparr>\<rparr>\<rparr>,
          checked_add u64_max v 1))"

definition shm_slot_idx :: "shm_ring \<Rightarrow> nat \<Rightarrow> nat" where
  "shm_slot_idx r counter = unat (of_nat counter AND (of_nat (sr_capacity r - 1) :: u64w))"

text \<open>\<open>write_slot\<close> with no reader in between.\<close>

definition shm_write_slot ::
    "netid_ops \<Rightarrow> shm_ring \<Rightarrow> shm_lane \<Rightarrow> nat \<Rightarrow> nat \<Rightarrow> nat \<Rightarrow> nat \<Rightarrow> bytes \<Rightarrow> (shm_lane \<times> nat) option" where
  "shm_write_slot ops r lane node counter frame_kind ver payload =
     (let fid = nid_make ops (sr_kind r) node counter; idx = shm_slot_idx r counter;
          f = \<lparr>fr_id = fid, fr_kind = frame_kind, fr_ver = ver, fr_payload = payload\<rparr>
      in map_option (\<lambda>sts. (lane\<lparr>sl_slots := (sl_slots lane)[idx := run_stores sts (sl_slots lane ! idx)]\<rparr>, fid))
           (write_slot_stores counter f))"

definition shm_write ::
    "netid_ops \<Rightarrow> shm_error + unit \<Rightarrow> shm_ring \<Rightarrow> nat \<Rightarrow> nat \<Rightarrow> nat \<Rightarrow> bytes \<Rightarrow> (shm_ring \<times> (shm_error + nat)) option" where
  "shm_write ops os_lock r node frame_kind ver payload =
     (if length payload > sr_payload_capacity r then Some (r, Inl (InvalidInput ''payload > ring payload capacity''))
      else case shm_lane_index r node of
             None \<Rightarrow> None
           | Some i \<Rightarrow>
               let lane = shm_lane r i; counter = sl_write_pos lane;
                   advance = (\<lambda>l. l\<lparr>sl_write_pos := wrapping_add u64_max counter 1\<rparr>);
                   ordered = map_option (\<lambda>(lane', fid). (shm_set_lane r i (advance lane'), Inr fid))
                     (shm_write_slot ops r lane node counter frame_kind ver payload)
               in case sr_topology r of
                    Shared \<Rightarrow>
                      map_option (\<lambda>(lane', fid). (shm_set_lane r i lane', Inr fid))
                        (shm_write_slot ops r (advance lane) node counter frame_kind ver payload)
                  | PerNode \<Rightarrow> ordered
                  | SharedOrdered \<Rightarrow> (case os_lock of Inl e \<Rightarrow> Some (r, Inl e) | Inr _ \<Rightarrow> ordered))"

fun shm_write_slots ::
    "netid_ops \<Rightarrow> shm_ring \<Rightarrow> shm_lane \<Rightarrow> nat \<Rightarrow> nat \<Rightarrow> nat \<Rightarrow> nat \<Rightarrow> nat \<Rightarrow> bytes list \<Rightarrow> (shm_lane \<times> nat list) option" where
  "shm_write_slots ops r lane node start offset frame_kind ver [] = Some (lane, [])"
| "shm_write_slots ops r lane node start offset frame_kind ver (payload # payloads) =
     (case shm_write_slot ops r lane node (wrapping_add u64_max start offset) frame_kind ver payload of
        None \<Rightarrow> None
      | Some (lane1, fid) \<Rightarrow>
          map_option (\<lambda>(lane2, ids). (lane2, fid # ids))
            (shm_write_slots ops r lane1 node start (offset + 1) frame_kind ver payloads))"

definition shm_write_batch ::
    "netid_ops \<Rightarrow> shm_error + unit \<Rightarrow> shm_ring \<Rightarrow> nat \<Rightarrow> nat \<Rightarrow> nat \<Rightarrow> bytes list \<Rightarrow> (shm_ring \<times> (shm_error + nat list)) option" where
  "shm_write_batch ops os_lock r node frame_kind ver payloads =
     (if length payloads > sr_capacity r then Some (r, Inl (InvalidInput ''batch > ring capacity''))
      else if \<exists>payload\<in>set payloads. length payload > sr_payload_capacity r
      then Some (r, Inl (InvalidInput ''payload > ring payload capacity''))
      else if payloads = [] then Some (r, Inr [])
      else case shm_lane_index r node of
             None \<Rightarrow> None
           | Some i \<Rightarrow>
               let lane = shm_lane r i; start = sl_write_pos lane;
                   advance = (\<lambda>l n. l\<lparr>sl_write_pos := wrapping_add u64_max start n\<rparr>);
                   ordered = map_option (\<lambda>(lane', ids). (shm_set_lane r i (advance lane' (length ids)), Inr ids))
                     (shm_write_slots ops r lane node start 0 frame_kind ver payloads)
               in case sr_topology r of
                    Shared \<Rightarrow>
                      map_option (\<lambda>(lane', ids). (shm_set_lane r i lane', Inr ids))
                        (shm_write_slots ops r (advance lane (length payloads)) node start 0 frame_kind ver payloads)
                  | PerNode \<Rightarrow> ordered
                  | SharedOrdered \<Rightarrow> (case os_lock of Inl e \<Rightarrow> Some (r, Inl e) | Inr _ \<Rightarrow> ordered))"

section \<open>Reads\<close>

definition shm_slot_of :: "shm_ring \<Rightarrow> nat \<Rightarrow> nat \<Rightarrow> shm_slot" where
  "shm_slot_of r lane counter = sl_slots (shm_lane r lane) ! shm_slot_idx r counter"

definition shm_read_lane_index_at :: "shm_ring \<Rightarrow> nat \<Rightarrow> nat \<Rightarrow> frame option" where
  "shm_read_lane_index_at r lane counter =
     read_attempts (\<lambda>_. shm_slot_of r lane counter) [still, still, still] (sr_payload_capacity r)"

definition shm_read :: "netid_ops \<Rightarrow> shm_ring \<Rightarrow> nat \<Rightarrow> frame option" where
  "shm_read ops r fid =
     (if nid_kind ops fid \<noteq> sr_kind r then None
      else case shm_lane_index r (nid_node ops fid) of
             None \<Rightarrow> None
           | Some lane \<Rightarrow>
               (case shm_read_lane_index_at r lane (nid_counter ops fid) of
                  Some f \<Rightarrow> if nid_counter ops (fr_id f) = nid_counter ops fid then Some f else None
                | None \<Rightarrow> None))"

definition shm_read_head :: "shm_ring \<Rightarrow> frame option" where
  "shm_read_head r =
     (let head = shm_head r in if head = 0 then None else shm_read_lane_index_at r 0 (head - 1))"

definition shm_read_at :: "shm_ring \<Rightarrow> nat \<Rightarrow> frame option" where
  "shm_read_at r counter = shm_read_lane_index_at r 0 counter"

definition shm_read_lane_at :: "shm_ring \<Rightarrow> nat \<Rightarrow> nat \<Rightarrow> frame option option" where
  "shm_read_lane_at r node counter = map_option (\<lambda>lane. shm_read_lane_index_at r lane counter) (shm_lane_index r node)"

definition shm_read_lane_index_state_at :: "netid_ops \<Rightarrow> shm_ring \<Rightarrow> nat \<Rightarrow> nat \<Rightarrow> ring_read_state option" where
  "shm_read_lane_index_state_at ops r lane counter =
     map_option (\<lambda>expected. read_state_attempts ops (sr_topology r) (\<lambda>_. shm_slot_of r lane counter) counter expected
         (sr_payload_capacity r) [(0, still), (0, still), (0, still)] 0)
       (expected_committed counter)"

definition shm_read_state_at :: "netid_ops \<Rightarrow> shm_ring \<Rightarrow> nat \<Rightarrow> ring_read_state option" where
  "shm_read_state_at ops r counter = shm_read_lane_index_state_at ops r 0 counter"

definition shm_read_lane_state_at :: "netid_ops \<Rightarrow> shm_ring \<Rightarrow> nat \<Rightarrow> nat \<Rightarrow> ring_read_state option" where
  "shm_read_lane_state_at ops r node counter =
     Option.bind (shm_lane_index r node) (\<lambda>lane. shm_read_lane_index_state_at ops r lane counter)"

definition shm_reset :: "shm_ring \<Rightarrow> shm_ring" where
  "shm_reset r = r\<lparr>sr_seg := (sr_seg r)\<lparr>
     sg_lanes := map (\<lambda>lane. \<lparr>sl_write_pos = 0, sl_slots = map (\<lambda>_. shm_slot_zero (sr_payload_capacity r)) (sl_slots lane)\<rparr>)
       (sg_lanes (sr_seg r)),
     sg_header := (sg_header (sr_seg r))\<lparr>sh_version_counter := 0\<rparr>\<rparr>\<rparr>"

definition shm_source_of :: "netid_ops \<Rightarrow> shm_ring \<Rightarrow> nat \<Rightarrow> ring_source" where
  "shm_source_of ops r lane = \<lparr>src_kind = sr_kind r, src_head = sl_write_pos (shm_lane r lane),
     src_capacity = sr_capacity r,
     src_read_state = (\<lambda>c. case shm_read_lane_index_state_at ops r lane c of Some x \<Rightarrow> x | None \<Rightarrow> Unavailable)\<rparr>"

section \<open>The log a shared-memory lane holds\<close>

definition slot_view :: "nat \<Rightarrow> shm_slot \<Rightarrow> (nat \<times> frame) option" where
  "slot_view payload_capacity s = map_option (\<lambda>f. (ss_seq s div 2 - 1, f)) (read_committed_frame s payload_capacity)"

definition shm_lane_logged :: "netid_ops \<Rightarrow> nat \<Rightarrow> nat \<Rightarrow> nat \<Rightarrow> shm_lane \<Rightarrow> frame list \<Rightarrow> bool" where
  "shm_lane_logged ops kind capacity payload_capacity lane h \<longleftrightarrow>
     sl_write_pos lane = length h \<and> length h \<le> NETID_COUNTER_MAX + 1 \<and> length (sl_slots lane) = capacity \<and>
     (\<forall>s\<in>set (sl_slots lane). length (ss_payload s) = payload_capacity) \<and>
     (\<forall>c<length h. entry_ok ops kind c (h ! c)) \<and>
     window_ok (slot_view payload_capacity) (sl_slots lane) (List.enumerate 0 h)"

definition shm_ring_logged :: "netid_ops \<Rightarrow> shm_ring \<Rightarrow> frame list list \<Rightarrow> bool" where
  "shm_ring_logged ops r hs \<longleftrightarrow>
     netid_laws ops \<and> sr_kind r \<le> u8_max \<and> is_power_of_two (sr_capacity r) \<and> sr_capacity r \<le> u32_max \<and>
     sr_payload_capacity r \<le> u32_max \<and> 0 < sr_lane_count r \<and> length (sg_lanes (sr_seg r)) = sr_lane_count r \<and>
     length hs = sr_lane_count r \<and>
     (\<forall>i < sr_lane_count r. shm_lane_logged ops (sr_kind r) (sr_capacity r) (sr_payload_capacity r) (shm_lane r i) (hs ! i))"

lemma shm_ring_loggedD:
  assumes "shm_ring_logged ops r hs"
  shows "netid_laws ops" "sr_kind r \<le> u8_max" "is_power_of_two (sr_capacity r)" "sr_capacity r \<le> u32_max"
    "sr_payload_capacity r \<le> u32_max" "0 < sr_lane_count r"
    "\<And>i. i < sr_lane_count r \<Longrightarrow> shm_lane_logged ops (sr_kind r) (sr_capacity r) (sr_payload_capacity r) (shm_lane r i) (hs ! i)"
  using assms by (auto simp: shm_ring_logged_def)

lemma shm_slot_idx_mod:
  assumes "is_power_of_two (sr_capacity r)" "sr_capacity r \<le> u32_max" "counter \<le> u64_max"
  shows "shm_slot_idx r counter = counter mod sr_capacity r"
proof -
  have "shm_slot_idx r counter = probe_index (word_of_nat counter) 0 (sr_capacity r)"
    by (simp add: shm_slot_idx_def probe_index_def)
  also have "\<dots> = (unat (word_of_nat counter :: u64w) + 0) mod sr_capacity r"
    using assms(1,2) is_power_of_two_pos by (intro probe_index_mod) (auto simp: u32_max_def)
  also have "unat (word_of_nat counter :: u64w) = counter"
    using assms(3) by (simp add: unat_of_nat u64_max_def)
  finally show ?thesis by simp
qed

lemma slot_view_committed:
  assumes "length (fr_payload f) \<le> n" "n \<le> u32_max" "length (ss_payload s) = n"
  shows "slot_view n (committed_slot c f s) = Some (c, f)"
  using read_committed_slot [OF assms] by (simp add: slot_view_def read_committed_frame_def committed_slot_def)

lemma run_stores_payload_length [simp]: "length (ss_payload (run_stores sts s)) = length (ss_payload s)"
proof (induction sts arbitrary: s)
  case (Cons st sts)
  then show ?case by (cases st) auto
qed simp

definition shm_frame :: "netid_ops \<Rightarrow> shm_ring \<Rightarrow> nat \<Rightarrow> nat \<Rightarrow> nat \<Rightarrow> nat \<Rightarrow> bytes \<Rightarrow> frame" where
  "shm_frame ops r node counter frame_kind ver payload =
     \<lparr>fr_id = nid_make ops (sr_kind r) node counter, fr_kind = frame_kind, fr_ver = ver, fr_payload = payload\<rparr>"

lemma shm_write_slot_appends:
  assumes "shm_ring_logged ops r hs" "node \<le> u16_max" "length h \<le> NETID_COUNTER_MAX"
    and "length payload \<le> sr_payload_capacity r"
    and "shm_lane_logged ops (sr_kind r) (sr_capacity r) (sr_payload_capacity r) (lane\<lparr>sl_write_pos := length h\<rparr>) h"
    and f: "f = shm_frame ops r node (length h) frame_kind ver payload"
  shows "\<exists>slots. shm_write_slot ops r lane node (length h) frame_kind ver payload = Some (lane\<lparr>sl_slots := slots\<rparr>, fr_id f) \<and>
    shm_lane_logged ops (sr_kind r) (sr_capacity r) (sr_payload_capacity r)
      (lane\<lparr>sl_write_pos := length h + 1, sl_slots := slots\<rparr>) (h @ [f])"
proof -
  note d = shm_ring_loggedD [OF assms(1)]
  let ?n = "sr_capacity r" and ?m = "sr_payload_capacity r"
  from assms(5) have l: "length (sl_slots lane) = ?n" "\<forall>s\<in>set (sl_slots lane). length (ss_payload s) = ?m"
    "\<forall>c<length h. entry_ok ops (sr_kind r) c (h ! c)" "window_ok (slot_view ?m) (sl_slots lane) (List.enumerate 0 h)"
    by (simp_all add: shm_lane_logged_def)
  have n: "0 < ?n" using is_power_of_two_pos [OF d(3)] .
  have big: "2 * length h + 2 \<le> u64_max" "length h \<le> u64_max"
    using assms(3) by (simp_all add: NETID_COUNTER_MAX_def u64_max_def)
  have idx: "shm_slot_idx r (length h) = length h mod ?n" by (rule shm_slot_idx_mod [OF d(3,4) big(2)])
  let ?i = "length h mod ?n"
  let ?s = "sl_slots lane ! ?i"
  have mem: "?s \<in> set (sl_slots lane)" using n l(1) by simp
  have pl: "length (fr_payload f) \<le> length (ss_payload ?s)" using l(2) mem assms(4) f by (simp add: shm_frame_def)
  have "run_stores (write_stores (length h) f) ?s = committed_slot (length h) f ?s" by (rule run_write_stores [OF pl])
  moreover have "write_slot_stores (length h) f = Some (write_stores (length h) f)" by (rule write_slot_stores_eq [OF big(1)])
  ultimately have w: "shm_write_slot ops r lane node (length h) frame_kind ver payload =
      Some (lane\<lparr>sl_slots := (sl_slots lane)[?i := committed_slot (length h) f ?s]\<rparr>, fr_id f)"
    by (simp add: shm_write_slot_def Let_def idx f shm_frame_def)
  have view: "slot_view ?m (committed_slot (length h) f ?s) = Some (length h, f)"
    using slot_view_committed [OF _ d(5)] pl l(2) mem by simp
  have win: "window_ok (slot_view ?m) ((sl_slots lane)[?i := committed_slot (length h) f ?s]) (List.enumerate 0 (h @ [f]))"
    using window_ok_append [OF l(4) view] l(1) n by (simp add: enumerate_append_eq) fastforce
  have "entry_ok ops (sr_kind r) (length h) f"
    using netid_lawsD [OF d(1,2) assms(2,3)] by (simp add: entry_ok_def f shm_frame_def)
  with l(3) have e: "\<forall>c<length (h @ [f]). entry_ok ops (sr_kind r) c ((h @ [f]) ! c)" by (auto simp: nth_append less_Suc_eq)
  have "length (ss_payload (committed_slot (length h) f ?s)) = ?m"
    using pl l(2) mem by (simp add: committed_slot_def)
  then have "\<forall>s\<in>set ((sl_slots lane)[?i := committed_slot (length h) f ?s]). length (ss_payload s) = ?m"
    using set_update_subset_insert [of "sl_slots lane" ?i] l(2) by blast
  with w win e l(1) assms(3) show ?thesis by (auto simp: shm_lane_logged_def)
qed

lemma shm_lane_set [simp]:
  "i < length (sg_lanes (sr_seg r)) \<Longrightarrow> shm_lane (shm_set_lane r i lane) j = (if j = i then lane else shm_lane r j)"
  by (simp add: shm_lane_def shm_set_lane_def nth_list_update)

lemma shm_set_lane_simps [simp]:
  "sr_kind (shm_set_lane r i l) = sr_kind r" "sr_capacity (shm_set_lane r i l) = sr_capacity r"
  "sr_payload_capacity (shm_set_lane r i l) = sr_payload_capacity r" "sr_topology (shm_set_lane r i l) = sr_topology r"
  "sr_lane_count (shm_set_lane r i l) = sr_lane_count r"
  "length (sg_lanes (sr_seg (shm_set_lane r i l))) = length (sg_lanes (sr_seg r))"
  by (simp_all add: shm_set_lane_def)

lemma shm_ring_logged_update:
  assumes "shm_ring_logged ops r hs" "i < sr_lane_count r"
    and "shm_lane_logged ops (sr_kind r) (sr_capacity r) (sr_payload_capacity r) lane h"
  shows "shm_ring_logged ops (shm_set_lane r i lane) (hs[i := h])"
  using assms by (auto simp: shm_ring_logged_def nth_list_update)

lemma shm_lane_swap: "lane\<lparr>sl_slots := s, sl_write_pos := p\<rparr> = lane\<lparr>sl_write_pos := p, sl_slots := s\<rparr>"
  by (cases lane) simp

lemma shm_lane_index_less: "shm_lane_index r node = Some i \<Longrightarrow> i < sr_lane_count r"
  by (auto simp: shm_lane_index_def Let_def split: if_splits)

lemma shm_write_appends:
  assumes "shm_ring_logged ops r hs" "shm_lane_index r node = Some i" "node \<le> u16_max"
    and "length payload \<le> sr_payload_capacity r" "length (hs ! i) \<le> NETID_COUNTER_MAX"
    and f: "f = shm_frame ops r node (length (hs ! i)) frame_kind ver payload"
  shows "\<exists>r'. shm_write ops (Inr ()) r node frame_kind ver payload = Some (r', Inr (fr_id f)) \<and>
    shm_ring_logged ops r' (hs[i := hs ! i @ [f]])"
proof -
  note i = shm_lane_index_less [OF assms(2)]
  let ?lane = "shm_lane r i" and ?h = "hs ! i"
  note lg = shm_ring_loggedD(7) [OF assms(1) i]
  have wp: "sl_write_pos ?lane = length ?h" using lg by (simp add: shm_lane_logged_def)
  have w: "wrapping_add u64_max (length ?h) 1 = length ?h + 1" using assms(5) by (intro counter_no_wrap) simp
  have lg1: "shm_lane_logged ops (sr_kind r) (sr_capacity r) (sr_payload_capacity r) (?lane\<lparr>sl_write_pos := length ?h\<rparr>) ?h"
    using lg by (simp add: shm_lane_logged_def)
  have lg2: "shm_lane_logged ops (sr_kind r) (sr_capacity r) (sr_payload_capacity r)
      (?lane\<lparr>sl_write_pos := length ?h + 1\<rparr>\<lparr>sl_write_pos := length ?h\<rparr>) ?h" using lg1 by simp
  obtain s1 where s1: "shm_write_slot ops r ?lane node (length ?h) frame_kind ver payload = Some (?lane\<lparr>sl_slots := s1\<rparr>, fr_id f)"
    "shm_lane_logged ops (sr_kind r) (sr_capacity r) (sr_payload_capacity r) (?lane\<lparr>sl_write_pos := length ?h + 1, sl_slots := s1\<rparr>) (?h @ [f])"
    using shm_write_slot_appends [OF assms(1,3,5,4) lg1 f] by auto
  obtain s2 where s2: "shm_write_slot ops r (?lane\<lparr>sl_write_pos := length ?h + 1\<rparr>) node (length ?h) frame_kind ver payload =
      Some (?lane\<lparr>sl_write_pos := length ?h + 1, sl_slots := s2\<rparr>, fr_id f)"
    "shm_lane_logged ops (sr_kind r) (sr_capacity r) (sr_payload_capacity r) (?lane\<lparr>sl_write_pos := length ?h + 1, sl_slots := s2\<rparr>) (?h @ [f])"
    using shm_write_slot_appends [OF assms(1,3,5,4) lg2 f] by auto
  show ?thesis
    using assms(2,4) w s1(1) s2(1) shm_ring_logged_update [OF assms(1) i s1(2)] shm_ring_logged_update [OF assms(1) i s2(2)]
    by (cases "sr_topology r") (simp_all add: shm_write_def Let_def wp shm_lane_swap)
qed

section \<open>A shared-memory lane as a committed source\<close>

lemma shm_state_in_window:
  assumes "shm_ring_logged ops r hs" "i < sr_lane_count r" "c < length (hs ! i)" "length (hs ! i) \<le> c + sr_capacity r"
  shows "shm_read_lane_index_state_at ops r i c = Some (Ready (hs ! i ! c))"
proof -
  note d = shm_ring_loggedD [OF assms(1)]
  note lg = d(7) [OF assms(2)]
  have c: "c \<le> u64_max" "2 * c + 2 \<le> u64_max" using assms(3) lg
    by (auto simp: shm_lane_logged_def NETID_COUNTER_MAX_def u64_max_def)
  let ?s = "shm_slot_of r i c"
  have idx: "shm_slot_idx r c = c mod sr_capacity r" by (rule shm_slot_idx_mod [OF d(3,4) c(1)])
  have "slot_view (sr_payload_capacity r) ?s = Some (c, hs ! i ! c)"
    using lg assms(3,4) by (auto simp: shm_lane_logged_def window_ok_def shm_slot_of_def idx nth_enumerate_eq)
  then have v: "read_committed_frame ?s (sr_payload_capacity r) = Some (hs ! i ! c)" "ss_seq ?s div 2 - 1 = c"
    by (auto simp: slot_view_def)
  from v(1) have "ss_seq ?s \<noteq> 0" "even (ss_seq ?s)"
    by (auto simp: read_committed_frame_def read_committed_at_def Let_def split: if_splits)
  with v(2) have seq: "ss_seq ?s = 2 * c + 2" by presburger
  have e: "nid_counter ops (fr_id (hs ! i ! c)) = c" using lg assms(3) by (simp add: shm_lane_logged_def entry_ok_def)
  have "expected_committed c = Some (2 * c + 2)"
    using c(2) by (simp add: expected_committed_def checked_mul_def checked_add_def mult.commute)
  with v(1) seq e show ?thesis
    by (simp add: shm_read_lane_index_state_at_def read_committed_frame_def Let_def)
qed

lemma shm_read_in_window:
  assumes "shm_ring_logged ops r hs" "i < sr_lane_count r" "c < length (hs ! i)" "length (hs ! i) \<le> c + sr_capacity r"
    and "shm_lane_index r (nid_node ops (fr_id (hs ! i ! c))) = Some i"
  shows "shm_read ops r (fr_id (hs ! i ! c)) = Some (hs ! i ! c)"
proof -
  note d = shm_ring_loggedD [OF assms(1)]
  note lg = d(7) [OF assms(2)]
  have "c \<le> u64_max" using assms(3) lg by (auto simp: shm_lane_logged_def NETID_COUNTER_MAX_def u64_max_def)
  then have idx: "shm_slot_idx r c = c mod sr_capacity r" by (rule shm_slot_idx_mod [OF d(3,4)])
  have "slot_view (sr_payload_capacity r) (shm_slot_of r i c) = Some (c, hs ! i ! c)"
    using lg assms(3,4) by (auto simp: shm_lane_logged_def window_ok_def shm_slot_of_def idx nth_enumerate_eq)
  then have v: "read_committed_at (\<lambda>_. shm_slot_of r i c) still (sr_payload_capacity r) = Some (hs ! i ! c)"
    by (auto simp: slot_view_def read_committed_frame_def)
  have "nid_counter ops (fr_id (hs ! i ! c)) = c" "nid_kind ops (fr_id (hs ! i ! c)) = sr_kind r"
    using lg assms(3) by (simp_all add: shm_lane_logged_def entry_ok_def)
  with v assms(5) show ?thesis by (simp add: shm_read_def shm_read_lane_index_at_def)
qed

interpretation shm: committed_source
  "\<lambda>(ops, r, hs, i). shm_ring_logged ops r hs \<and> i < sr_lane_count r" "\<lambda>(ops, r, hs, i). ops"
  "\<lambda>(ops, r, hs, i). shm_source_of ops r i" "\<lambda>(ops, r, hs, i) c. hs ! i ! c"
proof (unfold_locales, goal_cases)
  case (1 s)
  then obtain ops r hs i where s: "s = (ops, r, hs, i)" "shm_ring_logged ops r hs" "i < sr_lane_count r" by (cases s) auto
  from shm_ring_loggedD(7) [OF s(2,3)] s(1) show ?case
    by (simp add: shm_source_of_def shm_lane_logged_def NETID_COUNTER_MAX_def u64_max_def)
next
  case (2 s c)
  then obtain ops r hs i where s: "s = (ops, r, hs, i)" "shm_ring_logged ops r hs" "i < sr_lane_count r" by (cases s) auto
  from 2 s shm_ring_loggedD(7) [OF s(2,3)] have "c < length (hs ! i)" "length (hs ! i) \<le> c + sr_capacity r"
    by (simp_all add: shm_source_of_def shm_lane_logged_def)
  from shm_state_in_window [OF s(2,3) this] s(1) show ?case by (simp add: shm_source_of_def)
next
  case (3 s c)
  then obtain ops r hs i where s: "s = (ops, r, hs, i)" "shm_ring_logged ops r hs" "i < sr_lane_count r" by (cases s) auto
  with 3 shm_ring_loggedD(7) [OF s(2,3)] show ?case by (simp add: shm_source_of_def shm_lane_logged_def entry_ok_def)
qed

section \<open>Opening\<close>

lemma header_check_iff:
  "header_check kind spec lane_count slot_stride header = Inr () \<longleftrightarrow>
     sh_magic header = SHM_RING_MAGIC \<and> sh_version header = SHM_RING_VERSION \<and> sh_kind header = kind \<and>
     sh_topology header = topology_tag (rs_topology spec) \<and> sh_lane_count header = lane_count \<and>
     sh_capacity header = rs_capacity spec \<and> sh_payload_capacity header = rs_payload_capacity spec \<and>
     sh_slot_stride header = slot_stride"
  by (simp add: header_check_def)

lemma topology_tag_inj [simp]: "topology_tag a = topology_tag b \<longleftrightarrow> a = b"
  by (cases a; cases b) auto

lemma shm_open_logged:
  assumes "shm_open kind spec fc None = Inr r" "netid_laws ops" "kind \<le> u8_max" "rs_capacity spec \<le> u32_max"
  shows "shm_ring_logged ops r (replicate (sr_lane_count r) [])"
proof -
  from assms(1) obtain lc stride off sz where l: "lane_count_for spec fc = Inr lc" "checked_layout spec fc = Inr (stride, off, sz)"
    and r: "sr_seg r = segment_new kind spec lc stride sz" "sr_kind r = kind" "sr_capacity r = rs_capacity spec"
      "sr_payload_capacity r = rs_payload_capacity spec" "sr_lane_count r = lc"
    by (auto simp: shm_open_def Let_def split: sum.splits option.splits prod.splits)
  have "is_power_of_two (rs_capacity spec)" using checked_layoutD [OF l(2)] by metis
  moreover have "rs_payload_capacity spec \<le> u32_max" using l(2) by (auto simp: checked_layout_def split: if_splits)
  moreover have "0 < lc" using l(1) by (auto simp: lane_count_for_def split: if_splits ring_topology.splits)
  ultimately show ?thesis
    using assms(2-4) r by (auto simp: shm_ring_logged_def segment_new_def shm_lane_def shm_lane_logged_def
        window_ok_def shm_slot_zero_def)
qed

section \<open>Read-only observers\<close>

record shm_view =
  sv_seg :: shm_segment
  sv_kind :: nat
  sv_spec :: ring_spec
  sv_lane_count :: nat
  sv_slot_stride :: nat
  sv_slots_offset :: nat
  sv_lane_stride :: nat

text \<open>\<open>attach_existing_for_uid_with_policy\<close> on a mapped segment of at least a header's size.\<close>

definition shm_attach :: "nat \<Rightarrow> shm_segment \<Rightarrow> shm_error + shm_view" where
  "shm_attach kind seg =
     (let header = sg_header seg
      in if sh_magic header \<noteq> SHM_RING_MAGIC then Inl (InvalidData ''wrong magic'')
         else if sh_version header \<noteq> SHM_RING_VERSION then Inl (InvalidData ''version'')
         else if sh_kind header \<noteq> kind then Inl (InvalidData ''kind'')
         else case topology_of_tag (sh_topology header) of
                None \<Rightarrow> Inl (InvalidData ''unknown topology'')
              | Some topology \<Rightarrow>
         let capacity = sh_capacity header; lane_count = sh_lane_count header
         in if lane_count = 0 then Inl (InvalidData ''zero lanes'')
            else if topology \<noteq> PerNode \<and> lane_count \<noteq> 1 then Inl (InvalidData ''requires one lane'')
            else
              let spec = \<lparr>rs_capacity = capacity, rs_payload_capacity = sh_payload_capacity header, rs_topology = topology\<rparr>;
                  fleet_capacity = (if topology = PerNode then lane_count else 1)
              in case checked_layout spec fleet_capacity of
                   Inl e \<Rightarrow> Inl (InvalidData ''invalid geometry'')
                 | Inr (slot_stride, slots_offset, expected_size) \<Rightarrow>
                     if sh_slot_stride header \<noteq> slot_stride then Inl (InvalidData ''slot stride'')
                     else if sg_size seg < expected_size then Inl (InvalidData ''size'')
                     else case checked_mul u64_max capacity slot_stride of
                            None \<Rightarrow> Inl (InvalidInput ''lane stride overflow'')
                          | Some lane_stride \<Rightarrow>
                              Inr \<lparr>sv_seg = seg, sv_kind = kind, sv_spec = spec, sv_lane_count = lane_count,
                                sv_slot_stride = slot_stride, sv_slots_offset = slots_offset,
                                sv_lane_stride = lane_stride\<rparr>)"

definition shm_attach_typed :: "orbit_typed \<Rightarrow> shm_segment \<Rightarrow> shm_error + shm_view" where
  "shm_attach_typed T seg =
     (case shm_attach (ot_kind T) seg of Inl e \<Rightarrow> Inl e
      | Inr view \<Rightarrow> if sv_spec view \<noteq> ot_spec T then Inl (InvalidData ''spec'') else Inr view)"

definition view_lane :: "shm_view \<Rightarrow> nat \<Rightarrow> shm_error + nat" where
  "view_lane v lane =
     (if lane \<ge> sv_lane_count v then Inl (InvalidInput ''lane outside SHM ring lane count'') else Inr lane)"

definition view_slot_idx :: "shm_view \<Rightarrow> nat \<Rightarrow> nat" where
  "view_slot_idx v counter = unat (of_nat counter AND (of_nat (rs_capacity (sv_spec v) - 1) :: u64w))"

definition view_slot :: "shm_view \<Rightarrow> nat \<Rightarrow> nat \<Rightarrow> shm_slot" where
  "view_slot v lane counter = sl_slots (sg_lanes (sv_seg v) ! lane) ! view_slot_idx v counter"

fun view_attempts ::
    "netid_ops \<Rightarrow> shm_view \<Rightarrow> nat \<Rightarrow> nat \<Rightarrow> nat \<Rightarrow> (nat \<Rightarrow> shm_slot) \<Rightarrow> (nat \<times> load_times) list \<Rightarrow> ring_read_state" where
  "view_attempts ops v lane counter expected S [] = Unavailable"
| "view_attempts ops v lane counter expected S ((t, T) # Ts) =
     (let sequence = ss_seq (S t)
      in if sequence < expected then (if rs_topology (sv_spec v) = Shared then Pending else Unavailable)
         else if sequence > expected then Unavailable
         else case read_committed_at S T (rs_payload_capacity (sv_spec v)) of
                Some f \<Rightarrow>
                  let lane_matches = rs_topology (sv_spec v) \<noteq> PerNode \<or> nid_node ops (fr_id f) = lane
                  in if nid_kind ops (fr_id f) = sv_kind v \<and> nid_counter ops (fr_id f) = counter \<and> lane_matches
                     then Ready f else Unavailable
              | None \<Rightarrow> view_attempts ops v lane counter expected S Ts)"

definition view_read_lane_state_at :: "netid_ops \<Rightarrow> shm_view \<Rightarrow> nat \<Rightarrow> nat \<Rightarrow> ring_read_state" where
  "view_read_lane_state_at ops v lane counter =
     (case expected_committed counter of
        None \<Rightarrow> Unavailable
      | Some expected \<Rightarrow>
          view_attempts ops v lane counter expected (\<lambda>_. view_slot v lane counter) [(0, still), (0, still), (0, still)])"

definition view_lane_head :: "shm_view \<Rightarrow> nat \<Rightarrow> nat" where
  "view_lane_head v lane = sl_write_pos (sg_lanes (sv_seg v) ! lane)"

definition view_retained_range :: "shm_view \<Rightarrow> nat \<Rightarrow> nat \<times> nat" where
  "view_retained_range v lane =
     (let head = view_lane_head v lane in (saturating_sub head (rs_capacity (sv_spec v)), head))"

definition view_read_at :: "netid_ops \<Rightarrow> shm_view \<Rightarrow> nat \<Rightarrow> nat \<Rightarrow> frame option" where
  "view_read_at ops v lane counter =
     (case view_read_lane_state_at ops v lane counter of Ready f \<Rightarrow> Some f | _ \<Rightarrow> None)"

definition view_read_head :: "netid_ops \<Rightarrow> shm_view \<Rightarrow> nat \<Rightarrow> frame option" where
  "view_read_head ops v lane =
     Option.bind (checked_sub (view_lane_head v lane) 1) (view_read_at ops v lane)"

lemma shm_attachD:
  assumes "shm_attach kind seg = Inr v"
  obtains fc expected where "checked_layout (sv_spec v) fc = Inr (sv_slot_stride v, sv_slots_offset v, expected)"
    "lane_count_for (sv_spec v) fc = Inr (sv_lane_count v)" "expected \<le> sg_size seg" "sv_seg v = seg" "sv_kind v = kind"
    "sv_lane_stride v = rs_capacity (sv_spec v) * sv_slot_stride v"
proof -
  let ?h = "sg_header seg"
  from assms obtain topology stride off expected where v: "topology_of_tag (sh_topology ?h) = Some topology"
    "sh_lane_count ?h \<noteq> 0" "topology = PerNode \<or> sh_lane_count ?h = 1"
    "checked_layout \<lparr>rs_capacity = sh_capacity ?h, rs_payload_capacity = sh_payload_capacity ?h, rs_topology = topology\<rparr>
       (if topology = PerNode then sh_lane_count ?h else 1) = Inr (stride, off, expected)"
    "expected \<le> sg_size seg"
    "v = \<lparr>sv_seg = seg, sv_kind = kind,
       sv_spec = \<lparr>rs_capacity = sh_capacity ?h, rs_payload_capacity = sh_payload_capacity ?h, rs_topology = topology\<rparr>,
       sv_lane_count = sh_lane_count ?h, sv_slot_stride = stride, sv_slots_offset = off,
       sv_lane_stride = sh_capacity ?h * stride\<rparr>"
    by (auto simp: shm_attach_def Let_def split: if_splits option.splits sum.splits prod.splits)
  show thesis
    by (rule that [of "if topology = PerNode then sh_lane_count ?h else 1" expected])
       (use v in \<open>auto simp: lane_count_for_def split: ring_topology.splits if_splits\<close>)
qed



end
