(* ===== verification/Fleet.thy ===== *)
theory Fleet
  imports Ring_Shm_Ops
begin

text \<open>
  The fleet handle (\<open>core/src/fleet/mod.rs\<close>, \<open>core/src/fleet/cursor.rs\<close>, \<open>core/src/fleet/name.rs\<close>):
  joining, minting, publishing and reading through either ring backing, and the cursors over all
  node lanes. A ring is opened lazily under its kind. \<open>any_ring\<close> is a ring of either backing, and
  \<open>any_logged\<close> says which log per lane it holds, so that publication and polling are stated once for
  both. A panic is \<open>None\<close>; outcomes of the operating system are arguments.
\<close>

section \<open>Fleet names\<close>

record fleet_name =
  fn_bytes :: bytes
  fn_len :: nat

definition FLEET_NAME_MAX_LEN :: nat where "FLEET_NAME_MAX_LEN = 8"

definition fleet_name_byte :: "byte \<Rightarrow> bool" where
  "fleet_name_byte b \<longleftrightarrow> (let n = unat b in 48 \<le> n \<and> n \<le> 57 \<or> 65 \<le> n \<and> n \<le> 90 \<or> 97 \<le> n \<and> n \<le> 122 \<or> n = 45 \<or> n = 95)"

definition fleet_name_try_new :: "bytes \<Rightarrow> fleet_name option" where
  "fleet_name_try_new name =
     (if name = [] \<or> length name > FLEET_NAME_MAX_LEN \<or> \<not> list_all fleet_name_byte name then None
      else Some \<lparr>fn_bytes = name @ replicate (8 - length name) 0, fn_len = length name\<rparr>)"

definition fleet_name_as_str :: "fleet_name \<Rightarrow> bytes" where
  "fleet_name_as_str n = take (fn_len n) (fn_bytes n)"

section \<open>Rings of either backing\<close>

record shm_registry =
  hr_fleet_capacity :: nat
  hr_rings :: "nat \<Rightarrow> shm_ring option"
  hr_segments :: "nat \<Rightarrow> shm_segment option"

definition shm_get_or_create :: "shm_registry \<Rightarrow> orbit_typed \<Rightarrow> shm_error + (shm_registry \<times> shm_ring)" where
  "shm_get_or_create reg T =
     (case hr_rings reg (ot_kind T) of
        Some r \<Rightarrow> if shm_spec_of r \<noteq> ot_spec T then Inl (InvalidData ''kind reused'') else Inr (reg, r)
      | None \<Rightarrow>
          (case shm_open (ot_kind T) (ot_spec T) (hr_fleet_capacity reg) (hr_segments reg (ot_kind T)) of
             Inl e \<Rightarrow> Inl e
           | Inr r \<Rightarrow>
               if shm_spec_of r \<noteq> ot_spec T then Inl (InvalidData ''kind raced'')
               else Inr (reg\<lparr>hr_rings := (hr_rings reg)(ot_kind T \<mapsto> r)\<rparr>, r)))"

datatype ring_backing = InMemory ring_registry | Shm shm_registry

datatype any_ring = MemRing ring | ShmRing shm_ring

fun any_write ::
    "netid_ops \<Rightarrow> shm_error + unit \<Rightarrow> any_ring \<Rightarrow> nat \<Rightarrow> nat \<Rightarrow> nat \<Rightarrow> bytes \<Rightarrow> (any_ring \<times> (shm_error + nat)) option" where
  "any_write ops os_lock (MemRing r) node frame_kind ver payload =
     map_option (\<lambda>(r', fid). (MemRing r', Inr fid)) (ring_write ops r node frame_kind ver payload)"
| "any_write ops os_lock (ShmRing r) node frame_kind ver payload =
     map_option (\<lambda>(r', x). (ShmRing r', x)) (shm_write ops os_lock r node frame_kind ver payload)"

fun any_write_batch ::
    "netid_ops \<Rightarrow> shm_error + unit \<Rightarrow> any_ring \<Rightarrow> nat \<Rightarrow> nat \<Rightarrow> nat \<Rightarrow> bytes list \<Rightarrow> (any_ring \<times> (shm_error + nat list)) option" where
  "any_write_batch ops os_lock (MemRing r) node frame_kind ver payloads =
     map_option (\<lambda>(r', ids). (MemRing r', Inr ids)) (ring_write_batch ops r node frame_kind ver payloads)"
| "any_write_batch ops os_lock (ShmRing r) node frame_kind ver payloads =
     map_option (\<lambda>(r', x). (ShmRing r', x)) (shm_write_batch ops os_lock r node frame_kind ver payloads)"

fun any_read :: "netid_ops \<Rightarrow> any_ring \<Rightarrow> nat \<Rightarrow> frame option" where
  "any_read ops (MemRing r) fid = ring_read ops r fid"
| "any_read ops (ShmRing r) fid = shm_read ops r fid"

fun any_read_head :: "any_ring \<Rightarrow> frame option" where
  "any_read_head (MemRing r) = ring_read_head r"
| "any_read_head (ShmRing r) = shm_read_head r"

fun any_head :: "any_ring \<Rightarrow> nat" where
  "any_head (MemRing r) = ring_head r"
| "any_head (ShmRing r) = shm_head r"

fun any_read_at :: "any_ring \<Rightarrow> nat \<Rightarrow> frame option" where
  "any_read_at (MemRing r) counter = ring_read_at r counter"
| "any_read_at (ShmRing r) counter = shm_read_at r counter"

fun any_lane_head :: "any_ring \<Rightarrow> nat \<Rightarrow> nat option" where
  "any_lane_head (MemRing r) node = ring_lane_head r node"
| "any_lane_head (ShmRing r) node = shm_lane_head r node"

fun any_read_lane_at :: "any_ring \<Rightarrow> nat \<Rightarrow> nat \<Rightarrow> frame option option" where
  "any_read_lane_at (MemRing r) node counter = ring_read_lane_at r node counter"
| "any_read_lane_at (ShmRing r) node counter = shm_read_lane_at r node counter"

fun any_read_lane_state_at :: "netid_ops \<Rightarrow> any_ring \<Rightarrow> nat \<Rightarrow> nat \<Rightarrow> ring_read_state option" where
  "any_read_lane_state_at ops (MemRing r) node counter = ring_read_lane_state_at ops r node counter"
| "any_read_lane_state_at ops (ShmRing r) node counter = shm_read_lane_state_at ops r node counter"

fun any_capacity :: "any_ring \<Rightarrow> nat" where
  "any_capacity (MemRing r) = r_capacity r"
| "any_capacity (ShmRing r) = sr_capacity r"

fun any_next_version :: "any_ring \<Rightarrow> any_ring \<times> nat option" where
  "any_next_version (MemRing r) = (let (r', v) = ring_next_version r in (MemRing r', v))"
| "any_next_version (ShmRing r) = (let (r', v) = shm_next_version r in (ShmRing r', v))"

fun any_current_version :: "any_ring \<Rightarrow> nat" where
  "any_current_version (MemRing r) = version_counter r"
| "any_current_version (ShmRing r) = sh_version_counter (sg_header (sr_seg r))"

fun any_reset :: "any_ring \<Rightarrow> any_ring" where
  "any_reset (MemRing r) = MemRing (ring_reset r)"
| "any_reset (ShmRing r) = ShmRing (shm_reset r)"

section \<open>The handle\<close>

datatype fleet_error = EmptyFleet | NodeOutsideFleet nat nat | FleetIo shm_error

record fleet =
  fl_name :: bytes
  fl_capacity :: nat
  fl_node_id :: nat
  fl_id_counters :: "nat \<Rightarrow> nat option"
  fl_backing :: ring_backing

definition fleet_join_as :: "bytes \<Rightarrow> nat \<Rightarrow> nat \<Rightarrow> fleet_error + fleet" where
  "fleet_join_as name fleet_capacity node_id =
     (if fleet_capacity = 0 then Inl EmptyFleet
      else if node_id \<ge> fleet_capacity then Inl (NodeOutsideFleet node_id fleet_capacity)
      else Inr \<lparr>fl_name = name, fl_capacity = fleet_capacity, fl_node_id = node_id,
        fl_id_counters = (\<lambda>_. None), fl_backing = InMemory (registry_new fleet_capacity)\<rparr>)"

text \<open>\<open>membership\<close> is the outcome of \<open>join_fleet_membership\<close>, \<open>segments\<close> what the host has.\<close>

definition fleet_join_shm_as ::
    "bytes \<Rightarrow> nat \<Rightarrow> nat \<Rightarrow> shm_error + unit \<Rightarrow> (nat \<Rightarrow> shm_segment option) \<Rightarrow> fleet_error + fleet" where
  "fleet_join_shm_as name fleet_capacity node_id membership segments =
     (if fleet_capacity = 0 then Inl EmptyFleet
      else if node_id \<ge> fleet_capacity then Inl (NodeOutsideFleet node_id fleet_capacity)
      else case membership of Inl e \<Rightarrow> Inl (FleetIo e)
           | Inr _ \<Rightarrow>
               Inr \<lparr>fl_name = name, fl_capacity = fleet_capacity, fl_node_id = node_id,
                 fl_id_counters = (\<lambda>_. None),
                 fl_backing = Shm \<lparr>hr_fleet_capacity = fleet_capacity, hr_rings = (\<lambda>_. None), hr_segments = segments\<rparr>\<rparr>)"

definition fleet_next_id :: "netid_ops \<Rightarrow> fleet \<Rightarrow> orbit_typed \<Rightarrow> fleet \<times> nat" where
  "fleet_next_id ops fl T =
     (let counter = (case fl_id_counters fl (ot_kind T) of Some c \<Rightarrow> c | None \<Rightarrow> 0)
      in (fl\<lparr>fl_id_counters := (fl_id_counters fl)(ot_kind T \<mapsto> wrapping_add u64_max counter 1)\<rparr>,
          nid_make ops (ot_kind T) (fl_node_id fl) counter))"

definition fleet_open :: "fleet \<Rightarrow> orbit_typed \<Rightarrow> (fleet \<times> (shm_error + any_ring)) option" where
  "fleet_open fl T =
     (case fl_backing fl of
        InMemory reg \<Rightarrow>
          map_option (\<lambda>(reg', r). (fl\<lparr>fl_backing := InMemory reg'\<rparr>, Inr (MemRing r))) (registry_get_or_create reg T)
      | Shm reg \<Rightarrow>
          Some (case shm_get_or_create reg T of
                  Inl e \<Rightarrow> (fl, Inl e)
                | Inr (reg', r) \<Rightarrow> (fl\<lparr>fl_backing := Shm reg'\<rparr>, Inr (ShmRing r))))"

definition fleet_store :: "fleet \<Rightarrow> nat \<Rightarrow> any_ring \<Rightarrow> fleet" where
  "fleet_store fl kind a =
     (case (fl_backing fl, a) of
        (InMemory reg, MemRing r) \<Rightarrow> fl\<lparr>fl_backing := InMemory (reg\<lparr>rg_rings := (rg_rings reg)(kind \<mapsto> r)\<rparr>)\<rparr>
      | (Shm reg, ShmRing r) \<Rightarrow> fl\<lparr>fl_backing := Shm (reg\<lparr>hr_rings := (hr_rings reg)(kind \<mapsto> r)\<rparr>)\<rparr>
      | _ \<Rightarrow> fl)"

definition fleet_publish ::
    "netid_ops \<Rightarrow> shm_error + unit \<Rightarrow> fleet \<Rightarrow> orbit_typed \<Rightarrow> nat \<Rightarrow> nat \<Rightarrow> bytes \<Rightarrow> (fleet \<times> nat) option" where
  "fleet_publish ops os_lock fl T frame_kind ver payload =
     (case fleet_open fl T of
        Some (fl', Inr a) \<Rightarrow>
          (case any_write ops os_lock a (fl_node_id fl) frame_kind ver payload of
             Some (a', Inr fid) \<Rightarrow> Some (fleet_store fl' (ot_kind T) a', fid)
           | _ \<Rightarrow> None)
      | _ \<Rightarrow> None)"

definition fleet_publish_batch ::
    "netid_ops \<Rightarrow> shm_error + unit \<Rightarrow> fleet \<Rightarrow> orbit_typed \<Rightarrow> nat \<Rightarrow> nat \<Rightarrow> bytes list \<Rightarrow> (fleet \<times> nat list) option" where
  "fleet_publish_batch ops os_lock fl T frame_kind ver payloads =
     (case fleet_open fl T of
        Some (fl', Inr a) \<Rightarrow>
          (case any_write_batch ops os_lock a (fl_node_id fl) frame_kind ver payloads of
             Some (a', Inr ids) \<Rightarrow> Some (fleet_store fl' (ot_kind T) a', ids)
           | _ \<Rightarrow> None)
      | _ \<Rightarrow> None)"

text \<open>
  The notified variants: the ring write is committed first and \<open>notify\<close>, the outcome of the wake,
  comes after it; an error of the wake is returned although the frame is already visible. An
  in-memory fleet writes and does not notify.
\<close>

definition fleet_publish_notified ::
    "netid_ops \<Rightarrow> shm_error + unit \<Rightarrow> shm_error + unit \<Rightarrow> fleet \<Rightarrow> orbit_typed \<Rightarrow> nat \<Rightarrow> nat \<Rightarrow> bytes
      \<Rightarrow> (fleet \<times> (shm_error + nat)) option" where
  "fleet_publish_notified ops os_lock notify fl T frame_kind ver payload =
     (case fleet_open fl T of
        None \<Rightarrow> None
      | Some (fl', Inl e) \<Rightarrow> Some (fl', Inl e)
      | Some (fl', Inr a) \<Rightarrow>
          (case any_write ops os_lock a (fl_node_id fl) frame_kind ver payload of
             None \<Rightarrow> None
           | Some (a', Inl e) \<Rightarrow> Some (fleet_store fl' (ot_kind T) a', Inl e)
           | Some (a', Inr fid) \<Rightarrow>
               Some (fleet_store fl' (ot_kind T) a',
                     (case (a, notify) of (ShmRing _, Inl e) \<Rightarrow> Inl e | _ \<Rightarrow> Inr fid))))"

definition fleet_publish_batch_notified ::
    "netid_ops \<Rightarrow> shm_error + unit \<Rightarrow> shm_error + unit \<Rightarrow> fleet \<Rightarrow> orbit_typed \<Rightarrow> nat \<Rightarrow> nat \<Rightarrow> bytes list
      \<Rightarrow> (fleet \<times> (shm_error + nat list)) option" where
  "fleet_publish_batch_notified ops os_lock notify fl T frame_kind ver payloads =
     (case fleet_open fl T of
        None \<Rightarrow> None
      | Some (fl', Inl e) \<Rightarrow> Some (fl', Inl e)
      | Some (fl', Inr a) \<Rightarrow>
          (case any_write_batch ops os_lock a (fl_node_id fl) frame_kind ver payloads of
             None \<Rightarrow> None
           | Some (a', Inl e) \<Rightarrow> Some (fleet_store fl' (ot_kind T) a', Inl e)
           | Some (a', Inr ids) \<Rightarrow>
               Some (fleet_store fl' (ot_kind T) a',
                     (case (a, notify) of (ShmRing _, Inl e) \<Rightarrow> if ids \<noteq> [] then Inl e else Inr ids | _ \<Rightarrow> Inr ids))))"

text \<open>\<open>Fleet::read\<close> only looks a ring up; it never creates one.\<close>

definition fleet_read :: "netid_ops \<Rightarrow> fleet \<Rightarrow> nat \<Rightarrow> frame option" where
  "fleet_read ops fl fid =
     (case fl_backing fl of
        InMemory reg \<Rightarrow> Option.bind (registry_lookup reg (nid_kind ops fid)) (\<lambda>r. ring_read ops r fid)
      | Shm reg \<Rightarrow> Option.bind (hr_rings reg (nid_kind ops fid)) (\<lambda>r. shm_read ops r fid))"

text \<open>Reads through a lazily opened ring; a failed open reads as the given default.\<close>

definition fleet_query :: "fleet \<Rightarrow> orbit_typed \<Rightarrow> 'a \<Rightarrow> (any_ring \<Rightarrow> 'a option) \<Rightarrow> (fleet \<times> 'a) option" where
  "fleet_query fl T d q =
     (case fleet_open fl T of
        None \<Rightarrow> None
      | Some (fl', Inl e) \<Rightarrow> Some (fl', d)
      | Some (fl', Inr a) \<Rightarrow> map_option (\<lambda>x. (fl', x)) (q a))"

definition fleet_lane_head :: "fleet \<Rightarrow> orbit_typed \<Rightarrow> nat \<Rightarrow> (fleet \<times> nat) option" where
  "fleet_lane_head fl T node = fleet_query fl T 0 (\<lambda>a. any_lane_head a node)"

definition fleet_head :: "fleet \<Rightarrow> orbit_typed \<Rightarrow> (fleet \<times> nat) option" where
  "fleet_head fl T =
     (if rs_topology (ot_spec T) = PerNode then fleet_lane_head fl T (fl_node_id fl)
      else fleet_query fl T 0 (\<lambda>a. Some (any_head a)))"

definition fleet_read_lane_at :: "fleet \<Rightarrow> orbit_typed \<Rightarrow> nat \<Rightarrow> nat \<Rightarrow> (fleet \<times> frame option) option" where
  "fleet_read_lane_at fl T node counter = fleet_query fl T None (\<lambda>a. any_read_lane_at a node counter)"

definition fleet_read_at :: "fleet \<Rightarrow> orbit_typed \<Rightarrow> nat \<Rightarrow> (fleet \<times> frame option) option" where
  "fleet_read_at fl T counter =
     (if rs_topology (ot_spec T) = PerNode then fleet_read_lane_at fl T (fl_node_id fl) counter
      else fleet_query fl T None (\<lambda>a. Some (any_read_at a counter)))"

definition fleet_read_head :: "fleet \<Rightarrow> orbit_typed \<Rightarrow> (fleet \<times> frame option) option" where
  "fleet_read_head fl T =
     (if rs_topology (ot_spec T) = PerNode
      then case fleet_lane_head fl T (fl_node_id fl) of
             None \<Rightarrow> None
           | Some (fl', head) \<Rightarrow>
               if head > 0 then fleet_read_lane_at fl' T (fl_node_id fl) (head - 1) else Some (fl', None)
      else fleet_query fl T None (\<lambda>a. Some (any_read_head a)))"

definition fleet_read_lane_state_at ::
    "netid_ops \<Rightarrow> fleet \<Rightarrow> orbit_typed \<Rightarrow> nat \<Rightarrow> nat \<Rightarrow> (fleet \<times> ring_read_state) option" where
  "fleet_read_lane_state_at ops fl T node counter =
     fleet_query fl T Unavailable (\<lambda>a. any_read_lane_state_at ops a node counter)"

definition fleet_ring_capacity :: "fleet \<Rightarrow> orbit_typed \<Rightarrow> (fleet \<times> nat) option" where
  "fleet_ring_capacity fl T = fleet_query fl T (rs_capacity (ot_spec T)) (\<lambda>a. Some (any_capacity a))"

definition fleet_next_ring_version :: "fleet \<Rightarrow> orbit_typed \<Rightarrow> (fleet \<times> nat) option" where
  "fleet_next_ring_version fl T =
     (case fleet_open fl T of
        Some (fl', Inr a) \<Rightarrow>
          (case any_next_version a of
             (a', Some v) \<Rightarrow> Some (fleet_store fl' (ot_kind T) a', v)
           | _ \<Rightarrow> None)
      | _ \<Rightarrow> None)"

definition fleet_reset_ring :: "fleet \<Rightarrow> orbit_typed \<Rightarrow> (fleet \<times> (shm_error + unit)) option" where
  "fleet_reset_ring fl T =
     (case fleet_open fl T of
        None \<Rightarrow> None
      | Some (fl', Inl e) \<Rightarrow> Some (fl', Inl e)
      | Some (fl', Inr a) \<Rightarrow> Some (fleet_store fl' (ot_kind T) (any_reset a), Inr ()))"

section \<open>Cursors over all lanes\<close>

definition fleet_lane_source :: "netid_ops \<Rightarrow> fleet \<Rightarrow> orbit_typed \<Rightarrow> nat \<Rightarrow> (fleet \<times> ring_source) option" where
  "fleet_lane_source ops fl T node =
     (case fleet_open fl T of
        None \<Rightarrow> None
      | Some (fl', Inl e) \<Rightarrow>
          Some (fl', \<lparr>src_kind = ot_kind T, src_head = 0, src_capacity = rs_capacity (ot_spec T),
            src_read_state = (\<lambda>_. Unavailable)\<rparr>)
      | Some (fl', Inr a) \<Rightarrow>
          map_option (\<lambda>head. (fl', \<lparr>src_kind = ot_kind T, src_head = head, src_capacity = any_capacity a,
            src_read_state = (\<lambda>c. case any_read_lane_state_at ops a node c of Some x \<Rightarrow> x | None \<Rightarrow> Unavailable)\<rparr>))
            (any_lane_head a node))"

record lane_cursor =
  lc_lanes :: "ring_cursor list"
  lc_initial_counter :: nat

definition lane_cursor_from_counter :: "nat \<Rightarrow> lane_cursor" where
  "lane_cursor_from_counter initial_counter = \<lparr>lc_lanes = [], lc_initial_counter = initial_counter\<rparr>"

definition minimum_lane_next_counter :: "lane_cursor \<Rightarrow> nat" where
  "minimum_lane_next_counter cursor =
     (case map next_counter (lc_lanes cursor) of [] \<Rightarrow> lc_initial_counter cursor | c # cs \<Rightarrow> fold min cs c)"

record lane_poll =
  lp_frames :: "frame list"
  lp_loss :: ring_loss

fun lane_heads :: "fleet \<Rightarrow> orbit_typed \<Rightarrow> nat list \<Rightarrow> (fleet \<times> ring_cursor list) option" where
  "lane_heads fl T [] = Some (fl, [])"
| "lane_heads fl T (node # nodes) =
     (case fleet_lane_head fl T node of
        None \<Rightarrow> None
      | Some (fl', head) \<Rightarrow>
          map_option (\<lambda>(fl'', cs). (fl'', cursor_from_counter head # cs)) (lane_heads fl' T nodes))"

definition lane_cursor_at_head :: "fleet \<Rightarrow> orbit_typed \<Rightarrow> (fleet \<times> lane_cursor) option" where
  "lane_cursor_at_head fl T =
     (if rs_topology (ot_spec T) \<noteq> PerNode then None
      else map_option (\<lambda>(fl', cs). (fl', \<lparr>lc_lanes = cs, lc_initial_counter = 0\<rparr>)) (lane_heads fl T [0..<fl_capacity fl]))"

definition lane_cursor_from_start :: "fleet \<Rightarrow> orbit_typed \<Rightarrow> lane_cursor option" where
  "lane_cursor_from_start fl T =
     (if rs_topology (ot_spec T) \<noteq> PerNode then None
      else Some \<lparr>lc_lanes = replicate (fl_capacity fl) cursor_from_start, lc_initial_counter = 0\<rparr>)"

fun poll_each ::
    "netid_ops \<Rightarrow> fleet \<Rightarrow> orbit_typed \<Rightarrow> nat \<Rightarrow> ring_cursor list \<Rightarrow> lane_poll \<Rightarrow> (fleet \<times> ring_cursor list \<times> lane_poll) option" where
  "poll_each ops fl T node [] combined = Some (fl, [], combined)"
| "poll_each ops fl T node (c # cs) combined =
     (case fleet_lane_source ops fl T node of
        None \<Rightarrow> None
      | Some (fl', src) \<Rightarrow>
          let (c', poll) = poll_ring ops src c;
              combined' = \<lparr>lp_frames = lp_frames combined @ rp_frames poll,
                lp_loss = \<lparr>overwritten = saturating_add u64_max (overwritten (lp_loss combined)) (overwritten (rp_loss poll)),
                  unavailable = saturating_add u64_max (unavailable (lp_loss combined)) (unavailable (rp_loss poll))\<rparr>\<rparr>
          in map_option (\<lambda>(fl'', cs', p). (fl'', c' # cs', p)) (poll_each ops fl' T (node + 1) cs combined'))"

definition fleet_poll_lanes ::
    "netid_ops \<Rightarrow> fleet \<Rightarrow> orbit_typed \<Rightarrow> lane_cursor \<Rightarrow> (fleet \<times> lane_cursor \<times> lane_poll) option" where
  "fleet_poll_lanes ops fl T cursor =
     (if rs_topology (ot_spec T) \<noteq> PerNode then None
      else
        let cs = (if lc_lanes cursor = [] then replicate (fl_capacity fl) (cursor_from_counter (lc_initial_counter cursor))
                  else lc_lanes cursor)
        in if length cs \<noteq> fl_capacity fl then None
           else map_option (\<lambda>(fl', cs', p). (fl', cursor\<lparr>lc_lanes := cs'\<rparr>, p))
                  (poll_each ops fl T 0 cs \<lparr>lp_frames = [], lp_loss = loss_none\<rparr>))"

section \<open>Logs behind a fleet\<close>

definition fleet_holds :: "netid_ops \<Rightarrow> fleet \<Rightarrow> orbit_typed \<Rightarrow> frame list list \<Rightarrow> bool" where
  "fleet_holds ops fl T hs \<longleftrightarrow>
     fl_node_id fl < fl_capacity fl \<and> fl_capacity fl \<le> u16_max + 1 \<and>
     length hs = ring_lane_count (ot_spec T) (fl_capacity fl) \<and>
     (case fl_backing fl of
        InMemory reg \<Rightarrow>
          (case rg_rings reg (ot_kind T) of
             None \<Rightarrow> False
           | Some r \<Rightarrow> ring_spec_of r = ot_spec T \<and> r_kind r = ot_kind T \<and> ring_logged ops r hs)
      | Shm reg \<Rightarrow>
          (case hr_rings reg (ot_kind T) of
             None \<Rightarrow> False
           | Some r \<Rightarrow> shm_spec_of r = ot_spec T \<and> sr_kind r = ot_kind T \<and> shm_ring_logged ops r hs))"

fun any_logged :: "netid_ops \<Rightarrow> orbit_typed \<Rightarrow> any_ring \<Rightarrow> frame list list \<Rightarrow> bool" where
  "any_logged ops T (MemRing r) hs \<longleftrightarrow> ring_spec_of r = ot_spec T \<and> r_kind r = ot_kind T \<and> ring_logged ops r hs"
| "any_logged ops T (ShmRing r) hs \<longleftrightarrow> shm_spec_of r = ot_spec T \<and> sr_kind r = ot_kind T \<and> shm_ring_logged ops r hs"

fun same_backing :: "ring_backing \<Rightarrow> any_ring \<Rightarrow> bool" where
  "same_backing (InMemory _) (MemRing _) \<longleftrightarrow> True"
| "same_backing (Shm _) (ShmRing _) \<longleftrightarrow> True"
| "same_backing _ _ \<longleftrightarrow> False"

lemma fleet_backing_id [simp]: "fl_backing fl = b \<Longrightarrow> fl\<lparr>fl_backing := b\<rparr> = fl"
  by (cases fl) simp

lemma fleet_holds_open:
  assumes "fleet_holds ops fl T hs"
  obtains a where "fleet_open fl T = Some (fl, Inr a)" "any_logged ops T a hs" "same_backing (fl_backing fl) a"
proof (cases "fl_backing fl")
  case (InMemory reg)
  with assms obtain r where r: "rg_rings reg (ot_kind T) = Some r" "ring_spec_of r = ot_spec T" "r_kind r = ot_kind T"
    "ring_logged ops r hs" by (auto simp: fleet_holds_def split: option.splits)
  show thesis by (rule that [of "MemRing r"]) (use InMemory r in \<open>simp_all add: fleet_open_def registry_get_or_create_def\<close>)
next
  case (Shm reg)
  with assms obtain r where r: "hr_rings reg (ot_kind T) = Some r" "shm_spec_of r = ot_spec T" "sr_kind r = ot_kind T"
    "shm_ring_logged ops r hs" by (auto simp: fleet_holds_def split: option.splits)
  show thesis by (rule that [of "ShmRing r"]) (use Shm r in \<open>simp_all add: fleet_open_def shm_get_or_create_def\<close>)
qed

lemma fleet_store_holds:
  assumes "fleet_holds ops fl T hs" "any_logged ops T a hs'" "same_backing (fl_backing fl) a" "length hs' = length hs"
  shows "fleet_holds ops (fleet_store fl (ot_kind T) a) T hs'"
  using assms by (cases "fl_backing fl"; cases a) (auto simp: fleet_holds_def fleet_store_def)

definition posted :: "netid_ops \<Rightarrow> orbit_typed \<Rightarrow> nat \<Rightarrow> nat \<Rightarrow> nat \<Rightarrow> nat \<Rightarrow> bytes \<Rightarrow> frame" where
  "posted ops T node counter frame_kind ver payload =
     \<lparr>fr_id = nid_make ops (ot_kind T) node counter, fr_kind = frame_kind, fr_ver = ver, fr_payload = payload\<rparr>"

lemma ring_spec_ofD:
  "ring_spec_of r = sp \<Longrightarrow> r_capacity r = rs_capacity sp \<and> r_payload_capacity r = rs_payload_capacity sp \<and> r_topology r = rs_topology sp"
  by (auto simp: ring_spec_of_def)

lemma shm_spec_ofD:
  "shm_spec_of r = sp \<Longrightarrow> sr_capacity r = rs_capacity sp \<and> sr_payload_capacity r = rs_payload_capacity sp \<and> sr_topology r = rs_topology sp"
  by (auto simp: shm_spec_of_def)

lemma any_lane_index:
  assumes "any_logged ops T a hs" "node < fc" "length hs = ring_lane_count (ot_spec T) fc"
  shows "case a of MemRing r \<Rightarrow> ring_lane_of r node = Some (lane_index (rs_topology (ot_spec T)) node)
    | ShmRing r \<Rightarrow> shm_lane_index r node = Some (lane_index (rs_topology (ot_spec T)) node)"
proof (cases a)
  case (MemRing r)
  with assms have "r_topology r = rs_topology (ot_spec T)" "length (lanes r) = length hs" "0 < length hs"
    using ring_spec_ofD [of r] by (auto simp: ring_logged_def)
  with MemRing assms(2,3) show ?thesis
    by (auto simp: ring_lane_of_def lane_index_def Let_def ring_lane_count_def split: ring_topology.splits)
next
  case (ShmRing r)
  with assms have "sr_topology r = rs_topology (ot_spec T)" "sr_lane_count r = length hs" "0 < length hs"
    using shm_spec_ofD [of r] by (auto simp: shm_ring_logged_def)
  with ShmRing assms(2,3) show ?thesis
    by (auto simp: shm_lane_index_def lane_index_def Let_def ring_lane_count_def split: ring_topology.splits)
qed

lemma any_write_appends:
  assumes "any_logged ops T a hs" "node < fc" "fc \<le> u16_max + 1" "length hs = ring_lane_count (ot_spec T) fc"
    and "length payload \<le> rs_payload_capacity (ot_spec T)"
    and i: "i = lane_index (rs_topology (ot_spec T)) node" and "length (hs ! i) \<le> NETID_COUNTER_MAX"
    and f: "f = posted ops T node (length (hs ! i)) frame_kind ver payload"
  shows "\<exists>a'. any_write ops (Inr ()) a node frame_kind ver payload = Some (a', Inr (fr_id f)) \<and>
    any_logged ops T a' (hs[i := hs ! i @ [f]]) \<and> (\<forall>b. same_backing b a \<longrightarrow> same_backing b a')"
proof (cases a)
  case (MemRing r)
  from any_lane_index [OF assms(1,2,4)] MemRing i have l: "ring_lane_of r node = Some i" by simp
  have r: "ring_logged ops r hs" "r_payload_capacity r = rs_payload_capacity (ot_spec T)" "r_kind r = ot_kind T" "ring_spec_of r = ot_spec T"
    using assms(1) MemRing ring_spec_ofD [of r] by auto
  have fr: "f = frame_at ops r node (length (hs ! i)) frame_kind ver payload" using f r(3) by (simp add: posted_def frame_at_def)
  have pl: "length payload \<le> r_payload_capacity r" and nd: "node \<le> u16_max" using assms(2,3,5) r(2) by auto
  obtain r' where w: "ring_write ops r node frame_kind ver payload = Some (r', fr_id f)" "ring_logged ops r' (hs[i := hs ! i @ [f]])"
    "r_capacity r' = r_capacity r" "r_topology r' = r_topology r" "r_kind r' = r_kind r" "length (lanes r') = length (lanes r)"
    using ring_write_appends [OF r(1) l nd pl assms(7) fr] by blast
  have "r_payload_capacity r' = r_payload_capacity r"
    using w(1) by (auto simp: ring_write_def Let_def set_lane_def split: if_splits option.splits ring_topology.splits prod.splits)
  with w r MemRing show ?thesis by (intro exI [of _ "MemRing r'"]) (auto simp: ring_spec_of_def elim: same_backing.elims)
next
  case (ShmRing r)
  from any_lane_index [OF assms(1,2,4)] ShmRing i have l: "shm_lane_index r node = Some i" by simp
  have r: "shm_ring_logged ops r hs" "sr_payload_capacity r = rs_payload_capacity (ot_spec T)" "sr_kind r = ot_kind T" "shm_spec_of r = ot_spec T"
    using assms(1) ShmRing shm_spec_ofD [of r] by auto
  have fr: "f = shm_frame ops r node (length (hs ! i)) frame_kind ver payload" using f r(3) by (simp add: posted_def shm_frame_def)
  have pl: "length payload \<le> sr_payload_capacity r" and nd: "node \<le> u16_max" using assms(2,3,5) r(2) by auto
  obtain r' where w: "shm_write ops (Inr ()) r node frame_kind ver payload = Some (r', Inr (fr_id f))"
    "shm_ring_logged ops r' (hs[i := hs ! i @ [f]])"
    using shm_write_appends [OF r(1) l nd pl assms(7) fr] by blast
  have "shm_spec_of r' = shm_spec_of r \<and> sr_kind r' = sr_kind r"
    using w(1) by (auto simp: shm_write_def Let_def shm_spec_of_def split: if_splits option.splits ring_topology.splits)
  with w r ShmRing show ?thesis by (intro exI [of _ "ShmRing r'"]) (auto elim: same_backing.elims)
qed

lemma any_read_posted:
  assumes "any_logged ops T a hs" "node < fc" "fc \<le> u16_max + 1" "length hs = ring_lane_count (ot_spec T) fc"
    and i: "i = lane_index (rs_topology (ot_spec T)) node" and c: "c < length (hs ! i)" "length (hs ! i) \<le> c + any_capacity a"
    and "nid_node ops (fr_id (hs ! i ! c)) = node"
  shows "any_read ops a (fr_id (hs ! i ! c)) = Some (hs ! i ! c)"
proof (cases a)
  case (MemRing r)
  from any_lane_index [OF assms(1,2,4)] MemRing i have l: "ring_lane_of r node = Some i" by simp
  with ring_read_exact [of ops r hs i c] assms(1,6-8) MemRing ring_lane_of_less [OF l] show ?thesis by simp
next
  case (ShmRing r)
  from any_lane_index [OF assms(1,2,4)] ShmRing i have l: "shm_lane_index r node = Some i" by simp
  with shm_read_in_window [of ops r hs i c] assms(1,6-8) ShmRing shm_lane_index_less [OF l] show ?thesis by simp
qed

lemma fleet_read_open:
  assumes "fleet_open fl T = Some (fl, Inr a)" "fleet_holds ops fl T hs" "nid_kind ops fid = ot_kind T"
  shows "fleet_read ops fl fid = any_read ops a fid"
  using assms
  by (cases "fl_backing fl") (auto simp: fleet_open_def fleet_holds_def fleet_read_def registry_lookup_def
      registry_get_or_create_def shm_get_or_create_def split: option.splits)

lemma any_logged_laws:
  assumes "any_logged ops T a hs"
  shows "netid_laws ops" "ot_kind T \<le> u8_max" "0 < any_capacity a" "any_capacity a = rs_capacity (ot_spec T)"
  using assms is_power_of_two_pos ring_spec_ofD shm_spec_ofD
  by (cases a; auto simp: ring_logged_def shm_ring_logged_def)+

lemma lane_index_less: "node < fc \<Longrightarrow> lane_index (rs_topology sp) node < ring_lane_count sp fc"
  by (auto simp: lane_index_def ring_lane_count_def split: ring_topology.splits)

section \<open>A fresh fleet\<close>

lemma ring_new_logged:
  assumes "ring_new_for_fleet T fc = Some r" "netid_laws ops" "ot_kind T \<le> u8_max" "fc \<le> u16_max + 1"
  shows "ring_logged ops r (replicate (ring_lane_count (ot_spec T) fc) [])" "ring_spec_of r = ot_spec T" "r_kind r = ot_kind T"
  using assms
  by (auto simp: ring_new_for_fleet_def ring_logged_def spec_valid_def ring_lane_count_def lane_logged_def lane_new_def
      window_ok_def ring_spec_of_def split: if_splits ring_topology.splits)

lemma fleet_fresh_holds:
  assumes "fleet_join_as name fc node = Inr fl" "fleet_open fl T = Some (fl', Inr a)" "netid_laws ops" "ot_kind T \<le> u8_max" "fc \<le> u16_max + 1"
  shows "fleet_holds ops fl' T (replicate (ring_lane_count (ot_spec T) fc) [])"
proof -
  have fl: "fl_capacity fl = fc" "fl_node_id fl = node" "fl_backing fl = InMemory (registry_new fc)" "node < fc"
    using assms(1) by (auto simp: fleet_join_as_def split: if_splits)
  with assms(2) obtain r where r: "ring_new_for_fleet T fc = Some r"
    "fl' = fl\<lparr>fl_backing := InMemory ((registry_new fc)\<lparr>rg_rings := [ot_kind T \<mapsto> r]\<rparr>)\<rparr>"
    by (auto simp: fleet_open_def registry_get_or_create_def registry_new_def split: option.splits if_splits prod.splits)
  with ring_new_logged [OF r(1) assms(3-5)] fl assms(5) show ?thesis by (simp add: fleet_holds_def)
qed

definition demo_typed :: orbit_typed where
  "demo_typed = \<lparr>ot_kind = 5, ot_spec = spec_per_node 2 8\<rparr>"

definition demo_fleet :: fleet where
  "demo_fleet = \<lparr>fl_name = [97], fl_capacity = 2, fl_node_id = 1, fl_id_counters = (\<lambda>_. None),
     fl_backing = InMemory \<lparr>rg_fleet_capacity = 2, rg_rings = [5 \<mapsto> \<lparr>r_kind = 5, r_capacity = 2, r_payload_capacity = 8,
       r_topology = PerNode, version_counter = 0, lanes = replicate 2 (lane_new 2)\<rparr>]\<rparr>\<rparr>"

lemma demo_fleet_holds: "fleet_holds packed_netid demo_fleet demo_typed [[], []]"
proof -
  have p: "is_power_of_two 2" by (auto simp: is_power_of_two_def intro: exI [of _ 1])
  let ?fl = "\<lparr>fl_name = [97], fl_capacity = 2, fl_node_id = 1, fl_id_counters = (\<lambda>_. None),
     fl_backing = InMemory (registry_new 2)\<rparr>"
  have "fleet_join_as [97] 2 1 = Inr ?fl" by (simp add: fleet_join_as_def)
  moreover obtain a where "fleet_open ?fl demo_typed = Some (demo_fleet, Inr a)"
    using p by (auto simp: fleet_open_def registry_get_or_create_def registry_new_def ring_new_for_fleet_def spec_valid_def
        demo_typed_def spec_per_node_def ring_lane_count_def ring_spec_of_def demo_fleet_def max_defs)
  ultimately have "fleet_holds packed_netid demo_fleet demo_typed (replicate (ring_lane_count (ot_spec demo_typed) 2) [])"
    using packed_netid_laws by (intro fleet_fresh_holds) (simp_all add: demo_typed_def max_defs)
  then show ?thesis by (simp add: demo_typed_def spec_per_node_def ring_lane_count_def numeral_2_eq_2)
qed

section \<open>Publishing\<close>

text \<open>
  C29: publishing through a fleet appends exactly one frame to the publisher's lane, with the next
  counter of that lane as its identity, on either backing and under every topology; the frame reads
  back by that identity and every other lane's log is unchanged.
\<close>

theorem fleet_publish_appends:
  assumes "fleet_holds ops fl T hs" "length payload \<le> rs_payload_capacity (ot_spec T)"
    and "i = lane_index (rs_topology (ot_spec T)) (fl_node_id fl)" "length (hs ! i) \<le> NETID_COUNTER_MAX"
    and "f = posted ops T (fl_node_id fl) (length (hs ! i)) frame_kind ver payload"
  shows "\<exists>fl'. fleet_publish ops (Inr ()) fl T frame_kind ver payload = Some (fl', fr_id f) \<and>
    fleet_holds ops fl' T (hs[i := hs ! i @ [f]]) \<and> fleet_read ops fl' (fr_id f) = Some f"
proof -
  obtain a where a: "fleet_open fl T = Some (fl, Inr a)" "any_logged ops T a hs" "same_backing (fl_backing fl) a"
    by (rule fleet_holds_open [OF assms(1)])
  from assms(1) have fl: "fl_node_id fl < fl_capacity fl" "fl_capacity fl \<le> u16_max + 1"
    "length hs = ring_lane_count (ot_spec T) (fl_capacity fl)" by (simp_all add: fleet_holds_def)
  obtain a' where a': "any_write ops (Inr ()) a (fl_node_id fl) frame_kind ver payload = Some (a', Inr (fr_id f))"
    "any_logged ops T a' (hs[i := hs ! i @ [f]])" "same_backing (fl_backing fl) a'"
    using any_write_appends [OF a(2) fl assms(2,3,4,5)] a(3) by blast
  let ?fl = "fleet_store fl (ot_kind T) a'" and ?hs = "hs[i := hs ! i @ [f]]"
  have h: "fleet_holds ops ?fl T ?hs" by (rule fleet_store_holds [OF assms(1) a'(2,3)]) simp
  have o: "fleet_open ?fl T = Some (?fl, Inr a')"
    using a'(2,3) by (cases "fl_backing fl"; cases a')
      (auto simp: fleet_store_def fleet_open_def registry_get_or_create_def shm_get_or_create_def)
  have il: "i < length hs" unfolding assms(3) fl(3) by (rule lane_index_less [OF fl(1)])
  have node: "nid_node ops (fr_id f) = fl_node_id fl" "nid_kind ops (fr_id f) = ot_kind T"
    using netid_lawsD [OF any_logged_laws(1,2) [OF a(2)] _ assms(4)] fl(1,2) by (simp_all add: assms(5) posted_def)
  have "any_read ops a' (fr_id (?hs ! i ! length (hs ! i))) = Some (?hs ! i ! length (hs ! i))"
    using any_logged_laws(3) [OF a'(2)] il node fl
    by (intro any_read_posted [OF a'(2) fl(1,2) _ assms(3)]) (auto simp: nth_append)
  then have "any_read ops a' (fr_id f) = Some f" using il by simp
  with fleet_read_open [OF o h node(2)] h a(1) a'(1) show ?thesis by (simp add: fleet_publish_def)
qed

theorem fleet_publish_appends_witness:
  "\<exists>fl' f. fleet_publish packed_netid (Inr ()) demo_fleet demo_typed 1 9 [7] = Some (fl', fr_id f) \<and>
    fleet_holds packed_netid fl' demo_typed [[], [f]] \<and> fleet_read packed_netid fl' (fr_id f) = Some f"
proof -
  from fleet_publish_appends [OF demo_fleet_holds, of "[7]" 1 _ 1 9]
  show ?thesis by (auto simp: demo_typed_def demo_fleet_def spec_per_node_def lane_index_def NETID_COUNTER_MAX_def)
qed

section \<open>Polling every lane\<close>

definition lane_start :: "nat \<Rightarrow> frame list \<Rightarrow> ring_cursor \<Rightarrow> nat" where
  "lane_start capacity h c = max (next_counter c) (length h - capacity)"

lemma map_nth_upt_drop: "map ((!) h) [st..<length h] = drop st h"
  by (rule nth_equalityI) simp_all

lemma any_source_poll:
  assumes "any_logged ops T a hs" "rs_topology (ot_spec T) = PerNode" "node < length hs" "next_counter c \<le> length (hs ! node)"
    and src: "src = \<lparr>src_kind = ot_kind T, src_head = length (hs ! node), src_capacity = any_capacity a,
      src_read_state = (\<lambda>c. case any_read_lane_state_at ops a node c of Some x \<Rightarrow> x | None \<Rightarrow> Unavailable)\<rparr>"
    and st: "st = lane_start (any_capacity a) (hs ! node) c"
  shows "any_lane_head a node = Some (length (hs ! node)) \<and>
    poll_ring ops src c = (\<lparr>next_counter = length (hs ! node)\<rparr>,
      \<lparr>rp_frames = drop st (hs ! node), rp_loss = \<lparr>overwritten = st - next_counter c, unavailable = 0\<rparr>,
       rp_from = next_counter c, rp_to = length (hs ! node)\<rparr>)"
proof (cases a)
  case (MemRing r)
  from assms(1) MemRing have r: "ring_logged ops r hs" "r_kind r = ot_kind T" "r_topology r = PerNode" "length (lanes r) = length hs"
    using assms(2) ring_spec_ofD [of r] by (auto simp: ring_logged_def)
  have l: "ring_lane_of r node = Some node" using r assms(3) by (simp add: ring_lane_of_def lane_index_def Let_def)
  have wp: "write_pos (lanes r ! node) = length (hs ! node)"
    using ring_loggedD(6) [OF r(1)] assms(3) r(4) by (simp add: lane_logged_def)
  have s: "src = lane_source_at ops r node node" using MemRing src wp r(2) by (simp add: lane_source_at_def)
  have nc: "next_counter c \<le> src_head (lane_source_at ops r node node)" using assms(4) wp by (simp add: lane_source_at_def)
  have "map (\<lambda>c. hs ! node ! c) [st..<length (hs ! node)] = drop st (hs ! node)" by (rule map_nth_upt_drop)
  with lane.poll_committed [of "(ops, r, hs, node, node)" c] r(1) l nc s MemRing st wp
  show ?thesis by (simp add: lane_source_at_def poll_start_def poll_floor_def lane_start_def ring_lane_head_def)
next
  case (ShmRing r)
  from assms(1) ShmRing have r: "shm_ring_logged ops r hs" "sr_kind r = ot_kind T" "sr_topology r = PerNode" "sr_lane_count r = length hs"
    using assms(2) shm_spec_ofD [of r] by (auto simp: shm_ring_logged_def)
  have l: "shm_lane_index r node = Some node" using r assms(3) by (simp add: shm_lane_index_def lane_index_def Let_def)
  have wp: "sl_write_pos (shm_lane r node) = length (hs ! node)"
    using shm_ring_loggedD(7) [OF r(1)] assms(3) r(4) by (simp add: shm_lane_logged_def)
  have s: "src = shm_source_of ops r node"
    using ShmRing src wp r(2) l by (simp add: shm_source_of_def shm_read_lane_state_at_def)
  have nc: "next_counter c \<le> src_head (shm_source_of ops r node)" using assms(4) wp by (simp add: shm_source_of_def)
  have "map (\<lambda>c. hs ! node ! c) [st..<length (hs ! node)] = drop st (hs ! node)" by (rule map_nth_upt_drop)
  with shm.poll_committed [of "(ops, r, hs, node)" c] r(1,4) assms(3) nc s ShmRing st wp l
  show ?thesis by (simp add: shm_source_of_def poll_start_def poll_floor_def lane_start_def shm_lane_head_def)
qed

lemma log_length_bound:
  assumes "any_logged ops T a hs" "node < length hs"
  shows "length (hs ! node) \<le> 2 ^ 40"
  using assms
proof (cases a)
  case (MemRing r)
  with assms ring_loggedD(5,6) [of ops r hs] show ?thesis by (simp add: lane_logged_def NETID_COUNTER_MAX_def)
next
  case (ShmRing r)
  with assms shm_ring_loggedD(7) [of ops r hs node] show ?thesis
    by (simp add: shm_ring_logged_def shm_lane_logged_def NETID_COUNTER_MAX_def)
qed

lemma poll_each_exact:
  assumes "fleet_holds ops fl T hs" "rs_topology (ot_spec T) = PerNode"
    and "node + length cs = length hs" "\<forall>j<length cs. next_counter (cs ! j) \<le> length (hs ! (node + j))"
    and "overwritten (lp_loss p) \<le> node * 2 ^ 40" "unavailable (lp_loss p) = 0"
  shows "poll_each ops fl T node cs p = Some (fl, map (\<lambda>h. \<lparr>next_counter = length h\<rparr>) (drop node hs),
    \<lparr>lp_frames = lp_frames p @ concat (map2 (\<lambda>h c. drop (lane_start (rs_capacity (ot_spec T)) h c) h) (drop node hs) cs),
     lp_loss = \<lparr>overwritten = overwritten (lp_loss p) +
         sum_list (map2 (\<lambda>h c. lane_start (rs_capacity (ot_spec T)) h c - next_counter c) (drop node hs) cs), unavailable = 0\<rparr>\<rparr>)"
  using assms(3-6)
proof (induction cs arbitrary: node p)
  case Nil
  then show ?case by (cases p) (simp add: ring_loss.equality)
next
  case (Cons c cs)
  obtain a where a: "fleet_open fl T = Some (fl, Inr a)" "any_logged ops T a hs" by (rule fleet_holds_open [OF assms(1)])
  let ?h = "hs ! node"
  let ?st = "lane_start (rs_capacity (ot_spec T)) ?h c"
  note cap = any_logged_laws(4) [OF a(2)]
  have n: "node < length hs" using Cons.prems(1) by simp
  have nc: "next_counter c \<le> length ?h" using Cons.prems(2) by force
  have pr: "any_lane_head a node = Some (length ?h)"
    "poll_ring ops \<lparr>src_kind = ot_kind T, src_head = length ?h, src_capacity = any_capacity a,
      src_read_state = (\<lambda>c. case any_read_lane_state_at ops a node c of Some x \<Rightarrow> x | None \<Rightarrow> Unavailable)\<rparr> c =
     (\<lparr>next_counter = length ?h\<rparr>,
      \<lparr>rp_frames = drop ?st ?h, rp_loss = \<lparr>overwritten = ?st - next_counter c, unavailable = 0\<rparr>,
       rp_from = next_counter c, rp_to = length ?h\<rparr>)"
    using any_source_poll [OF a(2) assms(2) n nc refl refl] cap by simp_all
  have lost: "?st - next_counter c \<le> 2 ^ 40" using log_length_bound [OF a(2) n] by (simp add: lane_start_def)
  have fc: "length hs \<le> 2 ^ 16" using assms(1,2) by (simp add: fleet_holds_def ring_lane_count_def u16_max_def)
  have tot: "overwritten (lp_loss p) + (?st - next_counter c) \<le> (node + 1) * 2 ^ 40" using Cons.prems(3) lost by simp
  have big: "(node + 1) * 2 ^ 40 \<le> u64_max"
  proof -
    have "(node + 1) * 2 ^ 40 \<le> 2 ^ 16 * 2 ^ 40" using n fc by (intro mult_le_mono1) simp
    also have "\<dots> \<le> u64_max" by (simp add: u64_max_def)
    finally show ?thesis .
  qed
  have sat: "saturating_add u64_max (overwritten (lp_loss p)) (?st - next_counter c) =
      overwritten (lp_loss p) + (?st - next_counter c)" using tot big by (intro saturating_add_exact) (rule order_trans)
  let ?p = "\<lparr>lp_frames = lp_frames p @ drop ?st ?h,
    lp_loss = \<lparr>overwritten = overwritten (lp_loss p) + (?st - next_counter c), unavailable = 0\<rparr>\<rparr>"
  have pre: "node + 1 + length cs = length hs" "\<forall>j<length cs. next_counter (cs ! j) \<le> length (hs ! (node + 1 + j))"
    using Cons.prems(1,2) by (auto dest: spec [of _ "Suc _"])
  have d: "drop node hs = ?h # drop (node + 1) hs" using n by (simp add: Cons_nth_drop_Suc)
  have "poll_each ops fl T node (c # cs) p =
      map_option (\<lambda>(fl'', cs', q). (fl'', \<lparr>next_counter = length ?h\<rparr> # cs', q)) (poll_each ops fl T (node + 1) cs ?p)"
    using a(1) pr sat Cons.prems(4) by (simp add: fleet_lane_source_def Let_def saturating_add_def)
  also have "\<dots> = Some (fl, map (\<lambda>h. \<lparr>next_counter = length h\<rparr>) (drop node hs),
    \<lparr>lp_frames = lp_frames p @ concat (map2 (\<lambda>h c. drop (lane_start (rs_capacity (ot_spec T)) h c) h) (drop node hs) (c # cs)),
     lp_loss = \<lparr>overwritten = overwritten (lp_loss p) +
         sum_list (map2 (\<lambda>h c. lane_start (rs_capacity (ot_spec T)) h c - next_counter c) (drop node hs) (c # cs)), unavailable = 0\<rparr>\<rparr>)"
    using Cons.IH [OF pre, of ?p] tot d by simp
  finally show ?case .
qed

lemma fleet_poll_exact:
  assumes "fleet_holds ops fl T hs" "rs_topology (ot_spec T) = PerNode"
    and "length (lc_lanes cursor) = length hs" "\<forall>j<length hs. next_counter (lc_lanes cursor ! j) \<le> length (hs ! j)"
  shows "fleet_poll_lanes ops fl T cursor = Some (fl, cursor\<lparr>lc_lanes := map (\<lambda>h. \<lparr>next_counter = length h\<rparr>) hs\<rparr>,
    \<lparr>lp_frames = concat (map2 (\<lambda>h c. drop (lane_start (rs_capacity (ot_spec T)) h c) h) hs (lc_lanes cursor)),
     lp_loss = \<lparr>overwritten = sum_list (map2 (\<lambda>h c. lane_start (rs_capacity (ot_spec T)) h c - next_counter c) hs (lc_lanes cursor)),
       unavailable = 0\<rparr>\<rparr>)"
proof -
  have len: "length hs = fl_capacity fl" "0 < fl_capacity fl"
    using assms(1,2) by (auto simp: fleet_holds_def ring_lane_count_def)
  then have "lc_lanes cursor \<noteq> []" using assms(3) by auto
  with poll_each_exact [OF assms(1,2), of 0 "lc_lanes cursor" "\<lparr>lp_frames = [], lp_loss = loss_none\<rparr>"] assms len
  show ?thesis by (simp add: fleet_poll_lanes_def loss_none_def Let_def)
qed

text \<open>
  C3: exactly once. A subscriber whose cursor stands at the heads of earlier logs and that polls
  before any lane grew by more than the ring's capacity receives, lane by lane and in order, exactly
  the frames appended since, with no loss reported, and its cursor stands at the new heads.
\<close>

theorem fleet_poll_exactly_once:
  assumes "fleet_holds ops fl T hs'" "rs_topology (ot_spec T) = PerNode" "length hs = length hs'"
    and "\<forall>j<length hs. \<exists>new. hs' ! j = hs ! j @ new \<and> length new \<le> rs_capacity (ot_spec T)"
    and "lc_lanes cursor = map (\<lambda>h. \<lparr>next_counter = length h\<rparr>) hs"
  shows "fleet_poll_lanes ops fl T cursor = Some (fl, cursor\<lparr>lc_lanes := map (\<lambda>h. \<lparr>next_counter = length h\<rparr>) hs'\<rparr>,
    \<lparr>lp_frames = concat (map2 (\<lambda>h' h. drop (length h) h') hs' hs), lp_loss = loss_none\<rparr>)"
proof -
  let ?cap = "rs_capacity (ot_spec T)"
  have ls: "lane_start ?cap (hs' ! j) \<lparr>next_counter = length (hs ! j)\<rparr> = length (hs ! j)"
    "length (hs ! j) \<le> length (hs' ! j)" if j: "j < length hs" for j
  proof -
    obtain new where "hs' ! j = hs ! j @ new" "length new \<le> ?cap" using assms(4) j by blast
    then show "lane_start ?cap (hs' ! j) \<lparr>next_counter = length (hs ! j)\<rparr> = length (hs ! j)"
      "length (hs ! j) \<le> length (hs' ! j)" by (auto simp: lane_start_def)
  qed
  have "\<forall>j<length hs'. next_counter (lc_lanes cursor ! j) \<le> length (hs' ! j)" using ls(2) assms(3,5) by simp
  from fleet_poll_exact [OF assms(1,2) _ this] have
    "fleet_poll_lanes ops fl T cursor = Some (fl, cursor\<lparr>lc_lanes := map (\<lambda>h. \<lparr>next_counter = length h\<rparr>) hs'\<rparr>,
      \<lparr>lp_frames = concat (map2 (\<lambda>h' c. drop (lane_start ?cap h' c) h') hs' (lc_lanes cursor)),
       lp_loss = \<lparr>overwritten = sum_list (map2 (\<lambda>h' c. lane_start ?cap h' c - next_counter c) hs' (lc_lanes cursor)), unavailable = 0\<rparr>\<rparr>)"
    using assms(3,5) by simp
  moreover have "map2 (\<lambda>h' c. drop (lane_start ?cap h' c) h') hs' (lc_lanes cursor) = map2 (\<lambda>h' h. drop (length h) h') hs' hs"
    using ls(1) assms(3) by (intro nth_equalityI) (auto simp: assms(5))
  moreover have "map2 (\<lambda>h' c. lane_start ?cap h' c - next_counter c) hs' (lc_lanes cursor) = replicate (length hs) 0"
    using ls(1) assms(3) by (intro nth_equalityI) (auto simp: assms(5))
  ultimately show ?thesis by (simp add: loss_none_def)
qed

definition demo_posted :: frame where
  "demo_posted = posted packed_netid demo_typed 1 0 1 9 [7]"

lemma demo_fleet_published:
  "\<exists>fl'. fleet_holds packed_netid fl' demo_typed [[], [demo_posted]]"
proof -
  obtain a where a: "fleet_open demo_fleet demo_typed = Some (demo_fleet, Inr a)" "any_logged packed_netid demo_typed a [[], []]"
    "same_backing (fl_backing demo_fleet) a" by (rule fleet_holds_open [OF demo_fleet_holds])
  obtain a' where a': "any_logged packed_netid demo_typed a' [[], [demo_posted]]" "same_backing (fl_backing demo_fleet) a'"
    using any_write_appends [OF a(2), of 1 2 "[7]" 1 demo_posted 1 9] a(3)
    by (auto simp: demo_typed_def spec_per_node_def lane_index_def ring_lane_count_def demo_posted_def NETID_COUNTER_MAX_def max_defs)
  from fleet_store_holds [OF demo_fleet_holds a'] show ?thesis by auto
qed

theorem fleet_poll_exactly_once_witness:
  "\<exists>fl p. fleet_poll_lanes packed_netid fl demo_typed \<lparr>lc_lanes = [\<lparr>next_counter = 0\<rparr>, \<lparr>next_counter = 0\<rparr>], lc_initial_counter = 0\<rparr> =
      Some (fl, \<lparr>lc_lanes = [\<lparr>next_counter = 0\<rparr>, \<lparr>next_counter = 1\<rparr>], lc_initial_counter = 0\<rparr>, p) \<and>
    lp_frames p = [demo_posted] \<and> lp_loss p = loss_none"
proof -
  obtain fl where fl: "fleet_holds packed_netid fl demo_typed [[], [demo_posted]]" using demo_fleet_published by blast
  from fleet_poll_exactly_once [OF fl, of "[[], []]" "\<lparr>lc_lanes = [\<lparr>next_counter = 0\<rparr>, \<lparr>next_counter = 0\<rparr>], lc_initial_counter = 0\<rparr>"]
  show ?thesis by (intro exI [of _ fl] exI [of _ "\<lparr>lp_frames = [demo_posted], lp_loss = loss_none\<rparr>"])
      (simp add: demo_typed_def spec_per_node_def less_Suc_eq)
qed

text \<open>
  Nothing is lost silently. From any cursor position, a poll of all lanes accounts for every
  frame published beyond it: the frames returned and the counters reported as overwritten add up to
  all of them, and each lane's frames are the newest of its log.
\<close>

lemma fleet_poll_accounts:
  assumes "fleet_holds ops fl T hs" "rs_topology (ot_spec T) = PerNode"
    and "length (lc_lanes cursor) = length hs" "\<forall>j<length hs. next_counter (lc_lanes cursor ! j) \<le> length (hs ! j)"
    and "fleet_poll_lanes ops fl T cursor = Some (fl', cursor', p)"
  shows "length (lp_frames p) + overwritten (lp_loss p) =
      sum_list (map2 (\<lambda>h c. length h - next_counter c) hs (lc_lanes cursor)) \<and>
    unavailable (lp_loss p) = 0 \<and> map next_counter (lc_lanes cursor') = map length hs \<and>
    (\<exists>ds. length ds = length hs \<and> lp_frames p = concat (map2 drop ds hs))"
proof -
  let ?cap = "rs_capacity (ot_spec T)" and ?cs = "lc_lanes cursor"
  note e = fleet_poll_exact [OF assms(1-4)]
  from e assms(5) have p: "lp_frames p = concat (map2 (\<lambda>h c. drop (lane_start ?cap h c) h) hs ?cs)"
    "overwritten (lp_loss p) = sum_list (map2 (\<lambda>h c. lane_start ?cap h c - next_counter c) hs ?cs)" "unavailable (lp_loss p) = 0"
    "map next_counter (lc_lanes cursor') = map length hs" by auto
  have len: "length (concat (map2 (\<lambda>h c. drop (lane_start ?cap h c) h) xs cs)) +
      sum_list (map2 (\<lambda>h c. lane_start ?cap h c - next_counter c) xs cs) = sum_list (map2 (\<lambda>h c. length h - next_counter c) xs cs)"
    if "\<forall>j<length xs. next_counter (cs ! j) \<le> length (xs ! j)" "length cs = length xs" for xs :: "frame list list" and cs
    using that
  proof (induction xs arbitrary: cs)
    case Nil
    then show ?case by simp
  next
    case (Cons x xs)
    then obtain c cs' where cs: "cs = c # cs'" by (cases cs) auto
    have "next_counter c \<le> length x" using Cons.prems(1) cs by force
    moreover have "\<forall>j<length xs. next_counter (cs' ! j) \<le> length (xs ! j)" using Cons.prems(1) cs by (auto dest: spec [of _ "Suc _"])
    ultimately show ?case using Cons.IH [of cs'] Cons.prems(2) cs by (auto simp: lane_start_def)
  qed
  have "concat (map2 (\<lambda>h c. drop (lane_start ?cap h c) h) hs ?cs) = concat (map2 drop (map2 (lane_start ?cap) hs ?cs) hs)"
    using assms(3) by (intro arg_cong [where f = concat] nth_equalityI) auto
  with p len [OF assms(4,3)] assms(3) show ?thesis by (auto intro!: exI [of _ "map2 (lane_start ?cap) hs ?cs"])
qed

end
