(* ===== verification/Lock_Protocol.thy ===== *)
theory Lock_Protocol
  imports Lock_Contract Fleet
begin

text \<open>
  The lock's transition events and its public handle (\<open>lock/src/protocol.rs\<close>, \<open>lock/src/layout.rs\<close>,
  \<open>lock/src/lib.rs\<close>): the wire format, layout validation, deadlines, and every operation of \<open>Lock\<close>
  as the state operation of \<open>Lock_State\<close> with the fleet's event ring as its publisher. The clock
  reading is an argument.
\<close>

section \<open>The wire format\<close>

definition LOCK_MAGIC :: nat where "LOCK_MAGIC = 0x4f4c434b"
definition LOCK_VERSION :: nat where "LOCK_VERSION = 2"
definition FRAME_KIND_ACQUIRED :: nat where "FRAME_KIND_ACQUIRED = 1"
definition FRAME_KIND_RENEWED :: nat where "FRAME_KIND_RENEWED = 2"
definition FRAME_KIND_RELEASED :: nat where "FRAME_KIND_RELEASED = 3"
definition EVENT_HEADER_LEN :: nat where "EVENT_HEADER_LEN = 4 + 1 + 2 + 2 + 2 + 8 + 8 + 8"

lemmas frame_kind_defs = FRAME_KIND_ACQUIRED_def FRAME_KIND_RENEWED_def FRAME_KIND_RELEASED_def

record lock_layout =
  ly_state_kind :: nat
  ly_event_ring_kind :: nat
  ly_event_ring_spec :: ring_spec

record lock_event =
  le_event_id :: nat
  le_transition :: lock_transition

fun tr_stamp :: "lock_transition \<Rightarrow> nat \<times> nat \<times> nat" where
  "tr_stamp (TrAcquired lease) = (FRAME_KIND_ACQUIRED, ll_acquired_at_ms lease, ll_expires_at_ms lease)"
| "tr_stamp (TrRenewed lease) = (FRAME_KIND_RENEWED, ll_acquired_at_ms lease, ll_expires_at_ms lease)"
| "tr_stamp (TrReleased _ _ _ _) = (FRAME_KIND_RELEASED, 0, 0)"

definition event_max_payload :: "lock_cfg \<Rightarrow> lock_layout \<Rightarrow> nat" where
  "event_max_payload cfg layout =
     min (saturating_sub (rs_payload_capacity (ly_event_ring_spec layout)) EVENT_HEADER_LEN) (lc_payload_max cfg)"

definition event_bytes :: "nat \<Rightarrow> nat \<Rightarrow> nat \<Rightarrow> bytes \<Rightarrow> bytes \<Rightarrow> bytes \<Rightarrow> bytes" where
  "event_bytes lock_id acquired_at_ms expires_at_ms ns label owner =
     to_le_bytes 4 LOCK_MAGIC @ to_le_bytes 1 LOCK_VERSION @ to_le_bytes 2 (length ns) @ to_le_bytes 2 (length label) @
     to_le_bytes 2 (length owner) @ to_le_bytes 8 lock_id @ to_le_bytes 8 acquired_at_ms @ to_le_bytes 8 expires_at_ms @
     ns @ label @ owner"

definition lock_encode :: "lock_cfg \<Rightarrow> lock_layout \<Rightarrow> lock_transition \<Rightarrow> lock_error + (nat \<times> bytes)" where
  "lock_encode cfg layout tr =
     (let key = tr_key tr; owner = tr_owner tr; max_payload = event_max_payload cfg layout
      in if saturating_add u64_max (saturating_add u64_max (length (lk_namespace key)) (length (lk_label key))) (length owner)
            > max_payload
         then Inl (EntryTooLarge (length (lk_namespace key)) (length (lk_label key)) (length owner) max_payload)
         else case tr_stamp tr of (frame_kind, acquired_at_ms, expires_at_ms) \<Rightarrow>
           Inr (frame_kind, event_bytes (tr_lock_id tr) acquired_at_ms expires_at_ms (lk_namespace key) (lk_label key) owner))"

definition lock_decode :: "lock_cfg \<Rightarrow> frame \<Rightarrow> lock_event option" where
  "lock_decode cfg f =
     (let p = fr_payload f
      in if length p < EVENT_HEADER_LEN then None
         else if from_le_bytes (sub_slice p 0 4) \<noteq> LOCK_MAGIC \<or> unat (p ! 4) \<noteq> LOCK_VERSION then None
         else
           let namespace_len = from_le_bytes (sub_slice p 5 7);
               key_len = from_le_bytes (sub_slice p 7 9);
               owner_len = from_le_bytes (sub_slice p 9 11);
               lock_id = from_le_bytes (sub_slice p 11 19);
               acquired_at_ms = from_le_bytes (sub_slice p 19 27);
               expires_at_ms = from_le_bytes (sub_slice p 27 35)
           in case checked_add u64_max EVENT_HEADER_LEN namespace_len of None \<Rightarrow> None | Some namespace_end \<Rightarrow>
             (case checked_add u64_max namespace_end key_len of None \<Rightarrow> None | Some key_end \<Rightarrow>
             (case checked_add u64_max key_end owner_len of None \<Rightarrow> None | Some owner_end \<Rightarrow>
                if namespace_len = 0 \<or> key_len = 0 \<or> owner_len = 0 \<or> owner_end \<noteq> length p \<or>
                   saturating_add u64_max (saturating_add u64_max namespace_len key_len) owner_len > lc_payload_max cfg \<or>
                   fr_ver f = 0
                then None
                else
                  let key = \<lparr>lk_namespace = sub_slice p EVENT_HEADER_LEN namespace_end,
                             lk_label = sub_slice p namespace_end key_end\<rparr>;
                      owner = sub_slice p key_end owner_end
                  in if (fr_kind f = FRAME_KIND_ACQUIRED \<or> fr_kind f = FRAME_KIND_RENEWED) \<and>
                        acquired_at_ms > 0 \<and> expires_at_ms > acquired_at_ms
                     then
                       let lease = \<lparr>ll_lock_id = lock_id, ll_key = key, ll_owner = owner,
                             ll_acquired_at_ms = acquired_at_ms, ll_expires_at_ms = expires_at_ms,
                             ll_state_revision = fr_ver f\<rparr>
                       in Some \<lparr>le_event_id = fr_id f,
                            le_transition = (if fr_kind f = FRAME_KIND_ACQUIRED then TrAcquired lease else TrRenewed lease)\<rparr>
                     else if fr_kind f = FRAME_KIND_RELEASED \<and> acquired_at_ms = 0 \<and> expires_at_ms = 0
                     then Some \<lparr>le_event_id = fr_id f, le_transition = TrReleased lock_id key owner (fr_ver f)\<rparr>
                     else None)))"

text \<open>A transition the state table can produce: validated entry, live times, minted revision.\<close>

fun tr_times_ok :: "lock_transition \<Rightarrow> bool" where
  "tr_times_ok (TrAcquired l) \<longleftrightarrow> 0 < ll_acquired_at_ms l \<and> ll_acquired_at_ms l < ll_expires_at_ms l \<and> ll_expires_at_ms l \<le> u64_max"
| "tr_times_ok (TrRenewed l) \<longleftrightarrow> 0 < ll_acquired_at_ms l \<and> ll_acquired_at_ms l < ll_expires_at_ms l \<and> ll_expires_at_ms l \<le> u64_max"
| "tr_times_ok (TrReleased _ _ _ _) \<longleftrightarrow> True"

definition tr_ok :: "lock_transition \<Rightarrow> bool" where
  "tr_ok tr \<longleftrightarrow> lk_namespace (tr_key tr) \<noteq> [] \<and> lk_label (tr_key tr) \<noteq> [] \<and> tr_owner tr \<noteq> [] \<and>
     length (lk_namespace (tr_key tr)) \<le> u16_max \<and> length (lk_label (tr_key tr)) \<le> u16_max \<and> length (tr_owner tr) \<le> u16_max \<and>
     tr_lock_id tr \<le> u64_max \<and> 0 < tr_state_revision tr \<and> tr_times_ok tr"

lemma event_bytes_fields:
  assumes "p = event_bytes i a e ns label owner" "length ns \<le> u16_max" "length label \<le> u16_max" "length owner \<le> u16_max"
    and "i \<le> u64_max" "a \<le> u64_max" "e \<le> u64_max"
  shows "length p = 35 + length ns + length label + length owner" "from_le_bytes (sub_slice p 0 4) = LOCK_MAGIC"
    "from_le_bytes (sub_slice p 5 7) = length ns" "from_le_bytes (sub_slice p 7 9) = length label"
    "from_le_bytes (sub_slice p 9 11) = length owner" "from_le_bytes (sub_slice p 11 19) = i"
    "from_le_bytes (sub_slice p 19 27) = a" "from_le_bytes (sub_slice p 27 35) = e"
    "sub_slice p 35 (35 + length ns) = ns" "sub_slice p (35 + length ns) (35 + length ns + length label) = label"
    "sub_slice p (35 + length ns + length label) (35 + length ns + length label + length owner) = owner"
  using assms(2-7) unfolding assms(1) event_bytes_def
  by (simp_all add: codec_simps LOCK_MAGIC_def max_defs)

lemma event_bytes_version: "unat (event_bytes i a e ns label owner ! 4) = LOCK_VERSION"
  unfolding event_bytes_def by (simp add: nth_append LOCK_VERSION_def to_le_bytes_def)

lemma lock_decode_event:
  assumes "length ns \<le> u16_max" "length label \<le> u16_max" "length owner \<le> u16_max" "i \<le> u64_max" "a \<le> u64_max" "e \<le> u64_max"
    and "ns \<noteq> []" "label \<noteq> []" "owner \<noteq> []" "length ns + length label + length owner \<le> lc_payload_max cfg" "0 < ver"
    and key: "key = \<lparr>lk_namespace = ns, lk_label = label\<rparr>"
  shows "lock_decode cfg \<lparr>fr_id = fid, fr_kind = kind, fr_ver = ver, fr_payload = event_bytes i a e ns label owner\<rparr> =
    (let lease = \<lparr>ll_lock_id = i, ll_key = key, ll_owner = owner, ll_acquired_at_ms = a, ll_expires_at_ms = e, ll_state_revision = ver\<rparr>
     in if (kind = FRAME_KIND_ACQUIRED \<or> kind = FRAME_KIND_RENEWED) \<and> a > 0 \<and> e > a
        then Some \<lparr>le_event_id = fid, le_transition = (if kind = FRAME_KIND_ACQUIRED then TrAcquired lease else TrRenewed lease)\<rparr>
        else if kind = FRAME_KIND_RELEASED \<and> a = 0 \<and> e = 0
        then Some \<lparr>le_event_id = fid, le_transition = TrReleased i key owner ver\<rparr> else None)"
proof -
  let ?p = "event_bytes i a e ns label owner"
  note f = event_bytes_fields [OF refl assms(1-6)]
  have hl: "EVENT_HEADER_LEN = 35" by (simp add: EVENT_HEADER_LEN_def)
  have adds: "checked_add u64_max 35 (length ns) = Some (35 + length ns)"
    "checked_add u64_max (35 + length ns) (length label) = Some (35 + length ns + length label)"
    "checked_add u64_max (35 + length ns + length label) (length owner) = Some (35 + length ns + length label + length owner)"
    using assms(1-3) by (simp_all add: max_defs)
  have sat: "saturating_add u64_max (saturating_add u64_max (length ns) (length label)) (length owner) = length ns + length label + length owner"
    using assms(1-3) by (simp add: saturating_add_def max_defs)
  have ge: "\<not> length ?p < 35" by (simp add: f(1))
  show ?thesis
    unfolding lock_decode_def Let_def frame.simps hl f event_bytes_version adds option.case sat key
    using ge assms(7-11) f(1) by simp
qed

lemma lock_roundtrip:
  assumes "tr_ok tr" "lock_encode cfg layout tr = Inr (kind, payload)"
  shows "lock_decode cfg \<lparr>fr_id = fid, fr_kind = kind, fr_ver = tr_state_revision tr, fr_payload = payload\<rparr> =
    Some \<lparr>le_event_id = fid, le_transition = tr\<rparr>"
proof -
  let ?ns = "lk_namespace (tr_key tr)" and ?lb = "lk_label (tr_key tr)" and ?ow = "tr_owner tr"
  obtain a e where st: "tr_stamp tr = (kind, a, e)" and pl: "payload = event_bytes (tr_lock_id tr) a e ?ns ?lb ?ow"
    and fit: "saturating_add u64_max (saturating_add u64_max (length ?ns) (length ?lb)) (length ?ow) \<le> event_max_payload cfg layout"
    using assms(2) by (auto simp: lock_encode_def Let_def split: if_splits prod.splits)
  note ok = assms(1) [unfolded tr_ok_def]
  have "length ?ns + length ?lb + length ?ow \<le> lc_payload_max cfg"
    using fit ok by (simp add: saturating_add_def event_max_payload_def max_defs)
  moreover have "a \<le> u64_max" "e \<le> u64_max" using st ok by (cases tr; auto)+
  ultimately have d: "lock_decode cfg \<lparr>fr_id = fid, fr_kind = kind, fr_ver = tr_state_revision tr, fr_payload = payload\<rparr> =
    (let lease = \<lparr>ll_lock_id = tr_lock_id tr, ll_key = tr_key tr, ll_owner = ?ow, ll_acquired_at_ms = a, ll_expires_at_ms = e,
       ll_state_revision = tr_state_revision tr\<rparr>
     in if (kind = FRAME_KIND_ACQUIRED \<or> kind = FRAME_KIND_RENEWED) \<and> a > 0 \<and> e > a
        then Some \<lparr>le_event_id = fid, le_transition = (if kind = FRAME_KIND_ACQUIRED then TrAcquired lease else TrRenewed lease)\<rparr>
        else if kind = FRAME_KIND_RELEASED \<and> a = 0 \<and> e = 0
        then Some \<lparr>le_event_id = fid, le_transition = TrReleased (tr_lock_id tr) (tr_key tr) ?ow (tr_state_revision tr)\<rparr> else None)"
    unfolding pl using ok by (intro lock_decode_event) simp_all
  show ?thesis unfolding d using st ok by (cases tr) (auto simp: frame_kind_defs Let_def)
qed

text \<open>
  Transition events round-trip. Decoding the frame that carries an encoded transition, under the
  transition's own revision, gives that transition back, whatever its kind.
\<close>

lemma lock_event_roundtrip:
  assumes "tr_ok tr" "lock_encode cfg layout tr = Inr (kind, payload)"
  shows "lock_decode cfg \<lparr>fr_id = fid, fr_kind = kind, fr_ver = tr_state_revision tr, fr_payload = payload\<rparr> =
    Some \<lparr>le_event_id = fid, le_transition = tr\<rparr>"
  by (rule lock_roundtrip [OF assms])

definition demo_layout :: lock_layout where
  "demo_layout = \<lparr>ly_state_kind = 228, ly_event_ring_kind = 229, ly_event_ring_spec = spec_per_node 4 64\<rparr>"

section \<open>Layout, deadlines and the clock\<close>

definition lock_layout_validate :: "lock_layout \<Rightarrow> lock_error + unit" where
  "lock_layout_validate layout =
     (let spec = ly_event_ring_spec layout
      in if ly_state_kind layout = ly_event_ring_kind layout
         then Inl (InvalidLayout ''state and event-ring kinds must differ'')
         else if rs_topology spec \<noteq> PerNode
         then Inl (InvalidLayout ''the lock event ring must use per-node lanes'')
         else if rs_capacity spec = 0 \<or> \<not> is_power_of_two (rs_capacity spec)
         then Inl (InvalidLayout ''event-ring capacity must be a non-zero power of two'')
         else if rs_payload_capacity spec < EVENT_HEADER_LEN + 2
         then Inl (InvalidLayout ''event-ring payload cannot fit a lock event'')
         else Inr ())"

text \<open>\<open>LockEventRecord<L>\<close>: the ring type derived from a layout.\<close>

definition lock_event_typed :: "lock_layout \<Rightarrow> orbit_typed" where
  "lock_event_typed layout = \<lparr>ot_kind = ly_event_ring_kind layout,
     ot_spec = spec_per_node (rs_capacity (ly_event_ring_spec layout)) (rs_payload_capacity (ly_event_ring_spec layout))\<rparr>"

text \<open>A \<open>Duration\<close> is its number of nanoseconds.\<close>

definition lock_deadline :: "nat \<Rightarrow> nat \<Rightarrow> lock_error + nat" where
  "lock_deadline now_ms ttl_nanos =
     (if ttl_nanos = 0 then Inl TtlZero
      else let ttl_ms = max (ttl_nanos div 1000000) 1
           in if ttl_ms > u64_max then Inl TtlOverflow else ok_or TtlOverflow (checked_add u64_max now_ms ttl_ms))"

text \<open>The reading of \<open>CLOCK_MONOTONIC\<close> as signed seconds and nanoseconds; \<open>None\<close> is a failed call.\<close>

definition lock_monotonic_ms :: "(int \<times> int) option \<Rightarrow> lock_error + nat" where
  "lock_monotonic_ms reading =
     (case reading of
        None \<Rightarrow> Inl LockIo
      | Some (tv_sec, tv_nsec) \<Rightarrow>
          if tv_sec < 0 then Inl TtlOverflow
          else if tv_nsec < 0 then Inl TtlOverflow
          else Inr (saturating_add u64_max (saturating_mul u64_max (nat tv_sec) 1000) (nat tv_nsec div 1000000)))"

text \<open>
  A deadline lies strictly in the future by the requested time to live, rounded down to whole
  milliseconds but never to nothing, and is refused when it would not fit 64 bits.
\<close>

lemma lock_deadline_future:
  assumes "lock_deadline now_ms ttl_nanos = Inr expires"
  shows "now_ms < expires \<and> expires \<le> u64_max \<and> (expires - now_ms) * 1000000 \<le> max ttl_nanos 1000000 \<and>
    ttl_nanos < (expires - now_ms + 1) * 1000000 \<and> ttl_nanos > 0"
proof -
  let ?ms = "max (ttl_nanos div 1000000) 1"
  from assms have e: "expires = now_ms + ?ms" "now_ms + ?ms \<le> u64_max" "ttl_nanos > 0"
    by (auto simp: lock_deadline_def Let_def split: if_splits)
  have "ttl_nanos div 1000000 * 1000000 \<le> ttl_nanos" by simp
  moreover have "ttl_nanos < (ttl_nanos div 1000000 + 1) * 1000000" by (simp add: dividend_less_div_times)
  ultimately show ?thesis using e by (auto simp: max_def)
qed

definition tight_layout :: lock_layout where
  "tight_layout = \<lparr>ly_state_kind = 228, ly_event_ring_kind = 229, ly_event_ring_spec = spec_per_node 4 (EVENT_HEADER_LEN + 2)\<rparr>"

lemma tight_layout_valid: "lock_layout_validate tight_layout = Inr ()"
proof -
  have "is_power_of_two 4" by (auto simp: is_power_of_two_def intro: exI [of _ 2])
  then show ?thesis by (simp add: lock_layout_validate_def tight_layout_def spec_per_node_def)
qed

text \<open>
  A layout can be accepted although its event ring carries no lock event at all. With room for
  the header and two more bytes the layout validates, yet every transition of a valid entry needs at
  least three bytes for its namespace, key and owner, so encoding always fails and no lock can ever be
  acquired under it.
\<close>

lemma lock_layout_accepts_unusable_ring:
  "lock_layout_validate tight_layout = Inr () \<and>
   (\<forall>cfg tr. tr_ok tr \<longrightarrow> (\<exists>e. lock_encode cfg tight_layout tr = Inl e))"
proof (intro conjI allI impI tight_layout_valid)
  fix cfg tr assume ok: "tr_ok tr"
  let ?n = "length (lk_namespace (tr_key tr))" and ?k = "length (lk_label (tr_key tr))" and ?o = "length (tr_owner tr)"
  from ok have "0 < ?n" "0 < ?k" "0 < ?o" by (auto simp: tr_ok_def)
  then have "3 \<le> ?n + ?k + ?o" by linarith
  moreover have "saturating_add u64_max (saturating_add u64_max ?n ?k) ?o = ?n + ?k + ?o"
    using ok by (simp add: tr_ok_def saturating_add_def max_defs)
  ultimately show "\<exists>e. lock_encode cfg tight_layout tr = Inl e"
    by (auto simp: lock_encode_def Let_def event_max_payload_def tight_layout_def spec_per_node_def saturating_sub_def EVENT_HEADER_LEN_def)
qed

section \<open>The lock handle\<close>

text \<open>
  The world a lock publishes into is its fleet. A panic of the ring unwinds through the state
  operation where an error would leave it; it is recorded in \<open>lw_panicked\<close>.
\<close>

record lock_world =
  lw_fleet :: fleet
  lw_panicked :: bool

record lock_env =
  en_cfg :: lock_cfg
  en_layout :: lock_layout
  en_os_lock :: "shm_error + unit"
  en_notify :: "shm_error + unit"

definition lock_publish :: "lock_env \<Rightarrow> lock_world publish" where
  "lock_publish env w tr =
     (case lock_encode (en_cfg env) (en_layout env) tr of
        Inl e \<Rightarrow> (w, Inl e)
      | Inr (kind, payload) \<Rightarrow>
          (case fleet_publish_notified (lc_netid (en_cfg env)) (en_os_lock env) (en_notify env) (lw_fleet w)
                  (lock_event_typed (en_layout env)) kind (tr_state_revision tr) payload of
             None \<Rightarrow> (w\<lparr>lw_panicked := True\<rparr>, Inl LockIo)
           | Some (fl, Inl e) \<Rightarrow> (w\<lparr>lw_fleet := fl\<rparr>, Inl LockIo)
           | Some (fl, Inr fid) \<Rightarrow> (w\<lparr>lw_fleet := fl\<rparr>, Inr ())))"

definition lock_try_acquire ::
    "lock_env \<Rightarrow> lock_error + nat \<Rightarrow> lock_world \<Rightarrow> lock_table \<Rightarrow> lock_key \<Rightarrow> lock_owner \<Rightarrow> nat
      \<Rightarrow> lock_world \<times> lock_table \<times> (lock_error + lock_acquire)" where
  "lock_try_acquire env clock w t key owner ttl =
     (case clock of Inl e \<Rightarrow> (w, t, Inl e)
      | Inr now_ms \<Rightarrow>
          (case lock_deadline now_ms ttl of Inl e \<Rightarrow> (w, t, Inl e)
           | Inr expires_at_ms \<Rightarrow> lock_acquire_op (en_cfg env) (lock_publish env) w t key owner now_ms expires_at_ms))"

definition lock_renew ::
    "lock_env \<Rightarrow> lock_error + nat \<Rightarrow> lock_world \<Rightarrow> lock_table \<Rightarrow> lock_lease \<Rightarrow> nat
      \<Rightarrow> lock_world \<times> lock_table \<times> (lock_error + lock_lease option)" where
  "lock_renew env clock w t lease ttl =
     (case clock of Inl e \<Rightarrow> (w, t, Inl e)
      | Inr now_ms \<Rightarrow>
          (case lock_deadline now_ms ttl of Inl e \<Rightarrow> (w, t, Inl e)
           | Inr expires_at_ms \<Rightarrow> renew_id (en_cfg env) (lock_publish env) w t lease now_ms expires_at_ms))"

definition lock_renew_owned ::
    "lock_env \<Rightarrow> lock_error + nat \<Rightarrow> lock_world \<Rightarrow> lock_table \<Rightarrow> lock_key \<Rightarrow> lock_owner \<Rightarrow> nat
      \<Rightarrow> lock_world \<times> lock_table \<times> (lock_error + lock_lease option)" where
  "lock_renew_owned env clock w t key owner ttl =
     (case clock of Inl e \<Rightarrow> (w, t, Inl e)
      | Inr now_ms \<Rightarrow>
          (case lock_deadline now_ms ttl of Inl e \<Rightarrow> (w, t, Inl e)
           | Inr expires_at_ms \<Rightarrow> renew_owner (en_cfg env) (lock_publish env) w t key owner now_ms expires_at_ms))"

definition lock_release ::
    "lock_env \<Rightarrow> lock_error + nat \<Rightarrow> lock_world \<Rightarrow> lock_table \<Rightarrow> lock_lease \<Rightarrow> lock_world \<times> lock_table \<times> (lock_error + bool)" where
  "lock_release env clock w t lease =
     (case clock of Inl e \<Rightarrow> (w, t, Inl e) | Inr now_ms \<Rightarrow> release_id (en_cfg env) (lock_publish env) w t lease now_ms)"

definition lock_release_owned ::
    "lock_env \<Rightarrow> lock_error + nat \<Rightarrow> lock_world \<Rightarrow> lock_table \<Rightarrow> lock_key \<Rightarrow> lock_owner
      \<Rightarrow> lock_world \<times> lock_table \<times> (lock_error + bool)" where
  "lock_release_owned env clock w t key owner =
     (case clock of Inl e \<Rightarrow> (w, t, Inl e) | Inr now_ms \<Rightarrow> release_owner (en_cfg env) (lock_publish env) w t key owner now_ms)"

definition lock_force_release ::
    "lock_env \<Rightarrow> lock_error + nat \<Rightarrow> lock_world \<Rightarrow> lock_table \<Rightarrow> lock_key \<Rightarrow> lock_world \<times> lock_table \<times> (lock_error + bool)" where
  "lock_force_release env clock w t key =
     (case clock of Inl e \<Rightarrow> (w, t, Inl e) | Inr now_ms \<Rightarrow> force_release (en_cfg env) (lock_publish env) w t key now_ms)"

definition lock_current_now :: "lock_env \<Rightarrow> lock_error + nat \<Rightarrow> lock_table \<Rightarrow> lock_key \<Rightarrow> lock_table \<times> (lock_error + lock_lease option)" where
  "lock_current_now env clock t key =
     (case clock of Inl e \<Rightarrow> (t, Inl e) | Inr now_ms \<Rightarrow> lock_current (en_cfg env) t key now_ms)"

definition lock_restore ::
    "lock_env \<Rightarrow> lock_error + nat \<Rightarrow> lock_table \<Rightarrow> lock_key \<Rightarrow> lock_owner \<Rightarrow> lock_table \<times> (lock_error + lock_lease option)" where
  "lock_restore env clock t key owner =
     (case lock_current_now env clock t key of
        (t', Inl e) \<Rightarrow> (t', Inl e)
      | (t', Inr None) \<Rightarrow> (t', Inr None)
      | (t', Inr (Some lease)) \<Rightarrow> (t', Inr (if ll_owner lease = owner then Some lease else None)))"

record lock_poll =
  lpo_events :: "lock_event list"
  lpo_loss :: ring_loss
  lpo_malformed :: nat

definition event_revision :: "lock_event \<Rightarrow> nat" where
  "event_revision ev = tr_state_revision (le_transition ev)"

definition decode_all :: "lock_cfg \<Rightarrow> frame list \<Rightarrow> lock_event list \<times> nat" where
  "decode_all cfg fs =
     (List.map_filter (lock_decode cfg) fs, length (filter (\<lambda>f. lock_decode cfg f = None) fs))"

text \<open>\<open>poll\<close>; \<open>None\<close> is a panic of the fleet.\<close>

definition lock_poll_events :: "lock_env \<Rightarrow> fleet \<Rightarrow> lane_cursor \<Rightarrow> (fleet \<times> lane_cursor \<times> lock_poll) option" where
  "lock_poll_events env fl cursor =
     map_option (\<lambda>(fl', cursor', raw).
         let (events, malformed) = decode_all (en_cfg env) (lp_frames raw)
         in (fl', cursor', \<lparr>lpo_events = sort_key event_revision events, lpo_loss = lp_loss raw, lpo_malformed = malformed\<rparr>))
       (fleet_poll_lanes (lc_netid (en_cfg env)) fl (lock_event_typed (en_layout env)) cursor)"

definition lock_reset_transport ::
    "lock_env \<Rightarrow> fleet \<Rightarrow> lock_table \<Rightarrow> lane_cursor \<Rightarrow> (fleet \<times> lock_table \<times> lane_cursor \<times> (lock_error + unit)) option" where
  "lock_reset_transport env fl t cursor =
     (let T = lock_event_typed (en_layout env); t' = lock_reset t
      in case fleet_reset_ring fl T of
           None \<Rightarrow> None
         | Some (fl', Inl e) \<Rightarrow> Some (fl', t', cursor, Inl LockIo)
         | Some (fl', Inr _) \<Rightarrow>
             map_option (\<lambda>(fl'', cursor'). (fl'', t', cursor', Inr ())) (lane_cursor_at_head fl' T))"

section \<open>What a subscriber of transitions receives\<close>

text \<open>A frame that carries a transition, as \<open>lock_publish\<close> posts it.\<close>

definition carries :: "lock_env \<Rightarrow> frame \<Rightarrow> lock_transition \<Rightarrow> bool" where
  "carries env f tr \<longleftrightarrow> tr_ok tr \<and> fr_ver f = tr_state_revision tr \<and>
     lock_encode (en_cfg env) (en_layout env) tr = Inr (fr_kind f, fr_payload f)"

lemma carries_decode:
  assumes "carries env f tr"
  shows "lock_decode (en_cfg env) f = Some \<lparr>le_event_id = fr_id f, le_transition = tr\<rparr>"
  using lock_roundtrip [of tr "en_cfg env" "en_layout env" "fr_kind f" "fr_payload f" "fr_id f"] assms
  by (cases f) (simp add: carries_def)

lemma decode_all_carried:
  assumes "list_all2 (carries env) fs trs"
  shows "decode_all (en_cfg env) fs = (map2 (\<lambda>f tr. \<lparr>le_event_id = fr_id f, le_transition = tr\<rparr>) fs trs, 0)"
  using assms
proof (induction fs trs rule: list_all2_induct)
  case Nil
  then show ?case by (simp add: decode_all_def List.map_filter_simps)
next
  case (Cons f fs tr trs)
  with carries_decode [OF Cons(1)] show ?case by (simp add: decode_all_def List.map_filter_simps)
qed


definition demo_env :: lock_env where
  "demo_env = \<lparr>en_cfg = demo_cfg, en_layout = demo_layout\<lparr>ly_event_ring_kind := 5, ly_event_ring_spec := spec_per_node 2 64\<rparr>,
     en_os_lock = Inr (), en_notify = Inr ()\<rparr>"

definition demo_event_fleet :: fleet where
  "demo_event_fleet = \<lparr>fl_name = [97], fl_capacity = 1, fl_node_id = 0, fl_id_counters = (\<lambda>_. None),
     fl_backing = InMemory \<lparr>rg_fleet_capacity = 1, rg_rings = [5 \<mapsto> \<lparr>r_kind = 5, r_capacity = 2, r_payload_capacity = 64,
       r_topology = PerNode, version_counter = 0, lanes = [\<lparr>write_pos = 0, lane_slots = [None, None]\<rparr>]\<rparr>]\<rparr>\<rparr>"

lemma demo_event_fleet_holds: "fleet_holds packed_netid demo_event_fleet (lock_event_typed (en_layout demo_env)) [[]]"
  using packed_netid_laws
  by (simp add: fleet_holds_def demo_event_fleet_def lock_event_typed_def demo_env_def demo_layout_def spec_per_node_def
      ring_lane_count_def ring_spec_of_def ring_logged_def lane_logged_def window_ok_def max_defs)


end
