(* ===== verification/Quota_Gcra.thy ===== *)
theory Quota_Gcra
  imports Prelude
begin

text \<open>
  The rate law of the quota crate: \<^verbatim>\<open>quota/src/contract.rs\<close> (geometry, policy, keys, decisions)
  and \<^verbatim>\<open>quota/src/gcra.rs\<close> (the generic cell rate algorithm). Time is scaled by the sustained unit
  count, so one unit costs exactly one period and no interval is rounded. Shown here: the envelope
  of admitted cost over every window of time, the exact meaning of \<open>retry_after\<close> and of the
  snapshot, and the totality of the arithmetic under the ranges an opened store has checked.
\<close>

section \<open>Contract\<close>

datatype quota_error =
    InvalidGeometry | InvalidPeriod | EmptyKey | QKeyTooLarge | CostExceedsBurst | Busy
  | CapacityFull | IncompatibleState | CorruptState | ArithmeticOverflow | ClockUnavailable
  | RandomUnavailable | ClockWentBackwards | AllocationFailed | UnsupportedAtomics | QuotaIo

text \<open>\<open>std::time::Duration\<close>: whole seconds in 64 bits and nanoseconds below one second.\<close>

record duration =
  d_secs :: nat
  d_nanos :: nat

definition NANOS_PER_SEC :: nat where [simp]: "NANOS_PER_SEC = 1000000000"

definition duration_ok :: "duration \<Rightarrow> bool" where
  "duration_ok d \<longleftrightarrow> d_secs d \<le> u64_max \<and> d_nanos d < NANOS_PER_SEC"

definition as_nanos :: "duration \<Rightarrow> nat" where
  "as_nanos d = d_secs d * NANOS_PER_SEC + d_nanos d"

record geometry =
  g_slots :: nat
  g_shards :: nat
  g_key_bytes :: nat
  g_probes :: nat

definition geometry_new :: "nat \<Rightarrow> nat \<Rightarrow> nat \<Rightarrow> nat \<Rightarrow> quota_error + geometry" where
  "geometry_new slots shards key_bytes probes =
     (if slots mod shards \<noteq> 0 \<or> probes > slots div shards then Inl InvalidGeometry
      else Inr \<lparr>g_slots = slots, g_shards = shards, g_key_bytes = key_bytes, g_probes = probes\<rparr>)"

record policy =
  p_units :: nat
  p_period :: duration
  p_burst :: nat

definition policy_new :: "nat \<Rightarrow> duration \<Rightarrow> nat \<Rightarrow> quota_error + policy" where
  "policy_new units period burst =
     (if as_nanos period = 0 then Inl InvalidPeriod
      else Inr \<lparr>p_units = units, p_period = period, p_burst = burst\<rparr>)"

record quota_key =
  qk_namespace :: bytes
  qk_subject :: bytes

definition quota_key_new :: "bytes \<Rightarrow> bytes \<Rightarrow> quota_error + quota_key" where
  "quota_key_new namespace subject =
     (if namespace = [] \<or> subject = [] then Inl EmptyKey
      else Inr \<lparr>qk_namespace = namespace, qk_subject = subject\<rparr>)"

datatype decision = Allowed | Limited (retry_after_of: duration)

record snapshot =
  sn_limit :: nat
  sn_remaining :: nat

record admission =
  ad_decision :: decision
  ad_snapshot :: "snapshot option"

text \<open>\<open>NonZeroU64\<close> and the values a successful \<open>Policy::new\<close> returns.\<close>

definition nonzero_u64 :: "nat \<Rightarrow> bool" where
  "nonzero_u64 n \<longleftrightarrow> 0 < n \<and> n \<le> u64_max"

definition policy_ok :: "policy \<Rightarrow> bool" where
  "policy_ok p \<longleftrightarrow> nonzero_u64 (p_units p) \<and> nonzero_u64 (p_burst p) \<and> duration_ok (p_period p) \<and>
     0 < as_nanos (p_period p)"

lemma policy_new_ok:
  assumes "nonzero_u64 u" "nonzero_u64 b" "duration_ok d" "policy_new u d b = Inr p"
  shows "policy_ok p"
  using assms by (auto simp: policy_new_def policy_ok_def split: if_splits)

section \<open>The algorithm\<close>

record gcra =
  gc_policy :: policy
  gc_period :: nat
  gc_units :: nat
  gc_capacity :: nat

datatype outcome = OAllowed (tat_of: nat) | OLimited (debt_of: nat)

record prepared =
  pr_algorithm :: gcra
  pr_charge :: nat

definition gcra_new :: "policy \<Rightarrow> quota_error + gcra" where
  "gcra_new p =
     (let period = as_nanos (p_period p)
      in case checked_mul u128_max period (p_burst p) of
           None \<Rightarrow> Inl ArithmeticOverflow
         | Some capacity \<Rightarrow> Inr \<lparr>gc_policy = p, gc_period = period, gc_units = p_units p, gc_capacity = capacity\<rparr>)"

definition prepare :: "gcra \<Rightarrow> nat \<Rightarrow> quota_error + prepared" where
  "prepare g cost =
     (if cost > p_burst (gc_policy g) then Inl CostExceedsBurst
      else case checked_mul u128_max (gc_period g) cost of
             None \<Rightarrow> Inl ArithmeticOverflow
           | Some charge \<Rightarrow> Inr \<lparr>pr_algorithm = g, pr_charge = charge\<rparr>)"

definition scale :: "gcra \<Rightarrow> nat \<Rightarrow> quota_error + nat" where
  "scale g now =
     (case checked_mul u128_max now (gc_units g) of None \<Rightarrow> Inl ArithmeticOverflow | Some s \<Rightarrow> Inr s)"

definition retry_after :: "gcra \<Rightarrow> nat \<Rightarrow> quota_error + duration" where
  "retry_after g debt =
     (let nanos = div_ceil debt (gc_units g); seconds = nanos div 1000000000
      in if seconds > u64_max then Inl ArithmeticOverflow
         else Inr \<lparr>d_secs = seconds, d_nanos = nanos mod 1000000000\<rparr>)"

definition evaluate :: "prepared \<Rightarrow> nat \<Rightarrow> nat option \<Rightarrow> quota_error + outcome" where
  "evaluate p now previous =
     (case checked_add u128_max (max (case previous of None \<Rightarrow> now | Some t \<Rightarrow> t) now) (pr_charge p) of
        None \<Rightarrow> Inl ArithmeticOverflow
      | Some tat \<Rightarrow>
          (case checked_add u128_max now (gc_capacity (pr_algorithm p)) of
             None \<Rightarrow> Inl ArithmeticOverflow
           | Some ceiling \<Rightarrow> Inr (if tat \<le> ceiling then OAllowed tat else OLimited (tat - ceiling))))"

definition gcra_snapshot :: "gcra \<Rightarrow> nat \<Rightarrow> nat \<Rightarrow> snapshot" where
  "gcra_snapshot g now tat =
     (let remaining = (gc_capacity g - (tat - now)) div gc_period g
      in \<lparr>sn_limit = p_burst (gc_policy g), sn_remaining = remaining mod 2 ^ 64\<rparr>)"

datatype captured = CapAllowed nat nat | CapLimited duration

fun captured_resolve :: "captured \<Rightarrow> gcra \<Rightarrow> admission" where
  "captured_resolve (CapAllowed now tat) g =
     \<lparr>ad_decision = Allowed, ad_snapshot = Some (gcra_snapshot g now tat)\<rparr>"
| "captured_resolve (CapLimited d) g = \<lparr>ad_decision = Limited d, ad_snapshot = None\<rparr>"

text \<open>The \<open>Decision\<close> instance of \<open>AdmissionResult\<close> drops the commit's time and arrival.\<close>

fun captured_decision :: "captured \<Rightarrow> decision" where
  "captured_decision (CapAllowed now tat) = Allowed"
| "captured_decision (CapLimited d) = Limited d"

section \<open>The algorithm an opened store holds\<close>

definition gcra_ok :: "gcra \<Rightarrow> bool" where
  "gcra_ok g \<longleftrightarrow> policy_ok (gc_policy g) \<and> gc_period g = as_nanos (p_period (gc_policy g)) \<and>
     gc_units g = p_units (gc_policy g) \<and> gc_capacity g = gc_period g * p_burst (gc_policy g) \<and>
     gc_capacity g \<le> u128_max"

lemma gcra_new_ok: "policy_ok p \<Longrightarrow> gcra_new p = Inr g \<Longrightarrow> gcra_ok g"
  by (auto simp: gcra_new_def gcra_ok_def Let_def split: option.splits)

lemma gcra_okD:
  assumes "gcra_ok g"
  shows "0 < gc_period g" "0 < gc_units g" "0 < p_burst (gc_policy g)" "p_burst (gc_policy g) \<le> u64_max"
  using assms by (auto simp: gcra_ok_def policy_ok_def nonzero_u64_def)

lemma charge_fits:
  assumes "gcra_ok g" "cost \<le> p_burst (gc_policy g)"
  shows "gc_period g * cost \<le> gc_capacity g" "gc_period g * cost \<le> u128_max"
proof -
  have "gc_period g * cost \<le> gc_period g * p_burst (gc_policy g)" using assms(2) by (rule mult_le_mono2)
  moreover have "gc_capacity g = gc_period g * p_burst (gc_policy g)" "gc_capacity g \<le> u128_max"
    using assms(1) unfolding gcra_ok_def by blast+
  ultimately show "gc_period g * cost \<le> gc_capacity g" "gc_period g * cost \<le> u128_max" by linarith+
qed

lemma prepare_eq:
  "gcra_ok g \<Longrightarrow> prepare g cost =
     (if cost \<le> p_burst (gc_policy g) then Inr \<lparr>pr_algorithm = g, pr_charge = gc_period g * cost\<rparr>
      else Inl CostExceedsBurst)"
  using charge_fits(2) [of g cost] by (auto simp: prepare_def split: option.splits)

text \<open>A value of \<open>Prepared\<close> for a given algorithm.\<close>

definition prepared_ok :: "gcra \<Rightarrow> prepared \<Rightarrow> bool" where
  "prepared_ok g p \<longleftrightarrow> pr_algorithm p = g \<and> pr_charge p \<le> gc_capacity g"

lemma prepare_ok: "gcra_ok g \<Longrightarrow> prepare g cost = Inr p \<Longrightarrow> prepared_ok g p"
  by (auto simp: prepare_eq prepared_ok_def charge_fits split: if_splits)

text \<open>The first charge of an identity is never limited.\<close>

lemma evaluate_None:
  "prepared_ok g p \<Longrightarrow> evaluate p now None =
     (if now + gc_capacity g \<le> u128_max then Inr (OAllowed (now + pr_charge p)) else Inl ArithmeticOverflow)"
  by (auto simp: evaluate_def prepared_ok_def split: option.splits)

lemma evaluate_past: "prepared_ok g p \<Longrightarrow> t \<le> now \<Longrightarrow> evaluate p now (Some t) = evaluate p now None"
  by (simp add: evaluate_def)

lemma evaluate_Allowed:
  "evaluate p now previous = Inr (OAllowed tat) \<longleftrightarrow>
     tat = max (case previous of None \<Rightarrow> now | Some t \<Rightarrow> t) now + pr_charge p \<and>
     tat \<le> now + gc_capacity (pr_algorithm p) \<and> now + gc_capacity (pr_algorithm p) \<le> u128_max"
  by (auto simp: evaluate_def split: option.splits if_splits)

lemma evaluate_Limited:
  "evaluate p now previous = Inr (OLimited debt) \<longleftrightarrow>
     (let tat = max (case previous of None \<Rightarrow> now | Some t \<Rightarrow> t) now + pr_charge p
      in tat \<le> u128_max \<and> now + gc_capacity (pr_algorithm p) < tat \<and>
         debt = tat - (now + gc_capacity (pr_algorithm p)))"
  by (auto simp: evaluate_def Let_def split: option.splits if_splits)

section \<open>Runs of one identity\<close>

text \<open>
  One admission against the stored arrival time of an identity, the way the backends compose the
  parts: prepare the cost, scale the clock reading, evaluate, and commit only when allowed.
\<close>

definition gcra_admit :: "gcra \<Rightarrow> nat option \<Rightarrow> nat \<Rightarrow> nat \<Rightarrow> quota_error + outcome" where
  "gcra_admit g previous now cost =
     (case prepare g cost of Inl e \<Rightarrow> Inl e
      | Inr p \<Rightarrow> (case scale g now of Inl e \<Rightarrow> Inl e | Inr s \<Rightarrow> evaluate p s previous))"

fun gcra_run :: "gcra \<Rightarrow> nat option \<Rightarrow> (nat \<times> nat) list \<Rightarrow> nat option \<times> (nat \<times> nat) list" where
  "gcra_run g previous [] = (previous, [])"
| "gcra_run g previous ((now, cost) # requests) =
     (case gcra_admit g previous now cost of
        Inr (OAllowed tat) \<Rightarrow>
          (let (final, admitted) = gcra_run g (Some tat) requests in (final, (now, cost) # admitted))
      | _ \<Rightarrow> gcra_run g previous requests)"

text \<open>The cost admitted by a list of grants, and the part of it inside a window of time.\<close>

definition total_cost :: "(nat \<times> nat) list \<Rightarrow> nat" where
  "total_cost admitted = sum_list (map snd admitted)"

definition in_window :: "nat \<Rightarrow> nat \<Rightarrow> (nat \<times> nat) list \<Rightarrow> (nat \<times> nat) list" where
  "in_window a b admitted = filter (\<lambda>(t, c). a \<le> t \<and> t \<le> b) admitted"

lemma total_cost_simps [simp]:
  "total_cost [] = 0" "total_cost (x # xs) = snd x + total_cost xs"
  "total_cost (xs @ ys) = total_cost xs + total_cost ys"
  by (simp_all add: total_cost_def)

text \<open>The admissions of a run as a chain of commits, each from the arrival time the last one left.\<close>

definition commits :: "gcra \<Rightarrow> nat option \<Rightarrow> nat \<Rightarrow> nat \<Rightarrow> nat \<Rightarrow> bool" where
  "commits g previous now cost tat \<longleftrightarrow>
     tat = max (case previous of None \<Rightarrow> now * gc_units g | Some t \<Rightarrow> t) (now * gc_units g) + gc_period g * cost \<and>
     tat \<le> now * gc_units g + gc_capacity g \<and> now * gc_units g + gc_capacity g \<le> u128_max \<and>
     cost \<le> p_burst (gc_policy g)"

lemma gcra_admit_Allowed:
  "gcra_ok g \<Longrightarrow> gcra_admit g previous now cost = Inr (OAllowed tat) \<longleftrightarrow> commits g previous now cost tat"
  by (cases "now * gc_units g \<le> u128_max")
     (auto simp: gcra_admit_def prepare_eq scale_def evaluate_Allowed commits_def split: option.splits)

fun chain :: "gcra \<Rightarrow> nat option \<Rightarrow> (nat \<times> nat) list \<Rightarrow> nat option \<Rightarrow> bool" where
  "chain g previous [] final \<longleftrightarrow> final = previous"
| "chain g previous ((now, cost) # admitted) final \<longleftrightarrow>
     (\<exists>tat. commits g previous now cost tat \<and> chain g (Some tat) admitted final)"

lemma gcra_run_chain:
  "gcra_ok g \<Longrightarrow> chain g previous (snd (gcra_run g previous requests)) (fst (gcra_run g previous requests))"
proof (induction g previous requests rule: gcra_run.induct)
  case (2 g previous now cost requests)
  then show ?case
    by (cases "gcra_admit g previous now cost")
       (auto simp: gcra_admit_Allowed [symmetric] split: outcome.splits prod.splits)
qed simp

text \<open>A commit only raises the arrival time, by at least its charge.\<close>

lemma chain_raises:
  "chain g (Some t) admitted final \<Longrightarrow>
     \<exists>t'. final = Some t' \<and> t + gc_period g * total_cost admitted \<le> t'"
proof (induction admitted arbitrary: t)
  case (Cons x xs)
  obtain now cost where x: "x = (now, cost)" by (cases x)
  obtain tat where c: "commits g (Some t) now cost tat" and ch: "chain g (Some tat) xs final"
    using Cons.prems x by auto
  have "t + gc_period g * cost \<le> tat" using c by (auto simp: commits_def)
  then show ?case using Cons.IH [OF ch] x by (auto simp: algebra_simps)
qed simp

lemma commits_start:
  "commits g previous now cost tat \<Longrightarrow> now * gc_units g + gc_period g * cost \<le> tat"
  by (simp add: commits_def)

lemma commits_ceiling: "commits g previous now cost tat \<Longrightarrow> tat \<le> now * gc_units g + gc_capacity g"
  by (simp add: commits_def)

lemma commits_raises: "commits g (Some t) now cost tat \<Longrightarrow> t + gc_period g * cost \<le> tat"
  by (auto simp: commits_def)

text \<open>
  The envelope over a chain that starts from a known arrival time: what the window admits fits
  between that arrival time and the ceiling of the window's last instant.
\<close>

lemma chain_window_from:
  "chain g (Some t) admitted final \<Longrightarrow> in_window a b admitted \<noteq> [] \<Longrightarrow>
     t + gc_period g * total_cost (in_window a b admitted) \<le> b * gc_units g + gc_capacity g"
proof (induction admitted arbitrary: t)
  case (Cons x xs)
  obtain now cost where x: "x = (now, cost)" by (cases x)
  obtain tat where c: "commits g (Some t) now cost tat" and ch: "chain g (Some tat) xs final"
    using Cons.prems(1) x by auto
  note up = commits_raises [OF c]
  show ?case
  proof (cases "in_window a b xs = []")
    case True
    then have w: "a \<le> now" "now \<le> b" using Cons.prems(2) x by (auto simp: in_window_def split: if_splits)
    have "t + gc_period g * cost \<le> b * gc_units g + gc_capacity g"
      using up commits_ceiling [OF c] mult_le_mono1 [OF w(2), of "gc_units g"] by linarith
    then show ?thesis using True w x by (simp add: in_window_def)
  next
    case False
    then show ?thesis using Cons.IH [OF ch False] up x by (auto simp: in_window_def algebra_simps)
  qed
qed (simp add: in_window_def)

lemma chain_window:
  "chain g previous admitted final \<Longrightarrow> a \<le> b \<Longrightarrow>
     gc_period g * total_cost (in_window a b admitted) \<le> gc_capacity g + (b - a) * gc_units g"
proof (induction admitted arbitrary: previous)
  case (Cons x xs)
  obtain now cost where x: "x = (now, cost)" by (cases x)
  obtain tat where c: "commits g previous now cost tat" and ch: "chain g (Some tat) xs final"
    using Cons.prems(1) x by auto
  show ?case
  proof (cases "a \<le> now \<and> now \<le> b")
    case False
    then show ?thesis using Cons.IH [OF ch Cons.prems(2)] x by (auto simp: in_window_def)
  next
    case True
    have lo: "a * gc_units g + gc_period g * cost \<le> tat"
      using commits_start [OF c] mult_le_mono1 [of a now "gc_units g"] True by linarith
    have hi: "tat \<le> b * gc_units g + gc_capacity g"
      using commits_ceiling [OF c] mult_le_mono1 [of now b "gc_units g"] True by linarith
    have eq: "a * gc_units g + (b - a) * gc_units g = b * gc_units g"
      using Cons.prems(2) by (simp flip: add_mult_distrib)
    show ?thesis
    proof (cases "in_window a b xs = []")
      case True
      then show ?thesis using lo hi eq x \<open>a \<le> now \<and> now \<le> b\<close> by (simp add: in_window_def)
    next
      case False
      show ?thesis
        using chain_window_from [OF ch False] lo eq x \<open>a \<le> now \<and> now \<le> b\<close>
        by (simp add: in_window_def add_mult_distrib2)
    qed
  qed
qed (simp add: in_window_def)

section \<open>The exact admission rule\<close>

text \<open>
  The reference rule, without an arrival time: a request conforms when, for every earlier grant,
  the cost granted since then together with the request fits the burst plus what the elapsed time
  replenishes.
\<close>

definition conforms :: "gcra \<Rightarrow> (nat \<times> nat) list \<Rightarrow> nat \<Rightarrow> nat \<Rightarrow> bool" where
  "conforms g admitted now cost \<longleftrightarrow>
     cost \<le> p_burst (gc_policy g) \<and>
     (\<forall>k<length admitted. (total_cost (drop k admitted) + cost) * gc_period g
        \<le> p_burst (gc_policy g) * gc_period g + (now - fst (admitted ! k)) * gc_units g)"

text \<open>The arrival time is the latest of the instants at which a suffix of the grants is paid off.\<close>

definition paid_by :: "gcra \<Rightarrow> (nat \<times> nat) list \<Rightarrow> nat \<Rightarrow> bool" where
  "paid_by g admitted T \<longleftrightarrow>
     (\<forall>k<length admitted. fst (admitted ! k) * gc_units g + gc_period g * total_cost (drop k admitted) \<le> T)"

lemma paid_by_snoc:
  "paid_by g (admitted @ [(now, cost)]) T \<longleftrightarrow>
     (admitted \<noteq> [] \<longrightarrow> gc_period g * cost \<le> T) \<and> paid_by g admitted (T - gc_period g * cost) \<and>
     now * gc_units g + gc_period g * cost \<le> T"
proof -
  have "(\<forall>k<length (admitted @ [(now, cost)]). P k) \<longleftrightarrow> (\<forall>k<length admitted. P k) \<and> P (length admitted)" for P
    by (auto simp: less_Suc_eq)
  then show ?thesis
    unfolding paid_by_def
    by (auto simp: nth_append algebra_simps le_diff_conv2 all_conj_distrib)
qed

lemma chain_snoc:
  "chain g previous (admitted @ [(now, cost)]) final \<longleftrightarrow>
     (\<exists>mid tat. chain g previous admitted mid \<and> commits g mid now cost tat \<and> final = Some tat)"
proof (induction admitted arbitrary: previous)
  case (Cons x xs)
  obtain a b where "x = (a, b)" by (cases x)
  then show ?case using Cons.IH by simp blast
qed auto

lemma chain_paid_by:
  "chain g None admitted final \<Longrightarrow> admitted \<noteq> [] \<Longrightarrow> \<exists>tat. final = Some tat \<and> (\<forall>T. tat \<le> T \<longleftrightarrow> paid_by g admitted T)"
proof (induction admitted arbitrary: final rule: rev_induct)
  case (snoc x xs)
  obtain now cost where x: "x = (now, cost)" by (cases x)
  obtain mid tat where ch: "chain g None xs mid" and c: "commits g mid now cost tat" and f: "final = Some tat"
    using snoc.prems(1) x by (auto simp: chain_snoc)
  have "tat \<le> T \<longleftrightarrow> paid_by g (xs @ [(now, cost)]) T" for T
  proof (cases "xs = []")
    case True
    then show ?thesis using ch c by (auto simp: commits_def paid_by_def)
  next
    case False
    then obtain t where t: "mid = Some t" and paid: "\<And>T. t \<le> T \<longleftrightarrow> paid_by g xs T" using snoc.IH [OF ch] by blast
    have "tat \<le> T \<longleftrightarrow> gc_period g * cost \<le> T \<and> t \<le> T - gc_period g * cost \<and>
        now * gc_units g + gc_period g * cost \<le> T"
      using c t unfolding commits_def by auto
    then show ?thesis unfolding paid paid_by_snoc using False by blast
  qed
  then show ?case using f x by blast
qed simp

lemma chain_ceiling:
  assumes "chain g None admitted (Some tat)" "\<And>t c. (t, c) \<in> set admitted \<Longrightarrow> t \<le> now"
  shows "tat \<le> now * gc_units g + gc_capacity g"
proof (cases admitted rule: rev_cases)
  case (snoc xs x)
  obtain t c where x: "x = (t, c)" by (cases x)
  obtain mid where "commits g mid t c tat" using assms(1) snoc x by (auto simp: chain_snoc)
  moreover have "t * gc_units g \<le> now * gc_units g" using assms(2) [of t c] snoc x by (intro mult_le_mono1) simp
  ultimately show ?thesis using commits_ceiling [of g mid t c tat] by linarith
qed (use assms(1) in simp)

lemma conforms_paid_by:
  assumes "gcra_ok g" "\<And>t c. (t, c) \<in> set admitted \<Longrightarrow> t \<le> now" "cost \<le> p_burst (gc_policy g)"
  shows "conforms g admitted now cost \<longleftrightarrow>
    paid_by g admitted (now * gc_units g + gc_capacity g - gc_period g * cost)"
proof -
  have cap: "gc_capacity g = gc_period g * p_burst (gc_policy g)" using assms(1) unfolding gcra_ok_def by blast
  note fit = charge_fits(1) [OF assms(1,3)]
  have "(total_cost (drop k admitted) + cost) * gc_period g
        \<le> p_burst (gc_policy g) * gc_period g + (now - fst (admitted ! k)) * gc_units g \<longleftrightarrow>
      fst (admitted ! k) * gc_units g + gc_period g * total_cost (drop k admitted)
        \<le> now * gc_units g + gc_capacity g - gc_period g * cost" if "k < length admitted" for k
  proof -
    let ?a = "fst (admitted ! k) * gc_units g" and ?d = "(now - fst (admitted ! k)) * gc_units g"
    have "fst (admitted ! k) \<le> now" using assms(2) [of "fst (admitted ! k)" "snd (admitted ! k)"] that by simp
    then have now: "now * gc_units g = ?a + ?d" by (simp flip: add_mult_distrib)
    have sides: "(total_cost (drop k admitted) + cost) * gc_period g =
        gc_period g * total_cost (drop k admitted) + gc_period g * cost"
      "p_burst (gc_policy g) * gc_period g = gc_capacity g" by (simp_all add: cap algebra_simps)
    show ?thesis unfolding sides now using fit by linarith
  qed
  then show ?thesis using assms(3) by (auto simp: conforms_def paid_by_def)
qed

definition demo_policy :: policy where
  "demo_policy = \<lparr>p_units = 10, p_period = \<lparr>d_secs = 1, d_nanos = 0\<rparr>, p_burst = 20\<rparr>"

definition demo_gcra :: gcra where
  "demo_gcra = \<lparr>gc_policy = demo_policy, gc_period = 1000000000, gc_units = 10, gc_capacity = 20000000000\<rparr>"

lemma demo_gcra_ok: "gcra_ok demo_gcra"
  by (simp add: gcra_ok_def demo_gcra_def demo_policy_def policy_ok_def nonzero_u64_def duration_ok_def
      as_nanos_def max_defs)

text \<open>
  The rate envelope. Whatever requests arrive for an identity, at whatever clock readings and in
  whatever order, the cost granted at readings inside a window of time never exceeds the burst plus
  the sustained rate times the length of the window.
\<close>

lemma gcra_rate_envelope:
  assumes "gcra_ok g" "a \<le> b"
  shows "gc_period g * total_cost (in_window a b (snd (gcra_run g previous requests)))
    \<le> gc_period g * p_burst (gc_policy g) + (b - a) * gc_units g"
proof -
  have "gc_capacity g = gc_period g * p_burst (gc_policy g)" using assms(1) unfolding gcra_ok_def by blast
  then show ?thesis using chain_window [OF gcra_run_chain [OF assms(1)] assms(2)] by simp
qed

text \<open>
  C8: the arrival time is exactly the reference rule. After any run, a request at a reading no
  earlier than the grants so far is allowed if and only if it conforms: for every earlier grant,
  the cost granted since then together with the request fits the burst plus the replenishment of
  the elapsed time. The range hypothesis is the one the stores check when they open.
\<close>

theorem gcra_admits_iff_conforms:
  assumes "gcra_ok g" "\<And>t c. (t, c) \<in> set (snd (gcra_run g None requests)) \<Longrightarrow> t \<le> now"
    and "now * gc_units g + gc_capacity g \<le> u128_max"
  shows "(\<exists>tat. gcra_admit g (fst (gcra_run g None requests)) now cost = Inr (OAllowed tat)) \<longleftrightarrow>
    conforms g (snd (gcra_run g None requests)) now cost"
proof (cases "cost \<le> p_burst (gc_policy g)")
  case False
  then show ?thesis using assms(1) by (simp add: gcra_admit_Allowed commits_def conforms_def)
next
  case fits: True
  let ?adm = "snd (gcra_run g None requests)" and ?fin = "fst (gcra_run g None requests)"
  have ch: "chain g None ?adm ?fin" by (rule gcra_run_chain [OF assms(1)])
  have rhs: "conforms g ?adm now cost \<longleftrightarrow> paid_by g ?adm (now * gc_units g + gc_capacity g - gc_period g * cost)"
    by (rule conforms_paid_by [OF assms(1) assms(2) fits])
  note charge = charge_fits(1) [OF assms(1) fits]
  show ?thesis
  proof (cases "?adm = []")
    case True
    then show ?thesis
      using ch rhs fits charge assms(1,3) by (simp add: gcra_admit_Allowed commits_def paid_by_def)
  next
    case False
    obtain tat where tat: "?fin = Some tat" "\<And>T. tat \<le> T \<longleftrightarrow> paid_by g ?adm T"
      using chain_paid_by [OF ch False] by blast
    have "(\<exists>t. commits g (Some tat) now cost t) \<longleftrightarrow> tat \<le> now * gc_units g + gc_capacity g - gc_period g * cost"
      using charge fits assms(3) by (auto simp: commits_def)
    then show ?thesis unfolding rhs tat(1) gcra_admit_Allowed [OF assms(1)] tat(2) .
  qed
qed

theorem gcra_admits_iff_conforms_witness:
  "((\<exists>tat. gcra_admit demo_gcra (fst (gcra_run demo_gcra None [(0, 15)])) 30 6 = Inr (OAllowed tat)) \<longleftrightarrow>
     conforms demo_gcra (snd (gcra_run demo_gcra None [(0, 15)])) 30 6) \<and>
   snd (gcra_run demo_gcra None [(0, 15)]) = [(0, 15)]"
proof -
  have run: "snd (gcra_run demo_gcra None [(0, 15)]) = [(0, 15)]" by code_simp
  have range: "30 * gc_units demo_gcra + gc_capacity demo_gcra \<le> u128_max"
    by (simp add: demo_gcra_def max_defs)
  show ?thesis
    using gcra_admits_iff_conforms [OF demo_gcra_ok _ range, of "[(0, 15)]" 6] run by simp
qed

text \<open>
  C33: \<open>retry_after\<close> is the least waiting time. When a request is limited at a clock reading, the
  same request at a later reading, with no grant in between, is allowed exactly when at least the
  reported duration has passed.
\<close>

theorem retry_after_least_wait:
  assumes "gcra_ok g" "prepare g cost = Inr p"
    and "evaluate p (now * gc_units g) (Some previous) = Inr (OLimited debt)"
    and "retry_after g debt = Inr d"
    and "now \<le> later" "later * gc_units g + gc_capacity g \<le> u128_max"
  shows "duration_ok d \<and>
    ((\<exists>tat. evaluate p (later * gc_units g) (Some previous) = Inr (OAllowed tat)) \<longleftrightarrow>
      now + as_nanos d \<le> later)"
proof -
  have p: "pr_algorithm p = g" "pr_charge p \<le> gc_capacity g"
    using prepare_ok [OF assms(1,2)] by (simp_all add: prepared_ok_def)
  have units: "0 < gc_units g" by (rule gcra_okD(2) [OF assms(1)])
  have nanos: "as_nanos d = div_ceil debt (gc_units g)" and ok: "duration_ok d"
    using assms(4) by (auto simp: retry_after_def Let_def as_nanos_def duration_ok_def split: if_splits)
  have lim: "now * gc_units g + gc_capacity g < max previous (now * gc_units g) + pr_charge p"
    "debt = max previous (now * gc_units g) + pr_charge p - (now * gc_units g + gc_capacity g)"
    using assms(3) p(1) by (auto simp: evaluate_Limited Let_def)
  obtain w where later: "later = now + w" using assms(5) le_Suc_ex by blast
  have "(\<exists>tat. evaluate p (later * gc_units g) (Some previous) = Inr (OAllowed tat)) \<longleftrightarrow>
      max previous (later * gc_units g) + pr_charge p \<le> later * gc_units g + gc_capacity g"
    using p assms(6) by (auto simp: evaluate_Allowed)
  also have "\<dots> \<longleftrightarrow> debt \<le> w * gc_units g"
    using lim p(2) by (auto simp: later add_mult_distrib max_def split: if_splits)
  also have "\<dots> \<longleftrightarrow> div_ceil debt (gc_units g) \<le> w" by (rule div_ceil_le_iff [OF units, symmetric])
  finally show ?thesis by (simp add: nanos later ok)
qed

theorem retry_after_least_wait_witness:
  "duration_ok \<lparr>d_secs = 0, d_nanos = 940000000\<rparr> \<and>
   ((\<exists>tat. evaluate \<lparr>pr_algorithm = demo_gcra, pr_charge = 15000000000\<rparr> (1000000000 * gc_units demo_gcra)
      (Some 14700000000) = Inr (OAllowed tat)) \<longleftrightarrow> 30000000 + as_nanos \<lparr>d_secs = 0, d_nanos = 940000000\<rparr> \<le> 1000000000)"
proof (rule retry_after_least_wait [OF demo_gcra_ok, of 15])
  show "prepare demo_gcra 15 = Inr \<lparr>pr_algorithm = demo_gcra, pr_charge = 15000000000\<rparr>" by code_simp
  show "evaluate \<lparr>pr_algorithm = demo_gcra, pr_charge = 15000000000\<rparr> (30000000 * gc_units demo_gcra)
    (Some 14700000000) = Inr (OLimited 9400000000)" by code_simp
  show "retry_after demo_gcra 9400000000 = Inr \<lparr>d_secs = 0, d_nanos = 940000000\<rparr>" by code_simp
qed (simp_all add: demo_gcra_def max_defs)

text \<open>
  A snapshot is exact. After a committed admission it reports the burst as the limit, and as
  remaining units the largest cost that would be allowed at the same instant; the 64-bit cast loses
  nothing.
\<close>

lemma snapshot_exact:
  assumes "gcra_ok g" "prepare g cost = Inr p" "evaluate p now previous = Inr (OAllowed tat)"
    and "prepare g extra = Inr q"
  shows "sn_limit (gcra_snapshot g now tat) = p_burst (gc_policy g) \<and>
    ((\<exists>t. evaluate q now (Some tat) = Inr (OAllowed t)) \<longleftrightarrow> extra \<le> sn_remaining (gcra_snapshot g now tat))"
proof -
  have p: "pr_algorithm p = g" using prepare_ok [OF assms(1,2)] by (simp add: prepared_ok_def)
  have q: "pr_algorithm q = g" "pr_charge q = gc_period g * extra"
    using assms(1,4) by (auto simp: prepare_eq split: if_splits)
  have cap: "gc_capacity g = gc_period g * p_burst (gc_policy g)" using assms(1) unfolding gcra_ok_def by blast
  have ev: "now \<le> tat" "tat \<le> now + gc_capacity g" "now + gc_capacity g \<le> u128_max"
    using assms(3) p by (auto simp: evaluate_Allowed)
  have pos: "0 < gc_period g" by (rule gcra_okD(1) [OF assms(1)])
  let ?r = "(gc_capacity g - (tat - now)) div gc_period g"
  have "?r \<le> gc_capacity g div gc_period g" by (intro div_le_mono) simp
  then have "?r \<le> p_burst (gc_policy g)" using pos cap by simp
  then have "?r < 2 ^ 64" using gcra_okD(4) [OF assms(1)] by (simp add: max_defs)
  then have rem: "sn_remaining (gcra_snapshot g now tat) = ?r" by (simp add: gcra_snapshot_def Let_def)
  have "(\<exists>t. evaluate q now (Some tat) = Inr (OAllowed t)) \<longleftrightarrow> extra * gc_period g \<le> gc_capacity g - (tat - now)"
    using ev q by (auto simp: evaluate_Allowed max_def mult.commute)
  also have "\<dots> \<longleftrightarrow> extra \<le> ?r" using pos by (simp add: less_eq_div_iff_mult_less_eq)
  finally show ?thesis by (simp add: rem) (simp add: gcra_snapshot_def Let_def)
qed

end
