(* ===== verification/Quota_Memory.thy ===== *)
theory Quota_Memory
  imports Quota_Gcra
begin

text \<open>
  The process-local quota store: \<^verbatim>\<open>quota/src/memory.rs\<close> with \<^verbatim>\<open>quota/src/budget.rs\<close> and
  \<^verbatim>\<open>quota/src/retention.rs\<close>. A call runs against the whole table with nobody interfering; every
  atomic operation is still a step of its own. The attempts of \<open>compare_exchange_weak\<close> may fail
  spuriously: \<open>weak r\<close> says whether the attempt made with \<open>r\<close> attempts left in the budget succeeds.
  The clock is a parameter, \<open>clk n\<close> being its \<open>n\<close>-th reading in a call, and so is the randomly seeded
  hash. Interference on one identity is the subject of \<open>Quota_Race\<close>.
\<close>

section \<open>Budget and retention\<close>

text \<open>What a call carries along: its \<open>WorkBudget\<close> and the number of clock readings it has made.\<close>

record call =
  remaining :: nat
  reads :: nat

definition budget_take :: "call \<Rightarrow> call \<times> (quota_error + unit)" where
  "budget_take c =
     (case checked_sub (remaining c) 1 of
        None \<Rightarrow> (c, Inl Busy)
      | Some r \<Rightarrow> (c\<lparr>remaining := r\<rparr>, Inr ()))"

datatype retention = Strict | Guard

record observation =
  ob_tat :: nat
  ob_seen :: nat

record candidate =
  ca_index :: nat
  ca_generation :: nat
  ca_observed :: "observation option"

record selection =
  se_retention :: retention
  se_replenished :: "candidate option"
  se_cold :: "candidate option"

definition selection_new :: "retention \<Rightarrow> selection" where
  "selection_new r = \<lparr>se_retention = r, se_replenished = None, se_cold = None\<rparr>"

text \<open>A cold candidate always carries its observation, so the \<open>unwrap\<close> of the source cannot fail.\<close>

definition selection_consider :: "selection \<Rightarrow> nat \<Rightarrow> nat \<Rightarrow> bool \<Rightarrow> observation \<Rightarrow> selection" where
  "selection_consider s index generation replenished ob =
     (if replenished then
        (if se_replenished s = None
         then s\<lparr>se_replenished := Some \<lparr>ca_index = index, ca_generation = generation, ca_observed = None\<rparr>\<rparr>
         else s)
      else if se_retention s = Guard \<and>
              (case se_cold s of None \<Rightarrow> True | Some c \<Rightarrow> ob_seen ob < ob_seen (the (ca_observed c)))
      then s\<lparr>se_cold := Some \<lparr>ca_index = index, ca_generation = generation, ca_observed = Some ob\<rparr>\<rparr>
      else s)"

definition selection_finish :: "selection \<Rightarrow> quota_error + candidate" where
  "selection_finish s =
     (case se_replenished s of Some c \<Rightarrow> Inr c
      | None \<Rightarrow> (case se_cold s of Some c \<Rightarrow> Inr c | None \<Rightarrow> Inl CapacityFull))"

text \<open>
  The loop that raises an atomic cell to \<open>now\<close>: it ends when the cell has reached \<open>now\<close>, when the
  exchange succeeds, or when the budget is spent. Without interference a failed exchange reads the
  same value again.
\<close>

fun cas_raise :: "(nat \<Rightarrow> bool) \<Rightarrow> nat \<Rightarrow> nat \<Rightarrow> nat \<Rightarrow> nat \<times> nat \<times> (quota_error + unit)" where
  "cas_raise weak now cell 0 = (0, cell, if cell < now then Inl Busy else Inr ())"
| "cas_raise weak now cell (Suc r) =
     (if cell < now then if weak (Suc r) then (r, now, Inr ()) else cas_raise weak now cell r
      else (Suc r, cell, Inr ()))"

definition touch :: "(nat \<Rightarrow> bool) \<Rightarrow> nat \<Rightarrow> nat \<Rightarrow> call \<Rightarrow> call \<times> nat \<times> (quota_error + unit)" where
  "touch weak last_seen now c =
     (case cas_raise weak now last_seen (remaining c) of (r, cell, res) \<Rightarrow> (c\<lparr>remaining := r\<rparr>, cell, res))"

section \<open>Slots\<close>

definition WRITER :: u64w where "WRITER = push_bit 63 1"
definition POISONED :: u64w where "POISONED = push_bit 62 1"
definition RETIRED :: u64w where "RETIRED = push_bit 61 1"
definition READERS :: u64w where "READERS = RETIRED - 1"

record identity =
  id_generation :: nat
  id_occupied :: bool
  id_namespace_len :: nat
  id_subject_len :: nat
  id_bytes :: bytes

record quota_slot =
  qs_gate :: u64w
  qs_identity :: identity
  qs_tat :: nat
  qs_last_seen :: nat

datatype mutex_state = MutexFree | MutexHeld | MutexPoisoned

record quota_shard =
  qd_structure :: mutex_state
  qd_watermark :: nat
  qd_slots :: "quota_slot list"

definition identity_matches :: "identity \<Rightarrow> quota_key \<Rightarrow> bool" where
  "identity_matches i key \<longleftrightarrow> id_occupied i \<and> id_namespace_len i = length (qk_namespace key) \<and>
     id_subject_len i = length (qk_subject key) \<and>
     take (id_namespace_len i) (id_bytes i) = qk_namespace key \<and>
     take (id_subject_len i) (drop (id_namespace_len i) (id_bytes i)) = qk_subject key"

text \<open>\<open>Slot::pin\<close>: the result says whether the slot is now pinned (\<open>Some(pin)\<close>) or retired.\<close>

fun pin_loop ::
    "(nat \<Rightarrow> bool) \<Rightarrow> quota_slot \<Rightarrow> nat option \<Rightarrow> nat \<Rightarrow> nat \<times> quota_slot \<times> (quota_error + bool)" where
  "pin_loop weak slot expected r =
     (let gate = qs_gate slot
      in if gate AND POISONED \<noteq> 0 then (r, slot, Inl CorruptState)
         else if gate AND RETIRED \<noteq> 0 then (r, slot, Inr False)
         else if gate AND WRITER \<noteq> 0 \<or> gate = READERS then (r, slot, Inl Busy)
         else case r of
                0 \<Rightarrow> (r, slot, Inl Busy)
              | Suc r' \<Rightarrow>
                  if weak r then
                    (if (case expected of None \<Rightarrow> False | Some generation \<Rightarrow> generation \<noteq> id_generation (qs_identity slot))
                     then (r', slot, Inl Busy)
                     else (r', slot\<lparr>qs_gate := gate + 1\<rparr>, Inr True))
                  else pin_loop weak slot expected r')"

declare pin_loop.simps [simp del]

definition slot_pin ::
    "(nat \<Rightarrow> bool) \<Rightarrow> quota_slot \<Rightarrow> nat option \<Rightarrow> call \<Rightarrow> call \<times> quota_slot \<times> (quota_error + bool)" where
  "slot_pin weak slot expected c =
     (case pin_loop weak slot expected (remaining c) of (r, slot', res) \<Rightarrow> (c\<lparr>remaining := r\<rparr>, slot', res))"

definition pin_drop :: "quota_slot \<Rightarrow> quota_slot" where
  "pin_drop slot = slot\<lparr>qs_gate := qs_gate slot - 1\<rparr>"

definition slot_reserve :: "quota_slot \<Rightarrow> call \<Rightarrow> call \<times> quota_slot \<times> (quota_error + unit)" where
  "slot_reserve slot c =
     (case budget_take c of
        (c', Inl e) \<Rightarrow> (c', slot, Inl e)
      | (c', Inr _) \<Rightarrow>
          if qs_gate slot = 0 then (c', slot\<lparr>qs_gate := WRITER\<rparr>, Inr ())
          else if qs_gate slot AND POISONED \<noteq> 0 then (c', slot, Inl CorruptState)
          else if qs_gate slot AND RETIRED \<noteq> 0 then (c', slot, Inl CapacityFull)
          else (c', slot, Inl Busy))"

text \<open>The drop of a \<open>Writer\<close> that neither published nor retired, and the two that finish.\<close>

definition writer_drop :: "bool \<Rightarrow> quota_slot \<Rightarrow> quota_slot" where
  "writer_drop dirty slot = slot\<lparr>qs_gate := (if dirty then POISONED else 0)\<rparr>"

definition writer_retire :: "quota_slot \<Rightarrow> quota_slot" where
  "writer_retire slot = slot\<lparr>qs_gate := RETIRED\<rparr>"

definition writer_install :: "quota_slot \<Rightarrow> nat \<Rightarrow> quota_key \<Rightarrow> nat \<Rightarrow> quota_slot" where
  "writer_install slot generation key tat =
     (let old = id_bytes (qs_identity slot); n = length (qk_namespace key); len = n + length (qk_subject key);
          bytes = qk_namespace key @ qk_subject key @ drop len old
      in slot\<lparr>qs_gate := 0,
           qs_identity := \<lparr>id_generation = generation, id_occupied = True, id_namespace_len = n,
             id_subject_len = length (qk_subject key), id_bytes = bytes\<rparr>,
           qs_tat := tat\<rparr>)"

section \<open>Admission\<close>

record quota_table =
  qt_retention :: retention
  qt_geometry :: geometry
  qt_policy :: policy
  qt_cas_budget :: nat
  qt_algorithm :: gcra
  qt_shards :: "quota_shard list"

definition set_slot :: "quota_shard \<Rightarrow> nat \<Rightarrow> quota_slot \<Rightarrow> quota_shard" where
  "set_slot sh i slot = sh\<lparr>qd_slots := (qd_slots sh)[i := slot]\<rparr>"

definition per_shard :: "geometry \<Rightarrow> nat" where
  "per_shard geo = g_slots geo div g_shards geo"

definition location :: "(nat \<Rightarrow> quota_key \<Rightarrow> nat) \<Rightarrow> geometry \<Rightarrow> quota_key \<Rightarrow> nat \<times> nat" where
  "location hash geo key = (hash 0 key mod g_shards geo, hash 1 key mod per_shard geo)"

definition sample ::
    "(nat \<Rightarrow> bool) \<Rightarrow> (nat \<Rightarrow> quota_error + nat) \<Rightarrow> gcra \<Rightarrow> quota_shard \<Rightarrow> call
      \<Rightarrow> call \<times> quota_shard \<times> (quota_error + nat)" where
  "sample weak clk g sh c =
     (let c1 = c\<lparr>reads := reads c + 1\<rparr>
      in case clk (reads c) of
           Inl e \<Rightarrow> (c1, sh, Inl e)
         | Inr now \<Rightarrow>
             if now < qd_watermark sh then (c1, sh, Inl ClockWentBackwards)
             else case scale g now of
                    Inl e \<Rightarrow> (c1, sh, Inl e)
                  | Inr scaled \<Rightarrow>
                      (case cas_raise weak now (qd_watermark sh) (remaining c1) of
                         (r, mark, Inl e) \<Rightarrow> (c1\<lparr>remaining := r\<rparr>, sh\<lparr>qd_watermark := mark\<rparr>, Inl e)
                       | (r, mark, Inr _) \<Rightarrow> (c1\<lparr>remaining := r\<rparr>, sh\<lparr>qd_watermark := mark\<rparr>, Inr scaled)))"

text \<open>The recency update of \<open>consume\<close>, made only by guards.\<close>

definition touch_slot ::
    "(nat \<Rightarrow> bool) \<Rightarrow> retention \<Rightarrow> quota_shard \<Rightarrow> nat \<Rightarrow> nat \<Rightarrow> call \<Rightarrow> call \<times> quota_shard \<times> (quota_error + unit)" where
  "touch_slot weak ret sh i now c =
     (if ret = Guard then
        case touch weak (qs_last_seen (qd_slots sh ! i)) now c of
          (c', seen, res) \<Rightarrow> (c', set_slot sh i ((qd_slots sh ! i)\<lparr>qs_last_seen := seen\<rparr>), res)
      else (c, sh, Inr ()))"

definition unpin :: "quota_shard \<Rightarrow> nat \<Rightarrow> quota_shard" where
  "unpin sh i = set_slot sh i (pin_drop (qd_slots sh ! i))"

lemma cas_raise_remaining: "fst (cas_raise weak now cell r) \<le> r"
  by (induction weak now cell r rule: cas_raise.induct) auto

lemma sample_remaining: "remaining (fst (sample weak clk g sh c)) \<le> remaining c"
  using cas_raise_remaining [of weak _ "qd_watermark sh" "remaining c"]
  by (auto simp: sample_def Let_def split: sum.splits prod.splits)
     (metis fst_conv)+

lemma touch_remaining: "remaining (fst (touch_slot weak ret sh i now c)) \<le> remaining c"
  using cas_raise_remaining [of weak now "qs_last_seen (qd_slots sh ! i)" "remaining c"]
  by (auto simp: touch_slot_def touch_def split: prod.splits)

lemma sample_le: "(c1, r) = sample weak clk g sh c \<Longrightarrow> remaining c1 \<le> remaining c"
  using sample_remaining [of weak clk g sh c] by (metis fst_conv)

lemma touch_le: "(c1, r) = touch_slot weak ret sh i now c \<Longrightarrow> remaining c1 \<le> remaining c"
  using touch_remaining [of weak ret sh i now c] by (metis fst_conv)

text \<open>
  \<open>consume\<close> on a pinned slot: the loop reads the arrival time before it samples the clock, and every
  way out drops the pin.
\<close>

function consume ::
    "(nat \<Rightarrow> bool) \<Rightarrow> (nat \<Rightarrow> quota_error + nat) \<Rightarrow> retention \<Rightarrow> gcra \<Rightarrow> prepared \<Rightarrow> nat \<Rightarrow> call \<Rightarrow> quota_shard
      \<Rightarrow> call \<times> quota_shard \<times> (quota_error + captured)" where
  "consume weak clk ret g p i c sh =
     (let previous = qs_tat (qd_slots sh ! i)
      in case sample weak clk g sh c of
           (c1, sh1, Inl e) \<Rightarrow> (c1, unpin sh1 i, Inl e)
         | (c1, sh1, Inr now) \<Rightarrow>
             (case touch_slot weak ret sh1 i now c1 of
                (c2, sh2, Inl e) \<Rightarrow> (c2, unpin sh2 i, Inl e)
              | (c2, sh2, Inr _) \<Rightarrow>
                  (case evaluate p now (Some previous) of
                     Inl e \<Rightarrow> (c2, unpin sh2 i, Inl e)
                   | Inr (OLimited debt) \<Rightarrow>
                       (c2, unpin sh2 i,
                        case retry_after g debt of Inl e \<Rightarrow> Inl e | Inr d \<Rightarrow> Inr (CapLimited d))
                   | Inr (OAllowed tat) \<Rightarrow>
                       (case remaining c2 of
                          0 \<Rightarrow> (c2, unpin sh2 i, Inl Busy)
                        | Suc r \<Rightarrow>
                            if weak (Suc r)
                            then (c2\<lparr>remaining := r\<rparr>,
                                  unpin (set_slot sh2 i ((qd_slots sh2 ! i)\<lparr>qs_tat := tat\<rparr>)) i,
                                  Inr (CapAllowed now tat))
                            else consume weak clk ret g p i (c2\<lparr>remaining := r\<rparr>) sh2))))"
  by pat_completeness auto
termination
proof (relation "measure (\<lambda>(weak, clk, ret, g, p, i, c, sh). remaining c)", goal_cases)
  case 2
  then show ?case by (auto dest!: sample_le touch_le)
qed simp

declare consume.simps [simp del]

definition probe_next :: "quota_shard \<Rightarrow> nat \<Rightarrow> nat" where
  "probe_next sh index = (if index + 1 = length (qd_slots sh) then 0 else index + 1)"

text \<open>The optimistic pass over the probe window; \<open>Some i\<close> is a pinned slot that matches.\<close>

fun lookup_pass ::
    "(nat \<Rightarrow> bool) \<Rightarrow> quota_key \<Rightarrow> nat \<Rightarrow> nat \<Rightarrow> call \<Rightarrow> quota_shard
      \<Rightarrow> call \<times> quota_shard \<times> (quota_error + nat option)" where
  "lookup_pass weak key 0 index c sh = (c, sh, Inr None)"
| "lookup_pass weak key (Suc n) index c sh =
     (case slot_pin weak (qd_slots sh ! index) None c of
        (c1, slot, Inl e) \<Rightarrow> (c1, set_slot sh index slot, Inl e)
      | (c1, slot, Inr False) \<Rightarrow> lookup_pass weak key n (probe_next sh index) c1 (set_slot sh index slot)
      | (c1, slot, Inr True) \<Rightarrow>
          if identity_matches (qs_identity slot) key then (c1, set_slot sh index slot, Inr (Some index))
          else lookup_pass weak key n (probe_next sh index) c1 (set_slot sh index (pin_drop slot)))"

text \<open>The second pass, under the structural hold: a match, or the candidates met.\<close>

fun select_pass ::
    "(nat \<Rightarrow> bool) \<Rightarrow> retention \<Rightarrow> quota_key \<Rightarrow> nat \<Rightarrow> nat \<Rightarrow> nat \<Rightarrow> selection \<Rightarrow> call \<Rightarrow> quota_shard
      \<Rightarrow> call \<times> quota_shard \<times> (quota_error + (nat + selection))" where
  "select_pass weak ret key now 0 index sel c sh = (c, sh, Inr (Inr sel))"
| "select_pass weak ret key now (Suc n) index sel c sh =
     (case slot_pin weak (qd_slots sh ! index) None c of
        (c1, slot, Inl e) \<Rightarrow> (c1, set_slot sh index slot, Inl e)
      | (c1, slot, Inr False) \<Rightarrow>
          select_pass weak ret key now n (probe_next sh index) sel c1 (set_slot sh index slot)
      | (c1, slot, Inr True) \<Rightarrow>
          if identity_matches (qs_identity slot) key then (c1, set_slot sh index slot, Inr (Inl index))
          else
            let tat = qs_tat slot; seen = (if ret = Guard then qs_last_seen slot else 0);
                sel' = selection_consider sel index (id_generation (qs_identity slot))
                         (\<not> id_occupied (qs_identity slot) \<or> tat \<le> now) \<lparr>ob_tat = tat, ob_seen = seen\<rparr>
            in select_pass weak ret key now n (probe_next sh index) sel' c1 (set_slot sh index (pin_drop slot)))"

text \<open>The checks of \<open>install\<close> on an occupied candidate after it has been reserved.\<close>

definition still_replaceable :: "retention \<Rightarrow> candidate \<Rightarrow> quota_slot \<Rightarrow> nat \<Rightarrow> bool" where
  "still_replaceable ret cand slot now =
     (if id_occupied (qs_identity slot) then
        case ca_observed cand of
          Some ob \<Rightarrow> if ret = Guard then qs_tat slot = ob_tat ob \<and> qs_last_seen slot = ob_seen ob
                     else qs_tat slot \<le> now
        | None \<Rightarrow> qs_tat slot \<le> now
      else True)"

text \<open>
  The part of \<open>install\<close> that works on the reserved slot at a sampled time: the revalidation, the next
  generation or retirement, and the first charge. Every early return drops the clean writer.
\<close>

definition install_reserved ::
    "retention \<Rightarrow> candidate \<Rightarrow> quota_key \<Rightarrow> prepared \<Rightarrow> nat \<Rightarrow> quota_slot \<Rightarrow> quota_slot \<times> (quota_error + captured)" where
  "install_reserved ret cand key p now w =
     (if \<not> still_replaceable ret cand w now then (writer_drop False w, Inl Busy)
      else case checked_add u64_max (id_generation (qs_identity w)) 1 of
             None \<Rightarrow> (writer_retire w, Inl CapacityFull)
           | Some generation \<Rightarrow>
               (case evaluate p now None of
                  Inl e \<Rightarrow> (writer_drop False w, Inl e)
                | Inr (OLimited owed) \<Rightarrow> (writer_drop False w, Inl CorruptState)
                | Inr (OAllowed tat) \<Rightarrow>
                    let w' = (if ret = Guard then w\<lparr>qs_last_seen := now\<rparr> else w)
                    in (writer_install w' generation key tat, Inr (CapAllowed now tat))))"

definition quota_install ::
    "(nat \<Rightarrow> bool) \<Rightarrow> (nat \<Rightarrow> quota_error + nat) \<Rightarrow> retention \<Rightarrow> gcra \<Rightarrow> candidate \<Rightarrow> quota_key \<Rightarrow> prepared
      \<Rightarrow> call \<Rightarrow> quota_shard \<Rightarrow> call \<times> quota_shard \<times> (quota_error + captured)" where
  "quota_install weak clk ret g cand key p c sh =
     (let i = ca_index cand
      in case slot_reserve (qd_slots sh ! i) c of
           (c1, slot, Inl e) \<Rightarrow> (c1, set_slot sh i slot, Inl e)
         | (c1, w, Inr _) \<Rightarrow>
             let sh1 = set_slot sh i w
             in if id_generation (qs_identity w) \<noteq> ca_generation cand
                then (c1, set_slot sh1 i (writer_drop False w), Inl Busy)
                else case sample weak clk g sh1 c1 of
                       (c2, sh2, Inl e) \<Rightarrow> (c2, set_slot sh2 i (writer_drop False w), Inl e)
                     | (c2, sh2, Inr now) \<Rightarrow>
                         (case install_reserved ret cand key p now w of
                            (slot, res) \<Rightarrow> (c2, set_slot sh2 i slot, res)))"

text \<open>
  \<open>admit\<close> on the shard of the key. The structural hold is taken and given back inside the call, so
  only its state at the call matters here.
\<close>

definition admit_shard ::
    "(nat \<Rightarrow> bool) \<Rightarrow> (nat \<Rightarrow> quota_error + nat) \<Rightarrow> retention \<Rightarrow> gcra \<Rightarrow> nat \<Rightarrow> quota_key \<Rightarrow> prepared \<Rightarrow> nat \<Rightarrow> call
      \<Rightarrow> quota_shard \<Rightarrow> call \<times> quota_shard \<times> (quota_error + captured)" where
  "admit_shard weak clk ret g probes key p start c sh =
     (if qd_structure sh = MutexPoisoned then (c, sh, Inl CorruptState)
      else case lookup_pass weak key probes start c sh of
             (c1, sh1, Inl e) \<Rightarrow> (c1, sh1, Inl e)
           | (c1, sh1, Inr (Some i)) \<Rightarrow> consume weak clk ret g p i c1 sh1
           | (c1, sh1, Inr None) \<Rightarrow>
               if qd_structure sh1 = MutexHeld then (c1, sh1, Inl Busy)
               else case sample weak clk g sh1 c1 of
                      (c2, sh2, Inl e) \<Rightarrow> (c2, sh2, Inl e)
                    | (c2, sh2, Inr now) \<Rightarrow>
                        (case select_pass weak ret key now probes start (selection_new ret) c2 sh2 of
                           (c3, sh3, Inl e) \<Rightarrow> (c3, sh3, Inl e)
                         | (c3, sh3, Inr (Inl i)) \<Rightarrow> consume weak clk ret g p i c3 sh3
                         | (c3, sh3, Inr (Inr sel)) \<Rightarrow>
                             (case selection_finish sel of
                                Inl e \<Rightarrow> (c3, sh3, Inl e)
                              | Inr cand \<Rightarrow> quota_install weak clk ret g cand key p c3 sh3)))"

definition quota_admit ::
    "(nat \<Rightarrow> bool) \<Rightarrow> (nat \<Rightarrow> quota_error + nat) \<Rightarrow> (nat \<Rightarrow> quota_key \<Rightarrow> nat) \<Rightarrow> quota_table \<Rightarrow> quota_key \<Rightarrow> nat
      \<Rightarrow> quota_table \<times> (quota_error + captured)" where
  "quota_admit weak clk hash t key cost =
     (case checked_add u64_max (length (qk_namespace key)) (length (qk_subject key)) of
        None \<Rightarrow> (t, Inl QKeyTooLarge)
      | Some len \<Rightarrow>
          if len > g_key_bytes (qt_geometry t) then (t, Inl QKeyTooLarge)
          else case prepare (qt_algorithm t) cost of
                 Inl e \<Rightarrow> (t, Inl e)
               | Inr p \<Rightarrow>
                   (case location hash (qt_geometry t) key of
                      (index, start) \<Rightarrow>
                        (case admit_shard weak clk (qt_retention t) (qt_algorithm t) (g_probes (qt_geometry t)) key p
                                start \<lparr>remaining = qt_cas_budget t, reads = 0\<rparr> (qt_shards t ! index) of
                           (c, sh, res) \<Rightarrow> (t\<lparr>qt_shards := (qt_shards t)[index := sh]\<rparr>, res))))"

definition try_consume ::
    "(nat \<Rightarrow> bool) \<Rightarrow> (nat \<Rightarrow> quota_error + nat) \<Rightarrow> (nat \<Rightarrow> quota_key \<Rightarrow> nat) \<Rightarrow> quota_table \<Rightarrow> quota_key \<Rightarrow> nat
      \<Rightarrow> quota_table \<times> (quota_error + decision)" where
  "try_consume weak clk hash t key cost =
     (case quota_admit weak clk hash t key cost of
        (t', Inl e) \<Rightarrow> (t', Inl e) | (t', Inr cap) \<Rightarrow> (t', Inr (captured_decision cap)))"

definition try_consume_with_snapshot ::
    "(nat \<Rightarrow> bool) \<Rightarrow> (nat \<Rightarrow> quota_error + nat) \<Rightarrow> (nat \<Rightarrow> quota_key \<Rightarrow> nat) \<Rightarrow> quota_table \<Rightarrow> quota_key \<Rightarrow> nat
      \<Rightarrow> quota_table \<times> (quota_error + admission)" where
  "try_consume_with_snapshot weak clk hash t key cost =
     (case quota_admit weak clk hash t key cost of
        (t', Inl e) \<Rightarrow> (t', Inl e) | (t', Inr cap) \<Rightarrow> (t', Inr (captured_resolve cap (qt_algorithm t))))"

section \<open>Opening\<close>

definition quota_slot_new :: "geometry \<Rightarrow> quota_slot" where
  "quota_slot_new geo = \<lparr>qs_gate = 0,
     qs_identity = \<lparr>id_generation = 0, id_occupied = False, id_namespace_len = 0, id_subject_len = 0,
       id_bytes = replicate (g_key_bytes geo) 0\<rparr>,
     qs_tat = 0, qs_last_seen = 0\<rparr>"

text \<open>
  \<open>MemoryQuota::with_retention\<close>. Whether 128-bit atomics are lock-free and whether the allocator
  serves the reservations are properties of the platform.
\<close>

definition quota_new ::
    "bool \<Rightarrow> bool \<Rightarrow> quota_error + nat \<Rightarrow> geometry \<Rightarrow> policy \<Rightarrow> nat \<Rightarrow> retention \<Rightarrow> quota_error + quota_table" where
  "quota_new lock_free alloc_ok clock_now geo p cas_budget ret =
     (if \<not> lock_free then Inl UnsupportedAtomics
      else case gcra_new p of Inl e \<Rightarrow> Inl e
      | Inr g \<Rightarrow>
          (case clock_now of Inl e \<Rightarrow> Inl e
           | Inr now \<Rightarrow>
               (case prepare g (p_burst p) of Inl e \<Rightarrow> Inl e
                | Inr pr \<Rightarrow>
                    (case scale g now of Inl e \<Rightarrow> Inl e
                     | Inr scaled \<Rightarrow>
                         (case evaluate pr scaled None of Inl e \<Rightarrow> Inl e
                          | Inr _ \<Rightarrow>
                              if checked_mul u64_max (g_slots geo) (g_key_bytes geo) = None then Inl InvalidGeometry
                              else if \<not> alloc_ok then Inl AllocationFailed
                              else Inr \<lparr>qt_retention = ret, qt_geometry = geo, qt_policy = p,
                                     qt_cas_budget = cas_budget, qt_algorithm = g,
                                     qt_shards = replicate (g_shards geo)
                                       \<lparr>qd_structure = MutexFree, qd_watermark = now,
                                        qd_slots = replicate (per_shard geo) (quota_slot_new geo)\<rparr>\<rparr>)))))"

end
