(* ===== verification/Quota_Store.thy ===== *)
theory Quota_Store
  imports Quota_Memory
begin

text \<open>
  What an admission does to the store. A table stands for a map from keys to arrival times: the
  slot of the key's probe window whose identity matches. The table invariant keeps every key in one
  slot of its own window; each pass, the consumption of a pinned slot and the installation of a new
  identity get one lemma over the view of a shard (gates, identities, arrival times), and the
  theorems put them together: a strict store changes exactly the key it admits and forgets another
  key only when its debt is paid off, so its grants stay inside the rate envelope.
\<close>

section \<open>Views and the invariant\<close>

type_synonym slot_view = "u64w \<times> identity \<times> nat"

definition slot_view :: "quota_slot \<Rightarrow> slot_view" where
  "slot_view s = (qs_gate s, qs_identity s, qs_tat s)"

definition shard_view :: "quota_shard \<Rightarrow> slot_view list" where
  "shard_view sh = map slot_view (qd_slots sh)"

definition view_holds :: "slot_view \<Rightarrow> quota_key \<Rightarrow> bool" where
  "view_holds v key \<longleftrightarrow> (case v of (gate, i, tat) \<Rightarrow> gate = 0 \<and> identity_matches i key)"

fun window :: "nat \<Rightarrow> nat \<Rightarrow> nat \<Rightarrow> nat list" where
  "window len 0 index = []"
| "window len (Suc n) index = index # window len n (if index + 1 = len then 0 else index + 1)"

definition view_debt :: "slot_view list \<Rightarrow> nat list \<Rightarrow> quota_key \<Rightarrow> nat option" where
  "view_debt vs is key = map_option (\<lambda>i. snd (snd (vs ! i))) (find (\<lambda>i. view_holds (vs ! i) key) is)"

definition view_quiet :: "slot_view \<Rightarrow> bool" where
  "view_quiet v \<longleftrightarrow> fst v = 0 \<or> fst v = RETIRED"

text \<open>
  The invariant of a shard between calls: no pins, writers or poisoned slots; buffers of the declared
  size; every visible key belongs to this shard and lies in its window, once.
\<close>

definition view_ok :: "(quota_key \<Rightarrow> nat \<times> nat) \<Rightarrow> geometry \<Rightarrow> nat \<Rightarrow> slot_view list \<Rightarrow> bool" where
  "view_ok loc geo idx vs \<longleftrightarrow> length vs = per_shard geo \<and>
     (\<forall>v\<in>set vs. view_quiet v \<and> length (id_bytes (fst (snd v))) = g_key_bytes geo \<and>
        id_generation (fst (snd v)) \<le> u64_max) \<and>
     (\<forall>key i. i < length vs \<longrightarrow> view_holds (vs ! i) key \<longrightarrow>
        fst (loc key) = idx \<and> i \<in> set (window (length vs) (g_probes geo) (snd (loc key))) \<and>
        (\<forall>j<length vs. view_holds (vs ! j) key \<longrightarrow> j = i))"

definition table_ok :: "(nat \<Rightarrow> quota_key \<Rightarrow> nat) \<Rightarrow> quota_table \<Rightarrow> bool" where
  "table_ok hash t \<longleftrightarrow> gcra_ok (qt_algorithm t) \<and> length (qt_shards t) = g_shards (qt_geometry t) \<and>
     0 < g_shards (qt_geometry t) \<and> 0 < g_probes (qt_geometry t) \<and>
     g_probes (qt_geometry t) \<le> per_shard (qt_geometry t) \<and>
     (\<forall>i<length (qt_shards t).
        view_ok (location hash (qt_geometry t)) (qt_geometry t) i (shard_view (qt_shards t ! i)))"

definition debt :: "(nat \<Rightarrow> quota_key \<Rightarrow> nat) \<Rightarrow> quota_table \<Rightarrow> quota_key \<Rightarrow> nat option" where
  "debt hash t key =
     (case location hash (qt_geometry t) key of
        (index, start) \<Rightarrow>
          view_debt (shard_view (qt_shards t ! index))
            (window (per_shard (qt_geometry t)) (g_probes (qt_geometry t)) start) key)"

section \<open>Slots\<close>

lemma RETIRED_gate [simp]: "RETIRED \<noteq> 0" "RETIRED AND POISONED = 0"
  unfolding RETIRED_def POISONED_def by (simp_all add: push_bit_of_1)

lemma READERS_nonzero [simp]: "READERS \<noteq> 0" "0 \<noteq> READERS"
  unfolding READERS_def RETIRED_def by (simp_all add: push_bit_of_1)

declare window.simps(2) [simp del]

lemma window_probe:
  "window (length (qd_slots sh)) (Suc n) index = index # window (length (qd_slots sh)) n (probe_next sh index)"
  by (simp add: probe_next_def window.simps(2))

lemma window_bound: "index < len \<Longrightarrow> i \<in> set (window len n index) \<Longrightarrow> i < len"
proof (induction n arbitrary: index)
  case (Suc n)
  let ?following = "if index + 1 = len then 0 else index + 1"
  have "?following < len" using Suc.prems(1) by auto
  note IH = Suc.IH [OF this]
  show ?case
  proof (cases "i = index")
    case False
    then have "i \<in> set (window len n ?following)" using Suc.prems(2) unfolding window.simps(2) by simp
    then show ?thesis by (rule IH)
  qed (use Suc.prems(1) in simp)
qed simp

lemma identity_matches_inj:
  assumes "identity_matches i k1" "identity_matches i k2"
  shows "k1 = k2"
proof -
  have "qk_namespace k = take (id_namespace_len i) (id_bytes i)"
    "qk_subject k = take (id_subject_len i) (drop (id_namespace_len i) (id_bytes i))"
    if "identity_matches i k" for k
    using that unfolding identity_matches_def by metis+
  then show ?thesis using assms by (metis quota_key.equality unit.exhaust)
qed

lemma view_holds_inj: "view_holds v k1 \<Longrightarrow> view_holds v k2 \<Longrightarrow> k1 = k2"
  by (auto simp: view_holds_def intro: identity_matches_inj split: prod.splits)

lemma pin_loop_retired: "qs_gate slot = RETIRED \<Longrightarrow> pin_loop weak slot None r = (r, slot, Inr False)"
  by (subst pin_loop.simps) simp

text \<open>Evaluation of an open gate needs no bit tests.\<close>

lemma pin_loop_code [code]:
  "pin_loop weak slot expected r =
     (if qs_gate slot = 0
      then (case r of
              0 \<Rightarrow> (r, slot, Inl Busy)
            | Suc r' \<Rightarrow>
                if weak r then
                  (if (case expected of None \<Rightarrow> False | Some generation \<Rightarrow> generation \<noteq> id_generation (qs_identity slot))
                   then (r', slot, Inl Busy)
                   else (r', slot\<lparr>qs_gate := 1\<rparr>, Inr True))
                else pin_loop weak slot expected r')
      else if qs_gate slot AND POISONED \<noteq> 0 then (r, slot, Inl CorruptState)
      else if qs_gate slot AND RETIRED \<noteq> 0 then (r, slot, Inr False)
      else if qs_gate slot AND WRITER \<noteq> 0 \<or> qs_gate slot = READERS then (r, slot, Inl Busy)
      else (case r of
              0 \<Rightarrow> (r, slot, Inl Busy)
            | Suc r' \<Rightarrow>
                if weak r then
                  (if (case expected of None \<Rightarrow> False | Some generation \<Rightarrow> generation \<noteq> id_generation (qs_identity slot))
                   then (r', slot, Inl Busy)
                   else (r', slot\<lparr>qs_gate := qs_gate slot + 1\<rparr>, Inr True))
                else pin_loop weak slot expected r'))"
  by (subst pin_loop.simps) (simp add: Let_def split: nat.split option.split)

lemma pin_drop_code [code]:
  "pin_drop slot = (if qs_gate slot = 1 then slot\<lparr>qs_gate := 0\<rparr> else slot\<lparr>qs_gate := qs_gate slot - 1\<rparr>)"
  by (simp add: pin_drop_def)

lemma pin_loop_open:
  "qs_gate slot = 0 \<Longrightarrow> pin_loop weak slot None r = (r', slot', res) \<Longrightarrow>
     res = Inl Busy \<and> slot' = slot \<or> res = Inr True \<and> slot' = slot\<lparr>qs_gate := 1\<rparr>"
proof (induction r arbitrary: r' slot' res)
  case 0
  then show ?case by (subst (asm) pin_loop.simps) auto
next
  case (Suc r)
  then show ?case by (subst (asm) (2) pin_loop.simps) (auto split: if_splits)
qed

lemma slot_pin_retired: "qs_gate slot = RETIRED \<Longrightarrow> slot_pin weak slot None c = (c, slot, Inr False)"
  by (simp add: slot_pin_def pin_loop_retired)

lemma slot_pin_open:
  assumes "qs_gate slot = 0" "slot_pin weak slot None c = (c', slot', res)"
  shows "res = Inl Busy \<and> slot' = slot \<or> res = Inr True \<and> slot' = slot\<lparr>qs_gate := 1\<rparr>"
  using assms pin_loop_open [of slot weak "remaining c"]
  by (auto simp: slot_pin_def split: prod.splits)

lemma slot_pin_reads: "slot_pin weak slot e c = (c', slot', res) \<Longrightarrow> reads c' = reads c"
  by (auto simp: slot_pin_def split: prod.splits)

lemma pin_drop_open [simp]: "qs_gate slot = 0 \<Longrightarrow> pin_drop (slot\<lparr>qs_gate := 1\<rparr>) = slot"
  by (simp add: pin_drop_def)

lemma set_slot_simps [simp]:
  "qd_slots (set_slot sh i s) = (qd_slots sh)[i := s]" "qd_watermark (set_slot sh i s) = qd_watermark sh"
  "qd_structure (set_slot sh i s) = qd_structure sh"
  "set_slot (set_slot sh i s) i s' = set_slot sh i s'"
  "set_slot (sh\<lparr>qd_watermark := m\<rparr>) i s = (set_slot sh i s)\<lparr>qd_watermark := m\<rparr>"
  by (simp_all add: set_slot_def)

lemma set_slot_same [simp]: "set_slot sh i (qd_slots sh ! i) = sh"
  by (simp add: set_slot_def)

lemma shard_view_set: "shard_view (set_slot sh i s) = (shard_view sh)[i := slot_view s]"
  by (simp add: shard_view_def map_update)

lemma shard_view_simps [simp]:
  "shard_view (sh\<lparr>qd_watermark := m\<rparr>) = shard_view sh" "length (shard_view sh) = length (qd_slots sh)"
  "i < length (qd_slots sh) \<Longrightarrow> shard_view sh ! i = slot_view (qd_slots sh ! i)"
  by (simp_all add: shard_view_def)

text \<open>A shard between calls.\<close>

definition quiet :: "quota_shard \<Rightarrow> bool" where
  "quiet sh \<longleftrightarrow> (\<forall>s\<in>set (qd_slots sh). qs_gate s = 0 \<or> qs_gate s = RETIRED)"

lemma quiet_at: "quiet sh \<Longrightarrow> i < length (qd_slots sh) \<Longrightarrow> qs_gate (qd_slots sh ! i) = 0 \<or> qs_gate (qd_slots sh ! i) = RETIRED"
  by (simp add: quiet_def)

definition visible :: "quota_shard \<Rightarrow> nat \<Rightarrow> quota_key \<Rightarrow> bool" where
  "visible sh i key \<longleftrightarrow> qs_gate (qd_slots sh ! i) = 0 \<and> identity_matches (qs_identity (qd_slots sh ! i)) key"

definition pinned :: "quota_shard \<Rightarrow> nat \<Rightarrow> quota_shard" where
  "pinned sh i = set_slot sh i ((qd_slots sh ! i)\<lparr>qs_gate := 1\<rparr>)"

section \<open>The passes\<close>

lemma lookup_pass_spec:
  assumes "quiet sh" "index < length (qd_slots sh)" "lookup_pass weak key n index c sh = (c', sh', r)"
  shows "r = Inl Busy \<and> sh' = sh \<or>
    r = Inr None \<and> sh' = sh \<and> (\<forall>i\<in>set (window (length (qd_slots sh)) n index). \<not> visible sh i key) \<or>
    (\<exists>i\<in>set (window (length (qd_slots sh)) n index). r = Inr (Some i) \<and> visible sh i key \<and> sh' = pinned sh i)"
  using assms(2,3)
proof (induction n arbitrary: index c)
  case (Suc n)
  have next_bound: "probe_next sh index < length (qd_slots sh)" using Suc.prems(1) by (auto simp: probe_next_def)
  note IH = Suc.IH [OF next_bound]
  from quiet_at [OF assms(1) Suc.prems(1)] show ?case
  proof
    assume gate: "qs_gate (qd_slots sh ! index) = RETIRED"
    then have "\<not> visible sh index key" by (simp add: visible_def)
    then show ?thesis using IH [of c] Suc.prems(2) gate by (auto simp: slot_pin_retired window_probe)
  next
    assume gate: "qs_gate (qd_slots sh ! index) = 0"
    obtain c1 slot res where pin: "slot_pin weak (qd_slots sh ! index) None c = (c1, slot, res)"
      by (cases "slot_pin weak (qd_slots sh ! index) None c")
    from slot_pin_open [OF gate pin] consider
        "res = Inl Busy" "slot = qd_slots sh ! index"
      | "res = Inr True" "slot = (qd_slots sh ! index)\<lparr>qs_gate := 1\<rparr>" by blast
    then show ?thesis
    proof cases
      case 1
      then show ?thesis using Suc.prems(2) pin by simp
    next
      case 2
      then show ?thesis
        using IH [of c1] Suc.prems pin gate by (auto simp: window_probe visible_def pinned_def split: if_splits)
    qed
  qed
qed simp

lemma cas_raise_cell:
  "cas_raise weak now cell r = (r', cell', res) \<Longrightarrow>
     (case res of Inl e \<Rightarrow> e = Busy \<and> cell' = cell | Inr _ \<Rightarrow> cell' = max cell now)"
  by (induction weak now cell r rule: cas_raise.induct) (auto split: if_splits)

text \<open>A sample is a clock reading not below the watermark, and raises the watermark to it.\<close>

lemma sample_spec:
  assumes "sample weak clk g sh c = (c', sh', r)"
  shows "(\<exists>e. r = Inl e \<and> sh' = sh) \<or>
    (\<exists>now. clk (reads c) = Inr now \<and> r = Inr (now * gc_units g) \<and> qd_watermark sh \<le> now \<and>
       sh' = sh\<lparr>qd_watermark := now\<rparr>)"
proof (cases "clk (reads c)")
  case (Inl e)
  then have "r = Inl e" "sh' = sh" using assms unfolding sample_def Let_def Inl by simp_all
  then show ?thesis by blast
next
  case (Inr now)
  obtain r' mark res where cas: "cas_raise weak now (qd_watermark sh) (remaining c) = (r', mark, res)"
    by (cases "cas_raise weak now (qd_watermark sh) (remaining c)")
  show ?thesis
    using assms Inr cas cas_raise_cell [OF cas]
    by (auto simp: sample_def Let_def scale_def max_def split: if_splits option.splits sum.splits)
qed

text \<open>What the second pass knows of its candidates.\<close>

definition candidate_ok :: "quota_shard \<Rightarrow> retention \<Rightarrow> nat \<Rightarrow> nat list \<Rightarrow> candidate \<Rightarrow> bool" where
  "candidate_ok sh ret now is cand \<longleftrightarrow> ca_index cand \<in> set is \<and>
     (let slot = qd_slots sh ! ca_index cand
      in qs_gate slot = 0 \<and> id_generation (qs_identity slot) = ca_generation cand \<and>
         (case ca_observed cand of
            None \<Rightarrow> \<not> id_occupied (qs_identity slot) \<or> qs_tat slot \<le> now
          | Some ob \<Rightarrow> ret = Guard \<and> ob = \<lparr>ob_tat = qs_tat slot, ob_seen = qs_last_seen slot\<rparr>))"

definition selection_ok :: "quota_shard \<Rightarrow> retention \<Rightarrow> nat \<Rightarrow> nat list \<Rightarrow> selection \<Rightarrow> bool" where
  "selection_ok sh ret now is sel \<longleftrightarrow> se_retention sel = ret \<and>
     (\<forall>cand. se_replenished sel = Some cand \<or> se_cold sel = Some cand \<longrightarrow> candidate_ok sh ret now is cand)"

lemma selection_new_ok [simp]: "selection_ok sh ret now is (selection_new ret)"
  by (simp add: selection_ok_def selection_new_def)

lemma selection_finish_ok:
  "selection_ok sh ret now is sel \<Longrightarrow> selection_finish sel = Inr cand \<Longrightarrow> candidate_ok sh ret now is cand"
  by (auto simp: selection_ok_def selection_finish_def split: option.splits)

lemma selection_finish_error: "selection_finish sel = Inl e \<Longrightarrow> e = CapacityFull"
  by (auto simp: selection_finish_def split: option.splits)

lemma selection_consider_ok:
  assumes "selection_ok sh ret now is sel" "i \<in> set is" "qs_gate (qd_slots sh ! i) = 0"
  shows "selection_ok sh ret now is
    (selection_consider sel i (id_generation (qs_identity (qd_slots sh ! i)))
       (\<not> id_occupied (qs_identity (qd_slots sh ! i)) \<or> qs_tat (qd_slots sh ! i) \<le> now)
       \<lparr>ob_tat = qs_tat (qd_slots sh ! i), ob_seen = if ret = Guard then qs_last_seen (qd_slots sh ! i) else 0\<rparr>)"
  using assms
  by (auto simp: selection_ok_def selection_consider_def candidate_ok_def Let_def split: if_splits)

lemma select_pass_spec:
  assumes "quiet sh" "index < length (qd_slots sh)"
    and "select_pass weak ret key now n index sel c sh = (c', sh', r)"
    and "selection_ok sh ret now is sel" "set (window (length (qd_slots sh)) n index) \<subseteq> set is"
  shows "r = Inl Busy \<and> sh' = sh \<or>
    (\<exists>sel'. r = Inr (Inr sel') \<and> sh' = sh \<and> selection_ok sh ret now is sel') \<or>
    (\<exists>i\<in>set (window (length (qd_slots sh)) n index). r = Inr (Inl i) \<and> visible sh i key \<and> sh' = pinned sh i)"
  using assms(2-)
proof (induction n arbitrary: index c sel)
  case (Suc n)
  have next_bound: "probe_next sh index < length (qd_slots sh)" using Suc.prems(1) by (auto simp: probe_next_def)
  have sub: "set (window (length (qd_slots sh)) n (probe_next sh index)) \<subseteq> set is" and here: "index \<in> set is"
    using Suc.prems(4) by (auto simp: window_probe)
  note IH = Suc.IH [OF next_bound]
  from quiet_at [OF assms(1) Suc.prems(1)] show ?case
  proof
    assume gate: "qs_gate (qd_slots sh ! index) = RETIRED"
    then show ?thesis using IH [of sel c] Suc.prems(2,3) sub by (auto simp: slot_pin_retired window_probe)
  next
    assume gate: "qs_gate (qd_slots sh ! index) = 0"
    obtain c1 slot res where pin: "slot_pin weak (qd_slots sh ! index) None c = (c1, slot, res)"
      by (cases "slot_pin weak (qd_slots sh ! index) None c")
    from slot_pin_open [OF gate pin] consider
        "res = Inl Busy" "slot = qd_slots sh ! index"
      | "res = Inr True" "slot = (qd_slots sh ! index)\<lparr>qs_gate := 1\<rparr>" by blast
    then show ?thesis
    proof cases
      case 1
      then show ?thesis using Suc.prems(2) pin by simp
    next
      case 2
      note ok = selection_consider_ok [OF Suc.prems(3) here gate]
      show ?thesis
      proof (cases "identity_matches (qs_identity (qd_slots sh ! index)) key")
        case True
        then show ?thesis using Suc.prems(2) pin gate 2 by (auto simp: window_probe visible_def pinned_def)
      next
        case False
        then show ?thesis
          using IH [OF _ ok sub] Suc.prems(2) pin gate 2 by (auto simp: window_probe Let_def cong: if_cong)
      qed
    qed
  qed
qed auto

section \<open>Consumption and installation\<close>

text \<open>
  How a call on one slot ends: the slot is open again; a grant commits the arrival time that
  evaluation gives at the reading the watermark now holds, a refusal and an error commit nothing.
\<close>

definition reading :: "(nat \<Rightarrow> quota_error + nat) \<Rightarrow> nat \<Rightarrow> bool" where
  "reading clk raw \<longleftrightarrow> (\<exists>k. clk k = Inr raw)"

definition granted ::
    "(nat \<Rightarrow> quota_error + nat) \<Rightarrow> gcra \<Rightarrow> prepared \<Rightarrow> nat option \<Rightarrow> nat \<Rightarrow> captured \<Rightarrow> bool" where
  "granted clk g p previous raw cap \<longleftrightarrow> reading clk raw \<and>
     (case cap of
        CapAllowed now tat \<Rightarrow> now = raw * gc_units g \<and> evaluate p now previous = Inr (OAllowed tat)
      | CapLimited d \<Rightarrow>
          \<exists>owed. evaluate p (raw * gc_units g) previous = Inr (OLimited owed) \<and> retry_after g owed = Inr d)"

fun tat_after :: "quota_error + captured \<Rightarrow> nat \<Rightarrow> nat" where
  "tat_after (Inr (CapAllowed now tat)) previous = tat"
| "tat_after r previous = previous"

lemma touch_slot_view:
  assumes "touch_slot weak ret sh i now c = (c', sh', r)" "i < length (qd_slots sh)"
  shows "shard_view sh' = shard_view sh" "qd_watermark sh' = qd_watermark sh" "qd_structure sh' = qd_structure sh"
    "length (qd_slots sh') = length (qd_slots sh)" "qs_gate (qd_slots sh' ! i) = qs_gate (qd_slots sh ! i)"
    "qs_identity (qd_slots sh' ! i) = qs_identity (qd_slots sh ! i)" "qs_tat (qd_slots sh' ! i) = qs_tat (qd_slots sh ! i)"
proof -
  have view: "shard_view (set_slot sh i ((qd_slots sh ! i)\<lparr>qs_last_seen := x\<rparr>)) = shard_view sh" for x
  proof -
    have "shard_view (set_slot sh i ((qd_slots sh ! i)\<lparr>qs_last_seen := x\<rparr>)) = (shard_view sh)[i := shard_view sh ! i]"
      using assms(2) by (simp add: shard_view_set slot_view_def)
    then show ?thesis by simp
  qed
  show "shard_view sh' = shard_view sh" "qd_watermark sh' = qd_watermark sh" "qd_structure sh' = qd_structure sh"
    "length (qd_slots sh') = length (qd_slots sh)" "qs_gate (qd_slots sh' ! i) = qs_gate (qd_slots sh ! i)"
    "qs_identity (qd_slots sh' ! i) = qs_identity (qd_slots sh ! i)" "qs_tat (qd_slots sh' ! i) = qs_tat (qd_slots sh ! i)"
    using assms by (auto simp: touch_slot_def view split: if_splits prod.splits)
qed

lemma unpin_view:
  "i < length (qd_slots sh) \<Longrightarrow> qs_gate (qd_slots sh ! i) = 1 \<Longrightarrow>
     shard_view (unpin sh i) = (shard_view sh)[i := (0, qs_identity (qd_slots sh ! i), qs_tat (qd_slots sh ! i))]"
  by (simp add: unpin_def shard_view_set slot_view_def pin_drop_def)

lemma unpin_simps [simp]: "qd_watermark (unpin sh i) = qd_watermark sh" "qd_structure (unpin sh i) = qd_structure sh"
  by (simp_all add: unpin_def)

lemma consume_spec:
  assumes "consume weak clk ret g p i c sh = (c', sh', r)"
    and "i < length (qd_slots sh)" "qs_gate (qd_slots sh ! i) = 1"
  shows "qd_structure sh' = qd_structure sh \<and> qd_watermark sh \<le> qd_watermark sh' \<and>
    shard_view sh' = (shard_view sh)[i := (0, qs_identity (qd_slots sh ! i), tat_after r (qs_tat (qd_slots sh ! i)))] \<and>
    (\<forall>cap. r = Inr cap \<longrightarrow> granted clk g p (Some (qs_tat (qd_slots sh ! i))) (qd_watermark sh') cap)"
  using assms
proof (induction weak clk ret g p i c sh rule: consume.induct)
  case (1 weak clk ret g p i c sh)
  let ?tat = "qs_tat (qd_slots sh ! i)"
  obtain c1 sh1 r1 where s: "sample weak clk g sh c = (c1, sh1, r1)" by (cases "sample weak clk g sh c")
  from sample_spec [OF s] show ?case
  proof
    assume "\<exists>e. r1 = Inl e \<and> sh1 = sh"
    then show ?thesis using "1.prems" s by (subst (asm) consume.simps) (auto simp: unpin_view Let_def)
  next
    assume "\<exists>now. clk (reads c) = Inr now \<and> r1 = Inr (now * gc_units g) \<and> qd_watermark sh \<le> now \<and>
       sh1 = sh\<lparr>qd_watermark := now\<rparr>"
    then obtain raw where raw: "reading clk raw" "r1 = Inr (raw * gc_units g)" "qd_watermark sh \<le> raw"
      "sh1 = sh\<lparr>qd_watermark := raw\<rparr>" by (auto simp: reading_def)
    let ?now = "raw * gc_units g"
    obtain c2 sh2 r2 where t: "touch_slot weak ret sh1 i ?now c1 = (c2, sh2, r2)"
      by (cases "touch_slot weak ret sh1 i ?now c1")
    have i1: "i < length (qd_slots sh1)" using "1.prems"(2) raw by simp
    note tv = touch_slot_view [OF t i1]
    have v2: "shard_view sh2 = shard_view sh" "qd_watermark sh2 = raw" "qd_structure sh2 = qd_structure sh"
      "i < length (qd_slots sh2)" "qs_gate (qd_slots sh2 ! i) = 1"
      "qs_identity (qd_slots sh2 ! i) = qs_identity (qd_slots sh ! i)" "qs_tat (qd_slots sh2 ! i) = ?tat"
      using tv raw "1.prems" by simp_all
    have unf: "consume weak clk ret g p i c sh =
        (case r2 of Inl e \<Rightarrow> (c2, unpin sh2 i, Inl e)
         | Inr _ \<Rightarrow>
             (case evaluate p ?now (Some ?tat) of
                Inl e \<Rightarrow> (c2, unpin sh2 i, Inl e)
              | Inr (OLimited owed) \<Rightarrow>
                  (c2, unpin sh2 i, case retry_after g owed of Inl e \<Rightarrow> Inl e | Inr d \<Rightarrow> Inr (CapLimited d))
              | Inr (OAllowed tat) \<Rightarrow>
                  (case remaining c2 of
                     0 \<Rightarrow> (c2, unpin sh2 i, Inl Busy)
                   | Suc k \<Rightarrow>
                       if weak (Suc k)
                       then (c2\<lparr>remaining := k\<rparr>, unpin (set_slot sh2 i ((qd_slots sh2 ! i)\<lparr>qs_tat := tat\<rparr>)) i,
                             Inr (CapAllowed ?now tat))
                       else consume weak clk ret g p i (c2\<lparr>remaining := k\<rparr>) sh2)))"
      by (subst consume.simps) (simp add: s raw(2) t Let_def)
    show ?thesis
    proof (cases "\<exists>u tat k. r2 = Inr u \<and> evaluate p ?now (Some ?tat) = Inr (OAllowed tat) \<and> remaining c2 = Suc k \<and> \<not> weak (Suc k)")
      case True
      then obtain u tat k where again: "r2 = Inr u" "evaluate p ?now (Some ?tat) = Inr (OAllowed tat)"
        "remaining c2 = Suc k" "\<not> weak (Suc k)" by blast
      have call: "consume weak clk ret g p i (c2\<lparr>remaining := k\<rparr>) sh2 = (c', sh', r)"
        using "1.prems"(1) again unfolding unf by simp
      show ?thesis
        using "1.IH" [OF refl s [symmetric] refl raw(2) t [symmetric] refl again(1,2) refl again(3,4) call] v2 raw(3)
        by simp
    next
      case False
      then show ?thesis
        using "1.prems"(1) raw(1,3) v2 unfolding unf
        by (auto simp: unpin_view granted_def shard_view_set slot_view_def
            split: sum.splits outcome.splits nat.splits if_splits)
    qed
  qed
qed

definition replaceable :: "retention \<Rightarrow> slot_view \<Rightarrow> nat \<Rightarrow> bool" where
  "replaceable ret v now \<longleftrightarrow> (ret = Strict \<longrightarrow> id_occupied (fst (snd v)) \<longrightarrow> snd (snd v) \<le> now)"

lemma still_replaceable_view:
  assumes "still_replaceable ret cand slot now"
  shows "replaceable ret (slot_view slot) now"
  using assms by (auto simp: still_replaceable_def replaceable_def slot_view_def split: if_splits option.splits)

definition fresh_identity :: "geometry \<Rightarrow> quota_key \<Rightarrow> identity \<Rightarrow> bool" where
  "fresh_identity geo key i \<longleftrightarrow> identity_matches i key \<and> length (id_bytes i) = g_key_bytes geo \<and> id_generation i \<le> u64_max"

lemma writer_install_view:
  assumes "length (qk_namespace key) + length (qk_subject key) \<le> g_key_bytes geo"
    and "length (id_bytes (qs_identity slot)) = g_key_bytes geo" "generation \<le> u64_max"
  obtains i where "slot_view (writer_install slot generation key tat) = (0, i, tat)" "fresh_identity geo key i"
  using assms that by (simp add: writer_install_def Let_def slot_view_def fresh_identity_def identity_matches_def)

lemma slot_view_cancel [simp]: "slot_view (slot\<lparr>qs_gate := 0\<rparr>) = (0, qs_identity slot, qs_tat slot)"
  by (simp add: slot_view_def)

text \<open>
  The end of an installation: nothing changed, or a replaceable slot retired at the end of its
  generations, or a replaceable slot now carries the key with its first charge.
\<close>

definition installed ::
    "geometry \<Rightarrow> (nat \<Rightarrow> quota_error + nat) \<Rightarrow> retention \<Rightarrow> gcra \<Rightarrow> quota_key \<Rightarrow> prepared \<Rightarrow> nat \<Rightarrow> slot_view list \<Rightarrow> nat
      \<Rightarrow> slot_view list \<Rightarrow> quota_error + captured \<Rightarrow> bool" where
  "installed geo clk ret g key p i vs raw vs' r \<longleftrightarrow>
     (case r of
        Inl e \<Rightarrow> vs' = vs \<or>
          (reading clk raw \<and> replaceable ret (vs ! i) (raw * gc_units g) \<and> vs' = vs[i := (RETIRED, snd (vs ! i))])
      | Inr cap \<Rightarrow>
          granted clk g p None raw cap \<and> replaceable ret (vs ! i) (raw * gc_units g) \<and>
          (\<exists>ident now tat. cap = CapAllowed now tat \<and> fresh_identity geo key ident \<and> vs' = vs[i := (0, ident, tat)]))"

lemma install_reserved_spec:
  assumes res: "install_reserved ret cand key p (raw * gc_units g) w = (slot, r)"
    and p: "prepared_ok g p"
    and key: "length (qk_namespace key) + length (qk_subject key) \<le> g_key_bytes geo"
    and bytes: "length (id_bytes (qs_identity w)) = g_key_bytes geo"
    and i: "i < length vs" "vs ! i = (0, qs_identity w, qs_tat w)" and raw: "reading clk raw"
  shows "installed geo clk ret g key p i vs raw (vs[i := slot_view slot]) r"
proof (cases "still_replaceable ret cand w (raw * gc_units g)")
  case False
  then have "slot_view slot = vs ! i" "\<exists>e. r = Inl e" using res i by (auto simp: install_reserved_def writer_drop_def)
  then show ?thesis by (auto simp: installed_def)
next
  case repl: True
  let ?now = "raw * gc_units g" and ?gen = "id_generation (qs_identity w) + 1"
  have rep: "replaceable ret (vs ! i) ?now"
    using still_replaceable_view [OF repl] i(2) by (simp add: replaceable_def slot_view_def)
  consider "u64_max < ?gen" | "?gen \<le> u64_max" "u128_max < ?now + gc_capacity g"
    | "?gen \<le> u64_max" "?now + gc_capacity g \<le> u128_max" by linarith
  then show ?thesis
  proof cases
    case 1
    then have "slot_view slot = (RETIRED, snd (vs ! i))" "\<exists>e. r = Inl e"
      using res repl i by (auto simp: install_reserved_def checked_add_def writer_retire_def slot_view_def)
    then show ?thesis using raw rep by (auto simp: installed_def)
  next
    case 2
    then have "slot_view slot = vs ! i" "\<exists>e. r = Inl e"
      using res repl i by (auto simp: install_reserved_def checked_add_def evaluate_None [OF p] writer_drop_def)
    then show ?thesis by (auto simp: installed_def)
  next
    case 3
    let ?w = "if ret = Guard then w\<lparr>qs_last_seen := ?now\<rparr> else w"
    have "length (id_bytes (qs_identity ?w)) = g_key_bytes geo" using bytes by simp
    then obtain ident where view: "slot_view (writer_install ?w ?gen key (?now + pr_charge p)) = (0, ident, ?now + pr_charge p)"
      and fresh: "fresh_identity geo key ident" using writer_install_view [OF key _ 3(1)] by blast
    have out: "slot = writer_install ?w ?gen key (?now + pr_charge p)" "r = Inr (CapAllowed ?now (?now + pr_charge p))"
      using res repl 3 by (simp_all add: install_reserved_def checked_add_def evaluate_None [OF p] Let_def)
    show ?thesis
      unfolding out view using raw rep fresh 3(2) by (auto simp: installed_def granted_def evaluate_None [OF p])
  qed
qed

lemma install_spec:
  assumes inst: "quota_install weak clk ret g cand key p c sh = (c', sh', r)"
    and i: "ca_index cand < length (qd_slots sh)" "qs_gate (qd_slots sh ! ca_index cand) = 0"
    and p: "prepared_ok g p"
    and key: "length (qk_namespace key) + length (qk_subject key) \<le> g_key_bytes geo"
    and bytes: "length (id_bytes (qs_identity (qd_slots sh ! ca_index cand))) = g_key_bytes geo"
  shows "qd_structure sh' = qd_structure sh \<and> qd_watermark sh \<le> qd_watermark sh' \<and>
    installed geo clk ret g key p (ca_index cand) (shard_view sh) (qd_watermark sh') (shard_view sh') r"
proof (cases "remaining c")
  case 0
  then show ?thesis using inst by (auto simp: quota_install_def slot_reserve_def budget_take_def checked_sub_def installed_def)
next
  case (Suc k)
  let ?i = "ca_index cand" and ?c1 = "c\<lparr>remaining := k\<rparr>"
  let ?w = "(qd_slots sh ! ?i)\<lparr>qs_gate := WRITER\<rparr>"
  let ?sh1 = "set_slot sh ?i ?w"
  have res: "slot_reserve (qd_slots sh ! ?i) c = (?c1, ?w, Inr ())"
    using i(2) Suc by (simp add: slot_reserve_def budget_take_def checked_sub_def)
  have at: "shard_view sh ! ?i = (0, qs_identity ?w, qs_tat ?w)" using i by (simp add: slot_view_def)
  then have self: "(shard_view sh)[?i := (0, qs_identity ?w, qs_tat ?w)] = shard_view sh" using i by (metis list_update_id)
  obtain c2 sh2 r2 where s: "sample weak clk g ?sh1 ?c1 = (c2, sh2, r2)" by (cases "sample weak clk g ?sh1 ?c1")
  show ?thesis
  proof (cases "id_generation (qs_identity ?w) = ca_generation cand \<and> (\<exists>now. r2 = Inr now)")
    case False
    then show ?thesis
      using inst res s sample_spec [OF s] i self
      by (auto simp: quota_install_def Let_def writer_drop_def shard_view_set installed_def split: if_splits sum.splits)
  next
    case True
    then obtain raw where raw: "reading clk raw" "r2 = Inr (raw * gc_units g)" "qd_watermark sh \<le> raw"
      "sh2 = ?sh1\<lparr>qd_watermark := raw\<rparr>"
      using sample_spec [OF s] by (auto simp: reading_def)
    obtain slot where ir: "install_reserved ret cand key p (raw * gc_units g) ?w = (slot, r)"
      and out: "sh' = set_slot sh2 ?i slot"
      using inst res s raw(2) True
      by (cases "install_reserved ret cand key p (raw * gc_units g) ?w") (simp add: quota_install_def Let_def)
    have "installed geo clk ret g key p ?i (shard_view sh) raw ((shard_view sh)[?i := slot_view slot]) r"
      by (rule install_reserved_spec [OF ir p key _ _ at raw(1)]) (use bytes i in simp_all)
    then show ?thesis unfolding out using raw by (simp add: shard_view_set)
  qed
qed

section \<open>Admission on a shard\<close>

definition served ::
    "geometry \<Rightarrow> (nat \<Rightarrow> quota_error + nat) \<Rightarrow> retention \<Rightarrow> gcra \<Rightarrow> quota_key \<Rightarrow> prepared \<Rightarrow> nat list \<Rightarrow> slot_view list \<Rightarrow> nat
      \<Rightarrow> slot_view list \<Rightarrow> quota_error + captured \<Rightarrow> bool" where
  "served geo clk ret g key p is vs raw vs' r \<longleftrightarrow>
     (vs' = vs \<and> isl r) \<or>
     (\<exists>i\<in>set is. view_holds (vs ! i) key \<and> vs' = vs[i := (0, fst (snd (vs ! i)), tat_after r (snd (snd (vs ! i))))] \<and>
        (\<forall>cap. r = Inr cap \<longrightarrow> granted clk g p (Some (snd (snd (vs ! i)))) raw cap)) \<or>
     ((\<forall>i\<in>set is. \<not> view_holds (vs ! i) key) \<and>
        (\<exists>i\<in>set is. fst (vs ! i) = 0 \<and> installed geo clk ret g key p i vs raw vs' r))"

lemma served_hit:
  assumes "i \<in> set is" "view_holds (vs ! i) key"
    and "vs' = vs[i := (0, fst (snd (vs ! i)), tat_after r (snd (snd (vs ! i))))]"
    and "\<And>cap. r = Inr cap \<Longrightarrow> granted clk g p (Some (snd (snd (vs ! i)))) raw cap"
  shows "served geo clk ret g key p is vs raw vs' r"
  unfolding served_def using assms by blast

lemma visible_view: "i < length (qd_slots sh) \<Longrightarrow> visible sh i key \<longleftrightarrow> view_holds (shard_view sh ! i) key"
  by (simp add: visible_def view_holds_def slot_view_def)

lemma consume_pinned_served:
  assumes "consume weak clk ret g p i c (pinned sh i) = (c', sh', r)"
    and "i < length (qd_slots sh)" "i \<in> set is" "visible sh i key"
  shows "qd_structure sh' = qd_structure sh \<and> qd_watermark sh \<le> qd_watermark sh' \<and>
    served geo clk ret g key p is (shard_view sh) (qd_watermark sh') (shard_view sh') r"
proof -
  have "shard_view (pinned sh i) = (shard_view sh)[i := (1, snd (shard_view sh ! i))]"
    using assms(2) by (simp add: pinned_def shard_view_set slot_view_def)
  then have post: "qd_structure sh' = qd_structure sh \<and> qd_watermark sh \<le> qd_watermark sh' \<and>
      shard_view sh' = (shard_view sh)[i := (0, fst (snd (shard_view sh ! i)), tat_after r (snd (snd (shard_view sh ! i))))] \<and>
      (\<forall>cap. r = Inr cap \<longrightarrow> granted clk g p (Some (snd (snd (shard_view sh ! i)))) (qd_watermark sh') cap)"
    using consume_spec [OF assms(1)] assms(2) by (simp add: pinned_def slot_view_def)
  have "served geo clk ret g key p is (shard_view sh) (qd_watermark sh') (shard_view sh') r"
    using post visible_view [OF assms(2)] assms(3,4) by (intro served_hit) auto
  then show ?thesis using post by blast
qed

lemma quiet_watermark [simp]: "quiet (sh\<lparr>qd_watermark := m\<rparr>) = quiet sh" "visible (sh\<lparr>qd_watermark := m\<rparr>) = visible sh"
  by (simp_all add: quiet_def visible_def fun_eq_iff)

text \<open>The second pass and what follows it, once the key is known to be absent from its window.\<close>

lemma select_served:
  assumes sel: "(case select_pass weak ret key now n start (selection_new ret) c sh of
        (c3, sh3, Inl e) \<Rightarrow> (c3, sh3, Inl e)
      | (c3, sh3, Inr (Inl i)) \<Rightarrow> consume weak clk ret g p i c3 sh3
      | (c3, sh3, Inr (Inr sel)) \<Rightarrow>
          (case selection_finish sel of Inl e \<Rightarrow> (c3, sh3, Inl e)
           | Inr cand \<Rightarrow> quota_install weak clk ret g cand key p c3 sh3)) = (c', sh', r)"
    and ok: "quiet sh" "start < length (qd_slots sh)" "prepared_ok g p"
    and key: "length (qk_namespace key) + length (qk_subject key) \<le> g_key_bytes geo"
    and bytes: "\<And>s. s \<in> set (qd_slots sh) \<Longrightarrow> length (id_bytes (qs_identity s)) = g_key_bytes geo"
    and absent: "\<forall>i\<in>set (window (length (qd_slots sh)) n start). \<not> view_holds (shard_view sh ! i) key"
  shows "qd_structure sh' = qd_structure sh \<and> qd_watermark sh \<le> qd_watermark sh' \<and>
    served geo clk ret g key p (window (length (qd_slots sh)) n start) (shard_view sh) (qd_watermark sh') (shard_view sh') r"
proof -
  let ?is = "window (length (qd_slots sh)) n start"
  have bound: "i < length (qd_slots sh)" if "i \<in> set ?is" for i using window_bound [OF ok(2) that] .
  obtain c3 sh3 r3 where pass: "select_pass weak ret key now n start (selection_new ret) c sh = (c3, sh3, r3)"
    by (cases "select_pass weak ret key now n start (selection_new ret) c sh")
  have "\<not> (\<exists>i\<in>set ?is. visible sh i key)" using absent bound visible_view by blast
  then consider "r3 = Inl Busy" "sh3 = sh" | s where "r3 = Inr (Inr s)" "sh3 = sh" "selection_ok sh ret now ?is s"
    using select_pass_spec [OF ok(1,2) pass selection_new_ok [of sh ret now ?is] subset_refl] by blast
  then show ?thesis
  proof cases
    case 1
    then show ?thesis using sel pass by (auto simp: served_def)
  next
    case 2
    show ?thesis
    proof (cases "selection_finish s")
      case (Inl e)
      then show ?thesis using sel pass 2 by (auto simp: served_def)
    next
      case (Inr cand)
      have cand: "ca_index cand \<in> set ?is" "qs_gate (qd_slots sh ! ca_index cand) = 0"
        using selection_finish_ok [OF 2(3) Inr] by (simp_all add: candidate_ok_def Let_def)
      note i = bound [OF cand(1)]
      have inst: "quota_install weak clk ret g cand key p c3 sh = (c', sh', r)" using sel pass 2 Inr by simp
      have "length (id_bytes (qs_identity (qd_slots sh ! ca_index cand))) = g_key_bytes geo" using bytes i by simp
      note post = install_spec [OF inst i cand(2) ok(3) key this]
      moreover have "fst (shard_view sh ! ca_index cand) = 0" using i cand(2) by (simp add: slot_view_def)
      ultimately show ?thesis using absent cand(1) unfolding served_def by blast
    qed
  qed
qed

lemma admit_shard_spec:
  assumes adm: "admit_shard weak clk ret g n key p start c sh = (c', sh', r)"
    and ok: "quiet sh" "start < length (qd_slots sh)" "prepared_ok g p"
    and key: "length (qk_namespace key) + length (qk_subject key) \<le> g_key_bytes geo"
    and bytes: "\<And>s. s \<in> set (qd_slots sh) \<Longrightarrow> length (id_bytes (qs_identity s)) = g_key_bytes geo"
  shows "qd_structure sh' = qd_structure sh \<and> qd_watermark sh \<le> qd_watermark sh' \<and>
    served geo clk ret g key p (window (length (qd_slots sh)) n start) (shard_view sh) (qd_watermark sh') (shard_view sh') r"
proof -
  let ?is = "window (length (qd_slots sh)) n start"
  let ?goal = "qd_structure sh' = qd_structure sh \<and> qd_watermark sh \<le> qd_watermark sh' \<and>
    served geo clk ret g key p ?is (shard_view sh) (qd_watermark sh') (shard_view sh') r"
  have bound: "i < length (qd_slots sh)" if "i \<in> set ?is" for i using window_bound [OF ok(2) that] .
  obtain c1 sh1 r1 where l: "lookup_pass weak key n start c sh = (c1, sh1, r1)" by (cases "lookup_pass weak key n start c sh")
  obtain c2 sh2 r2 where s: "sample weak clk g sh c1 = (c2, sh2, r2)" by (cases "sample weak clk g sh c1")
  show ?goal
  proof (cases "qd_structure sh = MutexPoisoned")
    case True
    then show ?thesis using adm by (auto simp: admit_shard_def served_def)
  next
    case False
    from lookup_pass_spec [OF ok(1,2) l] consider
        "r1 = Inl Busy" "sh1 = sh"
      | i where "i \<in> set ?is" "r1 = Inr (Some i)" "visible sh i key" "sh1 = pinned sh i"
      | "r1 = Inr None" "sh1 = sh" "\<forall>i\<in>set ?is. \<not> visible sh i key" by blast
    then show ?thesis
    proof cases
      case 1
      then show ?thesis using adm l False by (auto simp: admit_shard_def served_def)
    next
      case 2
      then have "consume weak clk ret g p i c1 (pinned sh i) = (c', sh', r)"
        using adm l False by (simp add: admit_shard_def)
      then show ?thesis by (rule consume_pinned_served [OF _ bound [OF 2(1)] 2(1,3)])
    next
      case 3
      have absent: "\<forall>i\<in>set ?is. \<not> view_holds (shard_view sh ! i) key" using 3(3) bound visible_view by blast
      show ?thesis
      proof (cases "qd_structure sh = MutexHeld \<or> isl r2")
        case True
        then show ?thesis
          using adm l s 3(1,2) False sample_spec [OF s] by (auto simp: admit_shard_def served_def split: if_splits)
      next
        case False': False
        then obtain raw where raw: "r2 = Inr (raw * gc_units g)" "qd_watermark sh \<le> raw" "sh2 = sh\<lparr>qd_watermark := raw\<rparr>"
          using sample_spec [OF s] by auto
        have "qd_structure sh' = qd_structure sh2 \<and> qd_watermark sh2 \<le> qd_watermark sh' \<and>
            served geo clk ret g key p (window (length (qd_slots sh2)) n start) (shard_view sh2) (qd_watermark sh')
              (shard_view sh') r"
          by (rule select_served [where weak = weak and now = "raw * gc_units g" and c = c2])
             (use adm l s 3(1,2) False False' raw ok key bytes absent in \<open>auto simp: admit_shard_def\<close>)
        then show ?thesis using raw by simp
      qed
    qed
  qed
qed

section \<open>The map a shard stands for\<close>

lemma view_holds_retired [simp]: "\<not> view_holds (RETIRED, x) k"
  by (cases x) (simp add: view_holds_def)

lemma view_okD:
  assumes "view_ok loc geo idx vs" "i < length vs"
  shows "view_quiet (vs ! i)" "length (id_bytes (fst (snd (vs ! i)))) = g_key_bytes geo"
    "id_generation (fst (snd (vs ! i))) \<le> u64_max"
    "view_holds (vs ! i) k \<Longrightarrow> fst (loc k) = idx \<and> i \<in> set (window (length vs) (g_probes geo) (snd (loc k)))"
    "view_holds (vs ! i) k \<Longrightarrow> j < length vs \<Longrightarrow> view_holds (vs ! j) k \<Longrightarrow> j = i"
  using assms unfolding view_ok_def by (auto simp: all_set_conv_all_nth)

lemma view_ok_update:
  assumes ok: "view_ok loc geo idx vs" and i: "i < length vs"
    and v: "view_quiet v" "length (id_bytes (fst (snd v))) = g_key_bytes geo" "id_generation (fst (snd v)) \<le> u64_max"
    and new: "\<And>k. view_holds v k \<Longrightarrow> view_holds (vs ! i) k \<or>
      fst (loc k) = idx \<and> i \<in> set (window (length vs) (g_probes geo) (snd (loc k))) \<and>
      (\<forall>j<length vs. \<not> view_holds (vs ! j) k)"
  shows "view_ok loc geo idx (vs[i := v])"
  unfolding view_ok_def
proof (intro conjI allI impI ballI)
  show "length (vs[i := v]) = per_shard geo" using ok by (simp add: view_ok_def)
  fix x assume "x \<in> set (vs[i := v])"
  then have "x = v \<or> x \<in> set vs" using set_update_subset_insert by fast
  then show "view_quiet x" "length (id_bytes (fst (snd x))) = g_key_bytes geo" "id_generation (fst (snd x)) \<le> u64_max"
    using ok v by (auto simp: view_ok_def)
next
  fix k j assume j: "j < length (vs[i := v])" and h: "view_holds (vs[i := v] ! j) k"
  have loc: "fst (loc k) = idx \<and> j \<in> set (window (length vs) (g_probes geo) (snd (loc k)))"
    using j h new [of k] view_okD(4) [OF ok, of j k] i by (cases "j = i") auto
  then show "fst (loc k) = idx" "j \<in> set (window (length (vs[i := v])) (g_probes geo) (snd (loc k)))" by simp_all
  fix m assume m: "m < length (vs[i := v])" "view_holds (vs[i := v] ! m) k"
  show "m = j"
    using j h m new [of k] view_okD(5) [OF ok, of _ k] i by (cases "j = i"; cases "m = i") (auto simp: nth_list_update)
qed

lemma view_debt_Some:
  assumes ok: "view_ok loc geo idx vs" and k: "fst (loc k) = idx" and start: "snd (loc k) < length vs"
  shows "view_debt vs (window (length vs) (g_probes geo) (snd (loc k))) k = Some t \<longleftrightarrow>
    (\<exists>i<length vs. view_holds (vs ! i) k \<and> snd (snd (vs ! i)) = t)" (is "view_debt vs ?is k = _ \<longleftrightarrow> ?R")
proof
  assume "view_debt vs ?is k = Some t"
  then obtain i where "i \<in> set ?is" "view_holds (vs ! i) k" "snd (snd (vs ! i)) = t"
    unfolding view_debt_def by (auto dest: find_SomeD)
  then show ?R using window_bound [OF start] by blast
next
  assume ?R
  then obtain i where i: "i < length vs" "view_holds (vs ! i) k" "snd (snd (vs ! i)) = t" by blast
  have "i \<in> set ?is" using view_okD(4) [OF ok i(1,2)] by simp
  then obtain j where j: "find (\<lambda>i. view_holds (vs ! i) k) ?is = Some j"
    using i(2) by (cases "find (\<lambda>i. view_holds (vs ! i) k) ?is") (auto simp: find_None_iff)
  then have "view_holds (vs ! j) k" "j \<in> set ?is" by (auto dest: find_SomeD)
  then have "j = i" using view_okD(5) [OF ok i(1,2)] window_bound [OF start] by blast
  then show "view_debt vs ?is k = Some t" using j i(3) by (simp add: view_debt_def)
qed

lemma view_debt_None:
  assumes "view_ok loc geo idx vs" "fst (loc k) = idx" "snd (loc k) < length vs"
  shows "view_debt vs (window (length vs) (g_probes geo) (snd (loc k))) k = None \<longleftrightarrow>
    (\<forall>i<length vs. \<not> view_holds (vs ! i) k)"
  using view_debt_Some [OF assms] by (metis not_None_eq)

text \<open>
  The effect of a call on a shard, over the map: the admitted key moves to the committed arrival
  time and only then; another key of the shard keeps its debt or, replaced, loses it.
\<close>

definition debt_after :: "quota_error + captured \<Rightarrow> nat option \<Rightarrow> nat option" where
  "debt_after r previous = (case r of Inr (CapAllowed now tat) \<Rightarrow> Some tat | _ \<Rightarrow> previous)"

lemma served_view_ok:
  assumes ok: "view_ok loc geo idx vs" and key: "fst (loc key) = idx" "snd (loc key) < length vs"
    and srv: "served geo clk ret g key p (window (length vs) (g_probes geo) (snd (loc key))) vs raw vs' r"
  shows "view_ok loc geo idx vs'"
proof -
  let ?is = "window (length vs) (g_probes geo) (snd (loc key))"
  have bound: "i < length vs" if "i \<in> set ?is" for i using window_bound [OF key(2) that] .
  have absent: "\<forall>j<length vs. \<not> view_holds (vs ! j) key" if "\<forall>i\<in>set ?is. \<not> view_holds (vs ! i) key"
    using that view_okD(4) [OF ok, of _ key] by blast
  from srv show ?thesis unfolding served_def
  proof (elim disjE conjE bexE)
    assume "vs' = vs" then show ?thesis using ok by simp
  next
    fix i assume i: "i \<in> set ?is" and h: "view_holds (vs ! i) key"
      and vs': "vs' = vs[i := (0, fst (snd (vs ! i)), tat_after r (snd (snd (vs ! i))))]"
    note b = bound [OF i]
    show ?thesis
      unfolding vs' using view_okD(2,3) [OF ok b] h
      by (intro view_ok_update [OF ok b]) (auto simp: view_quiet_def view_holds_def split: prod.splits)
  next
    fix i assume none: "\<forall>i\<in>set ?is. \<not> view_holds (vs ! i) key" and i: "i \<in> set ?is"
      and inst: "installed geo clk ret g key p i vs raw vs' r"
    note b = bound [OF i]
    from inst consider "vs' = vs" | "vs' = vs[i := (RETIRED, snd (vs ! i))]"
      | ident t where "fresh_identity geo key ident" "vs' = vs[i := (0, ident, t)]"
      unfolding installed_def by (auto split: sum.splits)
    then show ?thesis
    proof cases
      case 2
      show ?thesis
        unfolding 2 using view_okD(2,3) [OF ok b]
        by (intro view_ok_update [OF ok b]) (auto simp: view_quiet_def view_holds_def split: prod.splits)
    next
      case 3
      have "k = key" if "view_holds (0, ident, t) k" for k
        using that 3(1) by (auto simp: view_holds_def fresh_identity_def intro: identity_matches_inj)
      then show ?thesis
        unfolding 3(2) using 3(1) absent [OF none] i key(1)
        by (intro view_ok_update [OF ok b]) (auto simp: view_quiet_def fresh_identity_def)
    qed (use ok in simp)
  qed
qed

lemma served_debt_key:
  assumes ok: "view_ok loc geo idx vs" and key: "fst (loc key) = idx" "snd (loc key) < length vs"
    and srv: "served geo clk ret g key p (window (length vs) (g_probes geo) (snd (loc key))) vs raw vs' r"
  defines "is \<equiv> window (length vs) (g_probes geo) (snd (loc key))"
  shows "view_debt vs' is key = debt_after r (view_debt vs is key)"
    and "r = Inr cap \<Longrightarrow> granted clk g p (view_debt vs is key) raw cap"
proof -
  note ok' = served_view_ok [OF ok key srv]
  have len: "length vs' = length vs" using ok ok' by (simp add: view_ok_def)
  have bound: "i < length vs" if "i \<in> set is" for i using window_bound [OF key(2)] that unfolding is_def by blast
  note D = view_debt_Some [OF ok key, folded is_def]
  have D': "view_debt vs' is key = Some t \<longleftrightarrow> (\<exists>i<length vs. view_holds (vs' ! i) key \<and> snd (snd (vs' ! i)) = t)" for t
    using view_debt_Some [OF ok' key(1)] key(2) len unfolding is_def by simp
  have "view_debt vs' is key = debt_after r (view_debt vs is key) \<and>
      (r = Inr cap \<longrightarrow> granted clk g p (view_debt vs is key) raw cap)"
    using srv [folded is_def] unfolding served_def
  proof (elim disjE conjE bexE)
    assume "vs' = vs" "isl r"
    then show ?thesis by (auto simp: debt_after_def isl_def)
  next
    fix i assume i: "i \<in> set is" and h: "view_holds (vs ! i) key"
      and vs': "vs' = vs[i := (0, fst (snd (vs ! i)), tat_after r (snd (snd (vs ! i))))]"
      and g: "\<forall>cap. r = Inr cap \<longrightarrow> granted clk g p (Some (snd (snd (vs ! i)))) raw cap"
    note b = bound [OF i]
    have old: "view_debt vs is key = Some (snd (snd (vs ! i)))" using D b h by blast
    have "view_holds (vs' ! i) key" "snd (snd (vs' ! i)) = tat_after r (snd (snd (vs ! i)))"
      using h b unfolding vs' by (auto simp: view_holds_def split: prod.splits)
    then have "view_debt vs' is key = Some (tat_after r (snd (snd (vs ! i))))" using D' b by blast
    then show ?thesis using old g by (auto simp: debt_after_def split: sum.splits captured.splits)
  next
    fix i assume none: "\<forall>i\<in>set is. \<not> view_holds (vs ! i) key" and i: "i \<in> set is"
      and inst: "installed geo clk ret g key p i vs raw vs' r"
    note b = bound [OF i]
    have old: "view_debt vs is key = None"
      using none unfolding view_debt_def by (simp add: find_None_iff)
    have absent: "\<not> view_holds (vs ! j) key" if "j < length vs" for j
      using old view_debt_None [OF ok key] that unfolding is_def by blast
    have gone: "view_debt vs' is key = None" if "vs' = vs \<or> vs' = vs[i := (RETIRED, snd (vs ! i))]"
    proof -
      have "\<not> view_holds (vs' ! j) key" if "j < length vs" for j
        using \<open>vs' = vs \<or> _\<close> absent [OF that] that by (cases "j = i") auto
      then show ?thesis using D' by (metis not_None_eq)
    qed
    from inst consider e where "r = Inl e" "vs' = vs \<or> vs' = vs[i := (RETIRED, snd (vs ! i))]"
      | now tat ident where "r = Inr (CapAllowed now tat)" "granted clk g p None raw (CapAllowed now tat)"
          "fresh_identity geo key ident" "vs' = vs[i := (0, ident, tat)]"
      unfolding installed_def by (auto split: sum.splits)
    then show ?thesis
    proof cases
      case 1
      then show ?thesis using gone old by (simp add: debt_after_def)
    next
      case 2
      then have "view_holds (vs' ! i) key" "snd (snd (vs' ! i)) = tat"
        using b by (simp_all add: view_holds_def fresh_identity_def)
      then have "view_debt vs' is key = Some tat" using D' b by blast
      then show ?thesis using 2 old by (auto simp: debt_after_def)
    qed
  qed
  then show "view_debt vs' is key = debt_after r (view_debt vs is key)"
    and "r = Inr cap \<Longrightarrow> granted clk g p (view_debt vs is key) raw cap" by blast+
qed

lemma view_debt_update:
  assumes ok: "view_ok loc geo idx vs" "view_ok loc geo idx (vs[i := v])"
    and k: "fst (loc k) = idx" "snd (loc k) < length vs" and v: "\<not> view_holds v k" and i: "i < length vs"
  defines "is \<equiv> window (length vs) (g_probes geo) (snd (loc k))"
  shows "view_debt (vs[i := v]) is k = (if view_holds (vs ! i) k then None else view_debt vs is k)"
proof -
  have D: "view_debt vs is k = Some t \<longleftrightarrow> (\<exists>j<length vs. view_holds (vs ! j) k \<and> snd (snd (vs ! j)) = t)"
    and D': "view_debt (vs[i := v]) is k = Some t \<longleftrightarrow>
      (\<exists>j<length vs. view_holds (vs[i := v] ! j) k \<and> snd (snd (vs[i := v] ! j)) = t)" for t
    using view_debt_Some [OF ok(1) k] view_debt_Some [OF ok(2) k(1)] k(2) unfolding is_def by simp_all
  have "view_debt (vs[i := v]) is k = Some t \<longleftrightarrow>
      (if view_holds (vs ! i) k then None else view_debt vs is k) = Some t" for t
  proof (cases "view_holds (vs ! i) k")
    case True
    have "\<not> view_holds (vs[i := v] ! j) k" if "j < length vs" for j
      using v i that view_okD(5) [OF ok(1) i True that] by (cases "j = i") auto
    then show ?thesis unfolding D' using True by auto
  next
    case False
    have "view_holds (vs[i := v] ! j) k \<and> snd (snd (vs[i := v] ! j)) = t \<longleftrightarrow> view_holds (vs ! j) k \<and> snd (snd (vs ! j)) = t"
      if "j < length vs" for j using False v i that by (cases "j = i") auto
    then have "view_debt (vs[i := v]) is k = Some t \<longleftrightarrow> view_debt vs is k = Some t" unfolding D D' by blast
    then show ?thesis using False by simp
  qed
  then show ?thesis by (metis option.exhaust)
qed

lemma served_debt_other:
  assumes ok: "view_ok loc geo idx vs" and key: "fst (loc key) = idx" "snd (loc key) < length vs"
    and srv: "served geo clk ret g key p (window (length vs) (g_probes geo) (snd (loc key))) vs raw vs' r"
    and k: "k \<noteq> key" "fst (loc k) = idx" "snd (loc k) < length vs"
  defines "is \<equiv> window (length vs) (g_probes geo) (snd (loc k))"
  shows "view_debt vs' is k = view_debt vs is k \<or>
    (\<exists>t. view_debt vs is k = Some t \<and> view_debt vs' is k = None \<and> reading clk raw \<and>
       (ret = Strict \<longrightarrow> t \<le> raw * gc_units g))"
proof -
  note ok' = served_view_ok [OF ok key srv]
  have bound: "i < length vs" if "i \<in> set (window (length vs) (g_probes geo) (snd (loc key)))" for i
    using window_bound [OF key(2) that] .
  have upd: ?thesis
    if i: "i < length vs" and vs': "vs' = vs[i := v]" and v: "\<not> view_holds v k"
      and lost: "view_holds (vs ! i) k \<Longrightarrow> reading clk raw \<and> replaceable ret (vs ! i) (raw * gc_units g)" for i v
  proof (cases "view_holds (vs ! i) k")
    case True
    then have "view_debt vs is k = Some (snd (snd (vs ! i)))"
      using view_debt_Some [OF ok k(2,3)] i unfolding is_def by blast
    moreover have "view_debt vs' is k = None"
      using view_debt_update [OF ok ok' [unfolded vs'] k(2,3) v i] True unfolding is_def vs' by simp
    moreover have "id_occupied (fst (snd (vs ! i)))" using True by (auto simp: view_holds_def identity_matches_def split: prod.splits)
    ultimately show ?thesis using lost [OF True] by (auto simp: replaceable_def)
  next
    case False
    then show ?thesis using view_debt_update [OF ok ok' [unfolded vs'] k(2,3) v i] unfolding is_def vs' by simp
  qed
  from srv show ?thesis unfolding served_def
  proof (elim disjE conjE bexE)
    fix i assume i: "i \<in> set (window (length vs) (g_probes geo) (snd (loc key)))" and h: "view_holds (vs ! i) key"
      and vs': "vs' = vs[i := (0, fst (snd (vs ! i)), tat_after r (snd (snd (vs ! i))))]"
    have "\<not> view_holds (vs ! i) k" using view_holds_inj [OF h] k(1) by blast
    moreover have "\<not> view_holds (0, fst (snd (vs ! i)), tat_after r (snd (snd (vs ! i)))) k"
      using calculation h by (auto simp: view_holds_def split: prod.splits)
    ultimately show ?thesis using upd [OF bound [OF i] vs'] by blast
  next
    fix i assume i: "i \<in> set (window (length vs) (g_probes geo) (snd (loc key)))"
      and inst: "installed geo clk ret g key p i vs raw vs' r"
    from inst consider "vs' = vs"
      | "vs' = vs[i := (RETIRED, snd (vs ! i))]" "reading clk raw \<and> replaceable ret (vs ! i) (raw * gc_units g)"
      | ident t where "fresh_identity geo key ident" "vs' = vs[i := (0, ident, t)]"
          "reading clk raw \<and> replaceable ret (vs ! i) (raw * gc_units g)"
      unfolding installed_def granted_def by (auto split: sum.splits)
    then show ?thesis
    proof cases
      case 2
      then show ?thesis using upd [OF bound [OF i] 2(1)] by simp
    next
      case 3
      have "\<not> view_holds (0, ident, t) k"
        using 3(1) k(1) identity_matches_inj by (auto simp: view_holds_def fresh_identity_def)
      then show ?thesis using upd [OF bound [OF i] 3(2)] 3(3) by blast
    qed simp
  qed simp
qed

end
