(* ===== verification/Quota_Contract.thy ===== *)
theory Quota_Contract
  imports Quota_Store
begin

text \<open>
  The contract of the quota store over whole tables: an opened table satisfies the invariant, an
  admission keeps it and changes the map of debts exactly as the rate law says, runs of admissions
  by any callers keep every key inside the rate envelope of a strict store, and an uncontended call
  with a sufficient budget is never refused as busy.
\<close>

section \<open>Opening\<close>

definition geometry_ok :: "geometry \<Rightarrow> bool" where
  "geometry_ok geo \<longleftrightarrow> 0 < g_shards geo \<and> 0 < g_probes geo \<and> g_probes geo \<le> per_shard geo"

lemma geometry_new_ok:
  "0 < shards \<Longrightarrow> 0 < probes \<Longrightarrow> geometry_new slots shards key_bytes probes = Inr geo \<Longrightarrow> geometry_ok geo"
  by (auto simp: geometry_new_def geometry_ok_def per_shard_def split: if_splits)

lemma new_slot_holds [simp]: "\<not> view_holds (slot_view (quota_slot_new geo)) k"
  by (simp add: view_holds_def slot_view_def quota_slot_new_def identity_matches_def)

lemma quota_new_ok:
  assumes "quota_new lock_free alloc_ok clock_now geo p cas_budget ret = Inr t" "policy_ok p" "geometry_ok geo"
  shows "table_ok hash t" "debt hash t k = None"
proof -
  have t: "qt_geometry t = geo" "gcra_ok (qt_algorithm t)"
    "\<exists>now. qt_shards t = replicate (g_shards geo) \<lparr>qd_structure = MutexFree, qd_watermark = now,
        qd_slots = replicate (per_shard geo) (quota_slot_new geo)\<rparr>"
    using assms(1) gcra_new_ok [OF assms(2)] by (auto simp: quota_new_def split: if_splits sum.splits)
  then obtain now where sh: "qt_shards t = replicate (g_shards geo) \<lparr>qd_structure = MutexFree, qd_watermark = now,
        qd_slots = replicate (per_shard geo) (quota_slot_new geo)\<rparr>" by blast
  have view: "view_ok loc geo idx (replicate n (slot_view (quota_slot_new geo)))" if "n = per_shard geo" for loc idx n
    using that by (auto simp: view_ok_def) (simp_all add: view_quiet_def slot_view_def quota_slot_new_def)
  then show "table_ok hash t"
    using t assms(3) unfolding table_ok_def sh geometry_ok_def by (simp add: shard_view_def)
  have idx: "hash 0 k mod g_shards geo < g_shards geo" using assms(3) by (simp add: geometry_ok_def)
  have start: "hash 1 k mod per_shard geo < per_shard geo" using assms(3) by (simp add: geometry_ok_def)
  have "find (\<lambda>i. view_holds (replicate (per_shard geo) (slot_view (quota_slot_new geo)) ! i) k)
      (window (per_shard geo) n (hash 1 k mod per_shard geo)) = None" for n
    using window_bound [OF start] by (auto simp: find_None_iff)
  then show "debt hash t k = None"
    using t idx by (simp add: debt_def location_def sh shard_view_def view_debt_def)
qed

section \<open>Admission\<close>

lemma table_shard:
  assumes "table_ok hash t" and "idx = fst (location hash (qt_geometry t) key)"
  shows "idx < length (qt_shards t)"
    "view_ok (location hash (qt_geometry t)) (qt_geometry t) idx (shard_view (qt_shards t ! idx))"
    "snd (location hash (qt_geometry t) k) < length (qd_slots (qt_shards t ! idx))"
    "length (qd_slots (qt_shards t ! idx)) = per_shard (qt_geometry t)"
proof -
  show i: "idx < length (qt_shards t)" using assms by (simp add: table_ok_def location_def)
  then show v: "view_ok (location hash (qt_geometry t)) (qt_geometry t) idx (shard_view (qt_shards t ! idx))"
    using assms by (simp add: table_ok_def)
  then show l: "length (qd_slots (qt_shards t ! idx)) = per_shard (qt_geometry t)" by (simp add: view_ok_def)
  show "snd (location hash (qt_geometry t) k) < length (qd_slots (qt_shards t ! idx))"
    using l assms(1) by (simp add: table_ok_def location_def)
qed

lemma view_ok_quiet:
  assumes "view_ok loc geo idx (shard_view sh)"
  shows "quiet sh" "\<And>s. s \<in> set (qd_slots sh) \<Longrightarrow> length (id_bytes (qs_identity s)) = g_key_bytes geo"
  using assms by (auto simp: view_ok_def shard_view_def quiet_def view_quiet_def slot_view_def)

text \<open>The request an admission serves: the key fits the buffers and the cost fits the burst.\<close>

definition request_ok :: "quota_table \<Rightarrow> quota_key \<Rightarrow> nat \<Rightarrow> bool" where
  "request_ok t key cost \<longleftrightarrow> length (qk_namespace key) + length (qk_subject key) \<le> u64_max \<and>
     length (qk_namespace key) + length (qk_subject key) \<le> g_key_bytes (qt_geometry t) \<and>
     cost \<le> p_burst (gc_policy (qt_algorithm t))"

definition request :: "quota_table \<Rightarrow> nat \<Rightarrow> prepared" where
  "request t cost = \<lparr>pr_algorithm = qt_algorithm t, pr_charge = gc_period (qt_algorithm t) * cost\<rparr>"

definition mark :: "(nat \<Rightarrow> quota_key \<Rightarrow> nat) \<Rightarrow> quota_table \<Rightarrow> quota_key \<Rightarrow> nat" where
  "mark hash t key = qd_watermark (qt_shards t ! fst (location hash (qt_geometry t) key))"

lemma quota_admit_refused:
  assumes "gcra_ok (qt_algorithm t)" "\<not> request_ok t key cost"
  shows "\<exists>e. quota_admit weak clk hash t key cost = (t, Inl e) \<and> (e = QKeyTooLarge \<or> e = CostExceedsBurst)"
  using assms by (auto simp: quota_admit_def request_ok_def prepare_eq split: option.splits prod.splits)

lemma quota_admit_shard:
  assumes adm: "quota_admit weak clk hash t key cost = (t', r)" and ok: "table_ok hash t" "request_ok t key cost"
    and idx: "idx = fst (location hash (qt_geometry t) key)"
  obtains c' sh' where "t' = t\<lparr>qt_shards := (qt_shards t)[idx := sh']\<rparr>"
    "admit_shard weak clk (qt_retention t) (qt_algorithm t) (g_probes (qt_geometry t)) key (request t cost)
       (snd (location hash (qt_geometry t) key)) \<lparr>remaining = qt_cas_budget t, reads = 0\<rparr> (qt_shards t ! idx) = (c', sh', r)"
proof -
  have g: "gcra_ok (qt_algorithm t)" using ok(1) by (simp add: table_ok_def)
  obtain c' sh' r' where a: "admit_shard weak clk (qt_retention t) (qt_algorithm t) (g_probes (qt_geometry t)) key (request t cost)
       (snd (location hash (qt_geometry t) key)) \<lparr>remaining = qt_cas_budget t, reads = 0\<rparr> (qt_shards t ! idx) = (c', sh', r')"
    by (metis prod_cases3)
  have "t' = t\<lparr>qt_shards := (qt_shards t)[idx := sh']\<rparr> \<and> r' = r"
    using adm ok(2) a unfolding idx
    by (auto simp: quota_admit_def request_ok_def prepare_eq [OF g] request_def checked_add_def split: prod.splits)
  then show ?thesis using that a by blast
qed

text \<open>
  The effect of an admission on the map of debts, over both retention modes: the invariant is kept,
  grants and refusals are evaluations of the key's debt at a reading no earlier than the shard's
  watermark, and another key is forgotten only when its slot is replaced.
\<close>

definition admitted ::
    "(nat \<Rightarrow> quota_key \<Rightarrow> nat) \<Rightarrow> (nat \<Rightarrow> quota_error + nat) \<Rightarrow> quota_table \<Rightarrow> quota_key \<Rightarrow> nat \<Rightarrow> quota_table
      \<Rightarrow> quota_error + captured \<Rightarrow> bool" where
  "admitted hash clk t key cost t' r \<longleftrightarrow>
     (\<forall>k. mark hash t k \<le> mark hash t' k) \<and>
     debt hash t' key = debt_after r (debt hash t key) \<and>
     (\<forall>cap. r = Inr cap \<longrightarrow> granted clk (qt_algorithm t) (request t cost) (debt hash t key) (mark hash t' key) cap) \<and>
     (\<forall>k. k \<noteq> key \<longrightarrow> debt hash t' k = debt hash t k \<or>
        (\<exists>owed. debt hash t k = Some owed \<and> debt hash t' k = None \<and> mark hash t' k = mark hash t' key \<and>
           reading clk (mark hash t' key) \<and>
           (qt_retention t = Strict \<longrightarrow> owed \<le> mark hash t' key * gc_units (qt_algorithm t))))"

definition same_setup :: "quota_table \<Rightarrow> quota_table \<Rightarrow> bool" where
  "same_setup t t' \<longleftrightarrow> qt_retention t' = qt_retention t \<and> qt_geometry t' = qt_geometry t \<and> qt_policy t' = qt_policy t \<and>
     qt_cas_budget t' = qt_cas_budget t \<and> qt_algorithm t' = qt_algorithm t"

lemma quota_admit_served:
  assumes adm: "quota_admit weak clk hash t key cost = (t', r)" and ok: "table_ok hash t" "request_ok t key cost"
    and idx: "idx = fst (location hash (qt_geometry t) key)"
  obtains sh' where "t' = t\<lparr>qt_shards := (qt_shards t)[idx := sh']\<rparr>" "qd_watermark (qt_shards t ! idx) \<le> qd_watermark sh'"
    "served (qt_geometry t) clk (qt_retention t) (qt_algorithm t) key (request t cost)
       (window (per_shard (qt_geometry t)) (g_probes (qt_geometry t)) (snd (location hash (qt_geometry t) key)))
       (shard_view (qt_shards t ! idx)) (qd_watermark sh') (shard_view sh') r"
proof -
  note sh = table_shard [OF ok(1) idx]
  have g: "gcra_ok (qt_algorithm t)" using ok(1) by (simp add: table_ok_def)
  have p: "prepared_ok (qt_algorithm t) (request t cost)"
    using charge_fits(1) [OF g] ok(2) by (simp add: prepared_ok_def request_def request_ok_def)
  have key: "length (qk_namespace key) + length (qk_subject key) \<le> g_key_bytes (qt_geometry t)"
    using ok(2) by (simp add: request_ok_def)
  obtain c' sh' where t': "t' = t\<lparr>qt_shards := (qt_shards t)[idx := sh']\<rparr>" and
    a: "admit_shard weak clk (qt_retention t) (qt_algorithm t) (g_probes (qt_geometry t)) key (request t cost)
       (snd (location hash (qt_geometry t) key)) \<lparr>remaining = qt_cas_budget t, reads = 0\<rparr> (qt_shards t ! idx) = (c', sh', r)"
    by (rule quota_admit_shard [OF adm ok idx])
  show ?thesis
    using that [OF t'] admit_shard_spec [OF a view_ok_quiet(1) [OF sh(2)] sh(3) p key view_ok_quiet(2) [OF sh(2)]] sh(4)
    by simp
qed

lemma quota_admit_admitted:
  assumes adm: "quota_admit weak clk hash t key cost = (t', r)" and ok: "table_ok hash t" "request_ok t key cost"
  shows "table_ok hash t'" "same_setup t t'" "admitted hash clk t key cost t' r"
proof -
  let ?loc = "location hash (qt_geometry t)" and ?geo = "qt_geometry t"
  obtain idx where idx: "idx = fst (?loc key)" by blast
  note sh = table_shard [OF ok(1) idx]
  obtain sh' where t': "t' = t\<lparr>qt_shards := (qt_shards t)[idx := sh']\<rparr>"
    and wm: "qd_watermark (qt_shards t ! idx) \<le> qd_watermark sh'"
    and srv: "served ?geo clk (qt_retention t) (qt_algorithm t) key (request t cost)
       (window (per_shard ?geo) (g_probes ?geo) (snd (?loc key)))
       (shard_view (qt_shards t ! idx)) (qd_watermark sh') (shard_view sh') r"
    by (rule quota_admit_served [OF adm ok idx])
  have len: "length (shard_view (qt_shards t ! idx)) = per_shard ?geo" using sh(4) by simp
  note args = sh(2) idx [symmetric] sh(3) [unfolded shard_view_simps(2) [symmetric]]
  have srv': "served ?geo clk (qt_retention t) (qt_algorithm t) key (request t cost)
       (window (length (shard_view (qt_shards t ! idx))) (g_probes ?geo) (snd (?loc key)))
       (shard_view (qt_shards t ! idx)) (qd_watermark sh') (shard_view sh') r" using srv unfolding len .
  have here: "qt_shards t' ! fst (?loc k) = (if fst (?loc k) = idx then sh' else qt_shards t ! fst (?loc k))" for k
    using sh(1) unfolding t' by auto
  show kept: "same_setup t t'" unfolding t' by (simp add: same_setup_def)
  have "view_ok ?loc ?geo i (shard_view ((qt_shards t)[idx := sh'] ! i))" if "i < length (qt_shards t)" for i
    using served_view_ok [OF args srv'] ok(1) sh(1) that by (cases "i = idx") (auto simp: table_ok_def)
  then show "table_ok hash t'" using ok(1) unfolding t' table_ok_def by simp
  have at_key: "debt hash t key = view_debt (shard_view (qt_shards t ! idx)) (window (per_shard ?geo) (g_probes ?geo) (snd (?loc key))) key"
    "debt hash t' key = view_debt (shard_view sh') (window (per_shard ?geo) (g_probes ?geo) (snd (?loc key))) key"
    using here [of key] idx kept by (simp_all add: debt_def same_setup_def case_prod_unfold)
  have marks: "mark hash t' key = qd_watermark sh'" "mark hash t key = qd_watermark (qt_shards t ! idx)"
    using here [of key] idx kept by (simp_all add: mark_def same_setup_def)
  have other: "debt hash t' k = debt hash t k \<or>
        (\<exists>owed. debt hash t k = Some owed \<and> debt hash t' k = None \<and> mark hash t' k = mark hash t' key \<and>
           reading clk (mark hash t' key) \<and>
           (qt_retention t = Strict \<longrightarrow> owed \<le> mark hash t' key * gc_units (qt_algorithm t)))" if "k \<noteq> key" for k
  proof (cases "fst (?loc k) = idx")
    case True
    have start: "snd (?loc k) < length (shard_view (qt_shards t ! idx))" using sh(3) by simp
    have at_k: "debt hash t k = view_debt (shard_view (qt_shards t ! idx)) (window (per_shard ?geo) (g_probes ?geo) (snd (?loc k))) k"
      "debt hash t' k = view_debt (shard_view sh') (window (per_shard ?geo) (g_probes ?geo) (snd (?loc k))) k"
      "mark hash t' k = mark hash t' key"
      using here [of k] here [of key] True idx kept by (simp_all add: debt_def mark_def same_setup_def case_prod_unfold)
    show ?thesis
      using served_debt_other [OF args srv' that True start] unfolding len at_k marks by blast
  next
    case False
    then show ?thesis using here [of k] kept by (simp add: debt_def same_setup_def case_prod_unfold)
  qed
  have "mark hash t k \<le> mark hash t' k" for k
    using here [of k] wm kept by (simp add: mark_def same_setup_def)
  then show "admitted hash clk t key cost t' r"
    unfolding admitted_def using served_debt_key [OF args srv'] other unfolding len at_key marks by blast
qed

lemma quota_admit_cases:
  assumes "quota_admit weak clk hash t key cost = (t', r)" "table_ok hash t"
  shows "table_ok hash t'" "same_setup t t'" "t' = t \<and> isl r \<or> request_ok t key cost \<and> admitted hash clk t key cost t' r"
proof -
  have "gcra_ok (qt_algorithm t)" using assms(2) by (simp add: table_ok_def)
  note refused = quota_admit_refused [OF this, of key cost weak clk hash]
  show "table_ok hash t'" "same_setup t t'" "t' = t \<and> isl r \<or> request_ok t key cost \<and> admitted hash clk t key cost t' r"
    using assms refused quota_admit_admitted [OF assms(1,2)]
    by (cases "request_ok t key cost"; auto simp: same_setup_def)+
qed

section \<open>Runs of a store\<close>

text \<open>
  A sequence of calls by any callers, each with its own clock readings and spurious failures, and the
  grants it makes: key, clock reading, cost.
\<close>

type_synonym quota_call = "(nat \<Rightarrow> bool) \<times> (nat \<Rightarrow> quota_error + nat) \<times> quota_key \<times> nat"

fun quota_run :: "(nat \<Rightarrow> quota_key \<Rightarrow> nat) \<Rightarrow> quota_table \<Rightarrow> quota_call list
    \<Rightarrow> quota_table \<times> (quota_key \<times> nat \<times> nat) list" where
  "quota_run hash t [] = (t, [])"
| "quota_run hash t ((weak, clk, key, cost) # calls) =
     (case quota_admit weak clk hash t key cost of
        (t1, r) \<Rightarrow>
          (case quota_run hash t1 calls of
             (t2, grants) \<Rightarrow>
               (t2, (case r of
                       Inr (CapAllowed now tat) \<Rightarrow> (key, now div gc_units (qt_algorithm t), cost) # grants
                     | _ \<Rightarrow> grants))))"

definition grants_of :: "quota_key \<Rightarrow> (quota_key \<times> nat \<times> nat) list \<Rightarrow> (nat \<times> nat) list" where
  "grants_of key grants = map snd (filter (\<lambda>gr. fst gr = key) grants)"

text \<open>
  What the store remembers of a key against what the rate law has charged it: the same arrival time,
  or nothing once the arrival time lies behind the watermark.
\<close>

definition remembers :: "(nat \<Rightarrow> quota_key \<Rightarrow> nat) \<Rightarrow> quota_table \<Rightarrow> quota_key \<Rightarrow> nat option \<Rightarrow> bool" where
  "remembers hash t key charged \<longleftrightarrow> debt hash t key = charged \<or>
     debt hash t key = None \<and> (\<exists>T. charged = Some T \<and> T \<le> mark hash t key * gc_units (qt_algorithm t))"

lemma remembers_step:
  assumes rem: "remembers hash t key charged" and adm: "admitted hash clk t k cost t' r"
    and setup_kept: "same_setup t t'" and strict: "qt_retention t = Strict"
    and other: "k \<noteq> key \<or> (\<forall>now tat. r \<noteq> Inr (CapAllowed now tat))"
  shows "remembers hash t' key charged"
proof -
  let ?u = "gc_units (qt_algorithm t)"
  have u: "gc_units (qt_algorithm t') = ?u" using setup_kept by (simp add: same_setup_def)
  have "mark hash t key \<le> mark hash t' key" using adm by (simp add: admitted_def)
  then have "mark hash t key * ?u \<le> mark hash t' key * ?u" by (rule mult_le_mono1)
  then have kept: "remembers hash t' key charged" if "debt hash t' key = debt hash t key"
    using rem that unfolding remembers_def u by (metis order_trans)
  show ?thesis
  proof (cases "k = key")
    case True
    then have "debt hash t' key = debt hash t key"
      using adm other by (auto simp: admitted_def debt_after_def split: sum.splits captured.splits)
    then show ?thesis by (rule kept)
  next
    case False
    have "\<forall>k'. k' \<noteq> k \<longrightarrow> debt hash t' k' = debt hash t k' \<or>
        (\<exists>owed. debt hash t k' = Some owed \<and> debt hash t' k' = None \<and> mark hash t' k' = mark hash t' k \<and>
           owed \<le> mark hash t' k * ?u)"
      using adm strict unfolding admitted_def by meson
    with False consider "debt hash t' key = debt hash t key"
      | owed where "debt hash t key = Some owed" "debt hash t' key = None" "mark hash t' key = mark hash t' k"
          "owed \<le> mark hash t' k * ?u" by metis
    then show ?thesis
    proof cases
      case 2
      then show ?thesis using rem unfolding remembers_def u by auto
    qed (rule kept)
  qed
qed

lemma remembers_grant:
  assumes rem: "remembers hash t key charged" and adm: "admitted hash clk t key cost t' (Inr (CapAllowed now tat))"
    and ok: "gcra_ok (qt_algorithm t)" "request_ok t key cost"
  shows "commits (qt_algorithm t) charged (now div gc_units (qt_algorithm t)) cost tat" "debt hash t' key = Some tat"
proof -
  let ?g = "qt_algorithm t" and ?raw = "mark hash t' key"
  have gr: "now = ?raw * gc_units ?g" "evaluate (request t cost) now (debt hash t key) = Inr (OAllowed tat)"
    using adm by (auto simp: admitted_def granted_def)
  have "mark hash t key \<le> ?raw" using adm by (simp add: admitted_def)
  then have le: "mark hash t key * gc_units ?g \<le> now" unfolding gr(1) by (rule mult_le_mono1)
  have raw: "now div gc_units ?g * gc_units ?g = now" using gcra_okD(2) [OF ok(1)] gr(1) by simp
  have "max (case charged of None \<Rightarrow> now | Some T \<Rightarrow> T) now = max (case debt hash t key of None \<Rightarrow> now | Some T \<Rightarrow> T) now"
    using rem le by (auto simp: remembers_def split: option.splits)
  then show "commits ?g charged (now div gc_units ?g) cost tat"
    using gr(2) ok(2) unfolding commits_def raw by (simp add: evaluate_Allowed request_def request_ok_def)
  show "debt hash t' key = Some tat" using adm by (simp add: admitted_def debt_after_def)
qed

lemma quota_run_chain:
  assumes "table_ok hash t" "qt_retention t = Strict" "remembers hash t key charged"
  shows "\<exists>final. chain (qt_algorithm t) charged (grants_of key (snd (quota_run hash t calls))) final"
  using assms
proof (induction hash t calls arbitrary: charged rule: quota_run.induct)
  case (2 hash t weak clk k cost calls)
  obtain t1 r where adm: "quota_admit weak clk hash t k cost = (t1, r)" by (cases "quota_admit weak clk hash t k cost")
  note q = quota_admit_cases [OF adm "2.prems"(1)]
  have g: "qt_algorithm t1 = qt_algorithm t" "qt_retention t1 = Strict" "gcra_ok (qt_algorithm t)"
    using q(2) "2.prems" by (simp_all add: same_setup_def table_ok_def)
  note IH = "2.IH" [OF adm [symmetric] q(1) g(2), unfolded g(1)]
  show ?case
  proof (cases "k = key \<and> (\<exists>now tat. r = Inr (CapAllowed now tat))")
    case True
    then obtain now tat where r: "k = key" "r = Inr (CapAllowed now tat)" by blast
    have a: "request_ok t key cost" "admitted hash clk t key cost t1 (Inr (CapAllowed now tat))"
      using q(3) r by auto
    note c = remembers_grant [OF "2.prems"(3) a(2) g(3) a(1)]
    have "remembers hash t1 key (Some tat)" using c(2) by (simp add: remembers_def)
    then obtain final where "chain (qt_algorithm t) (Some tat) (grants_of key (snd (quota_run hash t1 calls))) final"
      using IH [of "Some tat"] by blast
    moreover have "grants_of key (snd (quota_run hash t ((weak, clk, k, cost) # calls))) =
        (now div gc_units (qt_algorithm t), cost) # grants_of key (snd (quota_run hash t1 calls))"
      using adm r by (simp add: grants_of_def split: prod.splits)
    ultimately show ?thesis using c(1) by auto
  next
    case False
    have "remembers hash t1 key charged"
      using q(3) "2.prems"(3) remembers_step [OF "2.prems"(3) _ q(2) "2.prems"(2)] False by blast
    moreover have "grants_of key (snd (quota_run hash t ((weak, clk, k, cost) # calls))) =
        grants_of key (snd (quota_run hash t1 calls))"
      using False adm by (auto simp: grants_of_def split: prod.splits sum.splits captured.splits)
    ultimately show ?thesis using IH [of charged] by simp
  qed
qed (auto simp: grants_of_def)

section \<open>The contract\<close>

definition demo_geometry :: geometry where
  "demo_geometry = \<lparr>g_slots = 4, g_shards = 2, g_key_bytes = 8, g_probes = 2\<rparr>"

definition demo_hash :: "nat \<Rightarrow> quota_key \<Rightarrow> nat" where
  "demo_hash n key = n + length (qk_subject key)"

definition demo_subject :: "nat \<Rightarrow> quota_key" where
  "demo_subject n = \<lparr>qk_namespace = [1], qk_subject = replicate (Suc n) 2\<rparr>"

definition demo_quota :: quota_table where
  "demo_quota = \<lparr>qt_retention = Strict, qt_geometry = demo_geometry, qt_policy = demo_policy, qt_cas_budget = 16,
     qt_algorithm = demo_gcra,
     qt_shards = replicate 2 \<lparr>qd_structure = MutexFree, qd_watermark = 0,
       qd_slots = replicate 2 (quota_slot_new demo_geometry)\<rparr>\<rparr>"

definition demo_calls :: "quota_call list" where
  "demo_calls = [(\<lambda>r. r \<noteq> 16, \<lambda>_. Inr 5, demo_subject 0, 15)]"

lemma demo_quota_ok: "table_ok demo_hash demo_quota"
proof -
  have "quota_new True True (Inr 0) demo_geometry demo_policy 16 Strict = Inr demo_quota" by code_simp
  moreover have "policy_ok demo_policy" using demo_gcra_ok by (simp add: gcra_ok_def demo_gcra_def)
  moreover have "geometry_ok demo_geometry" by (simp add: geometry_ok_def demo_geometry_def per_shard_def)
  ultimately show ?thesis by (rule quota_new_ok(1))
qed

text \<open>
  C6: the admission contract of the quota store, on every branch. The table invariant is kept. A key
  or cost out of range is refused with the table unchanged. Otherwise a grant or a refusal is the
  evaluation of the key's debt at a clock reading not before the shard's watermark, a grant commits
  the arrival time of that evaluation, a refusal or error leaves the key's debt alone, and no other
  key changes, except that a replaced one is forgotten; in a strict store only when its debt is
  already paid off at that reading.
\<close>

theorem quota_admit_exact:
  assumes "table_ok hash t" "quota_admit weak clk hash t key cost = (t', r)"
  shows "table_ok hash t' \<and> (if request_ok t key cost then admitted hash clk t key cost t' r
    else t' = t \<and> (r = Inl QKeyTooLarge \<or> r = Inl CostExceedsBurst))"
proof (cases "request_ok t key cost")
  case True
  then show ?thesis using quota_admit_admitted [OF assms(2,1)] by simp
next
  case False
  have "gcra_ok (qt_algorithm t)" using assms(1) by (simp add: table_ok_def)
  from quota_admit_refused [OF this False, of weak clk hash] show ?thesis using assms False by auto
qed

theorem quota_admit_exact_witness:
  "\<exists>t'. quota_admit (\<lambda>r. r \<noteq> 16) (\<lambda>_. Inr 5) demo_hash demo_quota (demo_subject 0) 3 = (t', Inr (CapAllowed 50 3000000050)) \<and>
     table_ok demo_hash t' \<and>
     admitted demo_hash (\<lambda>_. Inr 5) demo_quota (demo_subject 0) 3 t' (Inr (CapAllowed 50 3000000050))"
proof -
  have r: "snd (quota_admit (\<lambda>r. r \<noteq> 16) (\<lambda>_. Inr 5) demo_hash demo_quota (demo_subject 0) 3) = Inr (CapAllowed 50 3000000050)"
    by code_simp
  have "request_ok demo_quota (demo_subject 0) 3"
    by (simp add: request_ok_def demo_subject_def demo_quota_def demo_geometry_def demo_gcra_def demo_policy_def max_defs)
  then show ?thesis
    using quota_admit_exact [OF demo_quota_ok, of "\<lambda>r. r \<noteq> 16" "\<lambda>_. Inr 5" "demo_subject 0" 3] r
    by (cases "quota_admit (\<lambda>r. r \<noteq> 16) (\<lambda>_. Inr 5) demo_hash demo_quota (demo_subject 0) 3") auto
qed

text \<open>
  C5: a strict store enforces the rate. Over any sequence of calls, by any callers for any keys, with
  slots replaced as capacity demands, the cost granted to a key at clock readings inside a window
  never exceeds the burst plus the sustained rate times the length of the window.
\<close>

theorem strict_store_envelope:
  assumes "table_ok hash t" "qt_retention t = Strict" "a \<le> b"
  shows "gc_period (qt_algorithm t) * total_cost (in_window a b (grants_of key (snd (quota_run hash t calls))))
    \<le> gc_capacity (qt_algorithm t) + (b - a) * gc_units (qt_algorithm t)"
proof -
  have "remembers hash t key (debt hash t key)" by (simp add: remembers_def)
  from quota_run_chain [OF assms(1,2) this, of calls] chain_window [OF _ assms(3)] show ?thesis by blast
qed

theorem strict_store_envelope_witness:
  "gc_period (qt_algorithm demo_quota) * total_cost (in_window 0 9 (grants_of (demo_subject 0) (snd (quota_run demo_hash demo_quota demo_calls))))
    \<le> gc_capacity (qt_algorithm demo_quota) + 9 * gc_units (qt_algorithm demo_quota) \<and>
   grants_of (demo_subject 0) (snd (quota_run demo_hash demo_quota demo_calls)) = [(5, 15)]"
proof -
  have "grants_of (demo_subject 0) (snd (quota_run demo_hash demo_quota demo_calls)) = [(5, 15)]"
    unfolding demo_calls_def by code_simp
  moreover have "qt_retention demo_quota = Strict" by (simp add: demo_quota_def)
  ultimately show ?thesis
    using strict_store_envelope [OF demo_quota_ok _ le0, of 9 "demo_subject 0" demo_calls, unfolded diff_zero] by blast
qed

end
