(* ===== verification/Quota_Live.thy ===== *)
theory Quota_Live
  imports Quota_Contract
begin

text \<open>
  The attempt budget is enough: a call that nobody contends, on a machine whose weak exchanges do not
  fail spuriously, needs at most two attempts per probe and three more, and is then never refused as
  busy. Each part of the call gets the attempts it spends.
\<close>

abbreviation always :: "nat \<Rightarrow> bool" where
  "always \<equiv> \<lambda>_. True"

lemma slot_pin_live:
  "qs_gate slot = 0 \<Longrightarrow> 0 < remaining c \<Longrightarrow>
     slot_pin always slot None c = (c\<lparr>remaining := remaining c - 1\<rparr>, slot\<lparr>qs_gate := 1\<rparr>, Inr True)"
  by (cases "remaining c") (simp_all add: slot_pin_def pin_loop.simps)

lemma lookup_live:
  assumes "quiet sh" "index < length (qd_slots sh)" "n \<le> remaining c" "lookup_pass always key n index c sh = (c', sh', r)"
  shows "\<not> isl r \<and> remaining c \<le> remaining c' + n"
  using assms(2-)
proof (induction n arbitrary: index c)
  case (Suc n)
  have bound: "probe_next sh index < length (qd_slots sh)" using Suc.prems(1) by (auto simp: probe_next_def)
  from quiet_at [OF assms(1) Suc.prems(1)] show ?case
  proof
    assume "qs_gate (qd_slots sh ! index) = RETIRED"
    then show ?thesis using Suc.IH [OF bound, of c] Suc.prems by (simp add: slot_pin_retired)
  next
    assume gate: "qs_gate (qd_slots sh ! index) = 0"
    let ?c1 = "c\<lparr>remaining := remaining c - 1\<rparr>"
    show ?thesis
    proof (cases "identity_matches (qs_identity (qd_slots sh ! index)) key")
      case True
      then show ?thesis using Suc.prems gate by (auto simp: slot_pin_live)
    next
      case False
      then have "lookup_pass always key n (probe_next sh index) ?c1 sh = (c', sh', r)"
        using Suc.prems gate by (simp add: slot_pin_live)
      then have "\<not> isl r \<and> remaining ?c1 \<le> remaining c' + n" using Suc.IH [OF bound, of ?c1] Suc.prems(2) by simp
      then show ?thesis using Suc.prems(2) by auto
    qed
  qed
qed auto

lemma select_live:
  assumes "quiet sh" "index < length (qd_slots sh)" "n \<le> remaining c"
    and "select_pass always ret key now n index sel c sh = (c', sh', r)"
  shows "\<not> isl r \<and> remaining c \<le> remaining c' + n"
  using assms(2-)
proof (induction n arbitrary: index c sel)
  case (Suc n)
  have bound: "probe_next sh index < length (qd_slots sh)" using Suc.prems(1) by (auto simp: probe_next_def)
  from quiet_at [OF assms(1) Suc.prems(1)] show ?case
  proof
    assume "qs_gate (qd_slots sh ! index) = RETIRED"
    then show ?thesis using Suc.IH [OF bound, of c sel] Suc.prems by (simp add: slot_pin_retired)
  next
    assume gate: "qs_gate (qd_slots sh ! index) = 0"
    let ?c1 = "c\<lparr>remaining := remaining c - 1\<rparr>"
    show ?thesis
    proof (cases "identity_matches (qs_identity (qd_slots sh ! index)) key")
      case True
      then show ?thesis using Suc.prems gate by (auto simp: slot_pin_live)
    next
      case False
      then obtain sel' where "select_pass always ret key now n (probe_next sh index) sel' ?c1 sh = (c', sh', r)"
        using Suc.prems gate by (auto simp: slot_pin_live Let_def)
      then have "\<not> isl r \<and> remaining ?c1 \<le> remaining c' + n" using Suc.IH [OF bound, of ?c1] Suc.prems(2) by simp
      then show ?thesis using Suc.prems(2) by auto
    qed
  qed
qed auto

lemma cas_raise_live: "0 < r \<Longrightarrow> \<exists>r'. cas_raise always now cell r = (r', max cell now, Inr ()) \<and> r \<le> r' + 1"
  by (cases r) auto

lemma sample_live:
  assumes "sample always clk g sh c = (c', sh', r)" "0 < remaining c" "\<forall>k. clk k \<noteq> Inl Busy"
  shows "r \<noteq> Inl Busy \<and> remaining c \<le> remaining c' + 1"
proof (cases "clk (reads c)")
  case (Inl e)
  then have "c' = c\<lparr>reads := reads c + 1\<rparr>" "r = Inl e" using assms(1) unfolding sample_def Let_def Inl by simp_all
  then show ?thesis using assms(3) Inl by auto
next
  case (Inr now)
  obtain r' where "cas_raise always now (qd_watermark sh) (remaining c) = (r', max (qd_watermark sh) now, Inr ())"
    "remaining c \<le> r' + 1" using cas_raise_live [OF assms(2)] by blast
  then show ?thesis using assms(1) Inr by (auto simp: sample_def Let_def scale_def split: if_splits option.splits)
qed

lemma touch_live:
  assumes "touch_slot always ret sh i now c = (c', sh', r)" "0 < remaining c"
  shows "\<not> isl r \<and> remaining c \<le> remaining c' + 1"
proof -
  obtain r' where "cas_raise always now (qs_last_seen (qd_slots sh ! i)) (remaining c) =
      (r', max (qs_last_seen (qd_slots sh ! i)) now, Inr ())" "remaining c \<le> r' + 1"
    using cas_raise_live [OF assms(2)] by blast
  then show ?thesis using assms by (auto simp: touch_slot_def touch_def split: if_splits)
qed

lemma consume_live:
  assumes "consume always clk ret g p i c sh = (c', sh', r)" "3 \<le> remaining c" "\<forall>k. clk k \<noteq> Inl Busy"
  shows "r \<noteq> Inl Busy"
proof -
  obtain c1 sh1 r1 where s: "sample always clk g sh c = (c1, sh1, r1)" by (cases "sample always clk g sh c")
  have s': "r1 \<noteq> Inl Busy" "2 \<le> remaining c1" using sample_live [OF s _ assms(3)] assms(2) by auto
  show ?thesis
  proof (cases r1)
    case (Inl e)
    then show ?thesis using assms(1) s s' by (subst (asm) consume.simps) (auto simp: Let_def)
  next
    case (Inr now)
    obtain c2 sh2 r2 where t: "touch_slot always ret sh1 i now c1 = (c2, sh2, r2)" by (cases "touch_slot always ret sh1 i now c1")
    have "\<not> isl r2" "0 < remaining c2" using touch_live [OF t] s'(2) by auto
    then obtain k where k: "r2 = Inr ()" "remaining c2 = Suc k" by (cases r2; cases "remaining c2") auto
    have "evaluate p now x \<noteq> Inl Busy" "retry_after g d \<noteq> Inl Busy" for x d
      by (auto simp: evaluate_def retry_after_def Let_def split: option.splits)
    then show ?thesis
      using assms(1) s t Inr k
      by (subst (asm) consume.simps) (auto simp: Let_def split: sum.splits outcome.splits)
  qed
qed

lemma install_live:
  assumes inst: "quota_install always clk ret g cand key p c sh = (c', sh', r)"
    and cand: "candidate_ok sh ret (qd_watermark sh * gc_units g) is cand" "ca_index cand < length (qd_slots sh)"
    and budget: "2 \<le> remaining c" "\<forall>k. clk k \<noteq> Inl Busy"
  shows "r \<noteq> Inl Busy"
proof -
  let ?i = "ca_index cand" and ?c1 = "c\<lparr>remaining := remaining c - 1\<rparr>"
  let ?w = "(qd_slots sh ! ?i)\<lparr>qs_gate := WRITER\<rparr>"
  have slot: "qs_gate (qd_slots sh ! ?i) = 0" "id_generation (qs_identity (qd_slots sh ! ?i)) = ca_generation cand"
    using cand(1) by (simp_all add: candidate_ok_def Let_def)
  have res: "slot_reserve (qd_slots sh ! ?i) c = (?c1, ?w, Inr ())"
    using slot(1) budget(1) by (simp add: slot_reserve_def budget_take_def checked_sub_def)
  obtain c2 sh2 r2 where s: "sample always clk g (set_slot sh ?i ?w) ?c1 = (c2, sh2, r2)"
    by (cases "sample always clk g (set_slot sh ?i ?w) ?c1")
  have busy: "r2 \<noteq> Inl Busy" using sample_live [OF s _ budget(2)] budget(1) by simp
  show ?thesis
  proof (cases r2)
    case (Inl e)
    then show ?thesis using inst res s slot busy by (auto simp: quota_install_def Let_def)
  next
    case (Inr now)
    then obtain raw where raw: "now = raw * gc_units g" "qd_watermark sh \<le> raw" using sample_spec [OF s] by auto
    have "qd_watermark sh * gc_units g \<le> now" unfolding raw(1) using raw(2) by (rule mult_le_mono1)
    then have "still_replaceable ret cand ?w now"
      using cand(1) by (auto simp: candidate_ok_def still_replaceable_def Let_def split: option.splits)
    then have "snd (install_reserved ret cand key p now ?w) \<noteq> Inl Busy"
      by (auto simp: install_reserved_def evaluate_def Let_def split: option.splits)
    then show ?thesis
      using inst res s slot Inr
      by (cases "install_reserved ret cand key p now ?w") (simp add: quota_install_def Let_def)
  qed
qed

lemma admit_shard_live:
  assumes adm: "admit_shard always clk ret g n key p start c sh = (c', sh', r)"
    and ok: "quiet sh" "start < length (qd_slots sh)" "qd_structure sh = MutexFree"
    and budget: "2 * n + 3 \<le> remaining c" "\<forall>k. clk k \<noteq> Inl Busy"
  shows "r \<noteq> Inl Busy"
proof -
  obtain c1 sh1 r1 where l: "lookup_pass always key n start c sh = (c1, sh1, r1)" by (cases "lookup_pass always key n start c sh")
  have l': "\<not> isl r1" "n + 3 \<le> remaining c1" using lookup_live [OF ok(1,2) _ l] budget(1) by auto
  show ?thesis
  proof (cases "\<exists>i. r1 = Inr (Some i)")
    case True
    then obtain i where "r1 = Inr (Some i)" by blast
    then have "consume always clk ret g p i c1 sh1 = (c', sh', r)" using adm l ok(3) by (simp add: admit_shard_def)
    then show ?thesis using consume_live l'(2) budget(2) by (metis add_leE add.commute)
  next
    case False
    then have none: "r1 = Inr None" "sh1 = sh" using l' lookup_pass_spec [OF ok(1,2) l] by auto
    obtain c2 sh2 r2 where s: "sample always clk g sh c1 = (c2, sh2, r2)" by (cases "sample always clk g sh c1")
    have s': "r2 \<noteq> Inl Busy" "n + 2 \<le> remaining c2" using sample_live [OF s _ budget(2)] l'(2) by auto
    show ?thesis
    proof (cases r2)
      case (Inl e)
      then show ?thesis using adm l none s s' ok(3) by (auto simp: admit_shard_def)
    next
      case (Inr now)
      then obtain raw where raw: "now = raw * gc_units g" "sh2 = sh\<lparr>qd_watermark := raw\<rparr>" using sample_spec [OF s] by auto
      let ?is = "window (length (qd_slots sh2)) n start"
      obtain c3 sh3 r3 where p: "select_pass always ret key now n start (selection_new ret) c2 sh2 = (c3, sh3, r3)"
        by (cases "select_pass always ret key now n start (selection_new ret) c2 sh2")
      have q: "quiet sh2" "start < length (qd_slots sh2)" using raw(2) ok by simp_all
      have p': "\<not> isl r3" "2 \<le> remaining c3" using select_live [OF q _ p] s'(2) by auto
      have "\<not> visible sh2 i key" if "i \<in> set ?is" for i
        using lookup_pass_spec [OF ok(1,2) l] none that raw(2) by auto
      then obtain sel where sel: "r3 = Inr (Inr sel)" "sh3 = sh2" "selection_ok sh2 ret now ?is sel"
        using select_pass_spec [OF q p selection_new_ok [of sh2 ret now ?is] subset_refl] p'(1) by auto
      have rest: "(case selection_finish sel of Inl e \<Rightarrow> (c3, sh2, Inl e)
          | Inr cand \<Rightarrow> quota_install always clk ret g cand key p c3 sh2) = (c', sh', r)"
        using adm l none s Inr p sel ok(3) by (simp add: admit_shard_def)
      show ?thesis
      proof (cases "selection_finish sel")
        case (Inl e)
        then show ?thesis using rest selection_finish_error [OF Inl] by auto
      next
        case (Inr cand)
        have cand: "candidate_ok sh2 ret now ?is cand" by (rule selection_finish_ok [OF sel(3) Inr])
        then have "ca_index cand < length (qd_slots sh2)" using window_bound [OF q(2)] unfolding candidate_ok_def by blast
        then show ?thesis using install_live [OF _ _ _ p'(2) budget(2), of ret g cand key p sh2 c' sh' r ?is] rest Inr cand raw by simp
      qed
    qed
  qed
qed



end
