(* ===== verification/Quota_Race.thy ===== *)
theory Quota_Race
  imports Quota_Memory
begin

text \<open>
  Threads that charge the same identity at the same time: the loop of \<open>consume\<close> with \<open>sample\<close> inlined
  (\<^verbatim>\<open>quota/src/memory.rs\<close>), one atomic operation per step, interleaved in any order. Every thread
  holds a pin, so the identity stays; the arrival time and the watermark are shared. A weak exchange
  may fail although the value is the expected one, a call may give up at any point when its budget
  is spent, and the clock moves forward between steps.
\<close>

section \<open>Steps\<close>

text \<open>
  Where a thread is: about to read the arrival time; with the arrival time read; with the floor of the
  clock read; raising the watermark to its sample; about to evaluate and exchange. The first number
  is the cost of its request, the second the arrival time it read.
\<close>

datatype phase =
    Resting
  | Starting nat
  | Loaded nat nat
  | Floored nat nat nat
  | Raising nat nat nat nat
  | Deciding nat nat nat

record race =
  rc_clock :: nat
  rc_tat :: nat
  rc_watermark :: nat
  rc_phase :: "nat \<Rightarrow> phase"
  rc_commits :: "(nat \<times> nat) list"

definition goto :: "race \<Rightarrow> nat \<Rightarrow> phase \<Rightarrow> race" where
  "goto s i ph = s\<lparr>rc_phase := (rc_phase s)(i := ph)\<rparr>"

definition decide :: "gcra \<Rightarrow> nat \<Rightarrow> nat \<Rightarrow> nat \<Rightarrow> quota_error + outcome" where
  "decide g cost previous now = gcra_admit g (Some previous) now cost"

inductive race_step :: "gcra \<Rightarrow> race \<Rightarrow> race \<Rightarrow> bool" for g where
  tick: "rc_clock s \<le> n \<Longrightarrow> race_step g s (s\<lparr>rc_clock := n\<rparr>)"
| start: "rc_phase s i = Resting \<Longrightarrow> 0 < cost \<Longrightarrow> race_step g s (goto s i (Starting cost))"
| load: "rc_phase s i = Starting cost \<Longrightarrow> race_step g s (goto s i (Loaded cost (rc_tat s)))"
| floor: "rc_phase s i = Loaded cost p \<Longrightarrow> race_step g s (goto s i (Floored cost p (rc_watermark s)))"
| read: "rc_phase s i = Floored cost p f \<Longrightarrow> f \<le> rc_clock s \<Longrightarrow> race_step g s (goto s i (Raising cost p f (rc_clock s)))"
| backwards: "rc_phase s i = Floored cost p f \<Longrightarrow> rc_clock s < f \<Longrightarrow> race_step g s (goto s i Resting)"
| raised: "rc_phase s i = Raising cost p f now \<Longrightarrow> now \<le> f \<Longrightarrow> race_step g s (goto s i (Deciding cost p now))"
| raise: "rc_phase s i = Raising cost p f now \<Longrightarrow> f < now \<Longrightarrow> rc_watermark s = f \<Longrightarrow>
     race_step g s ((goto s i (Deciding cost p now))\<lparr>rc_watermark := now\<rparr>)"
| raise_again: "rc_phase s i = Raising cost p f now \<Longrightarrow> f < now \<Longrightarrow>
     race_step g s (goto s i (Raising cost p (rc_watermark s) now))"
| refuse: "rc_phase s i = Deciding cost p now \<Longrightarrow> (\<forall>tat. decide g cost p now \<noteq> Inr (OAllowed tat)) \<Longrightarrow>
     race_step g s (goto s i Resting)"
| commit: "rc_phase s i = Deciding cost p now \<Longrightarrow> decide g cost p now = Inr (OAllowed tat) \<Longrightarrow> rc_tat s = p \<Longrightarrow>
     race_step g s ((goto s i Resting)\<lparr>rc_tat := tat, rc_commits := rc_commits s @ [(now, cost)]\<rparr>)"
| lost: "rc_phase s i = Deciding cost p now \<Longrightarrow> race_step g s (goto s i (Starting cost))"
| give_up: "race_step g s (goto s i Resting)"

definition race_init :: "nat \<Rightarrow> nat \<Rightarrow> race" where
  "race_init now tat = \<lparr>rc_clock = now, rc_tat = tat, rc_watermark = now, rc_phase = (\<lambda>_. Resting), rc_commits = []\<rparr>"

inductive race_reach :: "gcra \<Rightarrow> nat \<Rightarrow> nat \<Rightarrow> race \<Rightarrow> bool" for g now tat where
  init: "race_reach g now tat (race_init now tat)"
| step: "race_reach g now tat s \<Longrightarrow> race_step g s s' \<Longrightarrow> race_reach g now tat s'"

lemma goto_simps [simp]:
  "rc_clock (goto s i ph) = rc_clock s" "rc_tat (goto s i ph) = rc_tat s" "rc_watermark (goto s i ph) = rc_watermark s"
  "rc_commits (goto s i ph) = rc_commits s" "rc_phase (goto s i ph) j = (if j = i then ph else rc_phase s j)"
  by (simp_all add: goto_def)

section \<open>Invariants\<close>

text \<open>The commits form a chain of the rate law that ends at the shared arrival time.\<close>

lemma race_chain:
  assumes "race_reach g now0 tat0 s" "gcra_ok g"
  shows "chain g (Some tat0) (rc_commits s) (Some (rc_tat s))"
  using assms(1)
proof (induction rule: race_reach.induct)
  case init
  then show ?case by (simp add: race_init_def)
next
  case (step s s')
  from step.hyps(2) step.IH assms(2) show ?case
    by (cases rule: race_step.cases) (auto simp: chain_snoc decide_def gcra_admit_Allowed)
qed

text \<open>
  What each phase knows. The arrival time a thread read is not above the shared one, its floor and its
  sample are not above the clock, and while the arrival time it read is still current, no commit was
  made at a later reading than its sample.
\<close>

fun phase_ok :: "race \<Rightarrow> phase \<Rightarrow> bool" where
  "phase_ok s Resting \<longleftrightarrow> True"
| "phase_ok s (Starting cost) \<longleftrightarrow> 0 < cost"
| "phase_ok s (Loaded cost p) \<longleftrightarrow> 0 < cost \<and> p \<le> rc_tat s"
| "phase_ok s (Floored cost p f) \<longleftrightarrow> 0 < cost \<and> p \<le> rc_tat s \<and> f \<le> rc_clock s"
| "phase_ok s (Raising cost p f now) \<longleftrightarrow> 0 < cost \<and> p \<le> rc_tat s \<and> now \<le> rc_clock s \<and>
     (p = rc_tat s \<longrightarrow> (\<forall>c\<in>set (rc_commits s). fst c \<le> now))"
| "phase_ok s (Deciding cost p now) \<longleftrightarrow> 0 < cost \<and> p \<le> rc_tat s \<and> now \<le> rc_clock s \<and>
     (p = rc_tat s \<longrightarrow> (\<forall>c\<in>set (rc_commits s). fst c \<le> now))"

definition race_ok :: "race \<Rightarrow> bool" where
  "race_ok s \<longleftrightarrow> (\<forall>i. phase_ok s (rc_phase s i)) \<and> rc_watermark s \<le> rc_clock s \<and>
     (\<forall>c\<in>set (rc_commits s). fst c \<le> rc_clock s) \<and> sorted (map fst (rc_commits s))"

lemma phase_ok_clock: "phase_ok s ph \<Longrightarrow> rc_clock s \<le> n \<Longrightarrow> phase_ok (s\<lparr>rc_clock := n\<rparr>) ph"
  by (cases ph) auto

lemma phase_ok_goto [simp]: "phase_ok (goto s i ph') ph = phase_ok s ph"
  by (cases ph) simp_all

lemma phase_ok_watermark [simp]: "phase_ok (s\<lparr>rc_watermark := w\<rparr>) ph = phase_ok s ph"
  by (cases ph) simp_all

text \<open>A commit raises the arrival time, so whoever read the old one has lost it.\<close>

lemma phase_ok_commit:
  "phase_ok s ph \<Longrightarrow> rc_tat s < tat \<Longrightarrow> phase_ok (s\<lparr>rc_tat := tat, rc_commits := cs\<rparr>) ph"
  by (cases ph) auto

lemma race_okD: "race_ok s \<Longrightarrow> phase_ok s (rc_phase s i)"
  by (simp add: race_ok_def)

lemma goto_ok: "race_ok s \<Longrightarrow> phase_ok s ph \<Longrightarrow> race_ok (goto s i ph)"
  by (simp add: race_ok_def)

lemma move_ok:
  assumes "race_ok s" "s' = goto s i ph" "race_ok s \<Longrightarrow> phase_ok s (rc_phase s i) \<Longrightarrow> phase_ok s ph"
  shows "race_ok s'"
  unfolding assms(2) using assms(1,3) race_okD [OF assms(1)] by (intro goto_ok) blast+

lemma race_step_ok:
  assumes "race_step g s s'" "race_ok s" "gcra_ok g"
  shows "race_ok s'"
  using assms(1)
proof cases
  case (tick n)
  then show ?thesis using assms(2) by (fastforce simp: race_ok_def intro: phase_ok_clock)
next
  case (raise i cost p f now)
  then have "phase_ok s (Deciding cost p now)" "now \<le> rc_clock s" using race_okD [OF assms(2), of i] by simp_all
  then show ?thesis using goto_ok [OF assms(2), of "Deciding cost p now" i] unfolding raise by (simp add: race_ok_def)
next
  case (commit i cost p now tat)
  have ph: "0 < cost" "now \<le> rc_clock s" "\<forall>c\<in>set (rc_commits s). fst c \<le> now"
    using race_okD [OF assms(2), of i] commit by simp_all
  have "commits g (Some p) now cost tat" using commit(3) assms(3) by (simp add: decide_def gcra_admit_Allowed)
  then have "p + gc_period g * cost \<le> tat" by (rule commits_raises)
  moreover have "0 < gc_period g * cost" using ph(1) gcra_okD(1) [OF assms(3)] by simp
  ultimately have "p < tat" by linarith
  then have up: "rc_tat (goto s i Resting) < tat" using commit(4) by simp
  have "race_ok (goto s i Resting)" using goto_ok [OF assms(2)] by simp
  then show ?thesis
    using ph phase_ok_commit [OF race_okD up] unfolding commit(1)
    by (auto simp: race_ok_def sorted_append)
qed (rule move_ok [OF assms(2)], assumption, simp add: race_ok_def)+

lemma race_reach_ok: "race_reach g now tat s \<Longrightarrow> gcra_ok g \<Longrightarrow> race_ok s"
proof (induction rule: race_reach.induct)
  case init
  show ?case by (simp add: race_ok_def race_init_def)
next
  case (step s s')
  then show ?case using race_step_ok by blast
qed

section \<open>What holds under every interleaving\<close>

text \<open>Two threads: the second commits while the first has an outdated arrival time, which then loses.\<close>

definition demo_race :: race where
  "demo_race = \<lparr>rc_clock = 7, rc_tat = 15000000070, rc_watermark = 7,
     rc_phase = (\<lambda>_. Resting)(0 := Starting 10, 1 := Resting), rc_commits = [(7, 15)]\<rparr>"

lemma demo_race_reach: "race_reach demo_gcra 0 0 demo_race"
proof -
  let ?s = "\<lambda>clock tat wm ph cs. \<lparr>rc_clock = clock, rc_tat = tat, rc_watermark = wm, rc_phase = ph, rc_commits = cs\<rparr>"
  let ?r = "\<lambda>clock tat wm a b cs. race_reach demo_gcra 0 0 (?s clock tat wm ((\<lambda>_. Resting)(0 := a, 1 := b)) cs)"
  note st = race_reach.step [where g = demo_gcra and now = 0 and tat = 0]
  have eval: "decide demo_gcra 15 0 7 = Inr (OAllowed 15000000070)" by code_simp
  have "?r 0 0 0 Resting Resting []" using race_reach.init [of demo_gcra 0 0] by (simp add: race_init_def fun_upd_idem)
  from st [OF this race_step.start [of _ 0 10]] have "?r 0 0 0 (Starting 10) Resting []" by (simp add: goto_def fun_upd_twist)
  from st [OF this race_step.load [of _ 0 10]] have "?r 0 0 0 (Loaded 10 0) Resting []" by (simp add: goto_def fun_upd_twist)
  from st [OF this race_step.floor [of _ 0 10 0]] have "?r 0 0 0 (Floored 10 0 0) Resting []" by (simp add: goto_def fun_upd_twist)
  from st [OF this race_step.tick [of _ 5]] have "?r 5 0 0 (Floored 10 0 0) Resting []" by simp
  from st [OF this race_step.read [of _ 0 10 0 0]] have "?r 5 0 0 (Raising 10 0 0 5) Resting []" by (simp add: goto_def fun_upd_twist)
  from st [OF this race_step.raise [of _ 0 10 0 0 5]] have "?r 5 0 5 (Deciding 10 0 5) Resting []" by (simp add: goto_def fun_upd_twist)
  from st [OF this race_step.start [of _ 1 15]] have "?r 5 0 5 (Deciding 10 0 5) (Starting 15) []" by (simp add: goto_def)
  from st [OF this race_step.load [of _ 1 15]] have "?r 5 0 5 (Deciding 10 0 5) (Loaded 15 0) []" by (simp add: goto_def)
  from st [OF this race_step.floor [of _ 1 15 0]] have "?r 5 0 5 (Deciding 10 0 5) (Floored 15 0 5) []" by (simp add: goto_def)
  from st [OF this race_step.tick [of _ 7]] have "?r 7 0 5 (Deciding 10 0 5) (Floored 15 0 5) []" by simp
  from st [OF this race_step.read [of _ 1 15 0 5]] have "?r 7 0 5 (Deciding 10 0 5) (Raising 15 0 5 7) []" by (simp add: goto_def)
  from st [OF this race_step.raise [of _ 1 15 0 5 7]] have "?r 7 0 7 (Deciding 10 0 5) (Deciding 15 0 7) []" by (simp add: goto_def)
  from st [OF this race_step.commit [of _ 1 15 0 7 demo_gcra 15000000070]] eval
  have "?r 7 15000000070 7 (Deciding 10 0 5) Resting [(7, 15)]" by (simp add: goto_def)
  from st [OF this race_step.lost [of _ 0 10 0 5]] show ?thesis by (simp add: goto_def fun_upd_twist demo_race_def)
qed

text \<open>
  C7: threads racing on one identity stay inside the rate envelope. In every reachable state, the cost
  committed at clock readings inside a window is at most the burst plus the sustained rate times the
  length of the window, whatever the interleaving and however often an exchange fails.
\<close>

theorem race_rate_envelope:
  assumes "race_reach g now0 tat0 s" "gcra_ok g" "a \<le> b"
  shows "gc_period g * total_cost (in_window a b (rc_commits s)) \<le> gc_capacity g + (b - a) * gc_units g"
  using chain_window [OF race_chain [OF assms(1,2)] assms(3)] .

theorem race_rate_envelope_witness:
  "gc_period demo_gcra * total_cost (in_window 0 9 (rc_commits demo_race)) \<le> gc_capacity demo_gcra + 9 * gc_units demo_gcra \<and>
   total_cost (in_window 0 9 (rc_commits demo_race)) = 15"
  using race_rate_envelope [OF demo_race_reach demo_gcra_ok, of 0 9] by (simp add: demo_race_def in_window_def)

text \<open>
  The arrival time is read before the clock for a reason. In every reachable state the commits are
  in the order of their clock readings, the watermark is not ahead of the clock, and no thread that
  has read its floor can find the clock behind it, so a monotone clock is never reported as having
  gone backwards.
\<close>

lemma race_clock_sound:
  assumes "race_reach g now0 tat0 s" "gcra_ok g"
  shows "sorted (map fst (rc_commits s)) \<and> rc_watermark s \<le> rc_clock s \<and>
    (\<forall>i cost p f. rc_phase s i = Floored cost p f \<longrightarrow> f \<le> rc_clock s)"
proof -
  have ok: "race_ok s" by (rule race_reach_ok [OF assms])
  have "f \<le> rc_clock s" if "rc_phase s i = Floored cost p f" for i cost p f
    using race_okD [OF ok, of i] that by simp
  then show ?thesis using ok by (auto simp: race_ok_def)
qed

end
