(* ===== verification/Arena.thy ===== *)
theory Arena
  imports Probe
begin

text \<open>
  The fleet-shared byte store: \<^verbatim>\<open>arena/src/lib.rs\<close>. A segment is a header, an index of slots, one row of
  pin counters per reader and a ring of bytes; \<open>arena_mem\<close> is its contents, for either backing. The
  geometry of the build (\<open>ARENA_SLOTS\<close>, \<open>ARENA_BYTES\<close>) is the length of the index and of the ring. What
  the operating system decides is in \<open>arena_env\<close>: whether the handle was inherited over a fork, the
  outcome of the region lock, and for each reader row whether its owner's kernel hold can be taken.
  \<open>+\<close> on the 64-bit cursor wraps, as in a release build.
\<close>

section \<open>Data\<close>

definition ARENA_KIND :: nat where "ARENA_KIND = 193"

definition SLOT_LIVE :: nat where [simp]: "SLOT_LIVE = 1"
definition SLOT_RETIRED :: nat where [simp]: "SLOT_RETIRED = 2"
definition SLOT_ADDRESSED :: nat where [simp]: "SLOT_ADDRESSED = 3"

datatype arena_error = ArTooLarge nat nat | ArPinned | ArIo string

type_synonym arena_key = nat

record address =
  ad_slot :: nat
  ad_generation :: nat

definition key_lo :: "arena_key \<Rightarrow> nat" where "key_lo key = key mod 2 ^ 64"
definition key_hi :: "arena_key \<Rightarrow> nat" where "key_hi key = key div 2 ^ 64 mod 2 ^ 64"

record arena_record =
  re_body :: bytes
  re_encoded :: "(bytes \<times> nat) option"
  re_stamp :: nat
  re_extra :: nat

definition record_body :: "bytes \<Rightarrow> arena_record" where
  "record_body body = \<lparr>re_body = body, re_encoded = None, re_stamp = 0, re_extra = 0\<rparr>"

definition record_total :: "arena_record \<Rightarrow> nat" where
  "record_total r = length (re_body r) + (case re_encoded r of None \<Rightarrow> 0 | Some (bs, tag) \<Rightarrow> length bs)"

record arena_slot =
  sl_state :: nat
  sl_encoding :: nat
  sl_generation :: nat
  sl_key_lo :: nat
  sl_key_hi :: nat
  sl_body_offset :: nat
  sl_body_len :: nat
  sl_encoded_offset :: nat
  sl_encoded_len :: nat
  sl_stamp :: nat
  sl_extra :: nat

record arena_mem =
  am_cursor :: nat
  am_generation :: nat
  am_record_generation :: nat
  am_slots :: "arena_slot list"
  am_active :: "nat list"
  am_pins :: "nat list list"
  am_ring :: bytes

record arena_env =
  ae_forked :: bool
  ae_lock :: "arena_error + unit"
  ae_shm :: bool
  ae_hold :: "nat \<Rightarrow> arena_error + bool"

abbreviation arena_slot_at :: "arena_mem \<Rightarrow> nat \<Rightarrow> arena_slot" where
  "arena_slot_at am i \<equiv> am_slots am ! i"

definition slot_holds :: "arena_slot \<Rightarrow> arena_key \<Rightarrow> bool" where
  "slot_holds s key \<longleftrightarrow> sl_key_lo s = key_lo key \<and> sl_key_hi s = key_hi key"

definition slot_span :: "arena_slot \<Rightarrow> nat \<times> nat" where
  "slot_span s = (sl_body_offset s, sl_body_offset s + sl_body_len s + sl_encoded_len s)"

definition blank_slot :: arena_slot where
  "blank_slot = \<lparr>sl_state = SLOT_EMPTY, sl_encoding = 0, sl_generation = 0, sl_key_lo = 0, sl_key_hi = 0, sl_body_offset = 0,
     sl_body_len = 0, sl_encoded_offset = 0, sl_encoded_len = 0, sl_stamp = 0, sl_extra = 0\<rparr>"

text \<open>A fresh segment: \<open>Header::new\<close>, zeroed index and rows.\<close>

definition arena_create :: "nat \<Rightarrow> nat \<Rightarrow> bytes \<Rightarrow> arena_mem" where
  "arena_create slots readers ring =
     \<lparr>am_cursor = 0, am_generation = 1, am_record_generation = 0, am_slots = replicate slots blank_slot,
      am_active = replicate readers 0, am_pins = replicate readers (replicate slots 0), am_ring = ring\<rparr>"

section \<open>Locks, pins and rows\<close>

definition arena_lock :: "arena_env \<Rightarrow> arena_error + unit" where
  "arena_lock env =
     (if ae_forked env then Inl (ArIo ''an inherited arena handle cannot be used after fork'')
      else if ae_shm env then ae_lock env else Inr ())"

definition slot_pinned :: "arena_mem \<Rightarrow> nat \<Rightarrow> bool" where
  "slot_pinned am slot \<longleftrightarrow>
     list_ex (\<lambda>reader. am_active am ! reader \<noteq> 0 \<and> am_pins am ! reader ! slot \<noteq> 0) [0..<length (am_active am)]"

definition clear_reader :: "arena_mem \<Rightarrow> nat \<Rightarrow> arena_mem \<times> nat" where
  "clear_reader am reader =
     (am\<lparr>am_pins := (am_pins am)[reader := replicate (length (am_slots am)) 0], am_active := (am_active am)[reader := 0]\<rparr>,
      sum_list (am_pins am ! reader))"

fun reclaim_rows :: "arena_env \<Rightarrow> nat \<Rightarrow> arena_mem \<Rightarrow> nat \<Rightarrow> nat list \<Rightarrow> arena_mem \<times> (arena_error + nat)" where
  "reclaim_rows env me am reclaimed [] = (am, Inr reclaimed)"
| "reclaim_rows env me am reclaimed (reader # readers) =
     (if reader = me \<or> am_active am ! reader = 0 then reclaim_rows env me am reclaimed readers
      else case ae_hold env reader of
             Inl e \<Rightarrow> (am, Inl e)
           | Inr True \<Rightarrow> (case clear_reader am reader of (am', pins) \<Rightarrow> reclaim_rows env me am' (reclaimed + pins) readers)
           | Inr False \<Rightarrow> reclaim_rows env me am reclaimed readers)"

definition reclaim_locked :: "arena_env \<Rightarrow> nat \<Rightarrow> arena_mem \<Rightarrow> arena_mem \<times> (arena_error + nat)" where
  "reclaim_locked env me am = (if ae_shm env then reclaim_rows env me am 0 [0..<length (am_active am)] else (am, Inr 0))"

definition arena_evict :: "arena_slot \<Rightarrow> arena_slot" where
  "arena_evict s = (if sl_state s = SLOT_EMPTY then s else s\<lparr>sl_state := SLOT_RETIRED\<rparr>)"

definition evict_at :: "arena_mem \<Rightarrow> nat \<Rightarrow> arena_mem" where
  "evict_at am i = am\<lparr>am_slots := (am_slots am)[i := arena_evict (arena_slot_at am i)]\<rparr>"

section \<open>The index\<close>

text \<open>\<open>start = key.lo() as usize & mask; index = (start + probe) & mask\<close>\<close>

definition arena_index :: "arena_key \<Rightarrow> nat \<Rightarrow> nat \<Rightarrow> nat" where
  "arena_index key probe slots =
     (let msk = (word_of_nat (slots - 1) :: u64w); start = word_of_nat (key_lo key) AND msk
      in unat ((start + word_of_nat probe) AND msk))"

definition find_locked :: "arena_mem \<Rightarrow> arena_key \<Rightarrow> nat option" where
  "find_locked am key =
     scan (\<lambda>s. sl_state s = SLOT_EMPTY) (\<lambda>s. sl_state s = SLOT_LIVE \<and> slot_holds s key)
       (\<lambda>probe. arena_index key probe (length (am_slots am))) (am_slots am) [0..<length (am_slots am)]"

text \<open>\<open>min_by_key\<close>: the first of the least.\<close>

fun min_by_key :: "('a \<Rightarrow> nat) \<Rightarrow> 'a list \<Rightarrow> 'a option" where
  "min_by_key f [] = None"
| "min_by_key f (x # xs) = (case min_by_key f xs of None \<Rightarrow> Some x | Some y \<Rightarrow> if f x \<le> f y then Some x else Some y)"

fun pressure_loop :: "nat list \<Rightarrow> arena_mem \<Rightarrow> arena_mem \<times> (arena_error + nat)" where
  "pressure_loop [] am = (am, Inl ArPinned)"
| "pressure_loop (turn # turns) am =
     (case min_by_key (\<lambda>i. sl_generation (arena_slot_at am i))
             (filter (\<lambda>i. \<not> slot_pinned am i) [0..<length (am_slots am)]) of
        None \<Rightarrow> (am, Inl ArPinned)
      | Some i \<Rightarrow>
          let am' = evict_at am i
          in if \<not> slot_pinned am' i then (am', Inr i) else pressure_loop turns am')"

definition slot_free :: "arena_mem \<Rightarrow> nat \<Rightarrow> bool" where
  "slot_free am i \<longleftrightarrow> sl_state (arena_slot_at am i) = SLOT_EMPTY \<or>
     sl_state (arena_slot_at am i) = SLOT_RETIRED \<and> \<not> slot_pinned am i"

definition free_slot_locked :: "arena_mem \<Rightarrow> arena_key \<Rightarrow> arena_mem \<times> (arena_error + nat)" where
  "free_slot_locked am key =
     (let n = length (am_slots am)
      in case find (slot_free am) (map (\<lambda>probe. arena_index key probe n) [0..<n]) of
           Some i \<Rightarrow> (am, Inr i)
         | None \<Rightarrow> pressure_loop [0..<n] am)"

section \<open>The ring\<close>

definition meets :: "arena_slot \<Rightarrow> nat \<Rightarrow> nat \<Rightarrow> bool" where
  "meets s position stop = (case slot_span s of (span_start, span_end) \<Rightarrow> \<not> (span_end \<le> position \<or> span_start \<ge> stop))"

definition block_past :: "nat option \<Rightarrow> nat \<Rightarrow> nat option" where
  "block_past blocked span_end = Some (case blocked of None \<Rightarrow> span_end | Some b \<Rightarrow> max b span_end)"

fun alloc_scan :: "nat list \<Rightarrow> nat \<Rightarrow> nat \<Rightarrow> arena_mem \<Rightarrow> nat option \<Rightarrow> arena_mem \<times> nat option" where
  "alloc_scan [] position stop am blocked = (am, blocked)"
| "alloc_scan (i # is) position stop am blocked =
     (let s = arena_slot_at am i; span_end = snd (slot_span s)
      in if sl_state s = SLOT_EMPTY then alloc_scan is position stop am blocked
         else if \<not> meets s position stop then alloc_scan is position stop am blocked
         else if slot_pinned am i then alloc_scan is position stop am (block_past blocked span_end)
         else let am' = evict_at am i
              in alloc_scan is position stop am' (if slot_pinned am' i then block_past blocked span_end else blocked))"

text \<open>One turn of the loop: the position that was reserved, or the cursor past what blocked it.\<close>

definition alloc_attempt :: "nat \<Rightarrow> nat \<Rightarrow> arena_mem \<Rightarrow> arena_mem \<times> nat \<times> nat option" where
  "alloc_attempt len cursor am =
     (let bytes = length (am_ring am);
          wraps = cursor mod bytes + len > bytes;
          cursor' = (if wraps then wrapping_add u64_max cursor (bytes - cursor mod bytes) else cursor);
          position = (if wraps then 0 else cursor mod bytes)
      in case alloc_scan [0..<length (am_slots am)] position (position + len) am None of
           (am', Some past) \<Rightarrow> (am', wrapping_add u64_max cursor' (past - position), None)
         | (am', None) \<Rightarrow> (am'\<lparr>am_cursor := wrapping_add u64_max cursor' len\<rparr>, cursor', Some position))"

fun alloc_loop :: "nat \<Rightarrow> nat \<Rightarrow> nat \<Rightarrow> arena_mem \<Rightarrow> arena_mem \<times> (arena_error + nat)" where
  "alloc_loop 0 len cursor am = (am, Inl ArPinned)"
| "alloc_loop (Suc attempts) len cursor am =
     (case alloc_attempt len cursor am of
        (am', cursor', found) \<Rightarrow> if found = None then alloc_loop attempts len cursor' am' else (am', Inr (the found)))"

definition allocate_locked :: "arena_mem \<Rightarrow> nat \<Rightarrow> arena_mem \<times> (arena_error + nat)" where
  "allocate_locked am len = alloc_loop (length (am_slots am) + 2) len (am_cursor am) am"

section \<open>Writing\<close>

text \<open>The retry after dead pins were reclaimed, shared by both allocations.\<close>

definition retry_reclaimed ::
    "arena_env \<Rightarrow> nat \<Rightarrow> (arena_mem \<Rightarrow> arena_mem \<times> (arena_error + 'a)) \<Rightarrow> arena_mem \<Rightarrow> arena_mem \<times> (arena_error + 'a)" where
  "retry_reclaimed env me f am =
     (case f am of
        (am1, Inl ArPinned) \<Rightarrow>
          (case reclaim_locked env me am1 of (am2, Inl e) \<Rightarrow> (am2, Inl e) | (am2, Inr n) \<Rightarrow> f am2)
      | res \<Rightarrow> res)"

definition write_bytes :: "bytes \<Rightarrow> nat \<Rightarrow> bytes \<Rightarrow> bytes" where
  "write_bytes ring offset bs = take offset ring @ bs @ drop (offset + length bs) ring"

definition record_slot :: "arena_key option \<Rightarrow> arena_record \<Rightarrow> nat \<Rightarrow> nat \<Rightarrow> arena_slot" where
  "record_slot key r offset generation =
     \<lparr>sl_state = (if key \<noteq> None then SLOT_LIVE else SLOT_ADDRESSED),
      sl_encoding = (case re_encoded r of None \<Rightarrow> 0 | Some (bs, tag) \<Rightarrow> tag),
      sl_generation = generation,
      sl_key_lo = (case key of None \<Rightarrow> 0 | Some k \<Rightarrow> key_lo k), sl_key_hi = (case key of None \<Rightarrow> 0 | Some k \<Rightarrow> key_hi k),
      sl_body_offset = offset, sl_body_len = length (re_body r),
      sl_encoded_offset = offset + length (re_body r),
      sl_encoded_len = (case re_encoded r of None \<Rightarrow> 0 | Some (bs, tag) \<Rightarrow> length bs),
      sl_stamp = re_stamp r, sl_extra = re_extra r\<rparr>"

text \<open>The generation, the copies and the stores that publish the slot.\<close>

definition publish_record :: "arena_mem \<Rightarrow> arena_key option \<Rightarrow> arena_record \<Rightarrow> nat \<Rightarrow> nat \<Rightarrow> arena_mem \<times> (arena_error + address)" where
  "publish_record am key r offset index =
     (case checked_add u64_max (am_record_generation am) 1 of
        None \<Rightarrow> (am, Inl (ArIo ''arena record generation exhausted''))
      | Some generation \<Rightarrow>
          let ring1 = write_bytes (am_ring am) offset (re_body r);
              ring2 = (case re_encoded r of None \<Rightarrow> ring1
                       | Some (bs, tag) \<Rightarrow> write_bytes ring1 (offset + length (re_body r)) bs)
          in (am\<lparr>am_record_generation := generation, am_ring := ring2,
                 am_slots := (am_slots am)[index := record_slot key r offset generation]\<rparr>,
              Inr \<lparr>ad_slot = index, ad_generation = generation\<rparr>))"

definition write_record ::
    "arena_env \<Rightarrow> nat \<Rightarrow> arena_mem \<Rightarrow> arena_key option \<Rightarrow> arena_record \<Rightarrow> arena_mem \<times> (arena_error + address)" where
  "write_record env me am key r =
     (let total = record_total r; limit = length (am_ring am) div 4
      in if total > limit then (am, Inl (ArTooLarge total limit))
         else case arena_lock env of
                Inl e \<Rightarrow> (am, Inl e)
              | Inr _ \<Rightarrow>
                  let am1 = (case Option.bind key (find_locked am) of Some i \<Rightarrow> evict_at am i | None \<Rightarrow> am)
                  in case retry_reclaimed env me (\<lambda>m. allocate_locked m total) am1 of
                       (am2, Inl e) \<Rightarrow> (am2, Inl e)
                     | (am2, Inr offset) \<Rightarrow>
                         (case retry_reclaimed env me (\<lambda>m. free_slot_locked m (case key of Some k \<Rightarrow> k | None \<Rightarrow> offset)) am2 of
                            (am3, Inl e) \<Rightarrow> (am3, Inl e)
                          | (am3, Inr index) \<Rightarrow> publish_record am3 key r offset index))"

definition arena_put :: "arena_env \<Rightarrow> nat \<Rightarrow> arena_mem \<Rightarrow> arena_key \<Rightarrow> arena_record \<Rightarrow> arena_mem \<times> (arena_error + unit)" where
  "arena_put env me am key r = (case write_record env me am (Some key) r of (am', res) \<Rightarrow> (am', map_sum (\<lambda>e. e) (\<lambda>a. ()) res))"

definition arena_store :: "arena_env \<Rightarrow> nat \<Rightarrow> arena_mem \<Rightarrow> arena_record \<Rightarrow> arena_mem \<times> (arena_error + address)" where
  "arena_store env me am r = write_record env me am None r"

definition forget_address :: "arena_env \<Rightarrow> arena_mem \<Rightarrow> address \<Rightarrow> arena_mem \<times> (arena_error + bool)" where
  "forget_address env am a =
     (case arena_lock env of
        Inl e \<Rightarrow> (am, Inl e)
      | Inr _ \<Rightarrow>
          if ad_slot a < length (am_slots am) \<and> sl_state (arena_slot_at am (ad_slot a)) = SLOT_ADDRESSED \<and>
             sl_generation (arena_slot_at am (ad_slot a)) = ad_generation a
          then (evict_at am (ad_slot a), Inr True) else (am, Inr False))"

definition reclaim_dead_pins :: "arena_env \<Rightarrow> nat \<Rightarrow> arena_mem \<Rightarrow> arena_mem \<times> (arena_error + nat)" where
  "reclaim_dead_pins env me am = (case arena_lock env of Inl e \<Rightarrow> (am, Inl e) | Inr _ \<Rightarrow> reclaim_locked env me am)"

definition arena_forget :: "arena_env \<Rightarrow> arena_mem \<Rightarrow> arena_key \<Rightarrow> arena_mem \<times> (arena_error + bool)" where
  "arena_forget env am key =
     (case arena_lock env of
        Inl e \<Rightarrow> (am, Inl e)
      | Inr _ \<Rightarrow> (case find_locked am key of None \<Rightarrow> (am, Inr False) | Some i \<Rightarrow> (evict_at am i, Inr True)))"

definition slot_in_use :: "arena_slot \<Rightarrow> bool" where
  "slot_in_use s \<longleftrightarrow> sl_state s = SLOT_LIVE \<or> sl_state s = SLOT_ADDRESSED"

definition arena_len :: "arena_mem \<Rightarrow> nat" where
  "arena_len am = length (filter slot_in_use (am_slots am))"

definition arena_reset :: "arena_env \<Rightarrow> arena_mem \<Rightarrow> arena_mem \<times> (arena_error + nat)" where
  "arena_reset env am =
     (case arena_lock env of
        Inl e \<Rightarrow> (am, Inl e)
      | Inr _ \<Rightarrow>
          (am\<lparr>am_slots := map arena_evict (am_slots am), am_generation := wrapping_add u32_max (am_generation am) 1\<rparr>,
           Inr (arena_len am)))"

section \<open>Reading\<close>

record arena_entry =
  en_reader :: nat
  en_slot :: nat
  en_generation :: nat
  en_body :: "nat \<times> nat"
  en_encoded :: "(nat \<times> nat \<times> nat) option"
  en_stamp :: nat
  en_extra :: nat

definition entry_pinned :: "arena_mem \<Rightarrow> nat \<Rightarrow> nat \<Rightarrow> nat \<Rightarrow> arena_entry" where
  "entry_pinned am me index generation =
     (let s = arena_slot_at am index
      in \<lparr>en_reader = me, en_slot = index, en_generation = generation, en_body = (sl_body_offset s, sl_body_len s),
          en_encoded = (if sl_encoded_len s > 0 then Some (sl_encoded_offset s, sl_encoded_len s, sl_encoding s) else None),
          en_stamp = sl_stamp s, en_extra = sl_extra s\<rparr>)"

definition set_pin :: "arena_mem \<Rightarrow> nat \<Rightarrow> nat \<Rightarrow> nat \<Rightarrow> arena_mem" where
  "set_pin am reader slot n = am\<lparr>am_pins := (am_pins am)[reader := (am_pins am ! reader)[slot := n]]\<rparr>"

text \<open>A failed check undoes the pin it took.\<close>

definition pin_entry ::
    "arena_env \<Rightarrow> nat \<Rightarrow> arena_mem \<Rightarrow> nat \<Rightarrow> nat \<Rightarrow> arena_key option \<Rightarrow> arena_mem \<times> arena_entry option" where
  "pin_entry env me am index generation key =
     (if ae_forked env \<or> index \<ge> length (am_slots am) then (am, None)
      else case checked_add u32_max (am_pins am ! me ! index) 1 of
             None \<Rightarrow> (am, None)
           | Some n \<Rightarrow>
               let am' = set_pin am me index n; s = arena_slot_at am' index
               in if sl_generation s = generation \<and>
                     (case key of Some k \<Rightarrow> sl_state s = SLOT_LIVE \<and> slot_holds s k | None \<Rightarrow> sl_state s = SLOT_ADDRESSED)
                  then (am', Some (entry_pinned am' me index generation))
                  else (set_pin am' me index (am_pins am' ! me ! index - 1), None))"

definition get_address :: "arena_env \<Rightarrow> nat \<Rightarrow> arena_mem \<Rightarrow> address \<Rightarrow> arena_mem \<times> arena_entry option" where
  "get_address env me am a = pin_entry env me am (ad_slot a) (ad_generation a) None"

definition arena_get :: "arena_env \<Rightarrow> nat \<Rightarrow> arena_mem \<Rightarrow> arena_key \<Rightarrow> arena_mem \<times> arena_entry option" where
  "arena_get env me am key =
     (if ae_forked env then (am, None)
      else case find_locked am key of
             None \<Rightarrow> (am, None)
           | Some index \<Rightarrow> pin_entry env me am index (sl_generation (arena_slot_at am index)) (Some key))"

definition arena_bytes :: "arena_mem \<Rightarrow> nat \<Rightarrow> nat \<Rightarrow> bytes" where
  "arena_bytes am offset len = take len (drop offset (am_ring am))"

definition entry_body :: "arena_mem \<Rightarrow> arena_entry \<Rightarrow> bytes" where
  "entry_body am e = arena_bytes am (fst (en_body e)) (snd (en_body e))"

definition entry_encoded :: "arena_mem \<Rightarrow> arena_entry \<Rightarrow> (bytes \<times> nat) option" where
  "entry_encoded am e = map_option (\<lambda>(offset, len, tag). (arena_bytes am offset len, tag)) (en_encoded e)"

definition entry_drop :: "arena_env \<Rightarrow> arena_mem \<Rightarrow> arena_entry \<Rightarrow> arena_mem" where
  "entry_drop env am e =
     (if ae_forked env then am
      else set_pin am (en_reader e) (en_slot e) (am_pins am ! en_reader e ! en_slot e - 1))"

section \<open>Opening and closing\<close>

text \<open>Claiming the first row whose kernel hold is free, on a shared segment; a private arena takes row 0.\<close>

fun claim_rows :: "arena_env \<Rightarrow> arena_mem \<Rightarrow> nat list \<Rightarrow> arena_mem \<times> (arena_error + nat option)" where
  "claim_rows env am [] = (am, Inr None)"
| "claim_rows env am (reader # readers) =
     (case ae_hold env reader of
        Inl e \<Rightarrow> (am, Inl e)
      | Inr True \<Rightarrow> (let am' = fst (clear_reader am reader) in (am'\<lparr>am_active := (am_active am')[reader := 1]\<rparr>, Inr (Some reader)))
      | Inr False \<Rightarrow> claim_rows env am readers)"

definition arena_claim :: "arena_env \<Rightarrow> arena_mem \<Rightarrow> arena_mem \<times> (arena_error + nat)" where
  "arena_claim env am =
     (if ae_shm env then
        (case arena_lock env of
           Inl e \<Rightarrow> (am, Inl e)
         | Inr _ \<Rightarrow>
             (case claim_rows env am [0..<length (am_active am)] of
                (am', Inl e) \<Rightarrow> (am', Inl e)
              | (am', Inr None) \<Rightarrow> (am', Inl (ArIo ''arena reader capacity exhausted''))
              | (am', Inr (Some reader)) \<Rightarrow> (am'\<lparr>am_active := (am_active am')[reader := 1]\<rparr>, Inr reader)))
      else (am\<lparr>am_active := (am_active am)[0 := 1]\<rparr>, Inr 0))"

definition inner_drop :: "arena_env \<Rightarrow> arena_mem \<Rightarrow> nat \<Rightarrow> arena_mem" where
  "inner_drop env am me = (if ae_forked env then am else am\<lparr>am_active := (am_active am)[me := 0]\<rparr>)"

end
