(* ===== verification/Cache_Protocol.thy ===== *)
theory Cache_Protocol
  imports Fleet Arena
begin

text \<open>
  Mutations of the fleet cache and their wire format: \<^verbatim>\<open>cache/src/protocol.rs\<close>,
  \<^verbatim>\<open>cache/src/layout.rs\<close>, \<^verbatim>\<open>cache/src/error.rs\<close>. Revisions are ordered by sequence and then by
  the id of the mutation, as an instance of the library's linear orders.
\<close>

section \<open>Data\<close>

datatype cache_revision = Revision (rev_sequence: nat) (rev_mutation_id: nat)

definition revision_le :: "cache_revision \<Rightarrow> cache_revision \<Rightarrow> bool" where
  "revision_le a b \<longleftrightarrow> rev_sequence a < rev_sequence b \<or>
     rev_sequence a = rev_sequence b \<and> rev_mutation_id a \<le> rev_mutation_id b"

instantiation cache_revision :: linorder
begin

definition less_eq_cache_revision :: "cache_revision \<Rightarrow> cache_revision \<Rightarrow> bool" where
  revision_order: "less_eq_cache_revision = revision_le"

definition less_cache_revision :: "cache_revision \<Rightarrow> cache_revision \<Rightarrow> bool" where
  revision_strict_order: "less_cache_revision a b \<longleftrightarrow> revision_le a b \<and> \<not> revision_le b a"

instance
proof
  fix x y z :: cache_revision
  show "x < y \<longleftrightarrow> x \<le> y \<and> \<not> y \<le> x" "x \<le> x" "x \<le> y \<or> y \<le> x"
    by (auto simp: revision_order revision_strict_order revision_le_def)
  show "x \<le> z" if "x \<le> y" "y \<le> z" using that by (auto simp: revision_order revision_le_def)
  show "x = y" if "x \<le> y" "y \<le> x"
    using that by (cases x; cases y) (auto simp: revision_order revision_le_def)
qed

end

lemma less_eq_cache_revision_def: "a \<le> b \<longleftrightarrow> rev_sequence a < rev_sequence b \<or> rev_sequence a = rev_sequence b \<and> rev_mutation_id a \<le> rev_mutation_id b"
  for a b :: cache_revision
  by (simp add: revision_order revision_le_def)

lemma revision_sequence_mono: "(r::cache_revision) \<le> r' \<Longrightarrow> rev_sequence r \<le> rev_sequence r'"
  by (auto simp: less_eq_cache_revision_def)

record payload_ref =
  pl_address :: address
  pl_value_len :: nat

datatype cache_mutation =
    CPut bytes bytes cache_revision "nat option" payload_ref
  | CDelete bytes bytes cache_revision
  | CReset bytes cache_revision

fun mutation_store :: "cache_mutation \<Rightarrow> bytes" where
  "mutation_store (CPut store key r e p) = store"
| "mutation_store (CDelete store key r) = store"
| "mutation_store (CReset store r) = store"

fun mutation_revision :: "cache_mutation \<Rightarrow> cache_revision" where
  "mutation_revision (CPut store key r e p) = r"
| "mutation_revision (CDelete store key r) = r"
| "mutation_revision (CReset store r) = r"

datatype cache_error =
    StoreEmpty | StoreTooLarge nat nat | CKeyEmpty | CKeyTooLarge nat nat | ValueTooLarge nat nat
  | InvalidLayout string | CacheArena | CacheIo

record cache_layout =
  cl_mutation_ring_kind :: nat
  cl_mutation_ring_spec :: ring_spec

definition PROTOCOL_VERSION :: nat where "PROTOCOL_VERSION = 3"
definition FRAME_KIND_PUT :: nat where "FRAME_KIND_PUT = 1"
definition FRAME_KIND_DELETE :: nat where "FRAME_KIND_DELETE = 2"
definition FRAME_KIND_RESET :: nat where "FRAME_KIND_RESET = 3"
definition MIN_MUTATION_HEADER_LEN :: nat where "MIN_MUTATION_HEADER_LEN = 1 + 2 + 2 + 8 + 4 + 8 + 8"

lemmas mutation_kind_defs = FRAME_KIND_PUT_def FRAME_KIND_DELETE_def FRAME_KIND_RESET_def

text \<open>\<open>validate\<close> of the layout; the arena's kind belongs to the arena crate.\<close>

definition cache_layout_validate :: "cache_layout \<Rightarrow> cache_error + unit" where
  "cache_layout_validate L =
     (let spec = cl_mutation_ring_spec L
      in if cl_mutation_ring_kind L = ARENA_KIND then Inl (InvalidLayout ''mutation kind must not alias the arena'')
         else if rs_topology spec \<noteq> PerNode then Inl (InvalidLayout ''mutations must use per-node lanes'')
         else if \<not> is_power_of_two (rs_capacity spec) then Inl (InvalidLayout ''mutation capacity must be a power of two'')
         else if rs_payload_capacity spec < MIN_MUTATION_HEADER_LEN \<or> rs_payload_capacity spec > u32_max
         then Inl (InvalidLayout ''mutation payload must fit the protocol header and u32'')
         else Inr ())"

definition mutation_typed :: "cache_layout \<Rightarrow> orbit_typed" where
  "mutation_typed L = \<lparr>ot_kind = cl_mutation_ring_kind L, ot_spec = cl_mutation_ring_spec L\<rparr>"

section \<open>Encoding\<close>

definition max_store_len :: "cache_layout \<Rightarrow> nat" where
  "max_store_len L = min (saturating_sub (rs_payload_capacity (cl_mutation_ring_spec L)) (MIN_MUTATION_HEADER_LEN + 1)) u16_max"

definition max_key_len :: "cache_layout \<Rightarrow> nat \<Rightarrow> nat" where
  "max_key_len L store_len =
     min (saturating_sub (saturating_sub (rs_payload_capacity (cl_mutation_ring_spec L)) MIN_MUTATION_HEADER_LEN) store_len) u16_max"

definition cache_validate_store :: "cache_layout \<Rightarrow> bytes \<Rightarrow> cache_error + unit" where
  "cache_validate_store L store =
     (if store = [] then Inl StoreEmpty
      else if length store > max_store_len L then Inl (StoreTooLarge (length store) (max_store_len L))
      else Inr ())"

definition cache_validate_key :: "cache_layout \<Rightarrow> nat \<Rightarrow> bytes \<Rightarrow> cache_error + unit" where
  "cache_validate_key L store_len key =
     (if key = [] then Inl CKeyEmpty
      else if length key > max_key_len L store_len then Inl (CKeyTooLarge (length key) (max_key_len L store_len))
      else Inr ())"

definition mutation_bytes :: "nat \<Rightarrow> nat \<Rightarrow> nat \<Rightarrow> nat \<Rightarrow> bytes \<Rightarrow> bytes \<Rightarrow> bytes" where
  "mutation_bytes expires_at_ms slot generation value_len store key =
     to_le_bytes 1 PROTOCOL_VERSION @ to_le_bytes 2 (length store) @ to_le_bytes 2 (length key) @
     to_le_bytes 8 expires_at_ms @ to_le_bytes 4 slot @ to_le_bytes 8 generation @ to_le_bytes 8 value_len @ store @ key"

definition encode_put :: "cache_layout \<Rightarrow> bytes \<Rightarrow> bytes \<Rightarrow> nat option \<Rightarrow> payload_ref \<Rightarrow> cache_error + bytes" where
  "encode_put L store key expires_at_ms payload =
     (case cache_validate_store L store of Inl e \<Rightarrow> Inl e
      | Inr _ \<Rightarrow>
          (case cache_validate_key L (length store) key of Inl e \<Rightarrow> Inl e
           | Inr _ \<Rightarrow>
               Inr (mutation_bytes (case expires_at_ms of None \<Rightarrow> 0 | Some t \<Rightarrow> t) (ad_slot (pl_address payload))
                      (ad_generation (pl_address payload)) (pl_value_len payload) store key)))"

definition encode_delete :: "cache_layout \<Rightarrow> bytes \<Rightarrow> bytes \<Rightarrow> cache_error + bytes" where
  "encode_delete L store key =
     (case cache_validate_store L store of Inl e \<Rightarrow> Inl e
      | Inr _ \<Rightarrow>
          (case cache_validate_key L (length store) key of Inl e \<Rightarrow> Inl e
           | Inr _ \<Rightarrow> Inr (mutation_bytes 0 0 0 0 store key)))"

definition encode_reset :: "cache_layout \<Rightarrow> bytes \<Rightarrow> cache_error + bytes" where
  "encode_reset L store =
     (case cache_validate_store L store of Inl e \<Rightarrow> Inl e | Inr _ \<Rightarrow> Inr (mutation_bytes 0 0 0 0 store []))"

section \<open>Decoding\<close>

definition decode_with_slot_limit :: "nat \<Rightarrow> frame \<Rightarrow> cache_mutation option" where
  "decode_with_slot_limit SLOTS f =
     (let p = fr_payload f
      in if length p < MIN_MUTATION_HEADER_LEN \<or> unat (p ! 0) \<noteq> PROTOCOL_VERSION then None
         else
           let store_len = from_le_bytes (sub_slice p 1 3);
               key_len = from_le_bytes (sub_slice p 3 5);
               expires_at_ms = from_le_bytes (sub_slice p 5 13);
               slot = from_le_bytes (sub_slice p 13 17);
               generation = from_le_bytes (sub_slice p 17 25);
               value_len = from_le_bytes (sub_slice p 25 33)
           in case checked_add u64_max MIN_MUTATION_HEADER_LEN store_len of None \<Rightarrow> None | Some store_end \<Rightarrow>
             (case checked_add u64_max store_end key_len of None \<Rightarrow> None | Some key_end \<Rightarrow>
                if key_end \<noteq> length p then None
                else
                  let revision = Revision (fr_ver f) (fr_id f);
                      store = sub_slice p MIN_MUTATION_HEADER_LEN store_end;
                      key = sub_slice p store_end key_end
                  in if fr_kind f = FRAME_KIND_PUT \<and> store_len > 0 \<and> key_len > 0 \<and> generation > 0 \<and> slot < SLOTS \<and>
                        value_len \<le> u64_max
                     then Some (CPut store key revision (if expires_at_ms \<noteq> 0 then Some expires_at_ms else None)
                            \<lparr>pl_address = \<lparr>ad_slot = slot, ad_generation = generation\<rparr>, pl_value_len = value_len\<rparr>)
                     else if fr_kind f = FRAME_KIND_DELETE \<and> store_len > 0 \<and> key_len > 0 \<and> expires_at_ms = 0 \<and> slot = 0 \<and>
                             generation = 0 \<and> value_len = 0
                     then Some (CDelete store key revision)
                     else if fr_kind f = FRAME_KIND_RESET \<and> store_len > 0 \<and> key_len = 0 \<and> expires_at_ms = 0 \<and> slot = 0 \<and>
                             generation = 0 \<and> value_len = 0
                     then Some (CReset store revision)
                     else None))"

text \<open>The slot count of the arena is compile-time geometry; \<open>decode_observed\<close> has no such limit.\<close>

definition cache_decode :: "nat \<Rightarrow> frame \<Rightarrow> cache_mutation option" where
  "cache_decode arena_slots f = decode_with_slot_limit arena_slots f"

definition decode_observed :: "frame \<Rightarrow> cache_mutation option" where
  "decode_observed f = decode_with_slot_limit u64_max f"

section \<open>Round trip\<close>

lemma mutation_bytes_fields:
  assumes "p = mutation_bytes e s g v store key" "length store \<le> u16_max" "length key \<le> u16_max"
    and "e \<le> u64_max" "s \<le> u32_max" "g \<le> u64_max" "v \<le> u64_max"
  shows "length p = 33 + length store + length key" "from_le_bytes (sub_slice p 1 3) = length store"
    "from_le_bytes (sub_slice p 3 5) = length key" "from_le_bytes (sub_slice p 5 13) = e"
    "from_le_bytes (sub_slice p 13 17) = s" "from_le_bytes (sub_slice p 17 25) = g" "from_le_bytes (sub_slice p 25 33) = v"
    "sub_slice p 33 (33 + length store) = store" "sub_slice p (33 + length store) (33 + length store + length key) = key"
  using assms(2-7) unfolding assms(1) mutation_bytes_def
  by (simp_all add: codec_simps max_defs)

lemma mutation_bytes_version: "unat (mutation_bytes e s g v store key ! 0) = PROTOCOL_VERSION"
  unfolding mutation_bytes_def by (simp add: nth_append PROTOCOL_VERSION_def to_le_bytes_def)

lemma decode_mutation_bytes:
  assumes "length store \<le> u16_max" "length key \<le> u16_max" "e \<le> u64_max" "s \<le> u32_max" "g \<le> u64_max" "v \<le> u64_max"
  shows "decode_with_slot_limit SLOTS \<lparr>fr_id = fid, fr_kind = kind, fr_ver = ver, fr_payload = mutation_bytes e s g v store key\<rparr> =
    (if kind = FRAME_KIND_PUT \<and> store \<noteq> [] \<and> key \<noteq> [] \<and> g > 0 \<and> s < SLOTS
     then Some (CPut store key (Revision ver fid) (if e \<noteq> 0 then Some e else None)
            \<lparr>pl_address = \<lparr>ad_slot = s, ad_generation = g\<rparr>, pl_value_len = v\<rparr>)
     else if kind = FRAME_KIND_DELETE \<and> store \<noteq> [] \<and> key \<noteq> [] \<and> e = 0 \<and> s = 0 \<and> g = 0 \<and> v = 0
     then Some (CDelete store key (Revision ver fid))
     else if kind = FRAME_KIND_RESET \<and> store \<noteq> [] \<and> key = [] \<and> e = 0 \<and> s = 0 \<and> g = 0 \<and> v = 0
     then Some (CReset store (Revision ver fid)) else None)"
proof -
  let ?p = "mutation_bytes e s g v store key"
  note f = mutation_bytes_fields [OF refl assms]
  have hl: "MIN_MUTATION_HEADER_LEN = 33" by (simp add: MIN_MUTATION_HEADER_LEN_def)
  have adds: "checked_add u64_max 33 (length store) = Some (33 + length store)"
    "checked_add u64_max (33 + length store) (length key) = Some (33 + length store + length key)"
    using assms(1,2) by (simp_all add: max_defs)
  have ge: "\<not> length ?p < 33" by (simp add: f(1))
  show ?thesis
    unfolding decode_with_slot_limit_def Let_def frame.simps hl f mutation_bytes_version adds option.case using ge assms(6) f(1) by simp
qed

text \<open>The frame kind and payload the transport posts for a mutation.\<close>

fun encode_mutation :: "cache_layout \<Rightarrow> cache_mutation \<Rightarrow> cache_error + (nat \<times> bytes)" where
  "encode_mutation L (CPut store key r e p) = map_sum id (Pair FRAME_KIND_PUT) (encode_put L store key e p)"
| "encode_mutation L (CDelete store key r) = map_sum id (Pair FRAME_KIND_DELETE) (encode_delete L store key)"
| "encode_mutation L (CReset store r) = map_sum id (Pair FRAME_KIND_RESET) (encode_reset L store)"

text \<open>What a publisher guarantees of a put: a live arena address, a length in range, a deadline in the future.\<close>

fun mutation_ok :: "nat \<Rightarrow> cache_mutation \<Rightarrow> bool" where
  "mutation_ok arena_slots (CPut store key r e p) \<longleftrightarrow>
     ad_slot (pl_address p) < arena_slots \<and> ad_slot (pl_address p) \<le> u32_max \<and> 0 < ad_generation (pl_address p) \<and>
     ad_generation (pl_address p) \<le> u64_max \<and> pl_value_len p \<le> u64_max \<and>
     (case e of None \<Rightarrow> True | Some t \<Rightarrow> 0 < t \<and> t \<le> u64_max)"
| "mutation_ok arena_slots m \<longleftrightarrow> True"

lemma cache_store_Inr: "cache_validate_store L store = Inr u \<Longrightarrow> store \<noteq> [] \<and> length store \<le> u16_max"
  by (auto simp: cache_validate_store_def max_store_len_def split: if_splits)

lemma cache_key_Inr: "cache_validate_key L n key = Inr u \<Longrightarrow> key \<noteq> [] \<and> length key \<le> u16_max"
  by (auto simp: cache_validate_key_def max_key_len_def split: if_splits)

lemma cache_roundtrip:
  assumes "mutation_ok arena_slots m" "encode_mutation L m = Inr (kind, payload)" "mutation_revision m = Revision ver fid"
  shows "cache_decode arena_slots \<lparr>fr_id = fid, fr_kind = kind, fr_ver = ver, fr_payload = payload\<rparr> = Some m"
proof (cases m)
  case (CPut store key r e p)
  let ?e = "case e of None \<Rightarrow> 0 | Some t \<Rightarrow> t" and ?a = "pl_address p"
  have enc: "kind = FRAME_KIND_PUT" "payload = mutation_bytes ?e (ad_slot ?a) (ad_generation ?a) (pl_value_len p) store key"
    and ok: "store \<noteq> [] \<and> length store \<le> u16_max" "key \<noteq> [] \<and> length key \<le> u16_max"
    using assms(2) CPut by (auto simp: encode_put_def dest: cache_store_Inr cache_key_Inr split: sum.splits)
  have "?e \<le> u64_max" using assms(1) CPut by (auto split: option.splits)
  then show ?thesis
    unfolding enc cache_decode_def
    by (subst decode_mutation_bytes) (use ok assms CPut in \<open>auto split: option.splits\<close>)
next
  case (CDelete store key r)
  have enc: "kind = FRAME_KIND_DELETE" "payload = mutation_bytes 0 0 0 0 store key"
    and ok: "store \<noteq> [] \<and> length store \<le> u16_max" "key \<noteq> [] \<and> length key \<le> u16_max"
    using assms(2) CDelete by (auto simp: encode_delete_def dest: cache_store_Inr cache_key_Inr split: sum.splits)
  show ?thesis
    unfolding enc cache_decode_def
    by (subst decode_mutation_bytes) (use ok assms(3) CDelete in \<open>auto simp: mutation_kind_defs\<close>)
next
  case (CReset store r)
  have enc: "kind = FRAME_KIND_RESET" "payload = mutation_bytes 0 0 0 0 store []"
    and ok: "store \<noteq> [] \<and> length store \<le> u16_max"
    using assms(2) CReset by (auto simp: encode_reset_def dest: cache_store_Inr split: sum.splits)
  show ?thesis
    unfolding enc cache_decode_def
    by (subst decode_mutation_bytes) (use ok assms(3) CReset in \<open>auto simp: mutation_kind_defs\<close>)
qed

text \<open>Whatever an encoder accepts fits the payload of the ring.\<close>

lemma validate_store_fits:
  assumes "cache_validate_store L store = Inr u"
  shows "33 + length store \<le> rs_payload_capacity (cl_mutation_ring_spec L)"
proof -
  have "0 < length store" "length store \<le> rs_payload_capacity (cl_mutation_ring_spec L) - 34"
    using assms by (auto simp: cache_validate_store_def max_store_len_def MIN_MUTATION_HEADER_LEN_def saturating_sub_def split: if_splits)
  then show ?thesis by linarith
qed

lemma validate_key_fits:
  assumes "cache_validate_key L n key = Inr u"
  shows "33 + n + length key \<le> rs_payload_capacity (cl_mutation_ring_spec L)"
proof -
  have "0 < length key" "length key \<le> rs_payload_capacity (cl_mutation_ring_spec L) - 33 - n"
    using assms by (auto simp: cache_validate_key_def max_key_len_def MIN_MUTATION_HEADER_LEN_def saturating_sub_def split: if_splits)
  then show ?thesis by linarith
qed

lemma encode_mutation_fits:
  assumes "encode_mutation L m = Inr (kind, payload)"
  shows "length payload \<le> rs_payload_capacity (cl_mutation_ring_spec L)"
  using assms
  by (cases m)
     (auto simp: encode_put_def encode_delete_def encode_reset_def mutation_bytes_def
        dest!: validate_store_fits validate_key_fits split: sum.splits)

definition demo_cache_layout :: cache_layout where
  "demo_cache_layout = \<lparr>cl_mutation_ring_kind = 194, cl_mutation_ring_spec = spec_per_node 2 64\<rparr>"

text \<open>
  Cache mutations round-trip through their frames. Whatever put, delete or reset the encoders
  accept, the payload fits the mutation ring and decoding the frame posted under the mutation's own
  sequence and id gives the mutation back.
\<close>

lemma cache_mutation_roundtrip:
  assumes "mutation_ok arena_slots m" "encode_mutation L m = Inr (kind, payload)" "mutation_revision m = Revision ver fid"
  shows "length payload \<le> rs_payload_capacity (cl_mutation_ring_spec L) \<and>
    cache_decode arena_slots \<lparr>fr_id = fid, fr_kind = kind, fr_ver = ver, fr_payload = payload\<rparr> = Some m"
  using cache_roundtrip [OF assms] encode_mutation_fits [OF assms(2)] by simp

end
