(* ===== verification/Cache_Local.thy ===== *)
theory Cache_Local
  imports Cache_Protocol
begin

text \<open>
  The bounded process-local metadata of a cache store: \<^verbatim>\<open>cache/src/local.rs\<close>. The LRU map belongs to
  the crate \<^verbatim>\<open>lru\<close>: its operations are a parameter of the definitions, and the locale \<open>lru_cache\<close>
  states what its documentation promises of them. The arena is seen through \<open>resolve\<close>, the body that
  an address currently pins, if any.
\<close>

section \<open>State\<close>

datatype local_slot =
    Present payload_ref cache_revision "nat option"
  | Missing cache_revision

fun slot_revision :: "local_slot \<Rightarrow> cache_revision" where
  "slot_revision (Present payload revision expires_at_ms) = revision"
| "slot_revision (Missing revision) = revision"

record 'c lru_ops =
  lru_new :: "nat \<Rightarrow> 'c"
  lru_get :: "'c \<Rightarrow> bytes \<Rightarrow> 'c \<times> local_slot option"
  lru_peek :: "'c \<Rightarrow> bytes \<Rightarrow> local_slot option"
  lru_put :: "'c \<Rightarrow> bytes \<Rightarrow> local_slot \<Rightarrow> 'c"
  lru_push :: "'c \<Rightarrow> bytes \<Rightarrow> local_slot \<Rightarrow> 'c \<times> (bytes \<times> local_slot) option"
  lru_pop :: "'c \<Rightarrow> bytes \<Rightarrow> 'c"
  lru_iter :: "'c \<Rightarrow> (bytes \<times> local_slot) list"
  lru_clear :: "'c \<Rightarrow> 'c"

record 'c local_state =
  lcs_slots :: 'c
  lcs_revision_floor :: "nat option"
  lcs_coherent :: bool

record cache_entry =
  ce_value :: bytes
  ce_revision :: cache_revision
  ce_expires_at_ms :: "nat option"

datatype cache_read = Hit cache_entry | Miss | ResyncRequired

datatype apply_outcome = Applied | Ignored | PayloadUnavailable bytes

definition expired :: "nat option \<Rightarrow> nat \<Rightarrow> bool" where
  "expired deadline now_ms = (case deadline of None \<Rightarrow> False | Some t \<Rightarrow> t \<le> now_ms)"

definition entry_is_expired_at :: "cache_entry \<Rightarrow> nat \<Rightarrow> bool" where
  "entry_is_expired_at e now_ms = expired (ce_expires_at_ms e) now_ms"

definition local_new :: "'c lru_ops \<Rightarrow> nat \<Rightarrow> 'c local_state" where
  "local_new ops capacity = \<lparr>lcs_slots = lru_new ops capacity, lcs_revision_floor = None, lcs_coherent = True\<rparr>"

section \<open>Operations of the locked state\<close>

definition floor_accepts :: "nat option \<Rightarrow> cache_revision \<Rightarrow> bool" where
  "floor_accepts fl revision = (case fl of None \<Rightarrow> True | Some f \<Rightarrow> \<not> rev_sequence revision \<le> f)"

definition local_accepts :: "'c local_state \<Rightarrow> cache_revision \<Rightarrow> bool" where
  "local_accepts st revision = floor_accepts (lcs_revision_floor st) revision"

definition raise_floor :: "nat option \<Rightarrow> nat \<Rightarrow> nat" where
  "raise_floor fl revision = (case fl of None \<Rightarrow> revision | Some current \<Rightarrow> max current revision)"

definition advance_floor :: "'c lru_ops \<Rightarrow> 'c local_state \<Rightarrow> nat \<Rightarrow> 'c local_state" where
  "advance_floor ops st revision =
     (let fl = raise_floor (lcs_revision_floor st) revision;
          stale_keys = map fst (filter (\<lambda>(key, slot). rev_sequence (slot_revision slot) \<le> fl) (lru_iter ops (lcs_slots st)))
      in st\<lparr>lcs_revision_floor := Some fl, lcs_slots := foldl (lru_pop ops) (lcs_slots st) stale_keys\<rparr>)"

definition advance_floor_from_slots :: "'c lru_ops \<Rightarrow> 'c local_state \<Rightarrow> 'c local_state" where
  "advance_floor_from_slots ops st =
     (case map (\<lambda>(key, slot). slot_revision slot) (lru_iter ops (lcs_slots st)) of
        [] \<Rightarrow> st
      | r # rs \<Rightarrow> advance_floor ops st (rev_sequence (foldl max r rs)))"

definition put_slot :: "'c lru_ops \<Rightarrow> 'c local_state \<Rightarrow> bytes \<Rightarrow> local_slot \<Rightarrow> 'c local_state \<times> bool" where
  "put_slot ops st key slot =
     (if (case lru_peek ops (lcs_slots st) key of None \<Rightarrow> False | Some current \<Rightarrow> slot_revision current \<ge> slot_revision slot)
      then (st, False)
      else case lru_push ops (lcs_slots st) key slot of
             (c, removed) \<Rightarrow>
               let st1 = st\<lparr>lcs_slots := c\<rparr>;
                   st2 = (case removed of
                            Some (removed_key, old) \<Rightarrow>
                              if removed_key \<noteq> key then advance_floor ops st1 (rev_sequence (slot_revision old)) else st1
                          | None \<Rightarrow> st1)
               in (st2, lru_peek ops (lcs_slots st2) key \<noteq> None))"

section \<open>Operations of the cache\<close>

definition local_read_at ::
    "'c lru_ops \<Rightarrow> (address \<Rightarrow> bytes option) \<Rightarrow> 'c local_state \<Rightarrow> bytes \<Rightarrow> nat \<Rightarrow> 'c local_state \<times> cache_read" where
  "local_read_at ops resolve st key now_ms =
     (if \<not> lcs_coherent st then (st, ResyncRequired)
      else case lru_get ops (lcs_slots st) key of
             (c, None) \<Rightarrow> (st\<lparr>lcs_slots := c\<rparr>, Miss)
           | (c, Some (Missing revision)) \<Rightarrow> (st\<lparr>lcs_slots := c\<rparr>, Miss)
           | (c, Some (Present payload revision expires_at_ms)) \<Rightarrow>
               (case (if expired expires_at_ms now_ms then None else resolve (pl_address payload)) of
                  Some body \<Rightarrow>
                    if length body = pl_value_len payload
                    then (st\<lparr>lcs_slots := c\<rparr>, Hit \<lparr>ce_value = body, ce_revision = revision, ce_expires_at_ms = expires_at_ms\<rparr>)
                    else (st\<lparr>lcs_slots := lru_put ops c key (Missing revision)\<rparr>, Miss)
                | None \<Rightarrow> (st\<lparr>lcs_slots := lru_put ops c key (Missing revision)\<rparr>, Miss)))"

definition local_len :: "'c lru_ops \<Rightarrow> 'c local_state \<Rightarrow> nat" where
  "local_len ops st =
     length (filter (\<lambda>(key, slot). case slot of Present _ _ _ \<Rightarrow> True | Missing _ \<Rightarrow> False) (lru_iter ops (lcs_slots st)))"

definition require_resync :: "'c lru_ops \<Rightarrow> 'c local_state \<Rightarrow> 'c local_state" where
  "require_resync ops st =
     (let st1 = advance_floor_from_slots ops st
      in st1\<lparr>lcs_slots := lru_clear ops (lcs_slots st1), lcs_coherent := False\<rparr>)"

definition local_recover_from_backing :: "'c lru_ops \<Rightarrow> 'c local_state \<Rightarrow> nat \<Rightarrow> 'c local_state" where
  "local_recover_from_backing ops st revision_floor =
     st\<lparr>lcs_slots := lru_clear ops (lcs_slots st),
        lcs_revision_floor := Some (raise_floor (lcs_revision_floor st) revision_floor), lcs_coherent := True\<rparr>"

definition reset_after_transport_reset :: "'c lru_ops \<Rightarrow> 'c local_state \<Rightarrow> 'c local_state" where
  "reset_after_transport_reset ops st =
     st\<lparr>lcs_slots := lru_clear ops (lcs_slots st), lcs_revision_floor := None, lcs_coherent := True\<rparr>"

definition payload_resolves :: "(address \<Rightarrow> bytes option) \<Rightarrow> payload_ref \<Rightarrow> bool" where
  "payload_resolves resolve payload =
     (case resolve (pl_address payload) of None \<Rightarrow> False | Some body \<Rightarrow> length body = pl_value_len payload)"

fun local_apply ::
    "'c lru_ops \<Rightarrow> (address \<Rightarrow> bytes option) \<Rightarrow> 'c local_state \<Rightarrow> cache_mutation \<Rightarrow> 'c local_state \<times> apply_outcome" where
  "local_apply ops resolve st (CPut store key revision expires_at_ms payload) =
     (if \<not> local_accepts st revision then (st, Ignored)
      else if payload_resolves resolve payload
      then (case put_slot ops st key (Present payload revision expires_at_ms) of
              (st', applied) \<Rightarrow> (st', if applied then Applied else Ignored))
      else (case put_slot ops st key (Missing revision) of
              (st', applied) \<Rightarrow> (st', if applied then PayloadUnavailable key else Ignored)))"
| "local_apply ops resolve st (CDelete store key revision) =
     (if \<not> local_accepts st revision then (st, Ignored)
      else case put_slot ops st key (Missing revision) of (st', applied) \<Rightarrow> (st', if applied then Applied else Ignored))"
| "local_apply ops resolve st (CReset store revision) =
     (if \<not> local_accepts st revision then (st, Ignored)
      else (advance_floor ops st (rev_sequence revision), Applied))"

definition install_local :: "'c lru_ops \<Rightarrow> 'c local_state \<Rightarrow> bytes \<Rightarrow> payload_ref \<Rightarrow> cache_revision \<Rightarrow> nat option \<Rightarrow> 'c local_state" where
  "install_local ops st key payload revision expires_at_ms =
     (if local_accepts st revision then fst (put_slot ops st key (Present payload revision expires_at_ms)) else st)"

definition install_missing :: "'c lru_ops \<Rightarrow> 'c local_state \<Rightarrow> bytes \<Rightarrow> cache_revision \<Rightarrow> 'c local_state" where
  "install_missing ops st key revision =
     (if local_accepts st revision then fst (put_slot ops st key (Missing revision)) else st)"

definition reset_local :: "'c lru_ops \<Rightarrow> 'c local_state \<Rightarrow> cache_revision \<Rightarrow> 'c local_state" where
  "reset_local ops st revision =
     (if local_accepts st revision then advance_floor ops st (rev_sequence revision) else st)"

abbreviation entries :: "'c lru_ops \<Rightarrow> 'c local_state \<Rightarrow> bytes \<Rightarrow> local_slot option" where
  "entries ops st \<equiv> lru_peek ops (lcs_slots st)"

text \<open>Between operations every slot lies above the revision floor.\<close>

definition local_ok :: "'c lru_ops \<Rightarrow> ('c \<Rightarrow> bool) \<Rightarrow> 'c local_state \<Rightarrow> bool" where
  "local_ok ops good st \<longleftrightarrow> good (lcs_slots st) \<and> (\<forall>k s. entries ops st k = Some s \<longrightarrow> local_accepts st (slot_revision s))"

text \<open>The floor drops exactly the slots it reaches.\<close>

definition above :: "nat \<Rightarrow> (bytes \<Rightarrow> local_slot option) \<Rightarrow> bytes \<Rightarrow> local_slot option" where
  "above f m k = (case m k of Some s \<Rightarrow> if rev_sequence (slot_revision s) \<le> f then None else Some s | None \<Rightarrow> None)"

lemma above_Some: "above f m k = Some s \<longleftrightarrow> m k = Some s \<and> f < rev_sequence (slot_revision s)"
  by (auto simp: above_def split: option.splits)

lemma raise_floor_accepts:
  "floor_accepts (Some (raise_floor fl n)) r \<longleftrightarrow> floor_accepts fl r \<and> n < rev_sequence r"
  by (auto simp: floor_accepts_def raise_floor_def split: option.splits)

section \<open>The contract of the LRU map\<close>

text \<open>
  What the documentation of the crate promises, over the map that \<open>peek\<close> reads: \<open>good\<close> holds of every
  cache the operations build and \<open>cap\<close> is its capacity. \<open>push\<close> returns the entry it replaced or, when
  the cache was full, another entry that it evicted; which one is left open.
\<close>

locale lru_cache =
  fixes ops :: "'c lru_ops" and good :: "'c \<Rightarrow> bool" and cap :: "'c \<Rightarrow> nat"
  assumes new: "0 < n \<Longrightarrow> good (lru_new ops n) \<and> cap (lru_new ops n) = n \<and> lru_peek ops (lru_new ops n) = Map.empty"
    and iter: "good c \<Longrightarrow> map_of (lru_iter ops c) = lru_peek ops c \<and> distinct (map fst (lru_iter ops c))"
    and get: "good c \<Longrightarrow> lru_get ops c k = (c', r) \<Longrightarrow>
      good c' \<and> cap c' = cap c \<and> lru_peek ops c' = lru_peek ops c \<and> r = lru_peek ops c k"
    and put: "good c \<Longrightarrow> lru_peek ops c k \<noteq> None \<Longrightarrow>
      good (lru_put ops c k v) \<and> cap (lru_put ops c k v) = cap c \<and> lru_peek ops (lru_put ops c k v) = (lru_peek ops c)(k \<mapsto> v)"
    and push: "good c \<Longrightarrow> lru_push ops c k v = (c', e) \<Longrightarrow> good c' \<and> cap c' = cap c \<and>
      (lru_peek ops c' = (lru_peek ops c)(k \<mapsto> v) \<and> e = map_option (Pair k) (lru_peek ops c k) \<or>
       (\<exists>k' v'. e = Some (k', v') \<and> k' \<noteq> k \<and> lru_peek ops c k = None \<and> lru_peek ops c k' = Some v' \<and>
          card (dom (lru_peek ops c)) = cap c \<and> lru_peek ops c' = (lru_peek ops c)(k' := None, k \<mapsto> v)))"
    and pop: "good c \<Longrightarrow> good (lru_pop ops c k) \<and> cap (lru_pop ops c k) = cap c \<and>
      lru_peek ops (lru_pop ops c k) = (lru_peek ops c)(k := None)"
    and clear: "good c \<Longrightarrow> good (lru_clear ops c) \<and> cap (lru_clear ops c) = cap c \<and> lru_peek ops (lru_clear ops c) = Map.empty"
begin

lemma pops:
  "good c \<Longrightarrow> good (foldl (lru_pop ops) c ks) \<and> cap (foldl (lru_pop ops) c ks) = cap c \<and>
     lru_peek ops (foldl (lru_pop ops) c ks) = (\<lambda>k. if k \<in> set ks then None else lru_peek ops c k)"
proof (induction ks arbitrary: c)
  case (Cons k ks)
  then show ?case using pop [OF Cons.prems, of k] Cons.IH [of "lru_pop ops c k"] by (auto simp: fun_eq_iff)
qed simp

lemma iter_in: "good c \<Longrightarrow> (k, s) \<in> set (lru_iter ops c) \<longleftrightarrow> lru_peek ops c k = Some s"
  using iter [of c] by (metis map_of_eq_Some_iff)

lemma advance_floor_entries:
  assumes "good (lcs_slots st)" and f: "f = raise_floor (lcs_revision_floor st) n"
  shows "good (lcs_slots (advance_floor ops st n)) \<and> cap (lcs_slots (advance_floor ops st n)) = cap (lcs_slots st) \<and>
    lcs_revision_floor (advance_floor ops st n) = Some f \<and> lcs_coherent (advance_floor ops st n) = lcs_coherent st \<and>
    entries ops (advance_floor ops st n) = above f (entries ops st)"
proof -
  let ?stale = "map fst (filter (\<lambda>(key, slot). rev_sequence (slot_revision slot) \<le> f) (lru_iter ops (lcs_slots st)))"
  have "k \<in> set ?stale \<longleftrightarrow> (\<exists>s. entries ops st k = Some s \<and> rev_sequence (slot_revision s) \<le> f)" for k
    using iter_in [OF assms(1), of k] by force
  then have "(if k \<in> set ?stale then None else entries ops st k) = above f (entries ops st) k" for k
    by (auto simp: above_def split: option.splits)
  then show ?thesis
    using pops [OF assms(1), of ?stale] unfolding f by (simp add: advance_floor_def Let_def fun_eq_iff)
qed

lemma advance_floor_ok:
  assumes "good (lcs_slots st)"
  shows "local_ok ops good (advance_floor ops st n)"
  using advance_floor_entries [OF assms refl, of n] by (auto simp: local_ok_def local_accepts_def floor_accepts_def above_Some)

text \<open>What one insertion does: an up-to-date slot stays, an eviction raises the floor over what it removed.\<close>

lemma put_slot_cases:
  assumes ok: "good (lcs_slots st)" and put: "put_slot ops st key slot = (st', b)"
  obtains (stale) s where "st' = st" "\<not> b" "entries ops st key = Some s" "slot_revision slot \<le> slot_revision s"
  | (stored) "good (lcs_slots st')" "cap (lcs_slots st') = cap (lcs_slots st)" "lcs_revision_floor st' = lcs_revision_floor st" "b"
      "lcs_coherent st' = lcs_coherent st"
      "entries ops st' = (entries ops st)(key \<mapsto> slot)" "\<And>s. entries ops st key = Some s \<Longrightarrow> slot_revision s < slot_revision slot"
  | (evicted) k' s' f where "good (lcs_slots st')" "cap (lcs_slots st') = cap (lcs_slots st)" "k' \<noteq> key" "entries ops st k' = Some s'"
      "entries ops st key = None" "card (dom (entries ops st)) = cap (lcs_slots st)" "lcs_coherent st' = lcs_coherent st"
      "f = raise_floor (lcs_revision_floor st) (rev_sequence (slot_revision s'))" "lcs_revision_floor st' = Some f"
      "entries ops st' = above f ((entries ops st)(k' := None, key \<mapsto> slot))"
proof (cases "\<exists>s. entries ops st key = Some s \<and> slot_revision slot \<le> slot_revision s")
  case True
  then show ?thesis using put stale by (auto simp: put_slot_def)
next
  case False
  obtain c r where p: "lru_push ops (lcs_slots st) key slot = (c, r)" by (cases "lru_push ops (lcs_slots st) key slot")
  have new: "slot_revision s < slot_revision slot" if "entries ops st key = Some s" for s using False that by auto
  have guard: "\<not> (case entries ops st key of None \<Rightarrow> False | Some s \<Rightarrow> slot_revision s \<ge> slot_revision slot)"
    using False by (auto split: option.splits)
  have good: "good c" "cap c = cap (lcs_slots st)" using push [OF ok p] by auto
  from push [OF ok p] consider
      "lru_peek ops c = (entries ops st)(key \<mapsto> slot)" "r = map_option (Pair key) (entries ops st key)"
    | k' s' where "r = Some (k', s')" "k' \<noteq> key" "entries ops st key = None" "entries ops st k' = Some s'"
        "card (dom (entries ops st)) = cap (lcs_slots st)" "lru_peek ops c = (entries ops st)(k' := None, key \<mapsto> slot)" by blast
  then show ?thesis
  proof cases
    case 1
    have "st' = st\<lparr>lcs_slots := c\<rparr> \<and> b"
      using put guard p 1 by (cases "entries ops st key") (auto simp: put_slot_def Let_def)
    then show ?thesis using stored good 1 new by simp
  next
    case 2
    let ?st1 = "st\<lparr>lcs_slots := c\<rparr>"
    have "st' = advance_floor ops ?st1 (rev_sequence (slot_revision s'))"
      using put guard p 2 by (auto simp: put_slot_def Let_def)
    then show ?thesis using evicted [OF _ _ 2(2,4,3,5)] advance_floor_entries [of ?st1, OF _ refl] good 2(6) by simp
  qed
qed

end

end
