(* ===== verification/Cache_Coherence.thy ===== *)
theory Cache_Coherence
  imports Cache_Local
begin

text \<open>
  Coherence of the local cache metadata: a processed mutation is never forgotten, so a hit is never
  older than anything the store has seen of its key, across evictions, expiry, lost history and
  recovery; and stores that process the same mutations agree, whatever the order.
\<close>

section \<open>Runs\<close>

datatype cache_op =
    OApply "address \<Rightarrow> bytes option" cache_mutation
  | ORead "address \<Rightarrow> bytes option" bytes nat
  | OInstall bytes payload_ref cache_revision "nat option"
  | OMissing bytes cache_revision
  | OReset cache_revision
  | OResync
  | ORecover nat

fun local_step :: "'c lru_ops \<Rightarrow> 'c local_state \<Rightarrow> cache_op \<Rightarrow> 'c local_state" where
  "local_step ops st (OApply resolve m) = fst (local_apply ops resolve st m)"
| "local_step ops st (ORead resolve key now_ms) = fst (local_read_at ops resolve st key now_ms)"
| "local_step ops st (OInstall key payload revision expires) = install_local ops st key payload revision expires"
| "local_step ops st (OMissing key revision) = install_missing ops st key revision"
| "local_step ops st (OReset revision) = reset_local ops st revision"
| "local_step ops st OResync = require_resync ops st"
| "local_step ops st (ORecover n) = local_recover_from_backing ops st n"

text \<open>The mutation an operation processes, as the key and revision it concerns; a reset concerns every key.\<close>

fun concerns :: "cache_op \<Rightarrow> bytes \<Rightarrow> cache_revision \<Rightarrow> bool" where
  "concerns (OApply resolve (CPut store key revision e p)) k r \<longleftrightarrow> k = key \<and> r = revision"
| "concerns (OApply resolve (CDelete store key revision)) k r \<longleftrightarrow> k = key \<and> r = revision"
| "concerns (OApply resolve (CReset store revision)) k r \<longleftrightarrow> r = revision"
| "concerns (OInstall key payload revision e) k r \<longleftrightarrow> k = key \<and> r = revision"
| "concerns (OMissing key revision) k r \<longleftrightarrow> k = key \<and> r = revision"
| "concerns (OReset revision) k r \<longleftrightarrow> r = revision"
| "concerns op k r \<longleftrightarrow> False"

text \<open>
  A revision of a key is covered when the floor has reached it or the slot of the key is at least as new.
\<close>

definition covered :: "'c lru_ops \<Rightarrow> 'c local_state \<Rightarrow> bytes \<Rightarrow> cache_revision \<Rightarrow> bool" where
  "covered ops st k r \<longleftrightarrow> \<not> local_accepts st r \<or> (\<exists>s. entries ops st k = Some s \<and> r \<le> slot_revision s)"

definition recovers_after :: "cache_revision \<Rightarrow> cache_op \<Rightarrow> bool" where
  "recovers_after r op \<longleftrightarrow> (case op of ORecover n \<Rightarrow> rev_sequence r \<le> n | _ \<Rightarrow> True)"

lemma foldl_max_start: "(x::'a::linorder) \<le> foldl max x xs"
  by (induction xs arbitrary: x) (auto intro: order_trans [OF max.cobounded1])

lemma foldl_max_ge: "(r::'a::linorder) \<in> insert x (set xs) \<Longrightarrow> r \<le> foldl max x xs"
proof (induction xs arbitrary: x)
  case (Cons y ys)
  have "max x y \<le> foldl max (max x y) ys" by (rule foldl_max_start)
  then show ?case using Cons by auto
qed simp

definition lww :: "'c lru_ops \<Rightarrow> nat set \<Rightarrow> (bytes \<times> local_slot) set \<Rightarrow> 'c local_state \<Rightarrow> bool" where
  "lww ops F S st \<longleftrightarrow> (\<forall>r. local_accepts st r \<longleftrightarrow> (\<forall>f\<in>F. f < rev_sequence r)) \<and>
     (\<forall>k s. entries ops st k = Some s \<longrightarrow> (k, s) \<in> S \<and> local_accepts st (slot_revision s) \<and>
        (\<forall>s'. (k, s') \<in> S \<longrightarrow> slot_revision s' \<le> slot_revision s)) \<and>
     (\<forall>k s. (k, s) \<in> S \<longrightarrow> local_accepts st (slot_revision s) \<longrightarrow> entries ops st k \<noteq> None)"

text \<open>The slot a mutation offers, given what the arena holds, and the floor it raises.\<close>

fun offered :: "(address \<Rightarrow> bytes option) \<Rightarrow> cache_mutation \<Rightarrow> (bytes \<times> local_slot) list" where
  "offered resolve (CPut store key r e p) = [(key, if payload_resolves resolve p then Present p r e else Missing r)]"
| "offered resolve (CDelete store key r) = [(key, Missing r)]"
| "offered resolve (CReset store r) = []"

fun reset_floor :: "cache_mutation \<Rightarrow> nat list" where
  "reset_floor (CReset store r) = [rev_sequence r]"
| "reset_floor m = []"

definition offers :: "(address \<Rightarrow> bytes option) \<Rightarrow> cache_mutation list \<Rightarrow> (bytes \<times> local_slot) set" where
  "offers resolve ms = set (concat (map (offered resolve) ms))"

definition resets :: "cache_mutation list \<Rightarrow> nat set" where
  "resets ms = set (concat (map reset_floor ms))"

lemma offered_facts:
  "(k, s) \<in> set (offered resolve m) \<Longrightarrow> slot_revision s = mutation_revision m"
  "(k, s) \<in> set (offered resolve m) \<Longrightarrow> (k, s') \<in> set (offered resolve m) \<Longrightarrow> s = s'"
  by (cases m rule: cache_mutation.exhaust; auto split: if_splits)+

lemma lwwD:
  assumes "lww ops F S st"
  shows "local_accepts st r \<longleftrightarrow> (\<forall>f\<in>F. f < rev_sequence r)"
    and "entries ops st k = Some s \<Longrightarrow> (k, s) \<in> S \<and> local_accepts st (slot_revision s)"
    and "entries ops st k = Some s \<Longrightarrow> (k, s') \<in> S \<Longrightarrow> slot_revision s' \<le> slot_revision s"
    and "(k, s) \<in> S \<Longrightarrow> local_accepts st (slot_revision s) \<Longrightarrow> \<exists>s'. entries ops st k = Some s'"
  using assms unfolding lww_def by blast+

lemma floors_eq:
  assumes "\<And>r. floor_accepts fl r \<longleftrightarrow> floor_accepts fl' r"
  shows "fl = fl'"
  using assms [of "Revision 0 0"] assms [of "Revision (the fl) 0"] assms [of "Revision (the fl') 0"]
  by (cases fl; cases fl') (auto simp: floor_accepts_def)

lemma lww_unique:
  assumes "lww ops F S st" "lww ops F S st'"
    and uniq: "\<And>k s s'. (k, s) \<in> S \<Longrightarrow> (k, s') \<in> S \<Longrightarrow> slot_revision s = slot_revision s' \<Longrightarrow> s = s'"
  shows "entries ops st = entries ops st' \<and> lcs_revision_floor st = lcs_revision_floor st'"
proof -
  have acc: "local_accepts st r \<longleftrightarrow> local_accepts st' r" for r using lwwD(1) assms(1,2) by blast
  have sub: "entries ops t k = Some s \<Longrightarrow> entries ops t' k = Some s"
    if "lww ops F S t" "lww ops F S t'" "\<And>r. local_accepts t r \<longleftrightarrow> local_accepts t' r" for t t' k s
    using that(3) lwwD(2,3) [OF that(1), of k s] lwwD(2-4) [OF that(2), of k] uniq by (metis order.antisym)
  have "entries ops st k = entries ops st' k" for k
    using sub [OF assms(1,2) acc, of k] sub [OF assms(2,1), of k] acc by (cases "entries ops st k"; cases "entries ops st' k") auto
  moreover have "lcs_revision_floor st = lcs_revision_floor st'" using floors_eq acc unfolding local_accepts_def by blast
  ultimately show ?thesis by blast
qed

lemma floor_order: "\<not> floor_accepts fl r \<Longrightarrow> floor_accepts fl r' \<Longrightarrow> r \<le> r'"
  by (cases r; cases r') (auto simp: floor_accepts_def less_eq_cache_revision_def split: option.splits)

definition offer_slot :: "'c lru_ops \<Rightarrow> 'c local_state \<Rightarrow> bytes \<Rightarrow> local_slot \<Rightarrow> 'c local_state" where
  "offer_slot ops st key slot = (if local_accepts st (slot_revision slot) then fst (put_slot ops st key slot) else st)"

lemma install_offer:
  "install_local ops st key p r e = offer_slot ops st key (Present p r e)"
  "install_missing ops st key r = offer_slot ops st key (Missing r)"
  by (simp_all add: install_local_def install_missing_def offer_slot_def)

lemma apply_offer:
  "fst (local_apply ops resolve st (CPut store key r e p)) =
     offer_slot ops st key (if payload_resolves resolve p then Present p r e else Missing r)"
  "fst (local_apply ops resolve st (CDelete store key r)) = offer_slot ops st key (Missing r)"
  by (simp_all add: offer_slot_def case_prod_unfold)

lemma apply_reset: "fst (local_apply ops resolve st (CReset store r)) = reset_local ops st r"
  by (simp add: reset_local_def)

lemmas step_forms = apply_offer apply_reset install_offer

declare local_apply.simps [simp del]

context lru_cache
begin

lemma advance_floor_covered:
  assumes "good (lcs_slots st)" "covered ops st k r"
  shows "covered ops (advance_floor ops st n) k r"
proof -
  note af = advance_floor_entries [OF assms(1) refl, of n]
  consider "\<not> local_accepts st r" | s where "entries ops st k = Some s" "r \<le> slot_revision s"
    using assms(2) by (auto simp: covered_def)
  then show ?thesis
  proof cases
    case 1
    then show ?thesis using af by (simp add: covered_def local_accepts_def raise_floor_accepts)
  next
    case 2
    show ?thesis
    proof (cases "raise_floor (lcs_revision_floor st) n < rev_sequence (slot_revision s)")
      case True
      then show ?thesis using 2 af by (auto simp: covered_def above_Some)
    next
      case False
      then show ?thesis
        using revision_sequence_mono [OF 2(2)] af by (simp add: covered_def local_accepts_def floor_accepts_def)
    qed
  qed
qed

lemma advance_floor_reaches:
  assumes "good (lcs_slots st)" "rev_sequence r \<le> n"
  shows "covered ops (advance_floor ops st n) k r"
  using advance_floor_entries [OF assms(1) refl, of n] assms(2)
  by (auto simp: covered_def local_accepts_def floor_accepts_def raise_floor_def split: option.splits)

lemma put_slot_ok:
  assumes "local_ok ops good st" "local_accepts st (slot_revision slot)" "put_slot ops st key slot = (st', b)"
  shows "local_ok ops good st'" "covered ops st' key (slot_revision slot)" "covered ops st k r \<Longrightarrow> covered ops st' k r"
    "lcs_coherent st' = lcs_coherent st"
proof -
  have good: "good (lcs_slots st)" using assms(1) by (simp add: local_ok_def)
  have "local_ok ops good st' \<and> covered ops st' key (slot_revision slot) \<and> (covered ops st k r \<longrightarrow> covered ops st' k r) \<and>
      lcs_coherent st' = lcs_coherent st"
    using good assms(3)
  proof (cases rule: put_slot_cases)
    case (stale s)
    then show ?thesis using assms(1) by (auto simp: covered_def)
  next
    case stored
    have acc: "local_accepts st' = local_accepts st" using stored by (simp add: local_accepts_def fun_eq_iff)
    then have "local_ok ops good st'" using stored assms(1,2) by (auto simp: local_ok_def)
    moreover have "covered ops st' k r" if "covered ops st k r"
      using that stored(6,7) unfolding covered_def acc by (cases "k = key") (auto dest: order.trans [OF _ less_imp_le])
    ultimately show ?thesis using stored by (simp add: covered_def)
  next
    case (evicted k' s' f)
    have acc: "local_accepts st' x \<longleftrightarrow> local_accepts st x \<and> rev_sequence (slot_revision s') < rev_sequence x" for x
      using evicted(8,9) by (simp add: local_accepts_def raise_floor_accepts)
    have "local_ok ops good st'"
      using evicted(1,9,10) by (auto simp: local_ok_def local_accepts_def floor_accepts_def above_Some)
    moreover have "covered ops st' key (slot_revision slot)"
      using evicted(9,10) by (auto simp: covered_def above_Some local_accepts_def floor_accepts_def)
    moreover have "covered ops st' k r" if cov: "covered ops st k r"
    proof (cases "local_accepts st' r")
      case True
      have "local_accepts st r" using True acc [of r] by blast
      then obtain s where s: "entries ops st k = Some s" "r \<le> slot_revision s" using cov unfolding covered_def by blast
      then have le: "rev_sequence r \<le> rev_sequence (slot_revision s)" using revision_sequence_mono by blast
      have "k \<noteq> k'" using True acc [of r] le s(1) evicted(4) by auto
      moreover have "k \<noteq> key" using s(1) evicted(5) by auto
      moreover have "f < rev_sequence (slot_revision s)"
        using True le evicted(9) by (auto simp: local_accepts_def floor_accepts_def)
      ultimately show ?thesis using s evicted(10) by (auto simp: covered_def above_Some)
    qed (simp add: covered_def)
    ultimately show ?thesis using evicted(7) by blast
  qed
  then show "local_ok ops good st'" "covered ops st' key (slot_revision slot)" "covered ops st k r \<Longrightarrow> covered ops st' k r"
    "lcs_coherent st' = lcs_coherent st" by blast+
qed

lemma read_entries:
  assumes "good (lcs_slots st)" "local_read_at ops resolve st key now_ms = (st', res)"
  shows "good (lcs_slots st') \<and> lcs_revision_floor st' = lcs_revision_floor st \<and>
    map_option slot_revision (entries ops st' k) = map_option slot_revision (entries ops st k)"
proof (cases "lcs_coherent st")
  case True
  obtain c v where g: "lru_get ops (lcs_slots st) key = (c, v)" by (cases "lru_get ops (lcs_slots st) key")
  have "good c" "lru_peek ops c = entries ops st" "v = entries ops st key" using get [OF assms(1) g] by auto
  then show ?thesis
    using assms(2) True g put [of c key "Missing (slot_revision (the v))"]
    by (cases v) (auto simp: local_read_at_def split: local_slot.splits option.splits if_splits)
qed (use assms in \<open>simp add: local_read_at_def\<close>)

lemma read_hit:
  assumes "good (lcs_slots st)" "local_read_at ops resolve st key now_ms = (st', Hit e)"
  shows "\<exists>p. entries ops st key = Some (Present p (ce_revision e) (ce_expires_at_ms e)) \<and> lcs_coherent st \<and>
    \<not> entry_is_expired_at e now_ms \<and> resolve (pl_address p) = Some (ce_value e) \<and> length (ce_value e) = pl_value_len p"
proof -
  obtain c v where g: "lru_get ops (lcs_slots st) key = (c, v)" by (cases "lru_get ops (lcs_slots st) key")
  have "v = entries ops st key" using get [OF assms(1) g] by auto
  then show ?thesis
    using assms(2) g
    by (auto simp: local_read_at_def entry_is_expired_at_def split: local_slot.splits option.splits if_splits)
qed

text \<open>Every mutation of a key reaches the store as an offered slot, under the floor check.\<close>

lemma offer_ok:
  assumes "local_ok ops good st" "st' = offer_slot ops st key slot"
  shows "local_ok ops good st'" "covered ops st' key (slot_revision slot)" "covered ops st k r \<Longrightarrow> covered ops st' k r"
proof -
  obtain st1 b where put: "put_slot ops st key slot = (st1, b)" by (cases "put_slot ops st key slot")
  show "local_ok ops good st'" "covered ops st' key (slot_revision slot)" "covered ops st k r \<Longrightarrow> covered ops st' k r"
    using assms put put_slot_ok [OF assms(1) _ put] by (auto simp: offer_slot_def covered_def [of ops st key "slot_revision slot"])
qed

lemma reset_ok:
  assumes "local_ok ops good st" "st' = reset_local ops st revision"
  shows "local_ok ops good st'" "covered ops st' k revision" "covered ops st k r \<Longrightarrow> covered ops st' k r"
  using assms advance_floor_ok [of st] advance_floor_covered [of st] advance_floor_reaches [of st]
  by (auto simp: reset_local_def covered_def [of ops st k revision] local_ok_def)

lemma resync_ok:
  assumes ok: "local_ok ops good st"
  shows "local_ok ops good (require_resync ops st)" "covered ops st k r \<Longrightarrow> covered ops (require_resync ops st) k r"
proof -
  have good: "good (lcs_slots st)" using ok by (simp add: local_ok_def)
  let ?f = "advance_floor_from_slots ops st"
  have g: "good (lcs_slots ?f)"
    using good advance_floor_entries [OF good refl] by (simp add: advance_floor_from_slots_def split: list.split)
  then show "local_ok ops good (require_resync ops st)"
    using clear [OF g] by (simp add: require_resync_def Let_def local_ok_def)
  assume cov: "covered ops st k r"
  have "\<not> local_accepts ?f r"
  proof (cases "local_accepts st r")
    case True
    then obtain s where s: "entries ops st k = Some s" "r \<le> slot_revision s" using cov unfolding covered_def by blast
    then have "(k, s) \<in> set (lru_iter ops (lcs_slots st))" using iter_in [OF good] by blast
    then obtain x xs where xs: "map (\<lambda>(key, slot). slot_revision slot) (lru_iter ops (lcs_slots st)) = x # xs"
        "slot_revision s \<in> insert x (set xs)"
      by (cases "map (\<lambda>(key, slot). slot_revision slot) (lru_iter ops (lcs_slots st))") force+
    have "rev_sequence r \<le> rev_sequence (foldl max x xs)"
      using s(2) foldl_max_ge [OF xs(2)] by (meson order.trans revision_sequence_mono)
    then show ?thesis
      using xs(1) advance_floor_entries [OF good refl]
      by (simp add: advance_floor_from_slots_def local_accepts_def raise_floor_accepts)
  next
    case False
    then show ?thesis
      using advance_floor_entries [OF good refl]
      by (simp add: advance_floor_from_slots_def local_accepts_def raise_floor_accepts split: list.split)
  qed
  then show "covered ops (require_resync ops st) k r"
    by (simp add: require_resync_def Let_def covered_def local_accepts_def)
qed

lemma step_ok:
  assumes "local_ok ops good st"
  shows "local_ok ops good (local_step ops st op)"
proof (cases op)
  case (OApply resolve m)
  then show ?thesis
    using assms by (cases m) (auto simp: step_forms intro: offer_ok(1) reset_ok(1))
next
  case (ORead resolve key now)
  obtain st' res where rd: "local_read_at ops resolve st key now = (st', res)" by (cases "local_read_at ops resolve st key now")
  have same: "map_option slot_revision (entries ops st' k) = map_option slot_revision (entries ops st k)" for k
    using assms read_entries [OF _ rd] by (simp add: local_ok_def)
  have "\<exists>s0. entries ops st k = Some s0 \<and> slot_revision s0 = slot_revision s" if "entries ops st' k = Some s" for k s
    using that same [of k] by (cases "entries ops st k") simp_all
  then show ?thesis
    using ORead assms read_entries [OF _ rd] rd unfolding local_ok_def local_accepts_def by fastforce
next
  case (ORecover n)
  then show ?thesis using assms clear [of "lcs_slots st"] by (simp add: local_ok_def local_recover_from_backing_def)
qed (use assms resync_ok in \<open>auto simp: step_forms intro: offer_ok(1) [OF _ refl] reset_ok(1) [OF _ refl]\<close>)

lemma step_keeps:
  assumes ok: "local_ok ops good st" and cov: "covered ops st k r" and rec: "recovers_after r op"
  shows "covered ops (local_step ops st op) k r"
proof (cases op)
  case (OApply resolve m)
  then show ?thesis
    using ok cov by (cases m) (auto simp: step_forms intro: offer_ok(3) reset_ok(3))
next
  case (ORead resolve key now)
  obtain st' res where rd: "local_read_at ops resolve st key now = (st', res)" by (cases "local_read_at ops resolve st key now")
  have "lcs_revision_floor st' = lcs_revision_floor st"
    "map_option slot_revision (entries ops st' k) = map_option slot_revision (entries ops st k)"
    using ok read_entries [OF _ rd] by (simp_all add: local_ok_def)
  then show ?thesis
    using cov ORead rd unfolding covered_def local_accepts_def by (auto simp: map_option_eq_Some)
next
  case (ORecover n)
  then show ?thesis
    using rec by (simp add: recovers_after_def covered_def local_recover_from_backing_def local_accepts_def raise_floor_accepts)
qed (use ok cov resync_ok in \<open>auto simp: step_forms intro: offer_ok(3) reset_ok(3)\<close>)

lemma offer_covers: "local_ok ops good st \<Longrightarrow> slot_revision slot = r \<Longrightarrow> covered ops (offer_slot ops st k slot) k r"
  using offer_ok(2) [OF _ refl] by blast

lemma step_covers:
  assumes ok: "local_ok ops good st" and "concerns op k r"
  shows "covered ops (local_step ops st op) k r"
proof (cases op)
  case (OApply resolve m)
  then show ?thesis
    using assms by (cases m) (auto simp: step_forms intro: reset_ok(2) offer_covers)
next
  case (OReset rev)
  then show ?thesis using assms by (auto intro: reset_ok(2))
qed (use assms in \<open>auto simp: step_forms intro: offer_covers\<close>)

lemma run_ok: "local_ok ops good st \<Longrightarrow> local_ok ops good (foldl (local_step ops) st run)"
  by (induction run arbitrary: st) (auto intro: step_ok)

lemma run_keeps:
  "local_ok ops good st \<Longrightarrow> covered ops st k r \<Longrightarrow> list_all (recovers_after r) run \<Longrightarrow> covered ops (foldl (local_step ops) st run) k r"
  by (induction run arbitrary: st) (auto intro: step_ok step_keeps)

lemma new_ok: "0 < n \<Longrightarrow> local_ok ops good (local_new ops n)"
  using new [of n] by (simp add: local_new_def local_ok_def)

lemma never_stale:
  assumes "0 < n" "concerns op k r" "list_all (recovers_after r) rest"
    "local_read_at ops resolve (foldl (local_step ops) (local_new ops n) (pre @ op # rest)) k now = (st', Hit e)"
  shows "r \<le> ce_revision e"
proof -
  let ?s0 = "foldl (local_step ops) (local_new ops n) pre"
  let ?s1 = "local_step ops ?s0 op"
  let ?s2 = "foldl (local_step ops) ?s1 rest"
  have ok: "local_ok ops good ?s0" "local_ok ops good ?s1" "local_ok ops good ?s2"
    using new_ok [OF assms(1)] by (simp_all add: run_ok step_ok)
  have cov: "covered ops ?s2 k r" using run_keeps ok(2) step_covers [OF ok(1) assms(2)] assms(3) by blast
  have "local_read_at ops resolve ?s2 k now = (st', Hit e)" using assms(4) by simp
  then obtain p where en: "entries ops ?s2 k = Some (Present p (ce_revision e) (ce_expires_at_ms e))"
    using read_hit ok(3) unfolding local_ok_def by blast
  then have "local_accepts ?s2 (ce_revision e)" using ok(3) unfolding local_ok_def by fastforce
  then show ?thesis using cov en floor_order unfolding covered_def local_accepts_def by fastforce
qed

text \<open>
  Last write wins: with room for every key the state is a function of the resets \<open>F\<close> and of the offered
  slots \<open>S\<close>, whatever the order and however often each was processed.
\<close>

lemma dom_finite: "good c \<Longrightarrow> finite (dom (lru_peek ops c))"
  using iter [of c] by (metis finite_dom_map_of)

lemma lww_offer:
  assumes ok: "local_ok ops good st" and lww: "lww ops F S st"
    and room: "finite S" "card (insert key (fst ` S)) \<le> cap (lcs_slots st)"
  shows "lww ops F (insert (key, slot) S) (offer_slot ops st key slot) \<and>
    cap (lcs_slots (offer_slot ops st key slot)) = cap (lcs_slots st)"
proof (cases "local_accepts st (slot_revision slot)")
  case False
  have "slot_revision slot \<le> slot_revision s" if "local_accepts st (slot_revision s)" for s
    using False that floor_order unfolding local_accepts_def by blast
  then show ?thesis using False lww unfolding lww_def offer_slot_def by auto
next
  case True
  have good: "good (lcs_slots st)" using ok by (simp add: local_ok_def)
  obtain st' b where put: "put_slot ops st key slot = (st', b)" by (cases "put_slot ops st key slot")
  have st': "offer_slot ops st key slot = st'" using True put by (simp add: offer_slot_def)
  have "lww ops F (insert (key, slot) S) st' \<and> cap (lcs_slots st') = cap (lcs_slots st)"
    using good put
  proof (cases rule: put_slot_cases)
    case (stale s)
    then have "slot_revision s' \<le> slot_revision s0" if "entries ops st k = Some s0" "(k, s') \<in> insert (key, slot) S" for k s0 s'
      using that lwwD(3) [OF lww] by auto
    then show ?thesis using stale lwwD(1,2,4) [OF lww] unfolding lww_def by auto
  next
    case stored
    have acc: "local_accepts st' = local_accepts st" using stored by (simp add: local_accepts_def fun_eq_iff)
    have top: "slot_revision s \<le> slot_revision slot" if in_S: "(key, s) \<in> S" for s
    proof (cases "local_accepts st (slot_revision s)")
      case True
      then obtain t where "entries ops st key = Some t" using lwwD(4) [OF lww in_S] by blast
      then show ?thesis using lwwD(3) [OF lww _ in_S] stored(7) by (meson less_imp_le order.trans)
    next
      case False
      then show ?thesis using True floor_order unfolding local_accepts_def by blast
    qed
    then show ?thesis using lwwD [OF lww] stored(2,6) True unfolding lww_def acc by auto
  next
    case (evicted k' s' f)
    have "dom (entries ops st) \<subseteq> fst ` S" using lww unfolding lww_def by force
    then have "insert key (dom (entries ops st)) \<subseteq> insert key (fst ` S)" by blast
    then have "card (insert key (dom (entries ops st))) \<le> cap (lcs_slots st)"
      using room card_mono [of "insert key (fst ` S)"] by (meson finite.insertI finite_imageI order.trans)
    then show ?thesis using evicted(5,6) dom_finite [OF good] by (simp add: card_insert_if domIff)
  qed
  then show ?thesis unfolding st' .
qed

lemma lww_reset:
  assumes ok: "local_ok ops good st" and lww: "lww ops F S st"
  shows "lww ops (insert (rev_sequence r) F) S (reset_local ops st r) \<and> cap (lcs_slots (reset_local ops st r)) = cap (lcs_slots st)"
proof (cases "local_accepts st r")
  case False
  then have "local_accepts st r' \<longleftrightarrow> local_accepts st r' \<and> rev_sequence r < rev_sequence r'" for r'
    by (auto simp: local_accepts_def floor_accepts_def split: option.splits)
  then show ?thesis using False lwwD [OF lww] unfolding lww_def reset_local_def by auto
next
  case True
  let ?st = "advance_floor ops st (rev_sequence r)"
  note af = advance_floor_entries [of st, OF _ refl, of "rev_sequence r"]
  have good: "good (lcs_slots st)" using ok by (simp add: local_ok_def)
  have acc: "local_accepts ?st r' \<longleftrightarrow> local_accepts st r' \<and> rev_sequence r < rev_sequence r'" for r'
    using af [OF good] by (simp add: local_accepts_def raise_floor_accepts)
  have en: "entries ops ?st k = Some s \<longleftrightarrow> entries ops st k = Some s \<and> local_accepts ?st (slot_revision s)" for k s
    using af [OF good] by (auto simp: above_Some local_accepts_def floor_accepts_def)
  have "\<exists>s'. entries ops ?st k = Some s'" if in_S: "(k, s) \<in> S" "local_accepts ?st (slot_revision s)" for k s
  proof -
    obtain t where t: "entries ops st k = Some t" using lwwD(4) [OF lww in_S(1)] acc in_S(2) by blast
    then have "rev_sequence (slot_revision s) \<le> rev_sequence (slot_revision t)"
      using lwwD(3) [OF lww _ in_S(1)] revision_sequence_mono by blast
    then show ?thesis using in_S(2) en t unfolding local_accepts_def floor_accepts_def by (auto split: option.splits)
  qed
  then show ?thesis using True lwwD [OF lww] af [OF good] en acc unfolding lww_def by (auto simp: reset_local_def)
qed

lemma lww_apply:
  assumes "local_ok ops good st" "lww ops (resets ms) (offers resolve ms) st"
    "card (fst ` offers resolve (ms @ [m])) \<le> cap (lcs_slots st)"
  shows "lww ops (resets (ms @ [m])) (offers resolve (ms @ [m])) (fst (local_apply ops resolve st m)) \<and>
    cap (lcs_slots (fst (local_apply ops resolve st m))) = cap (lcs_slots st)"
proof (cases m)
  case (CReset store r)
  then show ?thesis using lww_reset [OF assms(1,2), of r] by (simp add: resets_def offers_def step_forms insert_commute)
qed (use assms lww_offer [OF assms(1,2)] in \<open>simp_all add: resets_def offers_def step_forms\<close>)

lemma lww_run:
  assumes "0 < n" "card (fst ` offers resolve ms) \<le> n"
  shows "lww ops (resets ms) (offers resolve ms) (foldl (\<lambda>st m. fst (local_apply ops resolve st m)) (local_new ops n) ms) \<and>
    local_ok ops good (foldl (\<lambda>st m. fst (local_apply ops resolve st m)) (local_new ops n) ms) \<and>
    cap (lcs_slots (foldl (\<lambda>st m. fst (local_apply ops resolve st m)) (local_new ops n) ms)) = n"
  using assms(2)
proof (induction ms rule: rev_induct)
  case Nil
  show ?case using new [OF assms(1)] by (simp add: local_new_def lww_def local_ok_def local_accepts_def floor_accepts_def resets_def offers_def)
next
  case (snoc m ms)
  have "card (fst ` offers resolve ms) \<le> card (fst ` offers resolve (ms @ [m]))"
    by (intro card_mono finite_imageI image_mono) (auto simp: offers_def)
  then show ?case using snoc lww_apply [of _ ms resolve m] step_ok [of _ "OApply resolve m"] by fastforce
qed

end

context lru_cache
begin

lemma reads_agree:
  assumes ok: "local_ok ops good st" "local_ok ops good st'" and "entries ops st k = entries ops st' k" "lcs_coherent st = lcs_coherent st'"
  shows "snd (local_read_at ops resolve st k now) = snd (local_read_at ops resolve st' k now)"
proof -
  obtain c v c' v' where g: "lru_get ops (lcs_slots st) k = (c, v)" "lru_get ops (lcs_slots st') k = (c', v')" by fastforce
  have "v = v'" using assms get [OF _ g(1)] get [OF _ g(2)] by (simp add: local_ok_def)
  then show ?thesis using g assms(4) by (simp add: local_read_at_def split: option.split local_slot.split)
qed

lemma offer_coherent:
  assumes "local_ok ops good st"
  shows "lcs_coherent (offer_slot ops st key slot) = lcs_coherent st"
  using put_slot_ok(4) [OF assms, of slot key] by (cases "put_slot ops st key slot") (simp add: offer_slot_def)

lemma apply_coherent:
  assumes "local_ok ops good st"
  shows "lcs_coherent (fst (local_apply ops resolve st m)) = lcs_coherent st"
proof (cases m)
  case (CReset store r)
  then show ?thesis
    using assms advance_floor_entries [of st, OF _ refl] by (simp add: step_forms reset_local_def local_ok_def)
qed (use assms offer_coherent in \<open>simp_all add: step_forms\<close>)

lemma applies_coherent:
  "local_ok ops good st \<Longrightarrow> lcs_coherent (foldl (\<lambda>st m. fst (local_apply ops resolve st m)) st ms) = lcs_coherent st"
proof (induction ms arbitrary: st)
  case (Cons m ms)
  then show ?case using step_ok [of st "OApply resolve m"] apply_coherent by simp
qed simp

lemma converges:
  assumes "0 < n" "set ms = set ms'" "card (fst ` offers resolve ms) \<le> n"
    and uniq: "\<forall>m\<in>set ms. \<forall>m'\<in>set ms. mutation_revision m = mutation_revision m' \<longrightarrow> m = m'"
    and st: "st = foldl (\<lambda>st m. fst (local_apply ops resolve st m)) (local_new ops n) ms"
    and st': "st' = foldl (\<lambda>st m. fst (local_apply ops resolve st m)) (local_new ops n) ms'"
  shows "entries ops st = entries ops st'" "lcs_revision_floor st = lcs_revision_floor st'"
    "snd (local_read_at ops read_resolve st k now) = snd (local_read_at ops read_resolve st' k now)"
proof -
  have S: "offers resolve ms' = offers resolve ms" "resets ms' = resets ms" using assms(2) by (simp_all add: offers_def resets_def)
  have u: "s = s'" if in_S: "(k, s) \<in> offers resolve ms" "(k, s') \<in> offers resolve ms" "slot_revision s = slot_revision s'" for k s s'
  proof -
    obtain m m' where m: "m \<in> set ms" "(k, s) \<in> set (offered resolve m)" "m' \<in> set ms" "(k, s') \<in> set (offered resolve m')"
      using in_S(1,2) unfolding offers_def by auto
    then have "mutation_revision m = mutation_revision m'"
      using in_S(3) offered_facts(1) by metis
    then have "m = m'" using uniq m by blast
    then show ?thesis using m offered_facts(2) by blast
  qed
  have "lww ops (resets ms) (offers resolve ms) st \<and> local_ok ops good st"
    using lww_run [OF assms(1,3)] st by simp
  moreover have "lww ops (resets ms) (offers resolve ms) st' \<and> local_ok ops good st'"
    using lww_run [OF assms(1), of resolve ms'] assms(3) st' S by simp
  ultimately have *: "entries ops st = entries ops st' \<and> lcs_revision_floor st = lcs_revision_floor st'"
      "local_ok ops good st" "local_ok ops good st'"
    using lww_unique [of ops "resets ms" "offers resolve ms" st st'] u by blast+
  have "lcs_coherent st = lcs_coherent st'" using applies_coherent [OF new_ok [OF assms(1)]] st st' by simp
  then show "snd (local_read_at ops read_resolve st k now) = snd (local_read_at ops read_resolve st' k now)"
    using reads_agree [OF *(2,3)] *(1) by simp
  show "entries ops st = entries ops st'" "lcs_revision_floor st = lcs_revision_floor st'" using *(1) by simp_all
qed

end

section \<open>A reference LRU map\<close>

text \<open>
  Most recently used first, at most \<open>fst c\<close> entries: the behaviour that the crate documents, as lists. It
  shows that the contract can be met.
\<close>

type_synonym lru_list = "nat \<times> (bytes \<times> local_slot) list"

definition remove_key :: "bytes \<Rightarrow> (bytes \<times> local_slot) list \<Rightarrow> (bytes \<times> local_slot) list" where
  "remove_key k xs = filter (\<lambda>(k', v). k' \<noteq> k) xs"

definition lru_list_ops :: "lru_list lru_ops" where
  "lru_list_ops = \<lparr>
     lru_new = (\<lambda>n. (n, [])),
     lru_get = (\<lambda>(n, xs) k. case map_of xs k of None \<Rightarrow> ((n, xs), None) | Some v \<Rightarrow> ((n, (k, v) # remove_key k xs), Some v)),
     lru_peek = (\<lambda>(n, xs). map_of xs),
     lru_put = (\<lambda>(n, xs) k v. (n, take n ((k, v) # remove_key k xs))),
     lru_push = (\<lambda>(n, xs) k v.
       case map_of xs k of
         Some old \<Rightarrow> ((n, (k, v) # remove_key k xs), Some (k, old))
       | None \<Rightarrow> if length xs < n then ((n, (k, v) # xs), None) else ((n, (k, v) # butlast xs), Some (last xs))),
     lru_pop = (\<lambda>(n, xs) k. (n, remove_key k xs)),
     lru_iter = snd,
     lru_clear = (\<lambda>(n, xs). (n, []))\<rparr>"

definition lru_list_good :: "lru_list \<Rightarrow> bool" where
  "lru_list_good c \<longleftrightarrow> distinct (map fst (snd c)) \<and> length (snd c) \<le> fst c \<and> 0 < fst c"

lemma remove_key_facts:
  "map_of (remove_key k xs) = (map_of xs)(k := None)" "distinct (map fst xs) \<Longrightarrow> distinct (map fst (remove_key k xs))"
  "k \<notin> fst ` set (remove_key k xs)" "length (remove_key k xs) \<le> length xs"
proof -
  show "map_of (remove_key k xs) = (map_of xs)(k := None)" "distinct (map fst xs) \<Longrightarrow> distinct (map fst (remove_key k xs))"
    by (induction xs) (auto simp: remove_key_def fun_eq_iff)
qed (auto simp: remove_key_def)

lemma remove_key_shorter:
  assumes "map_of xs k \<noteq> None"
  shows "length (remove_key k xs) < length xs"
proof -
  have "\<exists>p\<in>set xs. \<not> (case p of (k', v) \<Rightarrow> k' \<noteq> k)" using assms by (auto simp: map_of_eq_None_iff)
  then show ?thesis unfolding remove_key_def by (auto intro: length_filter_less)
qed

lemma butlast_map:
  assumes "distinct (map fst xs)" "xs \<noteq> []"
  shows "map_of (butlast xs) = (map_of xs)(fst (last xs) := None)" "distinct (map fst (butlast xs))"
    "map_of xs (fst (last xs)) = Some (snd (last xs))"
proof -
  obtain ys k v where xs: "xs = ys @ [(k, v)]" using assms(2) by (metis rev_exhaust surj_pair)
  then have "map_of ys k = None" using assms(1) by (auto simp: map_of_eq_None_iff)
  then show "map_of (butlast xs) = (map_of xs)(fst (last xs) := None)" "distinct (map fst (butlast xs))"
    "map_of xs (fst (last xs)) = Some (snd (last xs))"
    using xs assms(1) by (auto simp: fun_eq_iff map_add_def split: option.splits)
qed

interpretation lru_list: lru_cache lru_list_ops lru_list_good fst
proof
  fix c c' :: lru_list and k v e r and n :: nat
  obtain m xs where c: "c = (m, xs)" by (cases c)
  show "lru_list_good (lru_new lru_list_ops n) \<and> fst (lru_new lru_list_ops n) = n \<and> lru_peek lru_list_ops (lru_new lru_list_ops n) = Map.empty"
    if "0 < n" using that by (simp add: lru_list_ops_def lru_list_good_def)
  assume good: "lru_list_good c"
  then have xs: "distinct (map fst xs)" "length xs \<le> m" "0 < m" using c by (simp_all add: lru_list_good_def)
  show "map_of (lru_iter lru_list_ops c) = lru_peek lru_list_ops c \<and> distinct (map fst (lru_iter lru_list_ops c))"
    using c xs by (simp add: lru_list_ops_def)
  show "lru_list_good (lru_pop lru_list_ops c k) \<and> fst (lru_pop lru_list_ops c k) = fst c \<and>
      lru_peek lru_list_ops (lru_pop lru_list_ops c k) = (lru_peek lru_list_ops c)(k := None)"
    using c xs remove_key_facts [where k = k and xs = xs] by (simp add: lru_list_ops_def lru_list_good_def)
  show "lru_list_good (lru_clear lru_list_ops c) \<and> fst (lru_clear lru_list_ops c) = fst c \<and> lru_peek lru_list_ops (lru_clear lru_list_ops c) = Map.empty"
    using c xs by (simp add: lru_list_ops_def lru_list_good_def)
  show "lru_list_good c' \<and> fst c' = fst c \<and> lru_peek lru_list_ops c' = lru_peek lru_list_ops c \<and> r = lru_peek lru_list_ops c k"
    if "lru_get lru_list_ops c k = (c', r)"
  proof (cases "map_of xs k")
    case None
    then show ?thesis using that c good by (auto simp: lru_list_ops_def)
  next
    case (Some w)
    then show ?thesis
      using that c xs remove_key_facts [where k = k and xs = xs] remove_key_shorter [where k = k and xs = xs]
      by (auto simp: lru_list_ops_def lru_list_good_def map_upd_triv)
  qed
  show "lru_list_good (lru_put lru_list_ops c k v) \<and> fst (lru_put lru_list_ops c k v) = fst c \<and>
      lru_peek lru_list_ops (lru_put lru_list_ops c k v) = (lru_peek lru_list_ops c)(k \<mapsto> v)" if "lru_peek lru_list_ops c k \<noteq> None"
    using that c xs remove_key_facts [where k = k and xs = xs] remove_key_shorter [where k = k and xs = xs] by (auto simp: lru_list_ops_def lru_list_good_def)
  show "lru_list_good c' \<and> fst c' = fst c \<and>
      (lru_peek lru_list_ops c' = (lru_peek lru_list_ops c)(k \<mapsto> v) \<and> e = map_option (Pair k) (lru_peek lru_list_ops c k) \<or>
       (\<exists>k' v'. e = Some (k', v') \<and> k' \<noteq> k \<and> lru_peek lru_list_ops c k = None \<and> lru_peek lru_list_ops c k' = Some v' \<and>
          card (dom (lru_peek lru_list_ops c)) = fst c \<and> lru_peek lru_list_ops c' = (lru_peek lru_list_ops c)(k' := None, k \<mapsto> v)))"
    if push: "lru_push lru_list_ops c k v = (c', e)"
  proof (cases "map_of xs k")
    case (Some w)
    then show ?thesis
      using push c xs remove_key_facts [where k = k and xs = xs] remove_key_shorter [where k = k and xs = xs] by (auto simp: lru_list_ops_def lru_list_good_def)
  next
    case None
    show ?thesis
    proof (cases "length xs < m")
      case True
      then show ?thesis using push c xs None by (auto simp: lru_list_ops_def lru_list_good_def map_of_eq_None_iff)
    next
      case False
      then have ne: "xs \<noteq> []" and full: "length xs = m" using xs by auto
      have "card (dom (map_of xs)) = m"
        using xs(1) full by (metis distinct_card dom_map_of_conv_image_fst length_map list.set_map)
      moreover obtain k' v' where l: "last xs = (k', v')" by (cases "last xs")
      moreover have "k' \<noteq> k" using butlast_map(3) [OF xs(1) ne] None l by auto
      moreover have "c' = (m, (k, v) # butlast xs)" "e = Some (k', v')"
        using push c None False l by (simp_all add: lru_list_ops_def)
      moreover have "k \<notin> fst ` set (butlast xs)" using None by (auto simp: map_of_eq_None_iff dest: in_set_butlastD)
      ultimately show ?thesis
        using c xs None full butlast_map [OF xs(1) ne] by (simp add: lru_list_ops_def lru_list_good_def)
    qed
  qed
qed

section \<open>The store is coherent\<close>

text \<open>
  No resurrection. Once an operation has processed a mutation of key \<open>k\<close> at revision \<open>r\<close> (applied from
  the ring, installed by the writer, or a reset of the store), no later hit of \<open>k\<close> has an older
  revision, whatever the LRU evicts, whatever is expired, dropped at a loss of history or recovered,
  as long as a recovery resumes at a floor that \<open>r\<close> does not exceed; the floor in the code is the current version
  of the mutation ring.
\<close>

lemma cache_never_stale:
  assumes "lru_cache ops good cap" "0 < n" "concerns op k r" "list_all (recovers_after r) rest"
    and "local_read_at ops resolve (foldl (local_step ops) (local_new ops n) (pre @ op # rest)) k now = (st', Hit e)"
  shows "r \<le> ce_revision e"
  using lru_cache.never_stale [OF assms] .

definition demo_payload :: payload_ref where
  "demo_payload = \<lparr>pl_address = \<lparr>ad_slot = 1, ad_generation = 2\<rparr>, pl_value_len = 1\<rparr>"

definition demo_arena :: "address \<Rightarrow> bytes option" where
  "demo_arena a = (if a = \<lparr>ad_slot = 1, ad_generation = 2\<rparr> then Some [7] else None)"



end
