(* ===== verification/Cache_Connection.thy ===== *)
theory Cache_Connection
  imports Cache_Coherence
begin

text \<open>
  One cache connection of a process (\<^verbatim>\<open>cache/src/transport.rs\<close>, \<^verbatim>\<open>cache/src/lib.rs\<close>) and the read-only
  inspection of its history (\<^verbatim>\<open>cache/src/observer.rs\<close>), over the operations of a fleet and of an arena. The
  registry of logical stores is an association list; its order is the unspecified order of a hash map. A
  result \<open>None\<close> is a panic of the fleet.
\<close>

section \<open>The transport\<close>

text \<open>Geometry and the outcomes of the operating system: the write lock of the ring and the wake-up call.\<close>

record cache_env =
  ke_netid :: netid_ops
  ke_layout :: cache_layout
  ke_arena :: arena_env
  ke_os_lock :: "shm_error + unit"
  ke_notify :: "shm_error + unit"

abbreviation mutations_of :: "cache_env \<Rightarrow> orbit_typed" where
  "mutations_of env \<equiv> mutation_typed (ke_layout env)"

definition duration_ms :: "nat \<Rightarrow> nat" where
  "duration_ms nanos = min (max (nanos div 1000000) 1) u64_max"

text \<open>The reading of the system clock in milliseconds; \<open>None\<close> is a time before the epoch.\<close>

definition cache_now_ms :: "nat option \<Rightarrow> nat" where
  "cache_now_ms clock = (case clock of Some ms \<Rightarrow> min ms u64_max | None \<Rightarrow> 0)"

definition max_value_len :: "arena_mem \<Rightarrow> nat" where
  "max_value_len am = length (am_ring am) div 4"

definition transport_validate_store :: "cache_layout \<Rightarrow> bytes \<Rightarrow> cache_error + unit" where
  "transport_validate_store L store =
     (if store = [] then Inl StoreEmpty
      else if length store > max_store_len L then Inl (StoreTooLarge (length store) (max_store_len L))
      else Inr ())"

definition transport_validate_key :: "cache_layout \<Rightarrow> bytes \<Rightarrow> bytes \<Rightarrow> cache_error + unit" where
  "transport_validate_key L store key =
     (case transport_validate_store L store of
        Inl e \<Rightarrow> Inl e
      | Inr _ \<Rightarrow>
          if key = [] then Inl CKeyEmpty
          else if length key > max_key_len L (length store) then Inl (CKeyTooLarge (length key) (max_key_len L (length store)))
          else Inr ())"

definition validate_put :: "cache_layout \<Rightarrow> arena_mem \<Rightarrow> bytes \<Rightarrow> bytes \<Rightarrow> bytes \<Rightarrow> cache_error + unit" where
  "validate_put L am store key value =
     (case transport_validate_key L store key of
        Inl e \<Rightarrow> Inl e
      | Inr _ \<Rightarrow> if length value > max_value_len am then Inl (ValueTooLarge (length value) (max_value_len am)) else Inr ())"

definition publish_mutation :: "cache_env \<Rightarrow> fleet \<Rightarrow> nat \<Rightarrow> nat \<Rightarrow> bytes \<Rightarrow> (fleet \<times> (cache_error + nat)) option" where
  "publish_mutation env fl kind version payload =
     map_option (\<lambda>(fl', res). (fl', case res of Inl e \<Rightarrow> Inl CacheIo | Inr fid \<Rightarrow> Inr fid))
       (fleet_publish_notified (ke_netid env) (ke_os_lock env) (ke_notify env) fl (mutations_of env) kind version payload)"

text \<open>The deadline of a put and the record it stores: the value with its deadline as the stamp.\<close>

definition put_deadline :: "nat option \<Rightarrow> nat option \<Rightarrow> nat option" where
  "put_deadline clock ttl = map_option (\<lambda>ttl. saturating_add u64_max (cache_now_ms clock) (duration_ms ttl)) ttl"

definition put_record :: "bytes \<Rightarrow> nat option \<Rightarrow> arena_record" where
  "put_record value expires_at_ms = (record_body value)\<lparr>re_stamp := (case expires_at_ms of Some t \<Rightarrow> t | None \<Rightarrow> 0)\<rparr>"

definition publish_put ::
    "cache_env \<Rightarrow> nat option \<Rightarrow> nat \<Rightarrow> fleet \<Rightarrow> arena_mem \<Rightarrow> bytes \<Rightarrow> bytes \<Rightarrow> bytes \<Rightarrow> nat option
      \<Rightarrow> (fleet \<times> arena_mem \<times> (cache_error + cache_mutation)) option" where
  "publish_put env clock me fl am store key value ttl =
     (case validate_put (ke_layout env) am store key value of
        Inl e \<Rightarrow> Some (fl, am, Inl e)
      | Inr _ \<Rightarrow>
          let expires_at_ms = put_deadline clock ttl
          in case arena_store (ke_arena env) me am (put_record value expires_at_ms) of
               (am1, Inl e) \<Rightarrow> Some (fl, am1, Inl CacheArena)
             | (am1, Inr a) \<Rightarrow>
                 let payload = \<lparr>pl_address = a, pl_value_len = length value\<rparr>
                 in case encode_put (ke_layout env) store key expires_at_ms payload of
                      Inl e \<Rightarrow> Some (fl, am1, Inl e)
                    | Inr encoded \<Rightarrow>
                        (case fleet_next_ring_version fl (mutations_of env) of
                           None \<Rightarrow> None
                         | Some (fl1, sequence) \<Rightarrow>
                             (case publish_mutation env fl1 FRAME_KIND_PUT sequence encoded of
                                None \<Rightarrow> None
                              | Some (fl2, Inl e) \<Rightarrow> Some (fl2, fst (forget_address (ke_arena env) am1 a), Inl e)
                              | Some (fl2, Inr mutation_id) \<Rightarrow>
                                  Some (fl2, am1, Inr (CPut store key (Revision sequence mutation_id) expires_at_ms payload)))))"

definition publish_delete ::
    "cache_env \<Rightarrow> fleet \<Rightarrow> bytes \<Rightarrow> bytes \<Rightarrow> (fleet \<times> (cache_error + cache_mutation)) option" where
  "publish_delete env fl store key =
     (case transport_validate_key (ke_layout env) store key of
        Inl e \<Rightarrow> Some (fl, Inl e)
      | Inr _ \<Rightarrow>
          (case encode_delete (ke_layout env) store key of
             Inl e \<Rightarrow> Some (fl, Inl e)
           | Inr encoded \<Rightarrow>
               (case fleet_next_ring_version fl (mutations_of env) of
                  None \<Rightarrow> None
                | Some (fl1, sequence) \<Rightarrow>
                    map_option (\<lambda>(fl2, res). (fl2, case res of Inl e \<Rightarrow> Inl e
                        | Inr mutation_id \<Rightarrow> Inr (CDelete store key (Revision sequence mutation_id))))
                      (publish_mutation env fl1 FRAME_KIND_DELETE sequence encoded))))"

text \<open>Here the version is taken before the encoder runs, so its error path has already consumed one.\<close>

definition publish_reset :: "cache_env \<Rightarrow> fleet \<Rightarrow> bytes \<Rightarrow> (fleet \<times> (cache_error + cache_mutation)) option" where
  "publish_reset env fl store =
     (case transport_validate_store (ke_layout env) store of
        Inl e \<Rightarrow> Some (fl, Inl e)
      | Inr _ \<Rightarrow>
          (case fleet_next_ring_version fl (mutations_of env) of
             None \<Rightarrow> None
           | Some (fl1, sequence) \<Rightarrow>
               (case encode_reset (ke_layout env) store of
                  Inl e \<Rightarrow> Some (fl1, Inl e)
                | Inr encoded \<Rightarrow>
                    map_option (\<lambda>(fl2, res). (fl2, case res of Inl e \<Rightarrow> Inl e
                        | Inr mutation_id \<Rightarrow> Inr (CReset store (Revision sequence mutation_id))))
                      (publish_mutation env fl1 FRAME_KIND_RESET sequence encoded))))"

record mutation_poll =
  mp_mutations :: "cache_mutation list"
  mp_loss :: ring_loss
  mp_malformed :: nat

definition requires_full_resync :: "mutation_poll \<Rightarrow> bool" where
  "requires_full_resync p \<longleftrightarrow> loss_total (mp_loss p) \<noteq> 0 \<or> mp_malformed p \<noteq> 0"

definition transport_poll :: "cache_env \<Rightarrow> nat \<Rightarrow> fleet \<Rightarrow> lane_cursor \<Rightarrow> (fleet \<times> lane_cursor \<times> mutation_poll) option" where
  "transport_poll env arena_slots fl cursor =
     map_option (\<lambda>(fl', cursor', raw).
         (fl', cursor',
          \<lparr>mp_mutations = sort_key mutation_revision (List.map_filter (cache_decode arena_slots) (lp_frames raw)),
           mp_loss = lp_loss raw,
           mp_malformed = min (length (filter (\<lambda>f. cache_decode arena_slots f = None) (lp_frames raw))) u64_max\<rparr>))
       (fleet_poll_lanes (ke_netid env) fl (mutations_of env) cursor)"

text \<open>
  \<open>read_payload\<close> and the look-ups of the local cache: the exact generation, read through a pin. Where the
  result is only tested the pin is dropped at once.
\<close>

definition arena_resolve :: "arena_env \<Rightarrow> nat \<Rightarrow> arena_mem \<Rightarrow> address \<Rightarrow> bytes option" where
  "arena_resolve env me am a =
     (case get_address env me am a of (am', Some e) \<Rightarrow> Some (entry_body am' e) | (am', None) \<Rightarrow> None)"

definition read_payload :: "arena_env \<Rightarrow> nat \<Rightarrow> arena_mem \<Rightarrow> payload_ref \<Rightarrow> arena_mem \<times> bytes option" where
  "read_payload env me am payload =
     (case get_address env me am (pl_address payload) of
        (am', None) \<Rightarrow> (am', None)
      | (am', Some e) \<Rightarrow>
          if length (entry_body am' e) \<noteq> pl_value_len payload then (entry_drop env am' e, None)
          else (am', Some (entry_body am' e)))"

definition fleet_current_ring_version :: "fleet \<Rightarrow> orbit_typed \<Rightarrow> (fleet \<times> nat) option" where
  "fleet_current_ring_version fl T =
     (case fleet_open fl T of Some (fl', Inr a) \<Rightarrow> Some (fl', any_current_version a) | _ \<Rightarrow> None)"

section \<open>The connection\<close>

record 'c cache_conn =
  cn_reader :: nat
  cn_stores :: "(bytes \<times> 'c local_state) list"
  cn_cursor :: lane_cursor

definition cache_open ::
    "cache_env \<Rightarrow> fleet \<Rightarrow> arena_mem \<Rightarrow> (fleet \<Rightarrow> orbit_typed \<Rightarrow> (fleet \<times> lane_cursor) option)
      \<Rightarrow> (fleet \<times> arena_mem \<times> (cache_error + 'c cache_conn)) option" where
  "cache_open env fl am start =
     (case cache_layout_validate (ke_layout env) of
        Inl e \<Rightarrow> Some (fl, am, Inl e)
      | Inr _ \<Rightarrow>
          (case arena_claim (ke_arena env) am of
             (am', Inl e) \<Rightarrow> Some (fl, am', Inl CacheArena)
           | (am', Inr me) \<Rightarrow>
               map_option (\<lambda>(fl', cursor). (fl', am', Inr \<lparr>cn_reader = me, cn_stores = [], cn_cursor = cursor\<rparr>))
                 (start fl (mutations_of env))))"

definition cache_new :: "cache_env \<Rightarrow> fleet \<Rightarrow> arena_mem \<Rightarrow> (fleet \<times> arena_mem \<times> (cache_error + 'c cache_conn)) option" where
  "cache_new env fl am = cache_open env fl am lane_cursor_at_head"

definition replay_retained :: "cache_env \<Rightarrow> fleet \<Rightarrow> arena_mem \<Rightarrow> (fleet \<times> arena_mem \<times> (cache_error + 'c cache_conn)) option" where
  "replay_retained env fl am = cache_open env fl am (\<lambda>fl T. map_option (Pair fl) (lane_cursor_from_start fl T))"

definition open_store :: "'c lru_ops \<Rightarrow> cache_env \<Rightarrow> 'c cache_conn \<Rightarrow> bytes \<Rightarrow> nat \<Rightarrow> 'c cache_conn \<times> (cache_error + unit)" where
  "open_store lru env conn name capacity =
     (case transport_validate_store (ke_layout env) name of
        Inl e \<Rightarrow> (conn, Inl e)
      | Inr _ \<Rightarrow>
          (case map_of (cn_stores conn) name of
             Some _ \<Rightarrow> (conn, Inr ())
           | None \<Rightarrow> (conn\<lparr>cn_stores := (name, local_new lru capacity) # cn_stores conn\<rparr>, Inr ())))"

definition for_each_local :: "('c local_state \<Rightarrow> 'c local_state) \<Rightarrow> 'c cache_conn \<Rightarrow> 'c cache_conn" where
  "for_each_local f conn = conn\<lparr>cn_stores := map (\<lambda>(n, st). (n, f st)) (cn_stores conn)\<rparr>"

definition any_local :: "('c local_state \<Rightarrow> bool) \<Rightarrow> 'c cache_conn \<Rightarrow> bool" where
  "any_local P conn \<longleftrightarrow> list_ex (\<lambda>(n, st). P st) (cn_stores conn)"

text \<open>An operation of a store handle on the local state it shares with the registry.\<close>

definition with_local :: "bytes \<Rightarrow> ('c local_state \<Rightarrow> 'c local_state) \<Rightarrow> 'c cache_conn \<Rightarrow> 'c cache_conn" where
  "with_local name f conn = conn\<lparr>cn_stores := map (\<lambda>(n, st). (n, if n = name then f st else st)) (cn_stores conn)\<rparr>"

definition reset_transport ::
    "'c lru_ops \<Rightarrow> cache_env \<Rightarrow> fleet \<Rightarrow> 'c cache_conn \<Rightarrow> (fleet \<times> 'c cache_conn \<times> (cache_error + unit)) option" where
  "reset_transport lru env fl conn =
     (case fleet_reset_ring fl (mutations_of env) of
        None \<Rightarrow> None
      | Some (fl', Inl e) \<Rightarrow> Some (fl', conn, Inl CacheIo)
      | Some (fl', Inr _) \<Rightarrow>
          map_option (\<lambda>(fl'', cursor).
              (fl'', for_each_local (reset_after_transport_reset lru) (conn\<lparr>cn_cursor := cursor\<rparr>), Inr ()))
            (lane_cursor_at_head fl' (mutations_of env)))"

record cache_poll =
  cp_observed :: nat
  cp_applied :: nat
  cp_ignored :: nat
  cp_payload_unavailable :: "(bytes \<times> bytes) list"
  cp_unknown_stores :: "bytes list"
  cp_loss :: ring_loss
  cp_malformed :: nat
  cp_resync_required :: bool

definition dispatch_one ::
    "'c lru_ops \<Rightarrow> (address \<Rightarrow> bytes option) \<Rightarrow> 'c cache_conn \<times> cache_poll \<Rightarrow> cache_mutation \<Rightarrow> 'c cache_conn \<times> cache_poll" where
  "dispatch_one lru resolve = (\<lambda>(conn, result) m.
     let store = mutation_store m
     in case map_of (cn_stores conn) store of
          None \<Rightarrow>
            (conn, result\<lparr>cp_ignored := cp_ignored result + 1,
               cp_unknown_stores := (if store \<in> set (cp_unknown_stores result) then cp_unknown_stores result
                                     else cp_unknown_stores result @ [store])\<rparr>)
        | Some st \<Rightarrow>
            (case local_apply lru resolve st m of
               (st', outcome) \<Rightarrow>
                 (with_local store (\<lambda>_. st') conn,
                  case outcome of
                    Applied \<Rightarrow> result\<lparr>cp_applied := cp_applied result + 1\<rparr>
                  | Ignored \<Rightarrow> result\<lparr>cp_ignored := cp_ignored result + 1\<rparr>
                  | PayloadUnavailable key \<Rightarrow>
                      result\<lparr>cp_payload_unavailable := cp_payload_unavailable result @ [(store, key)]\<rparr>)))"

definition cache_poll_all ::
    "'c lru_ops \<Rightarrow> cache_env \<Rightarrow> fleet \<Rightarrow> arena_mem \<Rightarrow> 'c cache_conn \<Rightarrow> (fleet \<times> 'c cache_conn \<times> cache_poll) option" where
  "cache_poll_all lru env fl am conn =
     (case transport_poll env (length (am_slots am)) fl (cn_cursor conn) of
        None \<Rightarrow> None
      | Some (fl', cursor, raw) \<Rightarrow>
          let conn1 = conn\<lparr>cn_cursor := cursor\<rparr>;
              conn2 = (if requires_full_resync raw then for_each_local (require_resync lru) conn1 else conn1);
              result = \<lparr>cp_observed = length (mp_mutations raw), cp_applied = 0, cp_ignored = 0, cp_payload_unavailable = [],
                cp_unknown_stores = [], cp_loss = mp_loss raw, cp_malformed = mp_malformed raw, cp_resync_required = False\<rparr>;
              (conn3, result') = foldl (dispatch_one lru (arena_resolve (ke_arena env) (cn_reader conn) am)) (conn2, result) (mp_mutations raw)
          in Some (fl', conn3, result'\<lparr>cp_resync_required := any_local (\<lambda>st. \<not> lcs_coherent st) conn3\<rparr>))"

definition recover_from_backing :: "'c lru_ops \<Rightarrow> cache_env \<Rightarrow> fleet \<Rightarrow> 'c cache_conn \<Rightarrow> (fleet \<times> 'c cache_conn) option" where
  "recover_from_backing lru env fl conn =
     (case lane_cursor_at_head fl (mutations_of env) of
        None \<Rightarrow> None
      | Some (fl1, cursor) \<Rightarrow>
          map_option (\<lambda>(fl2, revision_floor).
              (fl2, for_each_local (\<lambda>st. local_recover_from_backing lru st revision_floor) (conn\<lparr>cn_cursor := cursor\<rparr>)))
            (fleet_current_ring_version fl1 (mutations_of env)))"

section \<open>Store handles\<close>

definition store_put ::
    "'c lru_ops \<Rightarrow> cache_env \<Rightarrow> nat option \<Rightarrow> fleet \<Rightarrow> arena_mem \<Rightarrow> 'c cache_conn \<Rightarrow> bytes \<Rightarrow> bytes \<Rightarrow> bytes \<Rightarrow> nat option
      \<Rightarrow> (fleet \<times> arena_mem \<times> 'c cache_conn \<times> (cache_error + cache_revision)) option" where
  "store_put lru env clock fl am conn name key value ttl =
     (case publish_put env clock (cn_reader conn) fl am name key value ttl of
        None \<Rightarrow> None
      | Some (fl', am', Inl e) \<Rightarrow> Some (fl', am', conn, Inl e)
      | Some (fl', am', Inr (CPut _ _ revision expires_at_ms payload)) \<Rightarrow>
          Some (fl', am', with_local name (\<lambda>st. install_local lru st key payload revision expires_at_ms) conn, Inr revision)
      | _ \<Rightarrow> None)"

definition store_delete ::
    "'c lru_ops \<Rightarrow> cache_env \<Rightarrow> fleet \<Rightarrow> 'c cache_conn \<Rightarrow> bytes \<Rightarrow> bytes \<Rightarrow> (fleet \<times> 'c cache_conn \<times> (cache_error + cache_revision)) option" where
  "store_delete lru env fl conn name key =
     (case publish_delete env fl name key of
        None \<Rightarrow> None
      | Some (fl', Inl e) \<Rightarrow> Some (fl', conn, Inl e)
      | Some (fl', Inr (CDelete _ _ revision)) \<Rightarrow>
          Some (fl', with_local name (\<lambda>st. install_missing lru st key revision) conn, Inr revision)
      | _ \<Rightarrow> None)"

definition store_reset ::
    "'c lru_ops \<Rightarrow> cache_env \<Rightarrow> fleet \<Rightarrow> 'c cache_conn \<Rightarrow> bytes \<Rightarrow> (fleet \<times> 'c cache_conn \<times> (cache_error + cache_revision)) option" where
  "store_reset lru env fl conn name =
     (case publish_reset env fl name of
        None \<Rightarrow> None
      | Some (fl', Inl e) \<Rightarrow> Some (fl', conn, Inl e)
      | Some (fl', Inr (CReset _ revision)) \<Rightarrow>
          Some (fl', with_local name (\<lambda>st. reset_local lru st revision) conn, Inr revision)
      | _ \<Rightarrow> None)"

text \<open>
  A read through a handle. A hit keeps its pin, which lives as long as the returned bytes; every other
  outcome leaves the arena as it was.
\<close>

definition store_read_at ::
    "'c lru_ops \<Rightarrow> arena_env \<Rightarrow> arena_mem \<Rightarrow> 'c cache_conn \<Rightarrow> bytes \<Rightarrow> bytes \<Rightarrow> nat
      \<Rightarrow> (arena_mem \<times> 'c cache_conn \<times> cache_read \<times> arena_entry option) option" where
  "store_read_at lru env am conn name key now_ms =
     (case map_of (cn_stores conn) name of
        None \<Rightarrow> None
      | Some st \<Rightarrow>
          (case local_read_at lru (arena_resolve env (cn_reader conn) am) st key now_ms of
             (st', res) \<Rightarrow>
               let (am', pinned) = (case (res, snd (lru_get lru (lcs_slots st) key)) of
                     (Hit _, Some (Present payload _ _)) \<Rightarrow> get_address env (cn_reader conn) am (pl_address payload)
                   | _ \<Rightarrow> (am, None))
               in Some (am', with_local name (\<lambda>_. st') conn, res, pinned)))"

section \<open>Inspection of the retained history\<close>

record retained_entry =
  rt_key :: bytes
  rt_revision :: cache_revision
  rt_expires_at_ms :: "nat option"
  rt_payload :: payload_ref

type_synonym retained_stores = "bytes \<Rightarrow> (bytes \<Rightarrow> retained_entry option) option"

fun retained_one :: "retained_stores \<Rightarrow> cache_mutation \<Rightarrow> retained_stores" where
  "retained_one stores (CPut store key revision expires_at_ms payload) =
     stores(store \<mapsto> (case stores store of Some m \<Rightarrow> m | None \<Rightarrow> Map.empty)
       (key \<mapsto> \<lparr>rt_key = key, rt_revision = revision, rt_expires_at_ms = expires_at_ms, rt_payload = payload\<rparr>))"
| "retained_one stores (CDelete store key revision) =
     stores(store \<mapsto> (case stores store of Some m \<Rightarrow> m | None \<Rightarrow> Map.empty)(key := None))"
| "retained_one stores (CReset store revision) = stores(store \<mapsto> Map.empty)"

definition retained_apply :: "retained_stores \<Rightarrow> cache_mutation list \<Rightarrow> retained_stores" where
  "retained_apply stores mutations = foldl retained_one stores (sort_key mutation_revision mutations)"

end
