(* ===== verification/Arena_Inv.thy ===== *)
theory Arena_Inv
  imports Arena
begin

text \<open>
  The segment invariant of the arena: the spans of all slots that are published or pinned are apart
  from each other and inside the ring, and the index is a well-formed probe table. Retiring slots,
  clearing the rows of dead readers and moving the cursor only ever shrink what is held (\<open>weakens\<close>);
  an allocation is such a change after which nothing held meets the reserved span.
\<close>

section \<open>Index\<close>

definition arena_emp :: "arena_slot \<Rightarrow> bool" where
  "arena_emp s \<longleftrightarrow> sl_state s = SLOT_EMPTY"

definition arena_holds :: "arena_slot \<Rightarrow> arena_key \<Rightarrow> bool" where
  "arena_holds s k \<longleftrightarrow> sl_state s = SLOT_LIVE \<and> slot_holds s k \<and> k < 2 ^ 128"

definition arena_hash :: "arena_key \<Rightarrow> u64w" where
  "arena_hash k = word_of_nat (key_lo k)"

lemma key_parts_inj: "k < 2 ^ 128 \<Longrightarrow> k' < 2 ^ 128 \<Longrightarrow> key_lo k = key_lo k' \<Longrightarrow> key_hi k = key_hi k' \<Longrightarrow> k = k'"
proof -
  assume *: "k < 2 ^ 128" "k' < 2 ^ 128" "key_lo k = key_lo k'" "key_hi k = key_hi k'"
  have "x div 2 ^ 64 < 2 ^ 64" if "x < 2 ^ 128" for x :: nat using that by (simp add: less_mult_imp_div_less)
  then have "k div 2 ^ 64 = k' div 2 ^ 64" using * by (simp add: key_hi_def)
  then show "k = k'" using *(3) by (metis div_mult_mod_eq key_lo_def)
qed

interpretation arena: probing arena_emp arena_holds arena_hash
  by unfold_locales (auto simp: arena_emp_def arena_holds_def slot_holds_def intro: key_parts_inj)

lemma arena_index_probe:
  assumes "is_power_of_two n" "n \<le> 2 ^ 63" "d < n"
  shows "arena_index key d n = probe_index (arena_hash key) d n"
proof -
  from assms(1) obtain k where k: "n = 2 ^ k" by (auto simp: is_power_of_two_iff)
  have msk: "word_of_nat (n - 1) = (mask k :: u64w)" by (simp add: k mask_eq_exp_minus_1 of_nat_diff)
  from k assms(2) have "k \<le> 63" by (metis one_less_numeral_iff power_increasing_iff semiring_norm(76))
  then have dvd: "(2::nat) ^ k dvd 2 ^ 64" by (intro le_imp_power_dvd) simp
  let ?a = "arena_hash key"
  have d: "unat (word_of_nat d :: u64w) = d" using assms(2,3) by (simp add: unat_of_nat)
  have "arena_index key d n = unat (take_bit k (take_bit k ?a + word_of_nat d))"
    unfolding arena_index_def Let_def arena_hash_def msk by (simp only: take_bit_eq_mask)
  also have "\<dots> = unat (take_bit k ?a + word_of_nat d) mod 2 ^ k"
    by (simp only: unsigned_take_bit_eq) (simp only: take_bit_eq_mod)
  also have "\<dots> = ((unat (take_bit k ?a) + d) mod 2 ^ 64) mod 2 ^ k" by (simp add: unat_word_ariths d)
  also have "\<dots> = (unat (take_bit k ?a) + d) mod 2 ^ k" using dvd by (simp only: mod_mod_cancel)
  also have "unat (take_bit k ?a) = unat ?a mod 2 ^ k" by (simp only: unsigned_take_bit_eq) (simp only: take_bit_eq_mod)
  also have "(unat ?a mod 2 ^ k + d) mod 2 ^ k = (unat ?a + d) mod n" by (simp add: k mod_add_left_eq)
  finally show ?thesis using probe_index_mod [OF assms] by simp
qed

lemma find_locked_iff:
  assumes "table_size (am_slots am)" "probe_wf arena_emp arena_holds arena_hash (am_slots am)" "key < 2 ^ 128"
  shows "find_locked am key = Some i \<longleftrightarrow> i < length (am_slots am) \<and> arena_holds (arena_slot_at am i) key"
proof -
  let ?n = "length (am_slots am)"
  have idx: "arena_index key d ?n = probe_index (arena_hash key) d ?n" if "d < ?n" for d
    using assms(1) that by (simp add: table_size_def arena_index_probe)
  have cong: "scan emp hit p xs ds = scan emp hit q xs ds" if "\<And>d. d \<in> set ds \<Longrightarrow> p d = q d"
    for emp hit p q and xs :: "arena_slot list" and ds
    using that by (induction ds) (auto simp: Let_def)
  have "find_locked am key = scan arena_emp (\<lambda>s. sl_state s = SLOT_LIVE \<and> slot_holds s key)
      (\<lambda>d. probe_index (arena_hash key) d ?n) (am_slots am) [0..<?n]"
    unfolding find_locked_def arena_emp_def by (rule cong) (simp add: idx)
  then show ?thesis
    using arena.scan_finds [OF assms(1,2), of "\<lambda>s. sl_state s = SLOT_LIVE \<and> slot_holds s key" key] assms(3)
    by (simp add: arena_holds_def)
qed

section \<open>The invariant\<close>

definition held :: "arena_mem \<Rightarrow> nat \<Rightarrow> bool" where
  "held am i \<longleftrightarrow> slot_in_use (arena_slot_at am i) \<or> slot_pinned am i"

definition apart :: "arena_slot \<Rightarrow> arena_slot \<Rightarrow> bool" where
  "apart s t \<longleftrightarrow> snd (slot_span s) \<le> fst (slot_span t) \<or> snd (slot_span t) \<le> fst (slot_span s)"

definition arena_slot_ok :: "arena_mem \<Rightarrow> arena_slot \<Rightarrow> bool" where
  "arena_slot_ok am s \<longleftrightarrow> sl_state s \<le> SLOT_ADDRESSED \<and>
     (sl_state s \<noteq> SLOT_EMPTY \<longrightarrow>
        snd (slot_span s) \<le> length (am_ring am) \<and> sl_encoded_offset s = sl_body_offset s + sl_body_len s \<and>
        sl_generation s \<le> am_record_generation am)"

definition arena_ok :: "arena_mem \<Rightarrow> bool" where
  "arena_ok am \<longleftrightarrow> table_size (am_slots am) \<and> 0 < length (am_ring am) \<and>
     length (am_pins am) = length (am_active am) \<and> (\<forall>r<length (am_active am). length (am_pins am ! r) = length (am_slots am)) \<and>
     (\<forall>i<length (am_slots am). arena_slot_ok am (arena_slot_at am i) \<and>
        (slot_pinned am i \<longrightarrow> sl_state (arena_slot_at am i) \<noteq> SLOT_EMPTY)) \<and>
     (\<forall>i<length (am_slots am). \<forall>j<length (am_slots am). i \<noteq> j \<longrightarrow> held am i \<longrightarrow> held am j \<longrightarrow>
        apart (arena_slot_at am i) (arena_slot_at am j)) \<and>
     probe_wf arena_emp arena_holds arena_hash (am_slots am)"

lemma arena_okD:
  assumes "arena_ok am"
  shows "table_size (am_slots am)" "0 < length (am_ring am)" "length (am_pins am) = length (am_active am)"
    "r < length (am_active am) \<Longrightarrow> length (am_pins am ! r) = length (am_slots am)"
    "i < length (am_slots am) \<Longrightarrow> arena_slot_ok am (arena_slot_at am i)"
    "i < length (am_slots am) \<Longrightarrow> slot_pinned am i \<Longrightarrow> sl_state (arena_slot_at am i) \<noteq> SLOT_EMPTY"
    "i < length (am_slots am) \<Longrightarrow> j < length (am_slots am) \<Longrightarrow> i \<noteq> j \<Longrightarrow> held am i \<Longrightarrow> held am j \<Longrightarrow>
      apart (arena_slot_at am i) (arena_slot_at am j)"
    "probe_wf arena_emp arena_holds arena_hash (am_slots am)"
  using assms unfolding arena_ok_def by blast+

lemma slot_pinned_iff:
  "slot_pinned am i \<longleftrightarrow> (\<exists>r<length (am_active am). am_active am ! r \<noteq> 0 \<and> am_pins am ! r ! i \<noteq> 0)"
  by (auto simp: slot_pinned_def list_ex_iff)

lemma arena_create_ok:
  assumes "is_power_of_two n" "n \<le> 2 ^ 63" "ring \<noteq> []"
  shows "arena_ok (arena_create n readers ring)"
proof -
  have "\<not> slot_pinned (arena_create n readers ring) i" if "i < n" for i
    using that by (auto simp: slot_pinned_iff arena_create_def)
  moreover have "probe_wf arena_emp arena_holds arena_hash (replicate n blank_slot)"
    by (rule arena.wf_all_empty) (simp add: arena_emp_def blank_slot_def)
  ultimately show ?thesis
    using assms by (simp add: arena_ok_def held_def table_size_def arena_slot_ok_def slot_in_use_def)
      (simp add: arena_create_def blank_slot_def table_size_def)
qed

section \<open>Changes that only shrink what is held\<close>

definition retired_from :: "arena_slot \<Rightarrow> arena_slot \<Rightarrow> bool" where
  "retired_from s s' \<longleftrightarrow> s' = s \<or> sl_state s \<noteq> SLOT_EMPTY \<and> s' = s\<lparr>sl_state := SLOT_RETIRED\<rparr>"

definition weakens :: "(nat \<Rightarrow> bool) \<Rightarrow> arena_mem \<Rightarrow> arena_mem \<Rightarrow> bool" where
  "weakens dead am am' \<longleftrightarrow>
     am_ring am' = am_ring am \<and> am_record_generation am' = am_record_generation am \<and>
     length (am_slots am') = length (am_slots am) \<and>
     (\<forall>i<length (am_slots am). retired_from (arena_slot_at am i) (arena_slot_at am' i)) \<and>
     length (am_active am') = length (am_active am) \<and> length (am_pins am') = length (am_pins am) \<and>
     (\<forall>r<length (am_pins am). length (am_pins am' ! r) = length (am_pins am ! r)) \<and>
     (\<forall>r<length (am_active am). am_active am' ! r = am_active am ! r \<and> am_pins am' ! r = am_pins am ! r \<or>
        dead r \<and> am_active am' ! r = 0)"

lemma retired_from_simps:
  assumes "retired_from s s'"
  shows "slot_span s' = slot_span s" "sl_generation s' = sl_generation s" "sl_encoded_offset s' = sl_encoded_offset s"
    "sl_body_offset s' = sl_body_offset s" "sl_body_len s' = sl_body_len s" "sl_encoded_len s' = sl_encoded_len s"
    "sl_encoding s' = sl_encoding s" "sl_stamp s' = sl_stamp s" "sl_extra s' = sl_extra s"
    "sl_state s' = SLOT_EMPTY \<longleftrightarrow> sl_state s = SLOT_EMPTY" "slot_holds s' k = slot_holds s k"
    "slot_in_use s' \<Longrightarrow> s' = s" "arena_holds s' k \<Longrightarrow> arena_holds s k"
  using assms by (auto simp: retired_from_def slot_span_def slot_holds_def slot_in_use_def arena_holds_def)

lemma weakensD:
  assumes "weakens dead am am'"
  shows "am_ring am' = am_ring am" "am_record_generation am' = am_record_generation am"
    "length (am_slots am') = length (am_slots am)" "length (am_active am') = length (am_active am)"
    "i < length (am_slots am) \<Longrightarrow> retired_from (arena_slot_at am i) (arena_slot_at am' i)"
    "r < length (am_active am) \<Longrightarrow> \<not> dead r \<Longrightarrow> am_active am' ! r = am_active am ! r \<and> am_pins am' ! r = am_pins am ! r"
  using assms unfolding weakens_def by blast+

lemma weakens_refl: "weakens dead am am"
  by (simp add: weakens_def retired_from_def)

lemma weakens_trans:
  assumes "weakens dead am am'" "weakens dead am' am''"
  shows "weakens dead am am''"
proof -
  have "retired_from s s''" if "retired_from s s'" "retired_from s' s''" for s s' s''
    using that by (auto simp: retired_from_def)
  then have "retired_from (arena_slot_at am i) (arena_slot_at am'' i)" if "i < length (am_slots am)" for i
    using that assms unfolding weakens_def by metis
  moreover have "am_active am'' ! r = am_active am ! r \<and> am_pins am'' ! r = am_pins am ! r \<or> dead r \<and> am_active am'' ! r = 0"
    if "r < length (am_active am)" for r
    using that assms unfolding weakens_def by fastforce
  ultimately show ?thesis using assms unfolding weakens_def by simp
qed

lemma weakens_pinned: "weakens dead am am' \<Longrightarrow> slot_pinned am' i \<Longrightarrow> slot_pinned am i"
  unfolding weakens_def slot_pinned_iff by metis

lemma weakens_held: "weakens dead am am' \<Longrightarrow> i < length (am_slots am) \<Longrightarrow> held am' i \<Longrightarrow> held am i"
  using weakens_pinned retired_from_simps(12) weakensD(5) unfolding held_def by metis

lemma weakens_ok:
  assumes ok: "arena_ok am" and w: "weakens dead am am'"
  shows "arena_ok am'"
proof -
  note d = weakensD [OF w]
  let ?n = "length (am_slots am)"
  have rows: "length (am_pins am') = length (am_active am')" "\<forall>r<length (am_active am'). length (am_pins am' ! r) = length (am_slots am')"
    using w arena_okD(3,4) [OF ok] unfolding weakens_def by metis+
  have slots: "arena_slot_ok am' (arena_slot_at am' i) \<and> (slot_pinned am' i \<longrightarrow> sl_state (arena_slot_at am' i) \<noteq> SLOT_EMPTY)" if "i < ?n" for i
  proof -
    note s = retired_from_simps [OF d(5) [OF that]]
    have "sl_state (arena_slot_at am' i) \<le> SLOT_ADDRESSED"
      using d(5) [OF that] arena_okD(5) [OF ok that] by (auto simp: retired_from_def arena_slot_ok_def)
    then show ?thesis
      using arena_okD(5,6) [OF ok that] weakens_pinned [OF w, of i] s(1-6,10) d(1,2) by (simp add: arena_slot_ok_def)
  qed
  have ap: "apart (arena_slot_at am' i) (arena_slot_at am' j)"
    if "i < ?n" "j < ?n" "i \<noteq> j" "held am' i" "held am' j" for i j
    using arena_okD(7) [OF ok that(1-3)] weakens_held [OF w] that retired_from_simps(1) [OF d(5)] unfolding apart_def by simp
  have "probe_wf arena_emp arena_holds arena_hash (am_slots am')"
  proof -
    have h: "arena_holds (arena_slot_at am i) k" if "i < ?n" "arena_holds (arena_slot_at am' i) k" for i k
      using retired_from_simps(13) [OF d(5) [OF that(1)] that(2)] .
    have e: "arena_emp (arena_slot_at am' i) \<longleftrightarrow> arena_emp (arena_slot_at am i)" if "i < ?n" for i
      using retired_from_simps(10) [OF d(5) [OF that]] by (simp add: arena_emp_def)
    have l: "probe_index x y ?n < ?n" if "y < ?n" for x y using probe_index_less [OF arena_okD(1) [OF ok] that] .
    show ?thesis
      unfolding probe_wf_def d(3)
    proof (intro conjI allI impI)
      fix i k assume i: "i < ?n" "arena_holds (arena_slot_at am' i) k"
      then obtain dd where dd: "dd < ?n" "probe_index (arena_hash k) dd ?n = i"
        "\<forall>e<dd. \<not> arena_emp (am_slots am ! probe_index (arena_hash k) e ?n)"
        using arena.wf_path [OF arena_okD(8) [OF ok] i(1) h [OF i]] by blast
      then have "\<forall>e<dd. \<not> arena_emp (am_slots am' ! probe_index (arena_hash k) e ?n)" using e l by simp
      then show "\<exists>dd<?n. probe_index (arena_hash k) dd ?n = i \<and> (\<forall>e<dd. \<not> arena_emp (am_slots am' ! probe_index (arena_hash k) e ?n))"
        using dd by blast
    next
      fix i j k assume "i < ?n" "j < ?n" "arena_holds (arena_slot_at am' i) k" "arena_holds (arena_slot_at am' j) k"
      then show "i = j" using arena.wf_unique [OF arena_okD(8) [OF ok]] h by blast
    qed
  qed
  then show ?thesis
    unfolding arena_ok_def using rows slots ap d(1,3) arena_okD(1,2) [OF ok] by (simp add: table_size_def)
qed

text \<open>The elementary changes.\<close>

lemma evict_retired: "retired_from s (arena_evict s)"
  by (simp add: retired_from_def arena_evict_def)

lemma evict_weakens: "weakens dead am (evict_at am i)"
proof -
  have "retired_from (arena_slot_at am j) (arena_slot_at (evict_at am i) j)" if "j < length (am_slots am)" for j
    using that evict_retired by (cases "i = j") (simp_all add: evict_at_def retired_from_def [of _ "arena_slot_at am j"])
  then show ?thesis by (simp add: weakens_def evict_at_def)
qed

lemma cursor_weakens: "weakens dead am (am\<lparr>am_cursor := c\<rparr>)"
  by (simp add: weakens_def retired_from_def)

lemma evict_at_simps [simp]:
  "length (am_slots (evict_at am i)) = length (am_slots am)" "am_active (evict_at am i) = am_active am"
  "am_pins (evict_at am i) = am_pins am" "am_ring (evict_at am i) = am_ring am" "slot_pinned (evict_at am i) j = slot_pinned am j"
  "am_cursor (evict_at am i) = am_cursor am" "am_record_generation (evict_at am i) = am_record_generation am"
  by (simp_all add: evict_at_def slot_pinned_def)

lemma evict_at_state:
  "i < length (am_slots am) \<Longrightarrow> sl_state (arena_slot_at (evict_at am i) i) = (if sl_state (arena_slot_at am i) = SLOT_EMPTY then SLOT_EMPTY else SLOT_RETIRED)"
  by (simp add: evict_at_def arena_evict_def)

lemma clear_weakens:
  assumes "arena_ok am" "dead r"
  shows "weakens dead am (fst (clear_reader am r))"
proof -
  let ?c = "fst (clear_reader am r)"
  have "am_active ?c ! r' = am_active am ! r' \<and> am_pins ?c ! r' = am_pins am ! r' \<or> dead r' \<and> am_active ?c ! r' = 0"
    if "r' < length (am_active am)" for r'
    using that assms(2) by (cases "r' = r") (simp_all add: clear_reader_def)
  moreover have "length (am_pins ?c ! r') = length (am_pins am ! r')" if "r' < length (am_pins am)" for r'
    using that arena_okD(3,4) [OF assms(1)] by (cases "r = r'") (simp_all add: clear_reader_def)
  moreover have "am_slots ?c = am_slots am" "am_ring ?c = am_ring am" "am_record_generation ?c = am_record_generation am"
    "length (am_active ?c) = length (am_active am)" "length (am_pins ?c) = length (am_pins am)"
    by (simp_all add: clear_reader_def)
  ultimately show ?thesis by (simp add: weakens_def retired_from_def)
qed

lemma reclaim_rows_weakens:
  assumes "arena_ok am" "\<And>r. ae_hold env r = Inr True \<Longrightarrow> dead r" "reclaim_rows env me am n rs = (am', res)"
  shows "weakens dead am am'"
  using assms(1,3)
proof (induction rs arbitrary: am n)
  case (Cons r rs)
  show ?case
  proof (cases "r \<noteq> me \<and> am_active am ! r \<noteq> 0 \<and> ae_hold env r = Inr True")
    case True
    obtain c p where c: "clear_reader am r = (c, p)" by (cases "clear_reader am r")
    have w: "weakens dead am c" using clear_weakens [of am dead r] Cons.prems(1) assms(2) True c by simp
    moreover have "weakens dead c am'"
      using Cons.IH [OF weakens_ok [OF Cons.prems(1) w], of "n + p"] Cons.prems(2) True c by simp
    ultimately show ?thesis by (rule weakens_trans)
  next
    case False
    then show ?thesis
      using Cons.IH [OF Cons.prems(1)] Cons.prems(2) weakens_refl
      by (auto split: if_splits sum.splits bool.splits)
  qed
qed (simp add: weakens_refl)

lemma reclaim_weakens:
  assumes "arena_ok am" "\<And>r. ae_hold env r = Inr True \<Longrightarrow> dead r" "reclaim_locked env me am = (am', res)"
  shows "weakens dead am am'"
  using assms reclaim_rows_weakens [OF assms(1,2)] weakens_refl by (auto simp: reclaim_locked_def split: if_splits)

end
