(* ===== verification/Arena_Write.thy ===== *)
theory Arena_Write
  imports Arena_Inv
begin

text \<open>
  What the allocations deliver and what one write does: the reserved span meets nothing that is held,
  the chosen slot is free and reachable by every probe for its key, and publishing the record leaves
  every other held slot and its bytes alone.
\<close>

section \<open>Reservations\<close>

definition clear_span :: "arena_mem \<Rightarrow> nat \<Rightarrow> nat \<Rightarrow> bool" where
  "clear_span am p q \<longleftrightarrow> (\<forall>i<length (am_slots am). held am i \<longrightarrow> \<not> meets (arena_slot_at am i) p q)"

lemma weakens_meets:
  "weakens dead am am' \<Longrightarrow> i < length (am_slots am) \<Longrightarrow> meets (arena_slot_at am' i) p q = meets (arena_slot_at am i) p q"
  using retired_from_simps(1) [OF weakensD(5)] by (simp add: meets_def)

lemma weakens_clear_span: "weakens dead am am' \<Longrightarrow> clear_span am p q \<Longrightarrow> clear_span am' p q"
  using weakens_held weakens_meets weakensD(3) unfolding clear_span_def by metis

definition blockers :: "arena_mem \<Rightarrow> nat \<Rightarrow> nat \<Rightarrow> nat list \<Rightarrow> nat list" where
  "blockers am p q is = filter (\<lambda>i. sl_state (arena_slot_at am i) \<noteq> SLOT_EMPTY \<and> meets (arena_slot_at am i) p q \<and> slot_pinned am i) is"

lemma alloc_scan_weakens:
  assumes "alloc_scan is p q am b = (am', b')"
  shows "weakens dead am am' \<and> am_pins am' = am_pins am \<and> am_active am' = am_active am \<and> am_cursor am' = am_cursor am"
  using assms
proof (induction "is" arbitrary: am b)
  case (Cons i "is")
  consider am1 b1 where "am1 = am \<or> am1 = evict_at am i" "alloc_scan is p q am1 b1 = (am', b')"
    using Cons.prems by (auto simp: Let_def split: if_splits)
  then show ?case
  proof cases
    case 1
    then show ?thesis
      using Cons.IH [OF 1(2)] evict_weakens weakens_trans weakens_refl by (metis evict_at_simps(2,3,6))
  qed
qed (simp add: weakens_refl)

lemma alloc_scan_blocked:
  assumes "alloc_scan is p q am b = (am', b')" "distinct is" "set is \<subseteq> {..<length (am_slots am)}"
  shows "b' = foldl (\<lambda>b i. block_past b (snd (slot_span (arena_slot_at am i)))) b (blockers am p q is)"
  using assms
proof (induction "is" arbitrary: am b)
  case (Cons i "is")
  have same: "arena_slot_at (evict_at am i) j = arena_slot_at am j" if "j \<in> set is" for j
    using that Cons.prems(2) by (cases "i = j") (simp_all add: evict_at_def)
  have "blockers (evict_at am i) p q is = blockers am p q is"
    using same by (auto simp: blockers_def intro!: filter_cong)
  moreover have "foldl (\<lambda>b j. block_past b (snd (slot_span (arena_slot_at (evict_at am i) j)))) x (blockers am p q is) =
      foldl (\<lambda>b j. block_past b (snd (slot_span (arena_slot_at am j)))) x (blockers am p q is)" for x
    by (rule foldl_cong) (auto simp: blockers_def same)
  ultimately show ?case
    using Cons.IH [of am] Cons.IH [of "evict_at am i"] Cons.prems by (auto simp: Let_def blockers_def split: if_splits)
qed (simp add: blockers_def)

lemma foldl_block_None: "foldl (\<lambda>b i. block_past b (f i)) b is = None \<longleftrightarrow> is = [] \<and> b = None"
  by (induction "is" arbitrary: b) (auto simp: block_past_def)

lemma weakens_retired:
  "weakens dead am am' \<Longrightarrow> i < length (am_slots am) \<Longrightarrow> sl_state (arena_slot_at am i) = SLOT_RETIRED \<Longrightarrow>
    sl_state (arena_slot_at am' i) = SLOT_RETIRED"
  using weakensD(5) [of dead am am' i] by (auto simp: retired_from_def)

lemma alloc_scan_evicts:
  assumes "alloc_scan is p q am b = (am', b')" "i < length (am_slots am)" "i \<in> set is"
    "sl_state (arena_slot_at am i) \<noteq> SLOT_EMPTY" "meets (arena_slot_at am i) p q" "\<not> slot_pinned am i"
  shows "sl_state (arena_slot_at am' i) = SLOT_RETIRED"
  using assms
proof (induction "is" arbitrary: am b)
  case (Cons j "is")
  show ?case
  proof (cases "i = j")
    case True
    obtain b1 where "alloc_scan is p q (evict_at am i) b1 = (am', b')"
      using Cons.prems True by (auto simp: Let_def split: if_splits)
    then show ?thesis
      using weakens_retired [of "\<lambda>_. False" "evict_at am i" am' i] alloc_scan_weakens Cons.prems(2,4) evict_at_state by simp
  next
    case False
    obtain am1 b1 where r: "alloc_scan is p q am1 b1 = (am', b')" "am1 = am \<or> am1 = evict_at am j"
      using Cons.prems by (auto simp: Let_def split: if_splits)
    have "arena_slot_at am1 i = arena_slot_at am i" "length (am_slots am1) = length (am_slots am)" "slot_pinned am1 i = slot_pinned am i"
      using r(2) False by (auto simp: evict_at_def slot_pinned_def)
    then show ?thesis using Cons.IH [OF r(1)] Cons.prems False by simp
  qed
qed simp

lemma alloc_scan_clears:
  assumes ok: "arena_ok am" and scan: "alloc_scan [0..<length (am_slots am)] p q am None = (am', None)"
  shows "clear_span am' p q"
proof -
  have w: "weakens (\<lambda>_. False) am am'" using alloc_scan_weakens [OF scan] by blast
  have nb: "blockers am p q [0..<length (am_slots am)] = []"
    using alloc_scan_blocked [OF scan] foldl_block_None by (metis atLeastLessThan_upt distinct_upt lessThan_atLeast0 order_refl)
  have "\<not> meets (arena_slot_at am' i) p q" if i: "i < length (am_slots am)" and h: "held am' i" for i
  proof
    assume "meets (arena_slot_at am' i) p q"
    then have m: "meets (arena_slot_at am i) p q" using weakens_meets [OF w i] by simp
    have ne: "sl_state (arena_slot_at am i) \<noteq> SLOT_EMPTY"
      using weakens_held [OF w i h] arena_okD(6) [OF ok i] by (auto simp: held_def slot_in_use_def)
    then have "\<not> slot_pinned am i" using nb i m by (auto simp: blockers_def filter_empty_conv)
    then have "sl_state (arena_slot_at am' i) = SLOT_RETIRED" "\<not> slot_pinned am' i"
      using alloc_scan_evicts [OF scan i _ ne m] i weakens_pinned [OF w] by auto
    then show False using h by (simp add: held_def slot_in_use_def)
  qed
  then show ?thesis using weakensD(3) [OF w] by (simp add: clear_span_def)
qed

lemma alloc_attempt_spec:
  assumes ok: "arena_ok am" and len: "len \<le> length (am_ring am)" and at: "alloc_attempt len cursor am = (am', cursor', found)"
  shows "weakens dead am am'" "found = Some p \<Longrightarrow> p + len \<le> length (am_ring am) \<and> clear_span am' p (p + len)"
proof -
  define bs where "bs = length (am_ring am)"
  define wraps where "wraps = (cursor mod bs + len > bs)"
  define c where "c = (if wraps then wrapping_add u64_max cursor (bs - cursor mod bs) else cursor)"
  define q where "q = (if wraps then 0 else cursor mod bs)"
  obtain am1 b where sc: "alloc_scan [0..<length (am_slots am)] q (q + len) am None = (am1, b)"
    by (cases "alloc_scan [0..<length (am_slots am)] q (q + len) am None")
  have w: "weakens dead am am1" using alloc_scan_weakens [OF sc] by blast
  have res: "(am', cursor', found) = (case b of Some past \<Rightarrow> (am1, wrapping_add u64_max c (past - q), None)
      | None \<Rightarrow> (am1\<lparr>am_cursor := wrapping_add u64_max c len\<rparr>, c, Some q))"
    using at sc unfolding alloc_attempt_def Let_def bs_def [symmetric] wraps_def [symmetric] c_def [symmetric] q_def [symmetric]
    by (simp split: option.splits)
  show "weakens dead am am'" using res w weakens_trans [OF w cursor_weakens] by (cases b) simp_all
  show "p + len \<le> length (am_ring am) \<and> clear_span am' p (p + len)" if "found = Some p"
  proof -
    have b: "b = None" and p: "p = q" and am': "am' = am1\<lparr>am_cursor := wrapping_add u64_max c len\<rparr>" using that res by (cases b; simp)+
    have "clear_span am1 q (q + len)" using alloc_scan_clears [OF ok] sc b by blast
    then have "clear_span am' p (p + len)" using weakens_clear_span [OF cursor_weakens] p am' by blast
    moreover have "q + len \<le> bs" using len by (simp add: q_def wraps_def bs_def)
    ultimately show ?thesis using p by (simp add: bs_def)
  qed
qed

lemma alloc_loop_spec:
  assumes "arena_ok am" "len \<le> length (am_ring am)" "alloc_loop attempts len cursor am = (am', res)"
  shows "weakens dead am am' \<and> (\<forall>p. res = Inr p \<longrightarrow> p + len \<le> length (am_ring am) \<and> clear_span am' p (p + len))"
  using assms
proof (induction attempts arbitrary: cursor am)
  case (Suc attempts)
  obtain am1 c found where at: "alloc_attempt len cursor am = (am1, c, found)" by (cases "alloc_attempt len cursor am")
  note sp = alloc_attempt_spec [OF Suc.prems(1,2) at]
  show ?case
  proof (cases found)
    case (Some p)
    then show ?thesis using Suc.prems(3) at sp by auto
  next
    case None
    have "alloc_loop attempts len c am1 = (am', res)" using Suc.prems(3) at None by simp
    then show ?thesis
      using Suc.IH [OF weakens_ok [OF Suc.prems(1) sp(1)]] Suc.prems(2) weakensD(1) [OF sp(1)] weakens_trans [OF sp(1)] by metis
  qed
qed (auto simp: weakens_refl)

section \<open>Index slots\<close>

definition reachable_slot :: "arena_mem \<Rightarrow> arena_key \<Rightarrow> nat \<Rightarrow> bool" where
  "reachable_slot am key i \<longleftrightarrow>
     (\<exists>d<length (am_slots am). i = probe_index (arena_hash key) d (length (am_slots am)) \<and>
        (\<forall>e<d. \<not> arena_emp (arena_slot_at am (probe_index (arena_hash key) e (length (am_slots am))))))"

lemma min_by_key_in: "min_by_key f xs = Some x \<Longrightarrow> x \<in> set xs"
  by (induction xs arbitrary: x) (auto split: option.splits if_splits)

lemma pressure_spec:
  assumes "pressure_loop turns am = (am', res)"
  shows "weakens dead am am' \<and> (\<forall>i. res = Inr i \<longrightarrow> i < length (am_slots am) \<and> \<not> held am' i)"
  using assms
proof (cases turns)
  case (Cons t ts)
  show ?thesis
  proof (cases "min_by_key (\<lambda>i. sl_generation (arena_slot_at am i)) (filter (\<lambda>i. \<not> slot_pinned am i) [0..<length (am_slots am)])")
    case None
    then show ?thesis using assms Cons weakens_refl by auto
  next
    case (Some i)
    then have i: "i < length (am_slots am)" "\<not> slot_pinned am i" using min_by_key_in [OF Some] by auto
    then have "am' = evict_at am i" "res = Inr i" using assms Cons Some by (simp_all add: Let_def)
    moreover have "\<not> held (evict_at am i) i" using i evict_at_state [OF i(1)] by (simp add: held_def slot_in_use_def)
    ultimately show ?thesis using i evict_weakens by simp
  qed
qed (auto simp: weakens_refl)

lemma free_slot_spec:
  assumes ok: "arena_ok am" and fs: "free_slot_locked am key = (am', res)"
  shows "weakens dead am am' \<and> (\<forall>i. res = Inr i \<longrightarrow> i < length (am_slots am) \<and> \<not> held am' i \<and> reachable_slot am' key i)"
proof -
  let ?n = "length (am_slots am)"
  let ?p = "\<lambda>d. probe_index (arena_hash key) d ?n"
  have ts: "table_size (am_slots am)" using arena_okD(1) [OF ok] .
  have idx: "map (\<lambda>d. arena_index key d ?n) [0..<?n] = map ?p [0..<?n]"
    using ts by (simp add: table_size_def arena_index_probe)
  show ?thesis
  proof (cases "find (slot_free am) (map ?p [0..<?n])")
    case (Some i)
    then obtain d where d: "d < ?n" "i = ?p d" "slot_free am i" "\<forall>e<d. \<not> slot_free am (?p e)"
      unfolding find_Some_iff by auto
    have i: "i < ?n" using d(1,2) ts by (simp add: probe_index_less)
    have "\<not> held am i" using d(3) arena_okD(6) [OF ok i] by (auto simp: slot_free_def held_def slot_in_use_def)
    moreover have "reachable_slot am key i"
      using d unfolding reachable_slot_def slot_free_def arena_emp_def by blast
    moreover have "am' = am" "res = Inr i" using fs Some idx by (simp_all add: free_slot_locked_def Let_def)
    ultimately show ?thesis using i weakens_refl by simp
  next
    case None
    have ne: "\<not> arena_emp (arena_slot_at am (?p d))" if "d < ?n" for d
      using None that unfolding find_None_iff by (auto simp: slot_free_def arena_emp_def)
    have pl: "pressure_loop [0..<?n] am = (am', res)" using fs None idx by (simp add: free_slot_locked_def Let_def)
    note sp = pressure_spec [OF pl, of dead]
    have len: "length (am_slots am') = ?n" using sp weakensD(3) by blast
    have "reachable_slot am' key i" if i: "i < ?n" for i
    proof -
      obtain d where d: "d < ?n" "?p d = i" using probe_index_surj [OF ts i] by blast
      have "\<not> arena_emp (arena_slot_at am' (?p e))" if "e < d" for e
      proof -
        have "?p e < ?n" using that d(1) ts by (simp add: probe_index_less)
        then have "retired_from (arena_slot_at am (?p e)) (arena_slot_at am' (?p e))" using weakensD(5) sp by blast
        then show ?thesis using ne [of e] that d(1) retired_from_simps(10) by (simp add: arena_emp_def)
      qed
      then show ?thesis using d unfolding reachable_slot_def len by blast
    qed
    then show ?thesis using sp by blast
  qed
qed

section \<open>Publication\<close>

definition stored :: "arena_mem \<Rightarrow> arena_slot \<Rightarrow> arena_key option \<Rightarrow> arena_record \<Rightarrow> bool" where
  "stored am s key r \<longleftrightarrow>
     sl_body_len s = length (re_body r) \<and> arena_bytes am (sl_body_offset s) (sl_body_len s) = re_body r \<and>
     (case re_encoded r of None \<Rightarrow> sl_encoded_len s = 0
      | Some (bs, tag) \<Rightarrow> sl_encoded_len s = length bs \<and> arena_bytes am (sl_encoded_offset s) (sl_encoded_len s) = bs \<and> sl_encoding s = tag) \<and>
     sl_stamp s = re_stamp r \<and> sl_extra s = re_extra r \<and>
     (slot_in_use s \<longrightarrow> (case key of None \<Rightarrow> sl_state s = SLOT_ADDRESSED | Some k \<Rightarrow> sl_state s = SLOT_LIVE \<and> slot_holds s k))"

lemma write_bytes_length: "offset + length bs \<le> length ring \<Longrightarrow> length (write_bytes ring offset bs) = length ring"
  by (simp add: write_bytes_def)

lemma write_bytes_here: "offset + length bs \<le> length ring \<Longrightarrow> take (length bs) (drop offset (write_bytes ring offset bs)) = bs"
  by (simp add: write_bytes_def)

lemma write_bytes_elsewhere:
  assumes "offset + length bs \<le> length ring" "o1 + l \<le> offset \<or> offset + length bs \<le> o1"
  shows "take l (drop o1 (write_bytes ring offset bs)) = take l (drop o1 ring)"
proof (cases "o1 + l \<le> offset")
  case True
  then have "take l (drop o1 (take offset ring @ ys)) = take l (drop o1 (take offset ring))" for ys
    using assms(1) by simp
  also have "take l (drop o1 (take offset ring)) = take l (drop o1 ring)" using True by (simp add: drop_take min_def)
  finally show ?thesis unfolding write_bytes_def .
next
  case False
  then have le: "offset + length bs \<le> o1" using assms(2) by simp
  then have "drop o1 (take offset ring @ bs @ drop (offset + length bs) ring) = drop (o1 - (offset + length bs)) (drop (offset + length bs) ring)"
    using assms(1) by simp
  then show ?thesis using le by (simp add: write_bytes_def)
qed

definition ring_written :: "bytes \<Rightarrow> nat \<Rightarrow> arena_record \<Rightarrow> bytes" where
  "ring_written ring offset r =
     (let ring1 = write_bytes ring offset (re_body r)
      in case re_encoded r of None \<Rightarrow> ring1 | Some (bs, tag) \<Rightarrow> write_bytes ring1 (offset + length (re_body r)) bs)"

lemma ring_written_facts:
  assumes "offset + record_total r \<le> length ring"
  shows "length (ring_written ring offset r) = length ring"
    "o1 + l \<le> offset \<or> offset + record_total r \<le> o1 \<Longrightarrow> take l (drop o1 (ring_written ring offset r)) = take l (drop o1 ring)"
    "take (length (re_body r)) (drop offset (ring_written ring offset r)) = re_body r"
    "re_encoded r = Some (bs, tag) \<Longrightarrow> take (length bs) (drop (offset + length (re_body r)) (ring_written ring offset r)) = bs"
  using assms
  by (auto simp: ring_written_def Let_def record_total_def write_bytes_length write_bytes_here write_bytes_elsewhere split: option.splits)

lemma publish_record_eq:
  "publish_record am key r offset index =
     (if am_record_generation am + 1 \<le> u64_max
      then (am\<lparr>am_record_generation := am_record_generation am + 1, am_ring := ring_written (am_ring am) offset r,
               am_slots := (am_slots am)[index := record_slot key r offset (am_record_generation am + 1)]\<rparr>,
            Inr \<lparr>ad_slot = index, ad_generation = am_record_generation am + 1\<rparr>)
      else (am, Inl (ArIo ''arena record generation exhausted'')))"
  by (simp add: publish_record_def ring_written_def checked_add_def Let_def)

lemma record_slot_facts:
  "slot_span (record_slot key r offset g) = (offset, offset + record_total r)" "sl_generation (record_slot key r offset g) = g"
  "sl_state (record_slot key r offset g) = (if key = None then SLOT_ADDRESSED else SLOT_LIVE)" "slot_in_use (record_slot key r offset g)"
  "k0 < 2 ^ 128 \<Longrightarrow> arena_holds (record_slot (Some k0) r offset g) k \<longleftrightarrow> k = k0"
  "\<not> arena_holds (record_slot None r offset g) k"
  by (auto simp: record_slot_def slot_span_def record_total_def slot_in_use_def arena_holds_def slot_holds_def
      intro: key_parts_inj split: option.splits)

definition reserved :: "arena_mem \<Rightarrow> arena_key option \<Rightarrow> arena_record \<Rightarrow> nat \<Rightarrow> nat \<Rightarrow> bool" where
  "reserved am key r offset i \<longleftrightarrow> i < length (am_slots am) \<and> \<not> held am i \<and>
     offset + record_total r \<le> length (am_ring am) \<and> clear_span am offset (offset + record_total r) \<and>
     (\<forall>k. key = Some k \<longrightarrow> k < 2 ^ 128 \<and> (\<forall>j<length (am_slots am). \<not> arena_holds (arena_slot_at am j) k) \<and> reachable_slot am k i)"

lemma publish_ok:
  assumes ok: "arena_ok am" and res: "reserved am key r offset i" and pub: "publish_record am key r offset i = (am', Inr a)"
  shows "arena_ok am'"
proof -
  let ?n = "length (am_slots am)" and ?g = "am_record_generation am + 1"
  let ?s = "record_slot key r offset ?g"
  have am': "am' = am\<lparr>am_record_generation := ?g, am_ring := ring_written (am_ring am) offset r, am_slots := (am_slots am)[i := ?s]\<rparr>"
    using pub by (simp add: publish_record_eq split: if_splits)
  have i: "i < ?n" "\<not> held am i" "offset + record_total r \<le> length (am_ring am)" using res by (simp_all add: reserved_def)
  have ring: "length (am_ring am') = length (am_ring am)" using ring_written_facts(1) i(3) am' by simp
  have pin: "slot_pinned am' j = slot_pinned am j" for j by (simp add: am' slot_pinned_def)
  have at: "arena_slot_at am' j = (if j = i then ?s else arena_slot_at am j)" if "j < ?n" for j using that am' by simp
  have held: "held am' j \<longleftrightarrow> j = i \<or> held am j" if "j < ?n" for j
    using at [OF that] pin record_slot_facts(4) by (auto simp: held_def)
  have "arena_slot_ok am' (arena_slot_at am' j) \<and> (slot_pinned am' j \<longrightarrow> sl_state (arena_slot_at am' j) \<noteq> SLOT_EMPTY)" if j: "j < ?n" for j
  proof (cases "j = i")
    case True
    then show ?thesis
      using at [OF j] record_slot_facts(1-3) [of key r offset ?g] i(3) ring
      by (auto simp: arena_slot_ok_def am' record_slot_def)
  next
    case False
    then show ?thesis using at [OF j] arena_okD(5,6) [OF ok j] pin ring by (auto simp: arena_slot_ok_def am')
  qed
  moreover have "apart (arena_slot_at am' j) (arena_slot_at am' l)"
    if "j < ?n" "l < ?n" "j \<noteq> l" "held am' j" "held am' l" for j l
  proof -
    have clear: "apart ?s (arena_slot_at am m)" if "m < ?n" "held am m" for m
      using res that record_slot_facts(1) [of key r offset ?g]
      by (auto simp: reserved_def clear_span_def meets_def apart_def case_prod_unfold)
    have sym: "apart x y \<longleftrightarrow> apart y x" for x y by (auto simp: apart_def)
    show ?thesis
      using that at held clear arena_okD(7) [OF ok] sym by metis
  qed
  moreover have "probe_wf arena_emp arena_holds arena_hash ((am_slots am)[i := ?s])"
  proof (cases key)
    case None
    then show ?thesis
      using arena.wf_update_shrink [OF arena_okD(8) [OF ok] i(1), of ?s] record_slot_facts(3,6) by (simp add: arena_emp_def)
  next
    case (Some k)
    then have k: "k < 2 ^ 128" "\<forall>j<?n. \<not> arena_holds (arena_slot_at am j) k" "reachable_slot am k i"
      using res by (simp_all add: reserved_def)
    then obtain d where "d < ?n" "i = probe_index (arena_hash k) d ?n" "\<forall>e<d. \<not> arena_emp (arena_slot_at am (probe_index (arena_hash k) e ?n))"
      by (auto simp: reachable_slot_def)
    then show ?thesis
      using arena.wf_insert [OF arena_okD(8,1) [OF ok], of d k ?s] k(1,2) record_slot_facts(5) [of k r offset ?g k] Some by simp
  qed
  ultimately show ?thesis
    using arena_okD(1-4) [OF ok] ring unfolding arena_ok_def by (simp add: am' table_size_def)
qed

section \<open>One write\<close>

definition holds_only :: "(nat \<Rightarrow> bool) \<Rightarrow> arena_env \<Rightarrow> bool" where
  "holds_only dead env \<longleftrightarrow> (\<forall>r. ae_hold env r = Inr True \<longrightarrow> dead r)"

lemma retry_spec:
  assumes ok: "arena_ok am" and hold: "holds_only dead env" and run: "retry_reclaimed env me f am = (am', res)"
    and f: "\<And>m m' x. weakens dead am m \<Longrightarrow> arena_ok m \<Longrightarrow> f m = (m', x) \<Longrightarrow> weakens dead m m' \<and> (\<forall>y. x = Inr y \<longrightarrow> Q m' y)"
  shows "weakens dead am am' \<and> (\<forall>y. res = Inr y \<longrightarrow> Q am' y)"
proof -
  obtain m1 x1 where 1: "f am = (m1, x1)" by (cases "f am")
  note w1 = f [OF weakens_refl ok 1]
  show ?thesis
  proof (cases "x1 = Inl ArPinned")
    case False
    then have "am' = m1" "res = x1" using run 1 by (auto simp: retry_reclaimed_def split: sum.splits arena_error.splits)
    then show ?thesis using w1 by simp
  next
    case True
    obtain m2 x2 where 2: "reclaim_locked env me m1 = (m2, x2)" by (cases "reclaim_locked env me m1")
    have ok1: "arena_ok m1" using weakens_ok ok w1 by blast
    have "weakens dead m1 m2" using reclaim_weakens [OF ok1 _ 2] hold unfolding holds_only_def by blast
    then have w2: "weakens dead am m2" using weakens_trans w1 by blast
    show ?thesis
    proof (cases x2)
      case (Inl e)
      then have "am' = m2" "res = Inl e" using run 1 2 True by (simp_all add: retry_reclaimed_def)
      then show ?thesis using w2 by simp
    next
      case (Inr n)
      then have "f m2 = (am', res)" using run 1 2 True by (simp add: retry_reclaimed_def)
      then show ?thesis using f [OF w2 weakens_ok [OF ok w2]] weakens_trans [OF w2] by blast
    qed
  qed
qed

lemma evict_found_absent:
  assumes ok: "arena_ok am" and k: "k < 2 ^ 128"
    and am1: "am1 = (case find_locked am k of Some i \<Rightarrow> evict_at am i | None \<Rightarrow> am)"
  shows "\<forall>j<length (am_slots am). \<not> arena_holds (arena_slot_at am1 j) k"
proof (cases "find_locked am k")
  case None
  then show ?thesis using find_locked_iff [OF arena_okD(1,8) [OF ok] k] am1 by fastforce
next
  case (Some i)
  then have i: "i < length (am_slots am)" "arena_holds (arena_slot_at am i) k"
    using find_locked_iff [OF arena_okD(1,8) [OF ok] k] by simp_all
  show ?thesis
  proof (intro allI impI notI)
    fix j assume j: "j < length (am_slots am)" "arena_holds (arena_slot_at am1 j) k"
    then have "arena_holds (arena_slot_at am j) k"
      using am1 Some retired_from_simps(13) weakensD(5) [OF evict_weakens] by (metis option.simps(5))
    then have "j = i" using arena.wf_unique [OF arena_okD(8) [OF ok] j(1) i(1)] i(2) by blast
    then show False using j(2) am1 Some evict_at_state [OF i(1)] by (auto simp: arena_holds_def split: if_splits)
  qed
qed

lemma weakens_absent:
  "weakens dead am am' \<Longrightarrow> \<forall>j<length (am_slots am). \<not> arena_holds (arena_slot_at am j) k \<Longrightarrow>
    \<forall>j<length (am_slots am'). \<not> arena_holds (arena_slot_at am' j) k"
  using retired_from_simps(13) weakensD(3,5) by metis

lemma write_record_spec:
  assumes ok: "arena_ok am" and hold: "holds_only dead env" and key: "\<forall>k. key = Some k \<longrightarrow> k < 2 ^ 128"
    and wr: "write_record env me am key r = (am', res)"
  shows "weakens dead am am' \<and> (\<exists>e. res = Inl e) \<or>
    (\<exists>am1 offset a. res = Inr a \<and> weakens dead am am1 \<and> reserved am1 key r offset (ad_slot a) \<and>
       publish_record am1 key r offset (ad_slot a) = (am', Inr a))"
proof (cases "record_total r > length (am_ring am) div 4 \<or> (\<exists>e. arena_lock env = Inl e)")
  case True
  then have "am' = am \<and> (\<exists>e. res = Inl e)"
    using wr by (cases "record_total r > length (am_ring am) div 4") (auto simp: write_record_def Let_def)
  then show ?thesis using weakens_refl by blast
next
  case False
  then obtain u where lk: "arena_lock env = Inr u" and small: "record_total r \<le> length (am_ring am)"
    by (cases "arena_lock env") auto
  define am1 where "am1 = (case Option.bind key (find_locked am) of Some i \<Rightarrow> evict_at am i | None \<Rightarrow> am)"
  have w1: "weakens dead am am1" using evict_weakens weakens_refl by (auto simp: am1_def split: option.split)
  have ok1: "arena_ok am1" using weakens_ok [OF ok w1] .
  have abs1: "\<forall>j<length (am_slots am1). \<not> arena_holds (arena_slot_at am1 j) k" if "key = Some k" for k
    using evict_found_absent [OF ok, of k am1] that key weakensD(3) [OF w1] by (simp add: am1_def)
  obtain am2 x2 where 2: "retry_reclaimed env me (\<lambda>m. allocate_locked m (record_total r)) am1 = (am2, x2)"
    by (cases "retry_reclaimed env me (\<lambda>m. allocate_locked m (record_total r)) am1")
  have s2: "weakens dead am1 am2 \<and> (\<forall>p. x2 = Inr p \<longrightarrow>
      p + record_total r \<le> length (am_ring am2) \<and> clear_span am2 p (p + record_total r))"
  proof (rule retry_spec [OF ok1 hold 2])
    fix m m' x assume m: "weakens dead am1 m" "arena_ok m" "allocate_locked m (record_total r) = (m', x)"
    have "record_total r \<le> length (am_ring m)" using small weakensD(1) [OF w1] weakensD(1) [OF m(1)] by simp
    then show "weakens dead m m' \<and> (\<forall>p. x = Inr p \<longrightarrow> p + record_total r \<le> length (am_ring m') \<and> clear_span m' p (p + record_total r))"
      using alloc_loop_spec [OF m(2)] m(3) weakensD(1) unfolding allocate_locked_def by metis
  qed
  have wr2: "(case x2 of Inl e \<Rightarrow> (am2, Inl e) | Inr offset \<Rightarrow>
      case retry_reclaimed env me (\<lambda>m. free_slot_locked m (case key of Some k \<Rightarrow> k | None \<Rightarrow> offset)) am2 of
        (am3, Inl e) \<Rightarrow> (am3, Inl e) | (am3, Inr index) \<Rightarrow> publish_record am3 key r offset index) = (am', res)"
    using wr False lk 2 by (simp add: write_record_def Let_def am1_def split: sum.splits)
  have w2: "weakens dead am am2" using weakens_trans [OF w1] s2 by blast
  have ok2: "arena_ok am2" using weakens_ok [OF ok w2] .
  show ?thesis
  proof (cases x2)
    case (Inl e)
    then show ?thesis using wr2 w2 by auto
  next
    case (Inr offset)
    define kk where "kk = (case key of Some k \<Rightarrow> k | None \<Rightarrow> offset)"
    obtain am3 x3 where 3: "retry_reclaimed env me (\<lambda>m. free_slot_locked m kk) am2 = (am3, x3)"
      by (cases "retry_reclaimed env me (\<lambda>m. free_slot_locked m kk) am2")
    have s3: "weakens dead am2 am3 \<and> (\<forall>i. x3 = Inr i \<longrightarrow> i < length (am_slots am3) \<and> \<not> held am3 i \<and> reachable_slot am3 kk i)"
      by (rule retry_spec [OF ok2 hold 3]) (use free_slot_spec weakensD(3) in metis)
    have w3: "weakens dead am am3" using weakens_trans [OF w2] s3 by blast
    show ?thesis
    proof (cases x3)
      case (Inl e)
      then show ?thesis using wr2 Inr 3 w3 by (auto simp: kk_def)
    next
      case (Inr i)
      have pub: "publish_record am3 key r offset i = (am', res)" using wr2 \<open>x2 = Inr offset\<close> 3 Inr by (simp add: kk_def)
      have rs: "reserved am3 key r offset i"
        unfolding reserved_def
        using s3 s2 Inr \<open>x2 = Inr offset\<close> weakens_clear_span weakensD(1) key abs1 weakens_absent kk_def by auto
      show ?thesis
      proof (cases res)
        case (Inl e)
        then have "am' = am3" using pub by (simp add: publish_record_eq split: if_splits)
        then show ?thesis using Inl w3 by blast
      next
        case (Inr a)
        then have "ad_slot a = i" using pub by (auto simp: publish_record_eq split: if_splits)
        then show ?thesis using Inr pub rs w3 by blast
      qed
    qed
  qed
qed

section \<open>What stays\<close>

lemma stored_weakens:
  assumes "weakens dead am am'" "i < length (am_slots am)" "stored am (arena_slot_at am i) key r"
  shows "stored am' (arena_slot_at am' i) key r"
proof -
  note s = retired_from_simps [OF weakensD(5) [OF assms(1,2)]]
  have "slot_in_use (arena_slot_at am i) \<and> sl_state (arena_slot_at am' i) = sl_state (arena_slot_at am i)"
    if "slot_in_use (arena_slot_at am' i)" using s(12) [OF that] that by simp
  then show ?thesis
    using assms(3) unfolding stored_def arena_bytes_def s(3-9,11) weakensD(1) [OF assms(1)] by (cases key) auto
qed

lemma stored_publish:
  assumes ok: "arena_ok am" and res: "reserved am key r offset i" and pub: "publish_record am key r offset i = (am', Inr a)"
  shows "stored am' (arena_slot_at am' i) key r"
    "j < length (am_slots am) \<Longrightarrow> j \<noteq> i \<Longrightarrow> held am j \<Longrightarrow> stored am (arena_slot_at am j) key' r' \<Longrightarrow> stored am' (arena_slot_at am' j) key' r'"
proof -
  let ?g = "am_record_generation am + 1"
  have am': "am' = am\<lparr>am_record_generation := ?g, am_ring := ring_written (am_ring am) offset r,
      am_slots := (am_slots am)[i := record_slot key r offset ?g]\<rparr>"
    using pub by (simp add: publish_record_eq split: if_splits)
  have i: "i < length (am_slots am)" "offset + record_total r \<le> length (am_ring am)" using res by (simp_all add: reserved_def)
  note rw = ring_written_facts [OF i(2)]
  show "stored am' (arena_slot_at am' i) key r"
    using i(1) rw(3,4) unfolding am' stored_def arena_bytes_def
    by (auto simp: record_slot_def slot_holds_def split: option.splits)
  show "stored am' (arena_slot_at am' j) key' r'"
    if j: "j < length (am_slots am)" "j \<noteq> i" "held am j" "stored am (arena_slot_at am j) key' r'"
  proof -
    let ?s = "arena_slot_at am j"
    have "sl_body_offset ?s + sl_body_len ?s + sl_encoded_len ?s \<le> offset \<or> offset + record_total r \<le> sl_body_offset ?s"
      using res j(1,3) by (auto simp: reserved_def clear_span_def meets_def slot_span_def)
    moreover have "sl_encoded_offset ?s = sl_body_offset ?s + sl_body_len ?s"
      using arena_okD(5,6) [OF ok j(1)] j(3) by (auto simp: arena_slot_ok_def held_def slot_in_use_def)
    ultimately have eqs: "arena_bytes am' (sl_body_offset ?s) (sl_body_len ?s) = arena_bytes am (sl_body_offset ?s) (sl_body_len ?s)"
      "arena_bytes am' (sl_encoded_offset ?s) (sl_encoded_len ?s) = arena_bytes am (sl_encoded_offset ?s) (sl_encoded_len ?s)"
      using rw(2) by (auto simp: arena_bytes_def am')
    have at: "arena_slot_at am' j = ?s" using j(2) by (simp add: am')
    show ?thesis using j(4) unfolding stored_def at eqs .
  qed
qed

end
