(* ===== verification/Arena_World.thy ===== *)
theory Arena_World
  imports Arena_Write
begin

text \<open>
  Processes sharing an arena: a step relation over the segment, the entries that processes hold, the
  readers whose owner is gone, and a log of what was written under which generation. Whatever the
  interleaving of writers, readers, crashes and reclaims, an entry reads exactly what was written, and a
  lookup by key finds only the newest record of that key.
\<close>

section \<open>Steps\<close>

record arena_world =
  aw_mem :: arena_mem
  aw_entries :: "arena_entry list"
  aw_dead :: "nat \<Rightarrow> bool"
  aw_log :: "nat \<Rightarrow> (arena_key option \<times> arena_record) option"

definition alive :: "arena_world \<Rightarrow> nat \<Rightarrow> bool" where
  "alive w r \<longleftrightarrow> r < length (am_active (aw_mem w)) \<and> \<not> aw_dead w r"

text \<open>The kernel hands out a hold only when no living owner has it.\<close>

abbreviation env_ok :: "arena_world \<Rightarrow> arena_env \<Rightarrow> bool" where
  "env_ok w env \<equiv> holds_only (aw_dead w) env"

inductive arena_step :: "arena_world \<Rightarrow> arena_world \<Rightarrow> bool" where
  write_step: "alive w me \<Longrightarrow> env_ok w env \<Longrightarrow> \<forall>k. key = Some k \<longrightarrow> k < 2 ^ 128 \<Longrightarrow>
     write_record env me (aw_mem w) key r = (am', res) \<Longrightarrow>
     arena_step w (w\<lparr>aw_mem := am',
       aw_log := (case res of Inr a \<Rightarrow> (aw_log w)(ad_generation a \<mapsto> (key, r)) | Inl _ \<Rightarrow> aw_log w)\<rparr>)"
| get: "alive w me \<Longrightarrow> arena_get env me (aw_mem w) key = (am', found) \<Longrightarrow> key < 2 ^ 128 \<Longrightarrow>
     arena_step w (w\<lparr>aw_mem := am', aw_entries := (case found of Some e \<Rightarrow> e # aw_entries w | None \<Rightarrow> aw_entries w)\<rparr>)"
| get_address: "alive w me \<Longrightarrow> get_address env me (aw_mem w) a = (am', found) \<Longrightarrow>
     arena_step w (w\<lparr>aw_mem := am', aw_entries := (case found of Some e \<Rightarrow> e # aw_entries w | None \<Rightarrow> aw_entries w)\<rparr>)"
| drop_entry: "e \<in> set (aw_entries w) \<Longrightarrow> \<not> ae_forked env \<Longrightarrow>
     arena_step w (w\<lparr>aw_mem := entry_drop env (aw_mem w) e, aw_entries := remove1 e (aw_entries w)\<rparr>)"
| forget: "arena_forget env (aw_mem w) key = (am', res) \<Longrightarrow> arena_step w (w\<lparr>aw_mem := am'\<rparr>)"
| forget_at: "forget_address env (aw_mem w) a = (am', res) \<Longrightarrow> arena_step w (w\<lparr>aw_mem := am'\<rparr>)"
| reset: "arena_reset env (aw_mem w) = (am', res) \<Longrightarrow> arena_step w (w\<lparr>aw_mem := am'\<rparr>)"
| reclaim: "alive w me \<Longrightarrow> env_ok w env \<Longrightarrow> reclaim_dead_pins env me (aw_mem w) = (am', res) \<Longrightarrow> arena_step w (w\<lparr>aw_mem := am'\<rparr>)"
| crash: "alive w me \<Longrightarrow>
     arena_step w (w\<lparr>aw_dead := (aw_dead w)(me := True), aw_entries := filter (\<lambda>e. en_reader e \<noteq> me) (aw_entries w)\<rparr>)"
| claim: "env_ok w env \<Longrightarrow> arena_claim env (aw_mem w) = (am', Inr me) \<Longrightarrow>
     ae_shm env \<or> aw_mem w = arena_create (length (am_slots (aw_mem w))) (length (am_active (aw_mem w))) (am_ring (aw_mem w)) \<and> aw_dead w 0 \<Longrightarrow>
     me < length (am_active (aw_mem w)) \<Longrightarrow>
     arena_step w (w\<lparr>aw_mem := am', aw_dead := (aw_dead w)(me := False)\<rparr>)"
| leave: "alive w me \<Longrightarrow> \<forall>e\<in>set (aw_entries w). en_reader e \<noteq> me \<Longrightarrow>
     arena_step w (w\<lparr>aw_mem := inner_drop env (aw_mem w) me, aw_dead := (aw_dead w)(me := True)\<rparr>)"

inductive arena_steps :: "arena_world \<Rightarrow> arena_world \<Rightarrow> bool" where
  stay: "arena_steps w w"
| step: "arena_steps w w' \<Longrightarrow> arena_step w' w'' \<Longrightarrow> arena_steps w w''"

definition fresh_world :: "nat \<Rightarrow> nat \<Rightarrow> bytes \<Rightarrow> arena_world" where
  "fresh_world slots readers ring =
     \<lparr>aw_mem = arena_create slots readers ring, aw_entries = [], aw_dead = (\<lambda>_. True), aw_log = (\<lambda>_. None)\<rparr>"

section \<open>The world invariant\<close>

definition pin_count :: "arena_entry list \<Rightarrow> nat \<Rightarrow> nat \<Rightarrow> nat" where
  "pin_count es r i = length (filter (\<lambda>e. en_reader e = r \<and> en_slot e = i) es)"

definition entry_ok :: "arena_mem \<Rightarrow> arena_entry \<Rightarrow> bool" where
  "entry_ok am e \<longleftrightarrow> en_slot e < length (am_slots am) \<and> sl_generation (arena_slot_at am (en_slot e)) = en_generation e \<and>
     e = entry_pinned am (en_reader e) (en_slot e) (en_generation e)"

definition logged :: "arena_mem \<Rightarrow> (nat \<Rightarrow> (arena_key option \<times> arena_record) option) \<Rightarrow> bool" where
  "logged am lg \<longleftrightarrow>
     (\<forall>i<length (am_slots am). held am i \<longrightarrow>
        (\<exists>key r. lg (sl_generation (arena_slot_at am i)) = Some (key, r) \<and> stored am (arena_slot_at am i) key r)) \<and>
     (\<forall>g. lg g \<noteq> None \<longrightarrow> g \<le> am_record_generation am) \<and>
     (\<forall>i<length (am_slots am). \<forall>k. arena_holds (arena_slot_at am i) k \<longrightarrow>
        (\<forall>g r. lg g = Some (Some k, r) \<longrightarrow> g \<le> sl_generation (arena_slot_at am i))) \<and>
     (\<forall>g k r. lg g = Some (Some k, r) \<longrightarrow> k < 2 ^ 128)"

definition rows_ok :: "arena_world \<Rightarrow> bool" where
  "rows_ok w \<longleftrightarrow>
     (\<forall>r. alive w r \<longrightarrow> am_active (aw_mem w) ! r \<noteq> 0 \<and>
        (\<forall>i<length (am_slots (aw_mem w)). am_pins (aw_mem w) ! r ! i = pin_count (aw_entries w) r i)) \<and>
     (\<forall>e\<in>set (aw_entries w). alive w (en_reader e) \<and> entry_ok (aw_mem w) e)"

definition world_ok :: "arena_world \<Rightarrow> bool" where
  "world_ok w \<longleftrightarrow> arena_ok (aw_mem w) \<and> rows_ok w \<and> logged (aw_mem w) (aw_log w)"

lemma logged_key: "logged am lg \<Longrightarrow> lg g = Some (Some k, r) \<Longrightarrow> k < 2 ^ 128"
  unfolding logged_def by blast

lemma rows_okD:
  assumes "rows_ok w"
  shows "alive w r \<Longrightarrow> am_active (aw_mem w) ! r \<noteq> 0"
    "alive w r \<Longrightarrow> i < length (am_slots (aw_mem w)) \<Longrightarrow> am_pins (aw_mem w) ! r ! i = pin_count (aw_entries w) r i"
    "e \<in> set (aw_entries w) \<Longrightarrow> alive w (en_reader e)" "e \<in> set (aw_entries w) \<Longrightarrow> entry_ok (aw_mem w) e"
  using assms unfolding rows_ok_def by blast+

lemma entry_slot_pinned:
  assumes "rows_ok w" "e \<in> set (aw_entries w)"
  shows "slot_pinned (aw_mem w) (en_slot e)"
proof -
  have "filter (\<lambda>e'. en_reader e' = en_reader e \<and> en_slot e' = en_slot e) (aw_entries w) \<noteq> []"
    using assms(2) by (auto simp: filter_empty_conv)
  then have "pin_count (aw_entries w) (en_reader e) (en_slot e) \<noteq> 0" by (simp add: pin_count_def)
  moreover have "en_slot e < length (am_slots (aw_mem w))" using rows_okD(4) [OF assms] by (simp add: entry_ok_def)
  ultimately show ?thesis
    using rows_okD(1,2) [OF assms(1) rows_okD(3) [OF assms]] rows_okD(3) [OF assms]
    by (auto simp: slot_pinned_iff alive_def)
qed

lemma entry_ok_weakens: "weakens dead am am' \<Longrightarrow> entry_ok am e \<Longrightarrow> entry_ok am' e"
proof -
  assume w: "weakens dead am am'" and e: "entry_ok am e"
  then have i: "en_slot e < length (am_slots am)" by (simp add: entry_ok_def)
  note s = retired_from_simps [OF weakensD(5) [OF w i]]
  have "entry_pinned am' r (en_slot e) g = entry_pinned am r (en_slot e) g" for r g
    unfolding entry_pinned_def Let_def s(2-9) ..
  then show "entry_ok am' e" using e unfolding entry_ok_def s(2) weakensD(3) [OF w] by metis
qed

lemma logged_weakens:
  assumes "weakens dead am am'" "logged am lg"
  shows "logged am' lg"
proof -
  note s = retired_from_simps [OF weakensD(5) [OF assms(1)]]
  have "\<exists>key r. lg (sl_generation (arena_slot_at am' i)) = Some (key, r) \<and> stored am' (arena_slot_at am' i) key r"
    if i: "i < length (am_slots am)" "held am' i" for i
  proof -
    obtain key r where "lg (sl_generation (arena_slot_at am i)) = Some (key, r)" "stored am (arena_slot_at am i) key r"
      using assms(2) weakens_held [OF assms(1) i] i(1) unfolding logged_def by blast
    then show ?thesis using stored_weakens [OF assms(1) i(1)] s(2) [OF i(1)] by auto
  qed
  moreover have "g \<le> sl_generation (arena_slot_at am' i)"
    if "i < length (am_slots am)" "arena_holds (arena_slot_at am' i) k" "lg g = Some (Some k, r)" for i k g r
    using assms(2) that s(2,13) [OF that(1)] unfolding logged_def by metis
  ultimately show ?thesis
    using assms(2) weakensD(2,3) [OF assms(1)] unfolding logged_def by auto
qed

lemma rows_ok_weakens:
  assumes w: "weakens (aw_dead w) (aw_mem w) am'" and "rows_ok w"
  shows "rows_ok (w\<lparr>aw_mem := am'\<rparr>)"
proof -
  have al: "alive (w\<lparr>aw_mem := am'\<rparr>) r = alive w r" for r by (simp add: alive_def weakensD(4) [OF w])
  have "am_active am' ! r = am_active (aw_mem w) ! r \<and> am_pins am' ! r = am_pins (aw_mem w) ! r" if "alive w r" for r
    using weakensD(6) [OF w] that by (simp add: alive_def)
  then show ?thesis
    using assms(2) entry_ok_weakens [OF w] weakensD(3) [OF w] unfolding rows_ok_def al by simp
qed

lemma world_weakens:
  assumes "weakens (aw_dead w) (aw_mem w) am'" "world_ok w"
  shows "world_ok (w\<lparr>aw_mem := am'\<rparr>)"
  using assms(2) weakens_ok [OF _ assms(1)] logged_weakens [OF assms(1)] rows_ok_weakens [OF assms(1)] by (simp add: world_ok_def)

lemma fresh_world_ok:
  assumes "is_power_of_two n" "n \<le> 2 ^ 63" "ring \<noteq> []"
  shows "world_ok (fresh_world n readers ring)"
proof -
  have "\<not> held (arena_create n readers ring) i" if "i < n" for i
    using that by (auto simp: held_def slot_pinned_iff slot_in_use_def arena_create_def blank_slot_def)
  moreover have "\<not> arena_holds (arena_slot_at (arena_create n readers ring) i) k" if "i < n" for i k
    using that by (simp add: arena_create_def arena_holds_def blank_slot_def)
  ultimately show ?thesis
    using arena_create_ok [OF assms]
    by (auto simp: world_ok_def fresh_world_def rows_ok_def alive_def logged_def) (simp_all add: arena_create_def)
qed

section \<open>Every step keeps the invariant\<close>

lemma publish_world:
  assumes ok: "world_ok w" and res: "reserved (aw_mem w) key r offset i"
    and pub: "publish_record (aw_mem w) key r offset i = (am', Inr a)"
  shows "world_ok (w\<lparr>aw_mem := am', aw_log := (aw_log w)(ad_generation a \<mapsto> (key, r))\<rparr>)"
proof -
  let ?am = "aw_mem w"
  let ?g = "am_record_generation ?am + 1" and ?n = "length (am_slots ?am)"
  have am': "am' = ?am\<lparr>am_record_generation := ?g, am_ring := ring_written (am_ring ?am) offset r,
      am_slots := (am_slots ?am)[i := record_slot key r offset ?g]\<rparr>" and a: "ad_generation a = ?g"
    using pub by (auto simp: publish_record_eq split: if_splits)
  have aok: "arena_ok ?am" and rok: "rows_ok w" and lok: "logged ?am (aw_log w)" using ok by (simp_all add: world_ok_def)
  have i: "i < ?n" "\<not> held ?am i" using res by (simp_all add: reserved_def)
  let ?lg = "(aw_log w)(?g \<mapsto> (key, r))"
  have other: "arena_slot_at am' j = arena_slot_at ?am j" if "j \<noteq> i" for j using that by (simp add: am')
  have here: "arena_slot_at am' i = record_slot key r offset ?g" using i by (simp add: am')
  have small: "g \<le> am_record_generation ?am" if "aw_log w g \<noteq> None" for g using lok that unfolding logged_def by blast
  have "logged am' ?lg"
    unfolding logged_def
  proof (intro conjI allI impI)
    fix j assume j: "j < length (am_slots am')" "held am' j"
    show "\<exists>key' r'. ?lg (sl_generation (arena_slot_at am' j)) = Some (key', r') \<and> stored am' (arena_slot_at am' j) key' r'"
    proof (cases "j = i")
      case True
      then show ?thesis using stored_publish(1) [OF aok res pub] here record_slot_facts(2) by auto
    next
      case False
      have h: "held ?am j" using j(2) other [OF False] by (simp add: held_def slot_pinned_def am')
      have jn: "j < ?n" using j(1) by (simp add: am')
      obtain key' r' where k: "aw_log w (sl_generation (arena_slot_at ?am j)) = Some (key', r')" "stored ?am (arena_slot_at ?am j) key' r'"
        using lok h jn unfolding logged_def by blast
      then have "sl_generation (arena_slot_at ?am j) \<noteq> ?g" using small [of "sl_generation (arena_slot_at ?am j)"] by auto
      then show ?thesis using k stored_publish(2) [OF aok res pub jn False h k(2)] other [OF False] by auto
    qed
  next
    fix g assume "?lg g \<noteq> None"
    then show "g \<le> am_record_generation am'" using small [of g] by (auto simp: am' split: if_splits)
  next
    fix j k g rr assume j: "j < length (am_slots am')" "arena_holds (arena_slot_at am' j) k" "?lg g = Some (Some k, rr)"
    show "g \<le> sl_generation (arena_slot_at am' j)"
    proof (cases "j = i")
      case True
      then show ?thesis using here record_slot_facts(2) j(3) small [of g] by (auto split: if_splits)
    next
      case False
      have jn: "j < ?n" using j(1) by (simp add: am')
      have h: "arena_holds (arena_slot_at ?am j) k" using j(2) other [OF False] by simp
      then have "key \<noteq> Some k" using res jn by (auto simp: reserved_def)
      then have "aw_log w g = Some (Some k, rr)" using j(3) by (auto split: if_splits)
      then show ?thesis using lok jn h other [OF False] unfolding logged_def by metis
    qed
  next
    fix g k rr assume "?lg g = Some (Some k, rr)"
    then show "k < 2 ^ 128" using logged_key [OF lok, of g k rr] res by (auto simp: reserved_def split: if_splits)
  qed
  moreover have "rows_ok (w\<lparr>aw_mem := am', aw_log := ?lg\<rparr>)"
  proof -
    have al: "alive (w\<lparr>aw_mem := am', aw_log := ?lg\<rparr>) rr = alive w rr" for rr by (simp add: alive_def am')
    have "entry_ok am' e" if e: "e \<in> set (aw_entries w)" for e
    proof -
      have "en_slot e \<noteq> i" using entry_slot_pinned [OF rok e] i(2) by (auto simp: held_def)
      then have "arena_slot_at am' (en_slot e) = arena_slot_at ?am (en_slot e)" by (rule other)
      moreover have "length (am_slots am') = ?n" by (simp add: am')
      ultimately show ?thesis using rows_okD(4) [OF rok e] unfolding entry_ok_def entry_pinned_def by metis
    qed
    then show ?thesis using rok unfolding rows_ok_def al by (simp add: am')
  qed
  ultimately show ?thesis using publish_ok [OF aok res pub] a by (simp add: world_ok_def)
qed

lemma pin_entry_cases:
  assumes ok: "arena_ok am" and me: "me < length (am_active am)" and pe: "pin_entry env me am index g key = (am', found)"
  obtains (missed) "am' = am" "found = None"
  | (pinned) e where "index < length (am_slots am)" "found = Some e" "am' = set_pin am me index (am_pins am ! me ! index + 1)"
      "e = entry_pinned am me index g" "sl_generation (arena_slot_at am index) = g" "slot_in_use (arena_slot_at am index)"
      "\<forall>k. key = Some k \<longrightarrow> sl_state (arena_slot_at am index) = SLOT_LIVE \<and> slot_holds (arena_slot_at am index) k"
      "key = None \<longrightarrow> sl_state (arena_slot_at am index) = SLOT_ADDRESSED"
proof (cases "ae_forked env \<or> index \<ge> length (am_slots am) \<or> am_pins am ! me ! index + 1 > u32_max")
  case True
  then have "am' = am" "found = None"
    using pe by (cases "ae_forked env \<or> index \<ge> length (am_slots am)"; auto simp: pin_entry_def checked_add_def)+
  then show ?thesis by (rule missed)
next
  case False
  let ?n = "am_pins am ! me ! index + 1"
  let ?s = "arena_slot_at am index"
  let ?hit = "sl_generation ?s = g \<and> (case key of Some k \<Rightarrow> sl_state ?s = SLOT_LIVE \<and> slot_holds ?s k | None \<Rightarrow> sl_state ?s = SLOT_ADDRESSED)"
  have row: "index < length (am_pins am ! me)" "me < length (am_pins am)" using False arena_okD(3,4) [OF ok] me by auto
  have undo: "set_pin (set_pin am me index ?n) me index (am_pins (set_pin am me index ?n) ! me ! index - 1) = am"
    using row by (simp add: set_pin_def)
  have sl: "am_slots (set_pin am me index n) = am_slots am" for n by (simp add: set_pin_def)
  have ent: "entry_pinned (set_pin am me index n) me index g = entry_pinned am me index g" for n by (simp add: entry_pinned_def sl)
  have ca: "checked_add u32_max (am_pins am ! me ! index) 1 = Some ?n" using False by (simp add: checked_add_def)
  have eq: "pin_entry env me am index g key = (if ?hit then (set_pin am me index ?n, Some (entry_pinned am me index g)) else (am, None))"
    unfolding pin_entry_def ca using False by (simp only: Let_def sl ent undo option.case if_False not_le de_Morgan_disj) simp
  show ?thesis
  proof (cases ?hit)
    case True
    then have "am' = set_pin am me index ?n" "found = Some (entry_pinned am me index g)" using pe eq by simp_all
    then show ?thesis using pinned True False by (auto simp: slot_in_use_def split: option.splits)
  next
    case miss: False
    then have "am' = am" "found = None" using pe unfolding eq by (auto split: if_splits)
    then show ?thesis by (rule missed)
  qed
qed

lemma arena_get_cases:
  assumes "arena_get env me am key = (am', found)"
  obtains (missed) "am' = am" "found = None"
  | (tried) i where "find_locked am key = Some i" "pin_entry env me am i (sl_generation (arena_slot_at am i)) (Some key) = (am', found)"
proof (cases "find_locked am key")
  case None
  then have "am' = am" "found = None" using assms by (simp_all add: arena_get_def split: if_splits)
  then show ?thesis by (rule missed)
next
  case (Some i)
  show ?thesis
  proof (cases "ae_forked env")
    case True
    then have "am' = am" "found = None" using assms by (simp_all add: arena_get_def)
    then show ?thesis by (rule missed)
  next
    case False
    then show ?thesis using tried [OF Some] assms Some by (simp add: arena_get_def)
  qed
qed

lemma publish_generation:
  "publish_record am key r offset i = (am', Inr a) \<Longrightarrow>
    ad_generation a = am_record_generation am + 1 \<and> am_record_generation am' = am_record_generation am + 1 \<and> ad_slot a = i"
  by (auto simp: publish_record_eq split: if_splits)

lemma set_pin_simps [simp]:
  "am_slots (set_pin am r i n) = am_slots am" "am_active (set_pin am r i n) = am_active am" "am_ring (set_pin am r i n) = am_ring am"
  "am_record_generation (set_pin am r i n) = am_record_generation am" "length (am_pins (set_pin am r i n)) = length (am_pins am)"
  by (simp_all add: set_pin_def)

lemma stored_ring: "am_ring am' = am_ring am \<Longrightarrow> stored am' = stored am"
  by (intro ext) (simp only: stored_def arena_bytes_def)

lemma set_pin_at:
  "r < length (am_pins am) \<Longrightarrow> i < length (am_pins am ! r) \<Longrightarrow>
    am_pins (set_pin am r i n) ! r' ! j = (if r' = r \<and> j = i then n else am_pins am ! r' ! j)"
  by (cases "r' = r") (auto simp: set_pin_def nth_list_update)

lemma set_pin_rows: "r' < length (am_pins am) \<Longrightarrow> length (am_pins (set_pin am r i n) ! r') = length (am_pins am ! r')"
  by (cases "r' = r") (simp_all add: set_pin_def)

text \<open>Pins may change on slots that are in use, or drop on any slot.\<close>

lemma set_pin_ok:
  assumes ok: "arena_ok am" and r: "r < length (am_active am)" "i < length (am_slots am)"
    and n: "slot_in_use (arena_slot_at am i) \<or> n \<le> am_pins am ! r ! i"
  shows "arena_ok (set_pin am r i n)" "held (set_pin am r i n) j \<Longrightarrow> held am j" "logged am lg \<Longrightarrow> logged (set_pin am r i n) lg"
proof -
  let ?am = "set_pin am r i n"
  have rows: "r < length (am_pins am)" "i < length (am_pins am ! r)" using arena_okD(3,4) [OF ok] r by simp_all
  have held: "held am j" if "held ?am j" for j
    using that n set_pin_at [OF rows, of n] unfolding held_def slot_pinned_iff by (fastforce split: if_splits)
  then show "held ?am j \<Longrightarrow> held am j" .
  have "slot_pinned ?am j \<Longrightarrow> slot_pinned am j \<or> j = i \<and> slot_in_use (arena_slot_at am i)" for j
    using n set_pin_at [OF rows, of n] unfolding slot_pinned_iff by (fastforce split: if_splits)
  then have "slot_pinned ?am j \<Longrightarrow> j < length (am_slots am) \<Longrightarrow> sl_state (arena_slot_at am j) \<noteq> SLOT_EMPTY" for j
    using arena_okD(6) [OF ok] by (fastforce simp: slot_in_use_def)
  then show "arena_ok ?am"
    using arena_okD [OF ok] held set_pin_rows [of _ am r i n] unfolding arena_ok_def by (simp add: arena_slot_ok_def)
  show "logged ?am lg" if "logged am lg"
    using that held unfolding logged_def stored_ring [OF set_pin_simps(3)] set_pin_simps by blast
qed

lemma entry_ok_slots: "am_slots am' = am_slots am \<Longrightarrow> entry_ok am' e = entry_ok am e"
  by (simp add: entry_ok_def entry_pinned_def)

lemma pin_world:
  assumes ok: "world_ok w" and me: "alive w me" and pe: "pin_entry env me (aw_mem w) index g key = (am', found)"
  shows "world_ok (w\<lparr>aw_mem := am', aw_entries := (case found of Some e \<Rightarrow> e # aw_entries w | None \<Rightarrow> aw_entries w)\<rparr>)"
proof -
  let ?am = "aw_mem w"
  have aok: "arena_ok ?am" and rok: "rows_ok w" and lok: "logged ?am (aw_log w)" using ok by (simp_all add: world_ok_def)
  have lt: "me < length (am_active ?am)" using me by (simp add: alive_def)
  show ?thesis
    using aok lt pe
  proof (cases rule: pin_entry_cases)
    case missed
    then show ?thesis using ok by simp
  next
    case (pinned e)
    have rows: "me < length (am_pins ?am)" "index < length (am_pins ?am ! me)" using arena_okD(3,4) [OF aok] lt pinned(1) by simp_all
    let ?w = "w\<lparr>aw_mem := am', aw_entries := e # aw_entries w\<rparr>"
    have al: "alive ?w r = alive w r" for r by (simp add: alive_def pinned(3))
    have e: "en_reader e = me" "en_slot e = index" "en_generation e = g" by (simp_all add: pinned(4) entry_pinned_def Let_def)
    have "entry_ok am' e"
      using pinned(1,3,4,5) e entry_ok_slots [of am' ?am e] by (simp add: entry_ok_def)
    moreover have "am_pins am' ! r ! i = pin_count (e # aw_entries w) r i" if "alive w r" "i < length (am_slots ?am)" for r i
      using rows_okD(2) [OF rok that] set_pin_at [OF rows] e by (auto simp: pinned(3) pin_count_def)
    moreover have "entry_ok am' e'" if "e' \<in> set (aw_entries w)" for e'
      using rows_okD(4) [OF rok that] entry_ok_slots [of am' ?am e'] pinned(3) by simp
    ultimately have "rows_ok ?w"
      using rok me e(1) unfolding rows_ok_def al by (simp add: pinned(3))
    then show ?thesis
      using set_pin_ok(1,3) [OF aok lt pinned(1)] pinned(2,3,6) lok by (simp add: world_ok_def)
  qed
qed

lemma drop_world:
  assumes ok: "world_ok w" and e: "e \<in> set (aw_entries w)" and env: "\<not> ae_forked env"
  shows "world_ok (w\<lparr>aw_mem := entry_drop env (aw_mem w) e, aw_entries := remove1 e (aw_entries w)\<rparr>)"
proof -
  let ?am = "aw_mem w" and ?r = "en_reader e" and ?i = "en_slot e"
  let ?am' = "set_pin ?am ?r ?i (am_pins ?am ! ?r ! ?i - 1)"
  let ?w = "w\<lparr>aw_mem := ?am', aw_entries := remove1 e (aw_entries w)\<rparr>"
  have aok: "arena_ok ?am" and rok: "rows_ok w" and lok: "logged ?am (aw_log w)" using ok by (simp_all add: world_ok_def)
  have r: "alive w ?r" "?r < length (am_active ?am)" using rows_okD(3) [OF rok e] by (simp_all add: alive_def)
  have i: "?i < length (am_slots ?am)" using rows_okD(4) [OF rok e] by (simp add: entry_ok_def)
  have rows: "?r < length (am_pins ?am)" "?i < length (am_pins ?am ! ?r)" using arena_okD(3,4) [OF aok] r i by simp_all
  have al: "alive ?w rr = alive w rr" for rr by (simp add: alive_def)
  have "length (filter P (remove1 e xs)) = (if P e then length (filter P xs) - 1 else length (filter P xs))" if "e \<in> set xs" for P xs
    using that by (simp add: filter_remove1 length_remove1)
  then have "am_pins ?am' ! rr ! j = pin_count (remove1 e (aw_entries w)) rr j" if "alive w rr" "j < length (am_slots ?am)" for rr j
    using rows_okD(2) [OF rok that] set_pin_at [OF rows] e by (auto simp: pin_count_def)
  moreover have "alive w (en_reader e') \<and> entry_ok ?am' e'" if "e' \<in> set (remove1 e (aw_entries w))" for e'
    using rows_okD(3,4) [OF rok] entry_ok_slots [of ?am' ?am e'] notin_set_remove1 [of e' "aw_entries w" e] that by auto
  ultimately have "rows_ok ?w" using rok unfolding rows_ok_def al by simp
  then show ?thesis
    using set_pin_ok(1,3) [OF aok r(2) i] lok env by (simp add: world_ok_def entry_drop_def)
qed

text \<open>A row without pins may become active.\<close>

lemma activate_ok:
  assumes ok: "arena_ok am" and zero: "\<forall>i<length (am_slots am). am_pins am ! r ! i = 0" "r < length (am_active am)"
    and am': "am' = am\<lparr>am_active := (am_active am)[r := 1]\<rparr>"
  shows "arena_ok am'" "logged am lg \<Longrightarrow> logged am' lg"
proof -
  have pin: "slot_pinned am' i \<Longrightarrow> slot_pinned am i" if "i < length (am_slots am)" for i
    using zero that unfolding slot_pinned_iff am' by (auto simp: nth_list_update split: if_splits)
  then have held: "held am' i \<Longrightarrow> held am i" if "i < length (am_slots am)" for i using that by (auto simp: held_def am')
  show "arena_ok am'"
    using arena_okD [OF ok] pin held unfolding arena_ok_def by (simp add: am' arena_slot_ok_def)
  have "am_ring am' = am_ring am" by (simp add: am')
  then show "logged am lg \<Longrightarrow> logged am' lg"
    using held unfolding logged_def stored_ring [OF \<open>am_ring am' = am_ring am\<close>] by (simp add: am')
qed

lemma claim_rows_cases:
  assumes "claim_rows env am rs = (am', Inr (Some r))"
  shows "r \<in> set rs \<and> ae_hold env r = Inr True \<and> am' = (fst (clear_reader am r))\<lparr>am_active := (am_active (fst (clear_reader am r)))[r := 1]\<rparr>"
  using assms by (induction rs) (auto simp: Let_def split: sum.splits bool.splits)

lemma claim_world:
  assumes ok: "world_ok w" and env: "env_ok w env" and cl: "arena_claim env (aw_mem w) = (am', Inr me)" and me: "me < length (am_active (aw_mem w))"
    and own: "ae_shm env \<or> aw_mem w = arena_create (length (am_slots (aw_mem w))) (length (am_active (aw_mem w))) (am_ring (aw_mem w)) \<and> aw_dead w 0"
  shows "world_ok (w\<lparr>aw_mem := am', aw_dead := (aw_dead w)(me := False)\<rparr>)"
proof -
  let ?am = "aw_mem w"
  have "\<exists>am1. weakens (aw_dead w) ?am am1 \<and> aw_dead w me \<and> (\<forall>i<length (am_slots ?am). am_pins am1 ! me ! i = 0) \<and>
      am' = am1\<lparr>am_active := (am_active am1)[me := 1]\<rparr>"
  proof (cases "ae_shm env")
    case True
    then obtain am'' where am'': "claim_rows env ?am [0..<length (am_active ?am)] = (am'', Inr (Some me))"
        "am' = am''\<lparr>am_active := (am_active am'')[me := 1]\<rparr>"
      using cl by (auto simp: arena_claim_def split: sum.splits prod.splits option.splits)
    let ?c = "fst (clear_reader ?am me)"
    have "aw_dead w me" and eq: "am'' = ?c\<lparr>am_active := (am_active ?c)[me := 1]\<rparr>"
      using claim_rows_cases [OF am''(1)] env by (auto simp: holds_only_def)
    moreover have "weakens (aw_dead w) ?am ?c" using clear_weakens [of ?am] ok \<open>aw_dead w me\<close> by (simp add: world_ok_def)
    moreover have "am_pins ?c ! me ! i = 0" if "i < length (am_slots ?am)" for i
      using that me ok arena_okD(3) [of ?am] by (simp add: clear_reader_def world_ok_def)
    moreover have "am' = ?c\<lparr>am_active := (am_active ?c)[me := 1]\<rparr>" unfolding am''(2) eq by simp
    ultimately show ?thesis by blast
  next
    case False
    then have "am' = ?am\<lparr>am_active := (am_active ?am)[0 := 1]\<rparr>" "me = 0" "aw_dead w 0" using cl own by (auto simp: arena_claim_def)
    moreover have "am_pins ?am ! 0 ! i = 0" if "i < length (am_slots ?am)" for i
    proof -
      have "?am = arena_create (length (am_slots ?am)) (length (am_active ?am)) (am_ring ?am)" using own False by blast
      then have "am_pins ?am = replicate (length (am_active ?am)) (replicate (length (am_slots ?am)) 0)"
        by (metis (no_types) arena_create_def arena_mem.select_convs(6))
      then show ?thesis using that me \<open>me = 0\<close> by simp
    qed
    ultimately show ?thesis using weakens_refl by blast
  qed
  then obtain am1 where am1: "weakens (aw_dead w) ?am am1" "aw_dead w me" "\<forall>i<length (am_slots ?am). am_pins am1 ! me ! i = 0"
      "am' = am1\<lparr>am_active := (am_active am1)[me := 1]\<rparr>" by blast
  have ok1: "world_ok (w\<lparr>aw_mem := am1\<rparr>)" using world_weakens [OF am1(1) ok] .
  then have rok: "rows_ok (w\<lparr>aw_mem := am1\<rparr>)" and aok: "arena_ok am1" and lok: "logged am1 (aw_log w)" by (simp_all add: world_ok_def)
  let ?w = "w\<lparr>aw_mem := am', aw_dead := (aw_dead w)(me := False)\<rparr>"
  have len: "length (am_slots am1) = length (am_slots ?am)" "length (am_active am1) = length (am_active ?am)" using weakensD(3,4) [OF am1(1)] by simp_all
  have al: "alive ?w r \<longleftrightarrow> alive (w\<lparr>aw_mem := am1\<rparr>) r \<or> r = me" for r using me len am1(4) by (auto simp: alive_def)
  have none: "pin_count (aw_entries w) me i = 0" for i
    using rows_okD(3) [OF rok] am1(2) by (auto simp: pin_count_def filter_empty_conv alive_def)
  have "am_active am' ! r \<noteq> 0 \<and> (\<forall>i<length (am_slots am'). am_pins am' ! r ! i = pin_count (aw_entries w) r i)" if "alive ?w r" for r
    using that al rows_okD(1,2) [OF rok, of r] none am1(3,4) len me by (cases "r = me") auto
  moreover have "alive ?w (en_reader e) \<and> entry_ok am' e" if "e \<in> set (aw_entries w)" for e
    using rows_okD(3,4) [OF rok] that al entry_ok_slots [of am' am1 e] am1(4) by auto
  ultimately have "rows_ok ?w" by (simp add: rows_ok_def)
  then show ?thesis
    using activate_ok [OF aok _ _ am1(4)] am1(3) len me lok by (simp add: world_ok_def)
qed

lemma crash_world:
  assumes ok: "world_ok w"
  shows "world_ok (w\<lparr>aw_dead := (aw_dead w)(me := True), aw_entries := filter (\<lambda>e. en_reader e \<noteq> me) (aw_entries w)\<rparr>)"
proof -
  let ?w = "w\<lparr>aw_dead := (aw_dead w)(me := True), aw_entries := filter (\<lambda>e. en_reader e \<noteq> me) (aw_entries w)\<rparr>"
  have rok: "rows_ok w" using ok by (simp add: world_ok_def)
  have al: "alive ?w r \<longleftrightarrow> alive w r \<and> r \<noteq> me" for r by (auto simp: alive_def)
  have "pin_count (filter (\<lambda>e. en_reader e \<noteq> me) (aw_entries w)) r i = pin_count (aw_entries w) r i" if "r \<noteq> me" for r i
    using that by (auto simp: pin_count_def intro!: arg_cong [of _ _ length] filter_cong)
  then have "rows_ok ?w" using rok al unfolding rows_ok_def by simp
  then show ?thesis using ok by (simp add: world_ok_def)
qed

lemma leave_world:
  assumes ok: "world_ok w" and none: "\<forall>e\<in>set (aw_entries w). en_reader e \<noteq> me"
  shows "world_ok (w\<lparr>aw_mem := inner_drop env (aw_mem w) me, aw_dead := (aw_dead w)(me := True)\<rparr>)"
proof -
  have "filter (\<lambda>e. en_reader e \<noteq> me) (aw_entries w) = aw_entries w" using none by (simp add: filter_id_conv)
  then have ok': "world_ok (w\<lparr>aw_dead := (aw_dead w)(me := True)\<rparr>)" using crash_world [OF ok, of me] by simp
  have "weakens ((aw_dead w)(me := True)) (aw_mem w) (inner_drop env (aw_mem w) me)"
    by (auto simp: weakens_def inner_drop_def retired_from_def nth_list_update)
  then have "world_ok (w\<lparr>aw_dead := (aw_dead w)(me := True), aw_mem := inner_drop env (aw_mem w) me\<rparr>)"
    using world_weakens [of "w\<lparr>aw_dead := (aw_dead w)(me := True)\<rparr>"] ok' by simp
  then show ?thesis by (cases w) simp
qed

lemma reset_weakens: "arena_reset env am = (am', res) \<Longrightarrow> weakens dead am am'"
  using evict_retired by (auto simp: arena_reset_def weakens_def retired_from_def [of x x for x] split: sum.splits)

lemma step_keeps_world:
  assumes "arena_step w w'" "world_ok w"
  shows "world_ok w'"
  using assms
proof cases
  case (write_step me env key r am' res)
  then have aok: "arena_ok (aw_mem w)" using assms(2) by (simp add: world_ok_def)
  from write_record_spec [OF aok write_step(3,4,5)] show ?thesis
  proof
    assume "weakens (aw_dead w) (aw_mem w) am' \<and> (\<exists>e. res = Inl e)"
    then show ?thesis using world_weakens [OF _ assms(2), of am'] write_step(1) by auto
  next
    assume "\<exists>am1 offset a. res = Inr a \<and> weakens (aw_dead w) (aw_mem w) am1 \<and> reserved am1 key r offset (ad_slot a) \<and>
       publish_record am1 key r offset (ad_slot a) = (am', Inr a)"
    then obtain am1 offset a where "res = Inr a" "weakens (aw_dead w) (aw_mem w) am1"
      "reserved am1 key r offset (ad_slot a)" "publish_record am1 key r offset (ad_slot a) = (am', Inr a)" by blast
    then show ?thesis using publish_world [OF world_weakens [OF _ assms(2)], of am1 key r offset "ad_slot a" am' a] write_step(1) by simp
  qed
next
  case (get me env key am' found)
  from get(3) show ?thesis
  proof (cases rule: arena_get_cases)
    case missed
    then show ?thesis using assms(2) get(1) by simp
  next
    case (tried i)
    then show ?thesis using pin_world [OF assms(2) get(2) tried(2)] get(1) by simp
  qed
next
  case (get_address me env a am' found)
  then show ?thesis using pin_world [OF assms(2) get_address(2)] by (simp add: get_address_def)
next
  case (drop_entry e env)
  then show ?thesis using drop_world [OF assms(2)] by simp
next
  case (forget env key am' res)
  then have "weakens (aw_dead w) (aw_mem w) am'"
    using evict_weakens weakens_refl by (auto simp: arena_forget_def split: sum.splits option.splits)
  then show ?thesis using world_weakens [OF _ assms(2)] forget(1) by simp
next
  case (forget_at env a am' res)
  then have "weakens (aw_dead w) (aw_mem w) am'"
    using evict_weakens weakens_refl by (auto simp: forget_address_def split: sum.splits if_splits)
  then show ?thesis using world_weakens [OF _ assms(2)] forget_at(1) by simp
next
  case (reset env am' res)
  then show ?thesis using world_weakens [OF reset_weakens assms(2)] by simp
next
  case (reclaim me env am' res)
  then have "weakens (aw_dead w) (aw_mem w) am'"
    using reclaim_weakens [of "aw_mem w" env "aw_dead w"] weakens_refl assms(2)
    by (auto simp: reclaim_dead_pins_def holds_only_def world_ok_def split: sum.splits)
  then show ?thesis using world_weakens [OF _ assms(2)] reclaim(1) by simp
next
  case (crash me)
  then show ?thesis using crash_world [OF assms(2)] by simp
next
  case (claim env am' me)
  then show ?thesis using claim_world [OF assms(2)] by simp
next
  case (leave me env)
  then show ?thesis using leave_world [OF assms(2)] by simp
qed

lemma steps_keep_world: "arena_steps w w' \<Longrightarrow> world_ok w \<Longrightarrow> world_ok w'"
  by (induction rule: arena_steps.induct) (auto intro: step_keeps_world)

section \<open>Generations are written once\<close>

lemma weakens_generation: "weakens dead am am' \<Longrightarrow> am_record_generation am' = am_record_generation am"
  by (rule weakensD(2))

lemma write_log_fresh:
  assumes "arena_ok am" "holds_only dead env" "\<forall>k. key = Some k \<longrightarrow> k < 2 ^ 128" "write_record env me am key r = (am', Inr a)"
  shows "ad_generation a = am_record_generation am + 1" "am_record_generation am' = am_record_generation am + 1"
  using write_record_spec [OF assms] weakensD(2) by (auto dest!: publish_generation)

lemma step_log:
  assumes "arena_step w w'" "world_ok w" "aw_log w g = Some x"
  shows "aw_log w' g = Some x"
  using assms(1)
proof cases
  case (write_step me env key r am' res)
  have "g \<le> am_record_generation (aw_mem w)" "arena_ok (aw_mem w)" using assms(2,3) by (auto simp: world_ok_def logged_def)
  then show ?thesis
    using write_step write_log_fresh [of "aw_mem w" "aw_dead w" env key me r am'] assms(3) by (cases res) auto
qed (use assms(3) in simp_all)

lemma steps_log: "arena_steps w w' \<Longrightarrow> world_ok w \<Longrightarrow> aw_log w g = Some x \<Longrightarrow> aw_log w' g = Some x"
proof (induction rule: arena_steps.induct)
  case (step w w' w'')
  then show ?case using step_log steps_keep_world by blast
qed

definition encoded_of :: "arena_record \<Rightarrow> (bytes \<times> nat) option" where
  "encoded_of r = (case re_encoded r of Some (bs, tag) \<Rightarrow> if bs = [] then None else Some (bs, tag) | None \<Rightarrow> None)"

definition reads :: "arena_mem \<Rightarrow> arena_entry \<Rightarrow> arena_record \<Rightarrow> bool" where
  "reads am e r \<longleftrightarrow> entry_body am e = re_body r \<and> entry_encoded am e = encoded_of r \<and> en_stamp e = re_stamp r \<and> en_extra e = re_extra r"

lemma stored_reads:
  assumes "stored am (arena_slot_at am i) key r"
  shows "reads am (entry_pinned am me i g) r"
proof -
  let ?s = "arena_slot_at am i"
  have "entry_encoded am (entry_pinned am me i g) = encoded_of r"
  proof (cases "re_encoded r")
    case None
    then show ?thesis using assms by (simp add: stored_def entry_encoded_def entry_pinned_def Let_def encoded_of_def)
  next
    case (Some p)
    then obtain bs tag where "re_encoded r = Some (bs, tag)" by (cases p) auto
    then show ?thesis using assms by (auto simp: stored_def entry_encoded_def entry_pinned_def Let_def encoded_of_def)
  qed
  moreover have "entry_body am (entry_pinned am me i g) = re_body r" "en_stamp (entry_pinned am me i g) = re_stamp r"
    "en_extra (entry_pinned am me i g) = re_extra r"
    using assms by (auto simp: stored_def entry_body_def entry_pinned_def Let_def)
  ultimately show ?thesis by (simp add: reads_def)
qed

lemma entry_reads:
  assumes ok: "world_ok w" and e: "e \<in> set (aw_entries w)"
  shows "\<exists>key r. aw_log w (en_generation e) = Some (key, r) \<and> reads (aw_mem w) e r"
proof -
  have rok: "rows_ok w" and lok: "logged (aw_mem w) (aw_log w)" using ok by (simp_all add: world_ok_def)
  have eo: "entry_ok (aw_mem w) e" using rows_okD(4) [OF rok e] .
  have "held (aw_mem w) (en_slot e)" using entry_slot_pinned [OF rok e] by (simp add: held_def)
  then obtain key r where "aw_log w (en_generation e) = Some (key, r)" "stored (aw_mem w) (arena_slot_at (aw_mem w) (en_slot e)) key r"
    using lok eo unfolding logged_def entry_ok_def by metis
  then show ?thesis using stored_reads eo unfolding entry_ok_def by metis
qed

section \<open>Properties\<close>

text \<open>A small arena: one process opens it, files a record, reads it and files a second one.\<close>

definition demo_env :: arena_env where
  "demo_env = \<lparr>ae_forked = False, ae_lock = Inr (), ae_shm = False, ae_hold = (\<lambda>_. Inr False)\<rparr>"

definition demo_mem :: "nat \<Rightarrow> arena_mem" where
  "demo_mem n =
     (let m0 = arena_create 2 1 (replicate 16 0);
          m1 = fst (arena_claim demo_env m0);
          m2 = fst (write_record demo_env 0 m1 (Some 5) (record_body [7]));
          m3 = fst (arena_get demo_env 0 m2 5)
      in if n = 0 then m0 else if n = 1 then m1 else if n = 2 then m2 else if n = 3 then m3
         else fst (write_record demo_env 0 m3 (Some 5) (record_body [9])))"

definition demo_entry :: arena_entry where
  "demo_entry = the (snd (arena_get demo_env 0 (demo_mem 2) 5))"

definition demo_world :: arena_world where
  "demo_world = \<lparr>aw_mem = demo_mem 3, aw_entries = [demo_entry], aw_dead = (\<lambda>_. True)(0 := False), aw_log = [1 \<mapsto> (Some 5, record_body [7])]\<rparr>"

lemma demo_power: "is_power_of_two 2"
  by (simp add: is_power_of_two_def exI [of _ 1])

lemma demo_runs:
  "arena_claim demo_env (demo_mem 0) = (demo_mem 1, Inr 0)"
  "write_record demo_env 0 (demo_mem 1) (Some 5) (record_body [7]) = (demo_mem 2, Inr \<lparr>ad_slot = 1, ad_generation = 1\<rparr>)"
  "arena_get demo_env 0 (demo_mem 2) 5 = (demo_mem 3, Some demo_entry)"
  "write_record demo_env 0 (demo_mem 3) (Some 5) (record_body [9]) = (demo_mem 4, Inr \<lparr>ad_slot = 0, ad_generation = 2\<rparr>)"
  by code_simp+

lemma demo_steps: "arena_steps (fresh_world 2 1 (replicate 16 0)) demo_world"
    "arena_steps demo_world (demo_world\<lparr>aw_mem := demo_mem 4, aw_log := (aw_log demo_world)(2 \<mapsto> (Some 5, record_body [9]))\<rparr>)"
  and demo_alive: "alive demo_world 0"
proof -
  have len: "length (am_active (demo_mem 0)) = 1" "length (am_active (demo_mem 1)) = 1" "length (am_active (demo_mem 2)) = 1"
    "length (am_active (demo_mem 3)) = 1" by code_simp+
  have nonempty: "am_active (demo_mem 1) \<noteq> []" using len(2) by auto
  have m0: "demo_mem 0 = arena_create 2 1 (replicate 16 0)" by (simp add: demo_mem_def Let_def)
  have hold: "holds_only d demo_env" for d by (simp add: holds_only_def demo_env_def)
  let ?w0 = "fresh_world 2 1 (replicate 16 0)"
  let ?w1 = "?w0\<lparr>aw_mem := demo_mem 1, aw_dead := (\<lambda>_. True)(0 := False)\<rparr>"
  let ?w2 = "?w1\<lparr>aw_mem := demo_mem 2, aw_log := [1 \<mapsto> (Some 5, record_body [7])]\<rparr>"
  have "arena_step ?w0 ?w1"
    using arena_step.claim [of ?w0 demo_env "demo_mem 1" 0] demo_runs(1) m0 len(1) hold
    by (simp add: fresh_world_def) (simp add: arena_create_def)
  moreover have "arena_step ?w1 ?w2"
    using arena_step.write_step [of ?w1 0 demo_env "Some 5" "record_body [7]" "demo_mem 2" "Inr \<lparr>ad_slot = 1, ad_generation = 1\<rparr>", OF _ hold]
      demo_runs(2) nonempty by (simp add: fresh_world_def alive_def)
  moreover have "arena_step ?w2 demo_world"
    using arena_step.get [of ?w2 0 demo_env 5 "demo_mem 3" "Some demo_entry"] demo_runs(3) len(3)
    by (simp add: fresh_world_def alive_def demo_world_def)
  ultimately show "arena_steps ?w0 demo_world" by (meson arena_steps.intros)
  show "alive demo_world 0" using len(4) by (simp add: alive_def demo_world_def)
  then have "arena_step demo_world (demo_world\<lparr>aw_mem := demo_mem 4, aw_log := (aw_log demo_world)(2 \<mapsto> (Some 5, record_body [9]))\<rparr>)"
    using arena_step.write_step [of demo_world 0 demo_env "Some 5" "record_body [9]"] demo_runs(4) hold by (simp add: demo_world_def)
  then show "arena_steps demo_world (demo_world\<lparr>aw_mem := demo_mem 4, aw_log := (aw_log demo_world)(2 \<mapsto> (Some 5, record_body [9]))\<rparr>)"
    by (meson arena_steps.intros)
qed

text \<open>
  C23: A pinned entry is never torn and never changes. In every run of processes that write, replace,
  forget, reset, reclaim dead pins, crash and come back, an entry that is held reads exactly the record
  written under its generation, and still does in every later state in which it is held, although the
  ring has moved on and its slot may be retired.
\<close>

theorem arena_entries_immutable:
  assumes "is_power_of_two slots" "slots \<le> 2 ^ 63" "ring \<noteq> []" "arena_steps (fresh_world slots readers ring) w" "arena_steps w w'"
    and "e \<in> set (aw_entries w)" "e \<in> set (aw_entries w')"
  shows "\<exists>key r. aw_log w (en_generation e) = Some (key, r) \<and> reads (aw_mem w) e r \<and> reads (aw_mem w') e r"
proof -
  have ok: "world_ok w" "world_ok w'" using steps_keep_world fresh_world_ok [OF assms(1-3)] assms(4,5) by blast+
  obtain key r where 1: "aw_log w (en_generation e) = Some (key, r)" "reads (aw_mem w) e r"
    using entry_reads [OF ok(1) assms(6)] by blast
  obtain key' r' where 2: "aw_log w' (en_generation e) = Some (key', r')" "reads (aw_mem w') e r'"
    using entry_reads [OF ok(2) assms(7)] by blast
  have "r' = r" using steps_log [OF assms(5) ok(1) 1(1)] 2(1) by simp
  then show ?thesis using 1 2(2) by blast
qed

theorem arena_entries_immutable_witness:
  "\<exists>key r. aw_log demo_world (en_generation demo_entry) = Some (key, r) \<and> reads (aw_mem demo_world) demo_entry r \<and> reads (demo_mem 4) demo_entry r"
  using arena_entries_immutable [OF demo_power _ _ demo_steps, of demo_entry] by (simp add: demo_world_def)

text \<open>
  C25: A lookup by key returns the newest record of the key. In every reachable state, what \<open>get\<close> finds was
  written under that key, reads as it was written, and no later write of the key succeeded.
\<close>

theorem arena_get_newest:
  assumes "is_power_of_two slots" "slots \<le> 2 ^ 63" "ring \<noteq> []" "arena_steps (fresh_world slots readers ring) w" "alive w me" "key < 2 ^ 128"
    and "arena_get env me (aw_mem w) key = (am', Some e)"
  shows "\<exists>r. aw_log w (en_generation e) = Some (Some key, r) \<and> reads am' e r \<and>
    (\<forall>g r'. aw_log w g = Some (Some key, r') \<longrightarrow> g \<le> en_generation e)"
proof -
  let ?am = "aw_mem w"
  have ok: "world_ok w" using steps_keep_world fresh_world_ok [OF assms(1-3)] assms(4) by blast
  then have aok: "arena_ok ?am" and lok: "logged ?am (aw_log w)" by (simp_all add: world_ok_def)
  obtain i where i: "find_locked ?am key = Some i" "pin_entry env me ?am i (sl_generation (arena_slot_at ?am i)) (Some key) = (am', Some e)"
    using assms(7) by (cases rule: arena_get_cases) auto
  have h: "i < length (am_slots ?am)" "arena_holds (arena_slot_at ?am i) key"
    using i(1) find_locked_iff [OF arena_okD(1,8) [OF aok] assms(6)] by simp_all
  have lt: "me < length (am_active ?am)" using assms(5) by (simp add: alive_def)
  have e: "e = entry_pinned ?am me i (sl_generation (arena_slot_at ?am i))" "am_slots am' = am_slots ?am" "am_ring am' = am_ring ?am"
    by (rule pin_entry_cases [OF aok lt i(2)]; simp)+
  have "held ?am i" using h(2) by (simp add: held_def slot_in_use_def arena_holds_def)
  then obtain k r where kr: "aw_log w (sl_generation (arena_slot_at ?am i)) = Some (k, r)" "stored ?am (arena_slot_at ?am i) k r"
    using lok h(1) unfolding logged_def by blast
  have live: "sl_state (arena_slot_at ?am i) = SLOT_LIVE" "slot_holds (arena_slot_at ?am i) key" using h(2) by (simp_all add: arena_holds_def)
  have "k = Some key"
  proof (cases k)
    case None
    then show ?thesis using kr(2) live(1) by (simp add: stored_def slot_in_use_def)
  next
    case (Some k')
    then have "k' < 2 ^ 128" "slot_holds (arena_slot_at ?am i) k'"
      using kr live(1) logged_key [OF lok] by (auto simp: stored_def slot_in_use_def)
    then show ?thesis using live(2) assms(6) key_parts_inj [of k' key] Some by (simp add: slot_holds_def)
  qed
  moreover have "stored am' (arena_slot_at am' i) k r" using kr(2) stored_ring [OF e(3)] e(2) by simp
  then have "reads am' (entry_pinned am' me i (sl_generation (arena_slot_at ?am i))) r" by (rule stored_reads)
  then have "reads am' e r" using e(1,2) by (simp add: entry_pinned_def)
  moreover have "en_generation e = sl_generation (arena_slot_at ?am i)" by (simp add: e(1) entry_pinned_def Let_def)
  moreover have "\<forall>g r'. aw_log w g = Some (Some key, r') \<longrightarrow> g \<le> sl_generation (arena_slot_at ?am i)" using lok h unfolding logged_def by blast
  ultimately show ?thesis using kr(1) by simp
qed

theorem arena_get_newest_witness:
  "\<exists>am' e r. arena_get demo_env 0 (demo_mem 3) 5 = (am', Some e) \<and> aw_log demo_world (en_generation e) = Some (Some 5, r) \<and> reads am' e r"
proof -
  obtain am' e where g: "arena_get demo_env 0 (aw_mem demo_world) 5 = (am', Some e)"
  proof -
    have "snd (arena_get demo_env 0 (demo_mem 3) 5) \<noteq> None" by code_simp
    then show ?thesis using that by (cases "arena_get demo_env 0 (demo_mem 3) 5") (auto simp: demo_world_def)
  qed
  have "(2::nat) \<le> 2 ^ 63" "replicate 16 0 \<noteq> ([] :: bytes)" "(5::nat) < 2 ^ 128" by simp_all
  from arena_get_newest [OF demo_power this(1,2) demo_steps(1) demo_alive this(3) g] show ?thesis
    using g unfolding demo_world_def arena_world.simps by blast
qed

end
