(* ===== verification/Cache_Log.thy ===== *)
theory Cache_Log
  imports Cache_Connection Arena_World
begin

text \<open>
  What the operations of a cache connection do to the log of mutations behind its fleet and to the local
  store of each name: every publication appends one frame that decodes to the mutation, and every
  operation of a connection is a run of operations of the local stores.
\<close>

section \<open>Versions and heads of a fleet\<close>

definition fleet_version :: "fleet \<Rightarrow> orbit_typed \<Rightarrow> nat" where
  "fleet_version fl T = (case fleet_open fl T of Some (_, Inr a) \<Rightarrow> any_current_version a | _ \<Rightarrow> 0)"

lemma fleet_store_open:
  assumes "any_logged ops T a hs" "same_backing (fl_backing fl) a"
  shows "fleet_open (fleet_store fl (ot_kind T) a) T = Some (fleet_store fl (ot_kind T) a, Inr a)"
  using assms by (cases "fl_backing fl"; cases a)
    (auto simp: fleet_store_def fleet_open_def registry_get_or_create_def shm_get_or_create_def)

lemma fleet_store_handle [simp]:
  "fl_node_id (fleet_store fl k a) = fl_node_id fl" "fl_capacity (fleet_store fl k a) = fl_capacity fl"
  by (auto simp: fleet_store_def split: ring_backing.split any_ring.split)

lemma current_version_holds:
  assumes "fleet_holds ops fl T hs"
  shows "fleet_current_ring_version fl T = Some (fl, fleet_version fl T)"
  using fleet_holds_open [OF assms] by (metis (no_types, lifting) fleet_current_ring_version_def fleet_version_def option.simps(5) prod.case sum.case(2))

lemma holds_node:
  assumes "fleet_holds ops fl T hs" "n < fl_capacity fl"
  shows "fleet_holds ops (fl\<lparr>fl_node_id := n\<rparr>) T hs" "fleet_version (fl\<lparr>fl_node_id := n\<rparr>) T = fleet_version fl T"
proof -
  show h: "fleet_holds ops (fl\<lparr>fl_node_id := n\<rparr>) T hs" using assms by (simp add: fleet_holds_def)
  show "fleet_version (fl\<lparr>fl_node_id := n\<rparr>) T = fleet_version fl T"
    by (cases "fl_backing fl") (auto simp: fleet_version_def fleet_open_def split: option.split sum.split prod.split)
qed

lemma any_next_version_logged:
  assumes "any_logged ops T a hs" "any_next_version a = (a', Some v)"
  shows "any_logged ops T a' hs" "v = any_current_version a + 1" "any_current_version a' = v" "same_backing b a' = same_backing b a"
proof -
  have w: "checked_add u64_max c 1 = Some v \<Longrightarrow> v = c + 1 \<and> wrapping_add u64_max c 1 = v" for c
    by (auto simp: checked_add_def wrapping_add_def split: if_splits)
  have "any_logged ops T a' hs \<and> v = any_current_version a + 1 \<and> any_current_version a' = v \<and> same_backing b a' = same_backing b a"
  proof (cases a)
    case (MemRing r)
    then have "checked_add u64_max (version_counter r) 1 = Some v" "a' = MemRing (r\<lparr>version_counter := wrapping_add u64_max (version_counter r) 1\<rparr>)"
      using assms(2) by (simp_all add: ring_next_version_def Let_def)
    then show ?thesis using w assms(1) MemRing by (cases b) (auto simp: ring_spec_of_def ring_logged_def)
  next
    case (ShmRing r)
    let ?c = "sh_version_counter (sg_header (sr_seg r))"
    have "checked_add u64_max ?c 1 = Some v"
      "a' = ShmRing (r\<lparr>sr_seg := (sr_seg r)\<lparr>sg_header := (sg_header (sr_seg r))\<lparr>sh_version_counter := wrapping_add u64_max ?c 1\<rparr>\<rparr>\<rparr>)"
      using assms(2) ShmRing by (simp_all add: shm_next_version_def Let_def)
    then show ?thesis using w assms(1) ShmRing by (cases b) (auto simp: shm_spec_of_def shm_ring_logged_def shm_lane_def)
  qed
  then show "any_logged ops T a' hs" "v = any_current_version a + 1" "any_current_version a' = v" "same_backing b a' = same_backing b a"
    by blast+
qed

lemma next_version_holds:
  assumes "fleet_holds ops fl T hs" "fleet_next_ring_version fl T = Some (fl1, v)"
  shows "fleet_holds ops fl1 T hs" "v = fleet_version fl T + 1" "fleet_version fl1 T = v"
    "fl_node_id fl1 = fl_node_id fl" "fl_capacity fl1 = fl_capacity fl"
proof -
  obtain a where a: "fleet_open fl T = Some (fl, Inr a)" "any_logged ops T a hs" "same_backing (fl_backing fl) a"
    by (rule fleet_holds_open [OF assms(1)])
  obtain a' where a': "any_next_version a = (a', Some v)" "fl1 = fleet_store fl (ot_kind T) a'"
    using assms(2) a(1) by (auto simp: fleet_next_ring_version_def split: prod.splits option.splits)
  note n = any_next_version_logged [OF a(2) a'(1)]
  show "fleet_holds ops fl1 T hs" using fleet_store_holds [OF assms(1) n(1)] n(4) a(3) a'(2) by simp
  show "fleet_version fl1 T = v" using fleet_store_open [OF n(1)] n(3,4) a(3) a'(2) by (simp add: fleet_version_def)
  show "v = fleet_version fl T + 1" "fl_node_id fl1 = fl_node_id fl" "fl_capacity fl1 = fl_capacity fl"
    using n(2) a(1) a'(2) by (simp_all add: fleet_version_def)
qed

lemma any_write_per_node:
  assumes "any_logged ops T a hs" "rs_topology (ot_spec T) = PerNode"
  shows "any_write ops os_lock a node kind ver payload = any_write ops (Inr ()) a node kind ver payload"
  using assms shm_spec_ofD by (cases a) (auto simp: shm_write_def Let_def split: option.split)

lemma any_write_version:
  assumes "any_write ops os_lock a node kind ver payload = Some (a', res)"
  shows "any_current_version a' = any_current_version a"
  using assms
  by (cases a) (auto simp: ring_write_def shm_write_def Let_def set_lane_def shm_set_lane_def
      split: if_splits option.splits ring_topology.splits prod.splits sum.splits)

lemma publish_holds:
  assumes "fleet_holds ops fl T hs" "rs_topology (ot_spec T) = PerNode" "length payload \<le> rs_payload_capacity (ot_spec T)"
    and n: "n = fl_node_id fl" and "length (hs ! n) \<le> NETID_COUNTER_MAX"
    and f: "f = posted ops T n (length (hs ! n)) kind ver payload"
    and pub: "fleet_publish_notified ops os_lock notify fl T kind ver payload = Some (fl', res)"
  shows "fleet_holds ops fl' T (hs[n := hs ! n @ [f]])" "fleet_version fl' T = fleet_version fl T" "fl_capacity fl' = fl_capacity fl"
    "n < length hs" "\<And>i. res = Inr i \<Longrightarrow> i = fr_id f"
proof -
  obtain a where a: "fleet_open fl T = Some (fl, Inr a)" "any_logged ops T a hs" "same_backing (fl_backing fl) a"
    by (rule fleet_holds_open [OF assms(1)])
  from assms(1) have fl: "fl_node_id fl < fl_capacity fl" "fl_capacity fl \<le> u16_max + 1"
    "length hs = ring_lane_count (ot_spec T) (fl_capacity fl)" by (simp_all add: fleet_holds_def)
  have li: "n = lane_index (rs_topology (ot_spec T)) (fl_node_id fl)" using assms(2) n by (simp add: lane_index_def)
  have f': "f = posted ops T (fl_node_id fl) (length (hs ! n)) kind ver payload" using f n by simp
  obtain a' where a': "any_write ops os_lock a (fl_node_id fl) kind ver payload = Some (a', Inr (fr_id f))"
    "any_logged ops T a' (hs[n := hs ! n @ [f]])" "same_backing (fl_backing fl) a'"
    using any_write_appends [OF a(2) fl assms(3) li assms(5) f'] a(3)
    unfolding any_write_per_node [OF a(2) assms(2), of os_lock] by blast
  have fl': "fl' = fleet_store fl (ot_kind T) a'" and res: "\<And>i. res = Inr i \<Longrightarrow> i = fr_id f"
    using pub a(1) a'(1) by (auto simp: fleet_publish_notified_def split: any_ring.splits sum.splits)
  show "fleet_holds ops fl' T (hs[n := hs ! n @ [f]])" unfolding fl' by (rule fleet_store_holds [OF assms(1) a'(2,3)]) simp
  show "fleet_version fl' T = fleet_version fl T"
    using fleet_store_open [OF a'(2,3)] any_write_version [OF a'(1)] a(1) by (simp add: fleet_version_def fl')
  show "fl_capacity fl' = fl_capacity fl" by (simp add: fl')
  show "n < length hs" using fl li lane_index_less by metis
  show "\<And>i. res = Inr i \<Longrightarrow> i = fr_id f" by (rule res)
qed

lemma lane_head_holds:
  assumes "fleet_holds ops fl T hs" "rs_topology (ot_spec T) = PerNode" "j < length hs"
  shows "fleet_lane_head fl T j = Some (fl, length (hs ! j))"
proof -
  obtain a where a: "fleet_open fl T = Some (fl, Inr a)" "any_logged ops T a hs" by (rule fleet_holds_open [OF assms(1)])
  have "any_lane_head a j = Some (length (hs ! j))"
    using any_source_poll [OF a(2) assms(2,3), of "\<lparr>next_counter = 0\<rparr>", OF _ refl refl] by simp
  then show ?thesis using a(1) by (simp add: fleet_lane_head_def fleet_query_def)
qed

definition head_cursors :: "frame list list \<Rightarrow> ring_cursor list" where
  "head_cursors hs = map (\<lambda>h. \<lparr>next_counter = length h\<rparr>) hs"

lemma cursor_at_head_holds:
  assumes "fleet_holds ops fl T hs" "rs_topology (ot_spec T) = PerNode"
  shows "lane_cursor_at_head fl T = Some (fl, \<lparr>lc_lanes = head_cursors hs, lc_initial_counter = 0\<rparr>)"
proof -
  have len: "length hs = fl_capacity fl" using assms by (simp add: fleet_holds_def ring_lane_count_def)
  have "lane_heads fl T js = Some (fl, map (\<lambda>j. \<lparr>next_counter = length (hs ! j)\<rparr>) js)" if "\<forall>j\<in>set js. j < length hs" for js
    using that by (induction js) (simp_all add: lane_head_holds [OF assms] cursor_from_counter_def)
  from this [of "[0..<fl_capacity fl]"] have
    "lane_heads fl T [0..<fl_capacity fl] = Some (fl, map (\<lambda>j. \<lparr>next_counter = length (hs ! j)\<rparr>) [0..<length hs])"
    using len by simp
  moreover have "map (\<lambda>j. \<lparr>next_counter = length (hs ! j)\<rparr>) [0..<length hs] = head_cursors hs"
    unfolding head_cursors_def by (rule nth_equalityI) simp_all
  ultimately show ?thesis using assms(2) by (simp add: lane_cursor_at_head_def)
qed

section \<open>Publications\<close>

text \<open>The revision the next publication of a handle gets.\<close>

definition next_revision :: "cache_env \<Rightarrow> fleet \<Rightarrow> cache_revision" where
  "next_revision env fl =
     Revision (fleet_version fl (mutations_of env) + 1)
       (nid_make (ke_netid env) (ot_kind (mutations_of env)) (fl_node_id fl)
         (snd (the (fleet_lane_head fl (mutations_of env) (fl_node_id fl)))))"

text \<open>A fleet with log \<open>hs\<close> on which a handle may publish.\<close>

definition ready :: "cache_env \<Rightarrow> fleet \<Rightarrow> frame list list \<Rightarrow> bool" where
  "ready env fl hs \<longleftrightarrow> fleet_holds (ke_netid env) fl (mutations_of env) hs \<and> cache_layout_validate (ke_layout env) = Inr () \<and>
     length (hs ! fl_node_id fl) \<le> NETID_COUNTER_MAX"

definition published :: "cache_env \<Rightarrow> nat \<Rightarrow> fleet \<Rightarrow> frame list list \<Rightarrow> fleet \<Rightarrow> frame list list \<Rightarrow> cache_mutation \<Rightarrow> bool" where
  "published env slots fl hs fl' hs' m \<longleftrightarrow>
     (\<exists>f. cache_decode slots f = Some m \<and> hs' = hs[fl_node_id fl := hs ! fl_node_id fl @ [f]]) \<and> fl_node_id fl < length hs \<and>
     fleet_holds (ke_netid env) fl' (mutations_of env) hs' \<and> mutation_revision m = next_revision env fl \<and>
     fleet_version fl' (mutations_of env) = fleet_version fl (mutations_of env) + 1 \<and> fl_capacity fl' = fl_capacity fl"

lemma layout_per_node: "cache_layout_validate L = Inr () \<Longrightarrow> rs_topology (ot_spec (mutation_typed L)) = PerNode"
  by (auto simp: cache_layout_validate_def mutation_typed_def Let_def split: if_splits)

lemma next_revision_holds:
  assumes "fleet_holds (ke_netid env) fl (mutations_of env) hs" "cache_layout_validate (ke_layout env) = Inr ()"
  shows "next_revision env fl = Revision (fleet_version fl (mutations_of env) + 1)
     (nid_make (ke_netid env) (ot_kind (mutations_of env)) (fl_node_id fl) (length (hs ! fl_node_id fl)))"
proof -
  have "fl_node_id fl < length hs" using assms layout_per_node by (simp add: fleet_holds_def ring_lane_count_def)
  from lane_head_holds [OF assms(1) layout_per_node [OF assms(2)] this] show ?thesis by (simp add: next_revision_def)
qed

lemma publish_logged:
  assumes "ready env fl hs" and nv: "fleet_next_ring_version fl (mutations_of env) = Some (fl1, s)"
    and m: "mutation_ok slots m" "encode_mutation (ke_layout env) m = Inr (kind, payload)" "mutation_revision m = next_revision env fl"
    and pub: "publish_mutation env fl1 kind s payload = Some (fl2, res)"
  shows "\<exists>hs'. published env slots fl hs fl2 hs' m" "\<And>i. res = Inr i \<Longrightarrow> Revision s i = next_revision env fl"
proof -
  let ?T = "mutations_of env" and ?n = "fl_node_id fl"
  have h: "fleet_holds (ke_netid env) fl ?T hs" and v: "cache_layout_validate (ke_layout env) = Inr ()"
    and room: "length (hs ! ?n) \<le> NETID_COUNTER_MAX" using assms(1) by (simp_all add: ready_def)
  note nx = next_version_holds [OF h nv] and per = layout_per_node [OF v]
  let ?f = "posted (ke_netid env) ?T ?n (length (hs ! ?n)) kind s payload"
  have fits: "length payload \<le> rs_payload_capacity (ot_spec ?T)"
    using encode_mutation_fits [OF m(2)] by (simp add: mutation_typed_def)
  have rev: "next_revision env fl = Revision s (fr_id ?f)" using next_revision_holds [OF h v] nx(2) by (simp add: posted_def)
  obtain res' where "fleet_publish_notified (ke_netid env) (ke_os_lock env) (ke_notify env) fl1 ?T kind s payload = Some (fl2, res')"
    "res = (case res' of Inl e \<Rightarrow> Inl CacheIo | Inr i \<Rightarrow> Inr i)" using pub by (auto simp: publish_mutation_def)
  note pb = publish_holds [OF nx(1) per fits _ _ _ this(1), of ?n ?f] and this(2)
  have dec: "cache_decode slots ?f = Some m"
    using cache_roundtrip [OF m(1,2), of s "fr_id ?f"] m(3) rev by (simp add: posted_def)
  show "\<exists>hs'. published env slots fl hs fl2 hs' m"
    using pb nx room dec m(3) by (auto simp: published_def intro!: exI [of _ ?f] exI [of _ "hs[?n := hs ! ?n @ [?f]]"])
  show "\<And>i. res = Inr i \<Longrightarrow> Revision s i = next_revision env fl"
    using pb(5) nx(4) room rev \<open>res = _\<close> by (auto split: sum.splits)
qed

lemma validated:
  "transport_validate_store L store = cache_validate_store L store"
  "transport_validate_key L store key = Inr () \<Longrightarrow> cache_validate_store L store = Inr () \<and> cache_validate_key L (length store) key = Inr ()"
  by (auto simp: transport_validate_store_def cache_validate_store_def transport_validate_key_def cache_validate_key_def split: if_splits sum.splits)

lemma publish_delete_logged:
  assumes "ready env fl hs" "publish_delete env fl store key = Some (fl', res)" and m: "m = CDelete store key (next_revision env fl)"
  shows "fl' = fl \<and> (\<exists>e. res = Inl e) \<or> (\<exists>hs'. published env slots fl hs fl' hs' m) \<and> (\<forall>m'. res = Inr m' \<longrightarrow> m' = m)"
proof (cases "transport_validate_key (ke_layout env) store key")
  case (Inr u)
  let ?b = "mutation_bytes 0 0 0 0 store key"
  have enc: "encode_delete (ke_layout env) store key = Inr ?b" using validated(2) Inr by (simp add: encode_delete_def)
  obtain fl1 s res' where 1: "fleet_next_ring_version fl (mutations_of env) = Some (fl1, s)"
    "publish_mutation env fl1 FRAME_KIND_DELETE s ?b = Some (fl', res')"
    "res = (case res' of Inl e \<Rightarrow> Inl e | Inr i \<Rightarrow> Inr (CDelete store key (Revision s i)))"
    using assms(2) Inr enc by (auto simp: publish_delete_def split: option.splits)
  have "mutation_ok slots m" "encode_mutation (ke_layout env) m = Inr (FRAME_KIND_DELETE, ?b)" "mutation_revision m = next_revision env fl"
    using enc by (simp_all add: m)
  from publish_logged [OF assms(1) 1(1) this 1(2)] show ?thesis using 1(3) by (auto simp: m split: sum.splits)
qed (use assms(2) in \<open>auto simp: publish_delete_def\<close>)

lemma publish_reset_logged:
  assumes "ready env fl hs" "publish_reset env fl store = Some (fl', res)" and m: "m = CReset store (next_revision env fl)"
  shows "fl' = fl \<and> (\<exists>e. res = Inl e) \<or> (\<exists>hs'. published env slots fl hs fl' hs' m) \<and> (\<forall>m'. res = Inr m' \<longrightarrow> m' = m)"
proof (cases "transport_validate_store (ke_layout env) store")
  case (Inr u)
  let ?b = "mutation_bytes 0 0 0 0 store []"
  have enc: "encode_reset (ke_layout env) store = Inr ?b" using validated(1) Inr by (simp add: encode_reset_def)
  obtain fl1 s res' where 1: "fleet_next_ring_version fl (mutations_of env) = Some (fl1, s)"
    "publish_mutation env fl1 FRAME_KIND_RESET s ?b = Some (fl', res')"
    "res = (case res' of Inl e \<Rightarrow> Inl e | Inr i \<Rightarrow> Inr (CReset store (Revision s i)))"
    using assms(2) Inr enc by (auto simp: publish_reset_def split: option.splits)
  have "mutation_ok slots m" "encode_mutation (ke_layout env) m = Inr (FRAME_KIND_RESET, ?b)" "mutation_revision m = next_revision env fl"
    using enc by (simp_all add: m)
  from publish_logged [OF assms(1) 1(1) this 1(2)] show ?thesis using 1(3) by (auto simp: m split: sum.splits)
qed (use assms(2) in \<open>auto simp: publish_reset_def\<close>)

text \<open>Where a put has stored its value, if it came that far.\<close>

definition put_stored :: "cache_env \<Rightarrow> nat option \<Rightarrow> nat \<Rightarrow> arena_mem \<Rightarrow> bytes \<Rightarrow> bytes \<Rightarrow> bytes \<Rightarrow> nat option \<Rightarrow> address option" where
  "put_stored env clock me am store key value ttl =
     (case validate_put (ke_layout env) am store key value of
        Inl e \<Rightarrow> None
      | Inr _ \<Rightarrow> (case snd (arena_store (ke_arena env) me am (put_record value (put_deadline clock ttl))) of Inr a \<Rightarrow> Some a | Inl e \<Rightarrow> None))"

abbreviation put_mutation :: "cache_env \<Rightarrow> nat option \<Rightarrow> fleet \<Rightarrow> bytes \<Rightarrow> bytes \<Rightarrow> bytes \<Rightarrow> nat option \<Rightarrow> address \<Rightarrow> cache_mutation" where
  "put_mutation env clock fl store key value ttl a \<equiv>
     CPut store key (next_revision env fl) (put_deadline clock ttl) \<lparr>pl_address = a, pl_value_len = length value\<rparr>"

lemma put_deadline_range: "put_deadline clock ttl = Some t \<Longrightarrow> 0 < t \<and> t \<le> u64_max"
  by (auto simp: put_deadline_def saturating_add_def duration_ms_def u64_max_def)

lemma publish_put_logged:
  assumes rd: "ready env fl hs" and pub: "publish_put env clock me fl am store key value ttl = Some (fl', am', res)"
    and addr: "\<And>a. put_stored env clock me am store key value ttl = Some a \<Longrightarrow>
      ad_slot a < slots \<and> ad_slot a \<le> u32_max \<and> 0 < ad_generation a \<and> ad_generation a \<le> u64_max"
    and "length (am_ring am) \<le> u64_max"
  shows "case put_stored env clock me am store key value ttl of
      None \<Rightarrow> fl' = fl \<and> (\<exists>e. res = Inl e) \<and>
        (am' = am \<or> am' = fst (arena_store (ke_arena env) me am (put_record value (put_deadline clock ttl))) \<and>
           validate_put (ke_layout env) am store key value = Inr ())
    | Some a \<Rightarrow> (\<exists>hs'. published env slots fl hs fl' hs' (put_mutation env clock fl store key value ttl a)) \<and>
        (\<forall>m. res = Inr m \<longrightarrow> m = put_mutation env clock fl store key value ttl a) \<and>
        (\<exists>am1. arena_store (ke_arena env) me am (put_record value (put_deadline clock ttl)) = (am1, Inr a) \<and>
           (am' = am1 \<or> am' = fst (forget_address (ke_arena env) am1 a)))"
proof (cases "validate_put (ke_layout env) am store key value")
  case (Inl e)
  then show ?thesis using pub by (auto simp: put_stored_def publish_put_def)
next
  case (Inr u)
  obtain am1 sto where st: "arena_store (ke_arena env) me am (put_record value (put_deadline clock ttl)) = (am1, sto)" by force
  show ?thesis
  proof (cases sto)
    case (Inl e)
    then show ?thesis using pub Inr st by (auto simp: put_stored_def publish_put_def Let_def)
  next
    case sa: (Inr a)
    then have ps: "put_stored env clock me am store key value ttl = Some a" using Inr st by (simp add: put_stored_def)
    let ?m = "put_mutation env clock fl store key value ttl a"
    have len: "length value \<le> u64_max" and vk: "transport_validate_key (ke_layout env) store key = Inr ()"
      using Inr assms(4) by (auto simp: validate_put_def max_value_len_def split: sum.splits if_splits)
    obtain b where enc: "encode_put (ke_layout env) store key (put_deadline clock ttl) \<lparr>pl_address = a, pl_value_len = length value\<rparr> = Inr b"
      using validated(2) [OF vk] by (simp add: encode_put_def)
    obtain fl1 s res' where 1: "fleet_next_ring_version fl (mutations_of env) = Some (fl1, s)"
      "publish_mutation env fl1 FRAME_KIND_PUT s b = Some (fl', res')"
      "res = (case res' of Inl e \<Rightarrow> Inl e | Inr i \<Rightarrow> Inr (CPut store key (Revision s i) (put_deadline clock ttl) \<lparr>pl_address = a, pl_value_len = length value\<rparr>))"
      "am' = am1 \<or> am' = fst (forget_address (ke_arena env) am1 a)"
      using pub Inr st sa enc by (auto simp: publish_put_def Let_def split: option.splits sum.splits)
    have "mutation_ok slots ?m" using addr [OF ps] len put_deadline_range by (auto split: option.split)
    moreover have "encode_mutation (ke_layout env) ?m = Inr (FRAME_KIND_PUT, b)" "mutation_revision ?m = next_revision env fl"
      using enc by simp_all
    ultimately have pl: "\<exists>hs'. published env slots fl hs fl' hs' ?m" and "\<And>i. res' = Inr i \<Longrightarrow> Revision s i = next_revision env fl"
      using publish_logged [OF rd 1(1) _ _ _ 1(2), of slots ?m] by blast+
    then have "\<forall>m. res = Inr m \<longrightarrow> m = ?m" using 1(3) by (cases res') simp_all
    with pl have "\<exists>hs'. published env slots fl hs fl' hs' ?m" "\<forall>m. res = Inr m \<longrightarrow> m = ?m" by blast+
    then show ?thesis using ps st sa 1(4) by auto
  qed
qed

section \<open>Local stores\<close>

text \<open>The slot an operation may leave behind.\<close>

fun presents :: "cache_op \<Rightarrow> (bytes \<times> local_slot) list" where
  "presents (OApply resolve (CPut store key r e p)) = [(key, Present p r e)]"
| "presents (OInstall key p r e) = [(key, Present p r e)]"
| "presents op = []"

definition recovers_to :: "nat \<Rightarrow> cache_op \<Rightarrow> bool" where
  "recovers_to v op \<longleftrightarrow> (case op of ORecover n \<Rightarrow> v \<le> n | _ \<Rightarrow> True)"

context lru_cache
begin

lemma offer_entries:
  assumes "local_ok ops good st" "entries ops (offer_slot ops st key slot) k = Some s"
  shows "entries ops st k = Some s \<or> (k, s) = (key, slot)"
proof -
  obtain st' b where put: "put_slot ops st key slot = (st', b)" by force
  have good: "good (lcs_slots st)" using assms(1) by (simp add: local_ok_def)
  show ?thesis
  proof (cases "local_accepts st (slot_revision slot)")
    case True
    then have "entries ops st' k = Some s" using assms(2) put by (simp add: offer_slot_def)
    then show ?thesis by (cases rule: put_slot_cases [OF good put]) (auto simp: above_Some split: if_splits)
  qed (use assms in \<open>simp add: offer_slot_def\<close>)
qed

lemma reset_entries:
  assumes "local_ok ops good st" "entries ops (reset_local ops st r) k = Some s"
  shows "entries ops st k = Some s"
  using assms advance_floor_entries [of st, OF _ refl] by (auto simp: reset_local_def local_ok_def above_Some split: if_splits)

lemma read_present:
  assumes "local_ok ops good st" "entries ops (fst (local_read_at ops resolve st key now)) k = Some (Present p r e)"
  shows "entries ops st k = Some (Present p r e)"
proof (cases "lcs_coherent st")
  case True
  obtain c v where g: "lru_get ops (lcs_slots st) key = (c, v)" by (cases "lru_get ops (lcs_slots st) key")
  have "good (lcs_slots st)" using assms(1) by (simp add: local_ok_def)
  from get [OF this g] have "good c" "lru_peek ops c = entries ops st" "v = entries ops st key" by auto
  then show ?thesis
    using assms(2) True g put [of c key "Missing (slot_revision (the v))"]
    by (cases v) (auto simp: local_read_at_def split: local_slot.splits option.splits if_splits)
qed (use assms in \<open>simp add: local_read_at_def\<close>)

lemma step_presents:
  assumes ok: "local_ok ops good st" and en: "entries ops (local_step ops st op) k = Some (Present p r e)"
  shows "entries ops st k = Some (Present p r e) \<or> (k, Present p r e) \<in> set (presents op)"
proof (cases op)
  case (OApply resolve m)
  then show ?thesis
    using en offer_entries [OF ok] reset_entries [OF ok] by (cases m) (fastforce simp: step_forms split: if_splits)+
next
  case (ORead resolve key now)
  then show ?thesis using read_present [OF ok] en by simp
next
  case OResync
  have "good (lcs_slots (advance_floor_from_slots ops st))"
    using ok advance_floor_entries [of st, OF _ refl] by (auto simp: local_ok_def advance_floor_from_slots_def split: list.split)
  then show ?thesis using OResync en clear by (simp add: require_resync_def Let_def)
next
  case (ORecover n)
  then show ?thesis using ok en clear by (simp add: local_recover_from_backing_def local_ok_def)
qed (use en offer_entries [OF ok] reset_entries [OF ok] in \<open>auto simp: step_forms\<close>)

lemma step_coherent:
  assumes "local_ok ops good st" "lcs_coherent (local_step ops st op)" "\<forall>n. op \<noteq> ORecover n"
  shows "lcs_coherent st"
proof (cases op)
  case (ORead resolve key now)
  then show ?thesis using assms(2) by (auto simp: local_read_at_def split: if_splits)
qed (use assms apply_coherent offer_coherent advance_floor_entries [of st, OF _ refl] in
    \<open>auto simp: install_offer reset_local_def local_ok_def require_resync_def Let_def split: if_splits\<close>)

text \<open>A store that answers at all has seen \<open>r\<close>: kept by every run whose recoveries reach its sequence.\<close>

lemma step_safe:
  assumes "local_ok ops good st" "lcs_coherent st \<longrightarrow> covered ops st k r" "recovers_to v op" "rev_sequence r \<le> v"
  shows "lcs_coherent (local_step ops st op) \<longrightarrow> covered ops (local_step ops st op) k r"
proof
  assume c: "lcs_coherent (local_step ops st op)"
  show "covered ops (local_step ops st op) k r"
  proof (cases "\<exists>n. op = ORecover n")
    case True
    then show ?thesis
      using assms(3,4) by (auto simp: recovers_to_def covered_def local_recover_from_backing_def local_accepts_def raise_floor_accepts)
  next
    case False
    then have "recovers_after r op" by (simp add: recovers_after_def split: cache_op.split)
    then show ?thesis using step_keeps [OF assms(1)] step_coherent [OF assms(1) c] assms(2) False by blast
  qed
qed

lemma run_safe:
  assumes "local_ok ops good st" "lcs_coherent st \<longrightarrow> covered ops st k r" "list_all (recovers_to v) run" "rev_sequence r \<le> v"
  shows "lcs_coherent (foldl (local_step ops) st run) \<longrightarrow> covered ops (foldl (local_step ops) st run) k r"
  using assms
proof (induction run arbitrary: st)
  case (Cons op run)
  then have "recovers_to v op" "list_all (recovers_to v) run" by simp_all
  then show ?case
    using Cons.IH [OF step_ok [OF Cons.prems(1)] step_safe [OF Cons.prems(1,2)]] Cons.prems(4) by simp
qed simp

lemma run_covers:
  assumes "local_ok ops good st" "op \<in> set run" "concerns op k r" "list_all (recovers_to v) run" "rev_sequence r \<le> v"
  shows "lcs_coherent (foldl (local_step ops) st run) \<longrightarrow> covered ops (foldl (local_step ops) st run) k r"
proof -
  obtain pre post where run: "run = pre @ op # post" using assms(2) by (auto dest: split_list)
  have ok: "local_ok ops good (foldl (local_step ops) st pre)" using run_ok [OF assms(1)] .
  have "covered ops (local_step ops (foldl (local_step ops) st pre) op) k r" using step_covers [OF ok assms(3)] .
  then show ?thesis using run_safe [OF step_ok [OF ok], of op k r v post] assms(4,5) run by simp
qed

lemma run_presents:
  assumes "local_ok ops good st" "entries ops (foldl (local_step ops) st run) k = Some (Present p r e)"
  shows "entries ops st k = Some (Present p r e) \<or> (k, Present p r e) \<in> set (concat (map presents run))"
  using assms
proof (induction run arbitrary: st)
  case (Cons op run)
  have "entries ops (local_step ops st op) k = Some (Present p r e) \<or> (k, Present p r e) \<in> set (concat (map presents run))"
    using Cons.IH [OF step_ok [OF Cons.prems(1)]] Cons.prems(2) by simp
  then show ?case using step_presents [OF Cons.prems(1)] by fastforce
qed simp

lemma covered_hit:
  assumes "local_ok ops good st" "covered ops st k r" "local_read_at ops resolve st k now = (st', Hit e)"
  shows "r \<le> ce_revision e"
proof -
  have "good (lcs_slots st)" using assms(1) by (simp add: local_ok_def)
  from read_hit [OF this assms(3)] obtain p where en: "entries ops st k = Some (Present p (ce_revision e) (ce_expires_at_ms e))" by blast
  then have "local_accepts st (ce_revision e)" using assms(1) by (force simp: local_ok_def)
  then show ?thesis using assms(2) en floor_order by (auto simp: covered_def local_accepts_def)
qed

end

section \<open>The stores of a connection\<close>

lemma map_of_mapped: "map_of (map (\<lambda>(n, st). (n, f n st)) xs) k = map_option (f k) (map_of xs k)"
  by (induction xs) auto

lemma with_local_store:
  "map_of (cn_stores (with_local name f conn)) n = map_option (\<lambda>st. if n = name then f st else st) (map_of (cn_stores conn) n)"
  using map_of_mapped [of "\<lambda>n st. if n = name then f st else st"] by (simp add: with_local_def)

lemma for_each_store: "map_of (cn_stores (for_each_local f conn)) n = map_option f (map_of (cn_stores conn) n)"
  using map_of_mapped [of "\<lambda>n. f"] by (simp add: for_each_local_def)

lemma conn_kept [simp]:
  "cn_cursor (with_local name f conn) = cn_cursor conn" "cn_reader (with_local name f conn) = cn_reader conn"
  "cn_cursor (for_each_local g conn) = cn_cursor conn" "cn_reader (for_each_local g conn) = cn_reader conn"
  by (simp_all add: with_local_def for_each_local_def)

lemma dispatch_one_conn:
  "fst (dispatch_one lru resolve (conn, res) m) =
     (case map_of (cn_stores conn) (mutation_store m) of None \<Rightarrow> conn
      | Some st \<Rightarrow> with_local (mutation_store m) (\<lambda>_. fst (local_apply lru resolve st m)) conn)"
  by (simp add: dispatch_one_def Let_def split: option.split prod.split)

lemma dispatch_stores:
  "map_of (cn_stores (fst (foldl (dispatch_one lru resolve) (conn, res) ms))) n =
     map_option (\<lambda>st. foldl (local_step lru) st (map (OApply resolve) (filter (\<lambda>m. mutation_store m = n) ms))) (map_of (cn_stores conn) n) \<and>
   cn_cursor (fst (foldl (dispatch_one lru resolve) (conn, res) ms)) = cn_cursor conn \<and>
   cn_reader (fst (foldl (dispatch_one lru resolve) (conn, res) ms)) = cn_reader conn"
proof (induction ms arbitrary: conn res)
  case (Cons m ms)
  obtain conn1 res1 where d: "dispatch_one lru resolve (conn, res) m = (conn1, res1)" by force
  then have c1: "conn1 = (case map_of (cn_stores conn) (mutation_store m) of None \<Rightarrow> conn
      | Some st \<Rightarrow> with_local (mutation_store m) (\<lambda>_. fst (local_apply lru resolve st m)) conn)"
    using dispatch_one_conn [of lru resolve conn res m] by simp
  have "map_of (cn_stores conn1) n =
      map_option (\<lambda>st. if mutation_store m = n then fst (local_apply lru resolve st m) else st) (map_of (cn_stores conn) n)"
    "cn_cursor conn1 = cn_cursor conn" "cn_reader conn1 = cn_reader conn"
    unfolding c1 by (auto simp: with_local_store map_option_case split: option.split)
  then show ?case using Cons.IH [of conn1 res1] d by (simp add: option.map_comp comp_def)
qed (simp add: option.map_id0 [unfolded id_def])

section \<open>Polling\<close>

text \<open>A cursor inside the logs.\<close>

definition cursor_ok :: "frame list list \<Rightarrow> lane_cursor \<Rightarrow> bool" where
  "cursor_ok hs c \<longleftrightarrow> length (lc_lanes c) = length hs \<and> (\<forall>j<length hs. next_counter (lc_lanes c ! j) \<le> length (hs ! j))"

lemma head_cursors_ok: "lc_lanes c = head_cursors hs \<Longrightarrow> cursor_ok hs c"
  by (simp add: cursor_ok_def head_cursors_def)

definition poll_run :: "bool \<Rightarrow> (address \<Rightarrow> bytes option) \<Rightarrow> cache_mutation list \<Rightarrow> bytes \<Rightarrow> cache_op list" where
  "poll_run resync resolve ms name = (if resync then [OResync] else []) @ map (OApply resolve) (filter (\<lambda>m. mutation_store m = name) ms)"

lemma transport_poll_frames:
  assumes "fleet_holds (ke_netid env) fl (mutations_of env) hs" "cache_layout_validate (ke_layout env) = Inr ()" "cursor_ok hs cursor"
    and "transport_poll env slots fl cursor = Some (fl', cursor', raw)"
  shows "fl' = fl" "lc_lanes cursor' = head_cursors hs"
    "m \<in> set (mp_mutations raw) \<Longrightarrow> \<exists>h\<in>set hs. \<exists>f\<in>set h. cache_decode slots f = Some m"
    "\<not> requires_full_resync raw \<Longrightarrow> j < length hs \<Longrightarrow> next_counter (lc_lanes cursor ! j) \<le> n \<Longrightarrow> n < length (hs ! j) \<Longrightarrow>
       \<exists>m\<in>set (mp_mutations raw). cache_decode slots (hs ! j ! n) = Some m"
proof -
  let ?T = "mutations_of env" and ?cs = "lc_lanes cursor" and ?dec = "cache_decode slots"
  let ?st = "\<lambda>h c. lane_start (rs_capacity (ot_spec ?T)) h c"
  let ?fs = "concat (map2 (\<lambda>h c. drop (?st h c) h) hs ?cs)"
  have c: "length ?cs = length hs" "\<forall>j<length hs. next_counter (?cs ! j) \<le> length (hs ! j)" using assms(3) by (simp_all add: cursor_ok_def)
  note poll = fleet_poll_exact [OF assms(1) layout_per_node [OF assms(2)] c]
  have raw: "fl' = fl" "lc_lanes cursor' = head_cursors hs" "set (mp_mutations raw) = set (List.map_filter ?dec ?fs)"
    "loss_total (mp_loss raw) = saturating_add u64_max (sum_list (map2 (\<lambda>h c. ?st h c - next_counter c) hs ?cs)) 0"
    "mp_malformed raw = min (length (filter (\<lambda>f. ?dec f = None) ?fs)) u64_max"
    using assms(4) unfolding transport_poll_def poll by (auto simp: head_cursors_def loss_total_def)
  show "fl' = fl" "lc_lanes cursor' = head_cursors hs" by (fact raw)+
  have mf: "m \<in> set (List.map_filter ?dec xs) \<longleftrightarrow> (\<exists>f\<in>set xs. ?dec f = Some m)" for m xs by (force simp: List.map_filter_def)
  have inc: "set ?fs \<subseteq> \<Union> (set ` set hs)" by (auto dest!: in_set_dropD set_zip_leftD)
  show "\<exists>h\<in>set hs. \<exists>f\<in>set h. ?dec f = Some m" if "m \<in> set (mp_mutations raw)"
    using that inc unfolding raw(3) mf by blast
  assume nr: "\<not> requires_full_resync raw" and j: "j < length hs" and n: "next_counter (?cs ! j) \<le> n" "n < length (hs ! j)"
  have "sum_list (map2 (\<lambda>h c. ?st h c - next_counter c) hs ?cs) = 0"
    using nr raw(4) by (auto simp: requires_full_resync_def saturating_add_def u64_max_def)
  then have zero: "\<forall>x\<in>set (map2 (\<lambda>h c. ?st h c - next_counter c) hs ?cs). x = 0" by simp
  have "(hs ! j, ?cs ! j) \<in> set (zip hs ?cs)" using j c(1) by (auto simp: set_zip)
  then have "?st (hs ! j) (?cs ! j) - next_counter (?cs ! j) = 0" and lane: "drop (?st (hs ! j) (?cs ! j)) (hs ! j) \<in> set (map2 (\<lambda>h c. drop (?st h c) h) hs ?cs)"
    using zero by force+
  then have "?st (hs ! j) (?cs ! j) \<le> n" using n(1) by simp
  then have "hs ! j ! n \<in> set (drop (?st (hs ! j) (?cs ! j)) (hs ! j))"
    using n(2) nth_mem [of "n - ?st (hs ! j) (?cs ! j)" "drop (?st (hs ! j) (?cs ! j)) (hs ! j)"] by simp
  then have f: "hs ! j ! n \<in> set ?fs" using lane unfolding set_concat by blast
  have "filter (\<lambda>f. ?dec f = None) ?fs = []" using nr raw(5) by (auto simp: requires_full_resync_def min_def u64_max_def split: if_splits)
  then have "?dec (hs ! j ! n) \<noteq> None" using f by (metis (mono_tags, lifting) filter_empty_conv)
  then obtain m where m: "?dec (hs ! j ! n) = Some m" by blast
  then have "m \<in> set (mp_mutations raw)" using f unfolding raw(3) mf by blast
  then show "\<exists>m\<in>set (mp_mutations raw). ?dec (hs ! j ! n) = Some m" using m by blast
qed

lemma poll_stores:
  assumes "fleet_holds (ke_netid env) fl (mutations_of env) hs" "cache_layout_validate (ke_layout env) = Inr ()" "cursor_ok hs (cn_cursor conn)"
    and "cache_poll_all lru env fl am conn = Some (fl', conn', p)" and slots: "slots = length (am_slots am)"
  obtains resync resolve ms where "fl' = fl" "cn_reader conn' = cn_reader conn" "lc_lanes (cn_cursor conn') = head_cursors hs"
    "\<And>n. map_of (cn_stores conn') n = map_option (\<lambda>st. foldl (local_step lru) st (poll_run resync resolve ms n)) (map_of (cn_stores conn) n)"
    "\<And>m. m \<in> set ms \<Longrightarrow> \<exists>h\<in>set hs. \<exists>f\<in>set h. cache_decode slots f = Some m"
    "\<And>j n. \<not> resync \<Longrightarrow> j < length hs \<Longrightarrow> next_counter (lc_lanes (cn_cursor conn) ! j) \<le> n \<Longrightarrow> n < length (hs ! j) \<Longrightarrow>
       \<exists>m\<in>set ms. cache_decode slots (hs ! j ! n) = Some m"
proof -
  obtain cursor raw where tp: "transport_poll env slots fl (cn_cursor conn) = Some (fl', cursor, raw)"
    using assms(4) slots by (auto simp: cache_poll_all_def Let_def split: option.splits prod.splits)
  note fr = transport_poll_frames [OF assms(1-3) tp]
  let ?res = "arena_resolve (ke_arena env) (cn_reader conn) am" and ?r = "requires_full_resync raw"
  let ?c2 = "if ?r then for_each_local (require_resync lru) (conn\<lparr>cn_cursor := cursor\<rparr>) else conn\<lparr>cn_cursor := cursor\<rparr>"
  obtain r0 where c': "conn' = fst (foldl (dispatch_one lru ?res) (?c2, r0) (mp_mutations raw))"
    using assms(4) tp slots by (auto simp: cache_poll_all_def Let_def split: prod.splits) (metis fst_conv)+
  show thesis
  proof (rule that [of ?r ?res "mp_mutations raw"])
    show "fl' = fl" by (fact fr(1))
    show "cn_reader conn' = cn_reader conn" "lc_lanes (cn_cursor conn') = head_cursors hs"
      using dispatch_stores [of lru ?res ?c2 r0 "mp_mutations raw"] fr(2) by (simp_all add: c')
    fix n
    show "map_of (cn_stores conn') n = map_option (\<lambda>st. foldl (local_step lru) st (poll_run ?r ?res (mp_mutations raw) n)) (map_of (cn_stores conn) n)"
      using dispatch_stores [of lru ?res ?c2 r0 "mp_mutations raw" n]
      by (simp add: c' for_each_store poll_run_def option.map_comp comp_def)
  qed (use fr(3,4) in blast)+
qed

end
