(* ===== verification/Cache_World.thy ===== *)
theory Cache_World
  imports Cache_Log
begin

text \<open>
  Processes sharing a cache: connections with their local stores over one fleet and one arena. Every
  value a store hands out was put under the revision it reports, and once a connection has polled after
  a mutation, its hits are never older than that mutation, whatever the ring has overwritten meanwhile.
\<close>

section \<open>Facts about the arena\<close>

definition arena_shape :: "arena_mem \<Rightarrow> nat \<times> nat" where
  "arena_shape am = (length (am_slots am), length (am_ring am))"

lemma weakens_shape: "weakens dead am am' \<Longrightarrow> arena_shape am' = arena_shape am"
  using weakensD(1,3) by (simp add: arena_shape_def)

lemma write_shape:
  assumes "arena_ok am" "holds_only dead env" "\<forall>k. key = Some k \<longrightarrow> k < 2 ^ 128" "write_record env me am key r = (am', res)"
  shows "arena_shape am' = arena_shape am" "res = Inr a \<Longrightarrow> ad_slot a < length (am_slots am) \<and> 0 < ad_generation a \<and> ad_generation a \<le> u64_max"
proof -
  have "arena_shape am' = arena_shape am \<and> (\<forall>a. res = Inr a \<longrightarrow> ad_slot a < length (am_slots am) \<and> 0 < ad_generation a \<and> ad_generation a \<le> u64_max)"
    using write_record_spec [OF assms]
  proof
    assume "weakens dead am am' \<and> (\<exists>e. res = Inl e)"
    then show ?thesis using weakens_shape by auto
  next
    assume "\<exists>am1 offset a. res = Inr a \<and> weakens dead am am1 \<and> reserved am1 key r offset (ad_slot a) \<and>
       publish_record am1 key r offset (ad_slot a) = (am', Inr a)"
    then obtain am1 offset a where w: "res = Inr a" "weakens dead am am1" "reserved am1 key r offset (ad_slot a)"
      "publish_record am1 key r offset (ad_slot a) = (am', Inr a)" by blast
    have "ad_generation a = am_record_generation am1 + 1" using publish_generation [OF w(4)] by blast
    moreover have "am_record_generation am1 + 1 \<le> u64_max" "arena_shape am' = arena_shape am1"
      using w(3,4) ring_written_facts(1) [of offset r "am_ring am1"] by (auto simp: publish_record_eq arena_shape_def reserved_def split: if_splits)
    ultimately show ?thesis using w(1,3) weakens_shape [OF w(2)] by (simp add: arena_shape_def reserved_def)
  qed
  then show "arena_shape am' = arena_shape am" "res = Inr a \<Longrightarrow> ad_slot a < length (am_slots am) \<and> 0 < ad_generation a \<and> ad_generation a \<le> u64_max"
    by blast+
qed

lemma step_shape:
  assumes "arena_step w w'" "world_ok w"
  shows "arena_shape (aw_mem w') = arena_shape (aw_mem w)"
  using assms(1)
proof cases
  case (write_step me env key r am' res)
  then show ?thesis using write_shape(1) [OF _ write_step(3,4,5)] assms(2) by (simp add: world_ok_def)
next
  case (get me env key am' found)
  have "me < length (am_active (aw_mem w))" "arena_ok (aw_mem w)" using get(2) assms(2) by (simp_all add: alive_def world_ok_def)
  from get(3) pin_entry_cases [OF this(2,1)] show ?thesis
    by (cases rule: arena_get_cases) (auto simp: get(1) arena_shape_def elim!: pin_entry_cases [OF \<open>arena_ok (aw_mem w)\<close> \<open>me < _\<close>])
next
  case (get_address me env a am' found)
  have "me < length (am_active (aw_mem w))" "arena_ok (aw_mem w)" using get_address(2) assms(2) by (simp_all add: alive_def world_ok_def)
  with get_address(3) show ?thesis
    by (auto simp: get_address(1) get_address_def arena_shape_def elim!: pin_entry_cases [rotated 2])
next
  case (forget env key am' res)
  then have "weakens (aw_dead w) (aw_mem w) am'"
    using evict_weakens weakens_refl by (auto simp: arena_forget_def split: sum.splits option.splits)
  then show ?thesis using weakens_shape forget(1) by simp
next
  case (forget_at env a am' res)
  then have "weakens (aw_dead w) (aw_mem w) am'"
    using evict_weakens weakens_refl by (auto simp: forget_address_def split: sum.splits if_splits)
  then show ?thesis using weakens_shape forget_at(1) by simp
next
  case (reset env am' res)
  then show ?thesis using weakens_shape [OF reset_weakens] by simp
next
  case (reclaim me env am' res)
  then have "weakens (aw_dead w) (aw_mem w) am'"
    using reclaim_weakens [of "aw_mem w" env "aw_dead w"] weakens_refl assms(2)
    by (auto simp: reclaim_dead_pins_def holds_only_def world_ok_def split: sum.splits)
  then show ?thesis using weakens_shape reclaim(1) by simp
next
  case (claim env am' me)
  then show ?thesis
    by (auto simp: arena_claim_def arena_shape_def clear_reader_def Let_def dest!: claim_rows_cases split: if_splits sum.splits option.splits prod.splits)
qed (simp_all add: arena_shape_def entry_drop_def inner_drop_def)

lemma steps_shape: "arena_steps w w' \<Longrightarrow> world_ok w \<Longrightarrow> arena_shape (aw_mem w') = arena_shape (aw_mem w)"
  by (induction rule: arena_steps.induct) (use step_shape steps_keep_world in force)+

lemma steps_one: "arena_step w w' \<Longrightarrow> arena_steps w w'"
  using arena_steps.intros by blast

lemma steps_two: "arena_step w w' \<Longrightarrow> arena_step w' w'' \<Longrightarrow> arena_steps w w''"
  using arena_steps.intros by blast

text \<open>A look-up by address returns what was written under that generation.\<close>

lemma get_address_reads:
  assumes ok: "world_ok w" and "alive w me" and g: "get_address env me (aw_mem w) a = (am', Some e)"
  shows "\<exists>key r. aw_log w (ad_generation a) = Some (key, r) \<and> entry_body am' e = re_body r"
proof -
  let ?w = "w\<lparr>aw_mem := am', aw_entries := e # aw_entries w\<rparr>"
  have st: "arena_step w ?w" using arena_step.get_address [OF assms(2) g] by simp
  have "me < length (am_active (aw_mem w))" "arena_ok (aw_mem w)" using assms(1,2) by (simp_all add: alive_def world_ok_def)
  then have "en_generation e = ad_generation a"
    using g by (auto simp: get_address_def entry_pinned_def Let_def elim!: pin_entry_cases [rotated 2])
  then show ?thesis using entry_reads [OF step_keeps_world [OF st ok], of e] by (auto simp: reads_def)
qed

section \<open>Steps\<close>

text \<open>
  Each connection has the lane of its process. \<open>kw_puts\<close> records what was put under which revision. A
  step that publishes needs room in its lane: the counter of an id has 40 bits. Resetting the transport
  is left out; the code asks for quiescence around it.
\<close>

record 'c cache_world =
  kw_fleet :: fleet
  kw_arena :: arena_world
  kw_conns :: "(nat \<times> 'c cache_conn) list"
  kw_puts :: "cache_revision \<Rightarrow> (bytes \<times> bytes \<times> bytes) option"

datatype cache_event = Wrote bytes "bytes option" cache_revision | Polled nat | Quiet

definition env_for :: "netid_ops \<Rightarrow> cache_layout \<Rightarrow> cache_env \<Rightarrow> bool" where
  "env_for nid L env \<longleftrightarrow> ke_netid env = nid \<and> ke_layout env = L"

definition at_node :: "'c cache_world \<Rightarrow> nat \<Rightarrow> fleet" where
  "at_node w node = (kw_fleet w)\<lparr>fl_node_id := node\<rparr>"

definition lane_room :: "cache_layout \<Rightarrow> 'c cache_world \<Rightarrow> nat \<Rightarrow> bool" where
  "lane_room L w node \<longleftrightarrow> snd (the (fleet_lane_head (at_node w node) (mutation_typed L) node)) \<le> NETID_COUNTER_MAX"

abbreviation arena_of :: "'c cache_world \<Rightarrow> arena_mem" where
  "arena_of w \<equiv> aw_mem (kw_arena w)"

definition put_log :: "address option \<Rightarrow> arena_record \<Rightarrow> (nat \<Rightarrow> (arena_key option \<times> arena_record) option)
    \<Rightarrow> nat \<Rightarrow> (arena_key option \<times> arena_record) option" where
  "put_log kept r lg = (case kept of Some a \<Rightarrow> lg(ad_generation a \<mapsto> (None, r)) | None \<Rightarrow> lg)"

definition wrote :: "bytes \<Rightarrow> bytes option \<Rightarrow> cache_error + cache_revision \<Rightarrow> cache_event" where
  "wrote name key res = (case res of Inr r \<Rightarrow> Wrote name key r | Inl _ \<Rightarrow> Quiet)"

inductive cache_step :: "'c lru_ops \<Rightarrow> netid_ops \<Rightarrow> cache_layout \<Rightarrow> 'c cache_world \<Rightarrow> cache_event \<Rightarrow> 'c cache_world \<Rightarrow> bool"
  for lru nid L where
  elsewhere: "arena_step (kw_arena w) aw' \<Longrightarrow> cache_step lru nid L w Quiet (w\<lparr>kw_arena := aw'\<rparr>)"
| connect: "env_for nid L env \<Longrightarrow> node < fl_capacity (kw_fleet w) \<Longrightarrow>
     cache_new env (at_node w node) (arena_of w) = Some (fl', am', Inr conn) \<or>
       replay_retained env (at_node w node) (arena_of w) = Some (fl', am', Inr conn) \<Longrightarrow>
     arena_step (kw_arena w) aw' \<Longrightarrow> aw_mem aw' = am' \<Longrightarrow>
     cache_step lru nid L w Quiet (w\<lparr>kw_fleet := fl', kw_arena := aw', kw_conns := kw_conns w @ [(node, conn)]\<rparr>)"
| opens: "i < length (kw_conns w) \<Longrightarrow> kw_conns w ! i = (node, conn) \<Longrightarrow> env_for nid L env \<Longrightarrow> 0 < capacity \<Longrightarrow>
     open_store lru env conn name capacity = (conn', res) \<Longrightarrow>
     cache_step lru nid L w Quiet (w\<lparr>kw_conns := (kw_conns w)[i := (node, conn')]\<rparr>)"
| put: "i < length (kw_conns w) \<Longrightarrow> kw_conns w ! i = (node, conn) \<Longrightarrow> env_for nid L env \<Longrightarrow> lane_room L w node \<Longrightarrow>
     alive (kw_arena w) (cn_reader conn) \<Longrightarrow> env_ok (kw_arena w) (ke_arena env) \<Longrightarrow>
     store_put lru env clock (at_node w node) (arena_of w) conn name key value ttl = Some (fl', am', conn', res) \<Longrightarrow>
     kept = put_stored env clock (cn_reader conn) (arena_of w) name key value ttl \<Longrightarrow>
     cache_step lru nid L w (wrote name (Some key) res)
       (w\<lparr>kw_fleet := fl',
          kw_arena := (kw_arena w)\<lparr>aw_mem := am', aw_log := put_log kept (put_record value (put_deadline clock ttl)) (aw_log (kw_arena w))\<rparr>,
          kw_conns := (kw_conns w)[i := (node, conn')],
          kw_puts := (if kept = None then kw_puts w else (kw_puts w)(next_revision env (at_node w node) \<mapsto> (name, key, value)))\<rparr>)"
| delete: "i < length (kw_conns w) \<Longrightarrow> kw_conns w ! i = (node, conn) \<Longrightarrow> env_for nid L env \<Longrightarrow> lane_room L w node \<Longrightarrow>
     store_delete lru env (at_node w node) conn name key = Some (fl', conn', res) \<Longrightarrow>
     cache_step lru nid L w (wrote name (Some key) res) (w\<lparr>kw_fleet := fl', kw_conns := (kw_conns w)[i := (node, conn')]\<rparr>)"
| clear: "i < length (kw_conns w) \<Longrightarrow> kw_conns w ! i = (node, conn) \<Longrightarrow> env_for nid L env \<Longrightarrow> lane_room L w node \<Longrightarrow>
     store_reset lru env (at_node w node) conn name = Some (fl', conn', res) \<Longrightarrow>
     cache_step lru nid L w (wrote name None res) (w\<lparr>kw_fleet := fl', kw_conns := (kw_conns w)[i := (node, conn')]\<rparr>)"
| poll: "i < length (kw_conns w) \<Longrightarrow> kw_conns w ! i = (node, conn) \<Longrightarrow> env_for nid L env \<Longrightarrow>
     cache_poll_all lru env (at_node w node) (arena_of w) conn = Some (fl', conn', p) \<Longrightarrow>
     cache_step lru nid L w (Polled i) (w\<lparr>kw_fleet := fl', kw_conns := (kw_conns w)[i := (node, conn')]\<rparr>)"
| recover: "i < length (kw_conns w) \<Longrightarrow> kw_conns w ! i = (node, conn) \<Longrightarrow> env_for nid L env \<Longrightarrow>
     recover_from_backing lru env (at_node w node) conn = Some (fl', conn') \<Longrightarrow>
     cache_step lru nid L w Quiet (w\<lparr>kw_fleet := fl', kw_conns := (kw_conns w)[i := (node, conn')]\<rparr>)"
| read: "i < length (kw_conns w) \<Longrightarrow> kw_conns w ! i = (node, conn) \<Longrightarrow> alive (kw_arena w) (cn_reader conn) \<Longrightarrow>
     store_read_at lru aenv (arena_of w) conn name key now_ms = Some (am', conn', res, pinned) \<Longrightarrow>
     cache_step lru nid L w Quiet
       (w\<lparr>kw_arena := (kw_arena w)\<lparr>aw_mem := am', aw_entries := (case pinned of Some e \<Rightarrow> e # aw_entries (kw_arena w) | None \<Rightarrow> aw_entries (kw_arena w))\<rparr>,
          kw_conns := (kw_conns w)[i := (node, conn')]\<rparr>)"

inductive cache_run :: "'c lru_ops \<Rightarrow> netid_ops \<Rightarrow> cache_layout \<Rightarrow> 'c cache_world \<Rightarrow> 'c cache_world \<Rightarrow> bool" for lru nid L where
  stay: "cache_run lru nid L w w"
| step: "cache_run lru nid L w w' \<Longrightarrow> cache_step lru nid L w' ev w'' \<Longrightarrow> cache_run lru nid L w w''"

definition cache_start :: "fleet \<Rightarrow> nat \<Rightarrow> nat \<Rightarrow> bytes \<Rightarrow> 'c cache_world" where
  "cache_start fl slots readers ring =
     \<lparr>kw_fleet = fl, kw_arena = fresh_world slots readers ring, kw_conns = [], kw_puts = (\<lambda>_. None)\<rparr>"

section \<open>The invariant\<close>

abbreviation version_of :: "cache_layout \<Rightarrow> 'c cache_world \<Rightarrow> nat" where
  "version_of L w \<equiv> fleet_version (kw_fleet w) (mutation_typed L)"

abbreviation slots_of :: "'c cache_world \<Rightarrow> nat" where
  "slots_of w \<equiv> length (am_slots (arena_of w))"

fun genuine :: "'c cache_world \<Rightarrow> cache_mutation \<Rightarrow> bool" where
  "genuine w (CPut store key r e p) \<longleftrightarrow>
     (\<exists>value rec. kw_puts w r = Some (store, key, value) \<and> aw_log (kw_arena w) (ad_generation (pl_address p)) = Some (None, rec) \<and>
        re_body rec = value)"
| "genuine w m \<longleftrightarrow> True"

definition frame_ok :: "cache_layout \<Rightarrow> 'c cache_world \<Rightarrow> frame \<Rightarrow> bool" where
  "frame_ok L w f \<longleftrightarrow> (\<exists>m. cache_decode (slots_of w) f = Some m \<and> genuine w m \<and> rev_sequence (mutation_revision m) \<le> version_of L w)"

definition store_ok :: "'c lru_ops \<Rightarrow> ('c \<Rightarrow> bool) \<Rightarrow> 'c cache_world \<Rightarrow> bytes \<Rightarrow> 'c local_state \<Rightarrow> bool" where
  "store_ok lru good w n st \<longleftrightarrow> local_ok lru good st \<and> (\<forall>k p r e. entries lru st k = Some (Present p r e) \<longrightarrow> genuine w (CPut n k r e p))"

definition conn_ok :: "'c lru_ops \<Rightarrow> ('c \<Rightarrow> bool) \<Rightarrow> 'c cache_world \<Rightarrow> frame list list \<Rightarrow> nat \<times> 'c cache_conn \<Rightarrow> bool" where
  "conn_ok lru good w hs = (\<lambda>(node, conn). node < fl_capacity (kw_fleet w) \<and> cursor_ok hs (cn_cursor conn) \<and>
     (\<forall>n st. map_of (cn_stores conn) n = Some st \<longrightarrow> store_ok lru good w n st))"

definition cache_inv :: "'c lru_ops \<Rightarrow> ('c \<Rightarrow> bool) \<Rightarrow> netid_ops \<Rightarrow> cache_layout \<Rightarrow> 'c cache_world \<Rightarrow> frame list list \<Rightarrow> bool" where
  "cache_inv lru good nid L w hs \<longleftrightarrow>
     cache_layout_validate L = Inr () \<and> fleet_holds nid (kw_fleet w) (mutation_typed L) hs \<and>
     world_ok (kw_arena w) \<and> slots_of w \<le> u32_max \<and> length (am_ring (arena_of w)) \<le> u64_max \<and>
     (\<forall>h\<in>set hs. \<forall>f\<in>set h. frame_ok L w f) \<and> (\<forall>r. kw_puts w r \<noteq> None \<longrightarrow> rev_sequence r \<le> version_of L w) \<and>
     (\<forall>c\<in>set (kw_conns w). conn_ok lru good w hs c)"

text \<open>How a local store may evolve in one step of the world.\<close>

definition evolves :: "'c lru_ops \<Rightarrow> cache_layout \<Rightarrow> 'c cache_world \<Rightarrow> bytes \<Rightarrow> 'c local_state \<Rightarrow> 'c local_state \<Rightarrow> bool" where
  "evolves lru L w n st st' \<longleftrightarrow> (\<exists>run. st' = foldl (local_step lru) st run \<and> list_all (recovers_to (version_of L w)) run \<and>
     (\<forall>k p r e. (k, Present p r e) \<in> set (concat (map presents run)) \<longrightarrow> genuine w (CPut n k r e p)))"

definition conn_evolves :: "'c lru_ops \<Rightarrow> cache_layout \<Rightarrow> 'c cache_world \<Rightarrow> 'c cache_conn \<Rightarrow> 'c cache_conn \<Rightarrow> bool" where
  "conn_evolves lru L w conn conn' \<longleftrightarrow> (\<forall>n.
     case map_of (cn_stores conn) n of
       Some st \<Rightarrow> \<exists>st'. map_of (cn_stores conn') n = Some st' \<and> evolves lru L w n st st'
     | None \<Rightarrow> \<forall>st'. map_of (cn_stores conn') n = Some st' \<longrightarrow> (\<exists>c>0. st' = local_new lru c))"

definition grows :: "cache_layout \<Rightarrow> 'c cache_world \<Rightarrow> frame list list \<Rightarrow> frame list list \<Rightarrow> bool" where
  "grows L w hs hs' \<longleftrightarrow> length hs' = length hs \<and> (\<forall>j<length hs. \<exists>new. hs' ! j = hs ! j @ new \<and> (\<forall>f\<in>set new. frame_ok L w f))"

definition shared_delta :: "netid_ops \<Rightarrow> cache_layout \<Rightarrow> 'c cache_world \<Rightarrow> frame list list \<Rightarrow> 'c cache_world \<Rightarrow> frame list list \<Rightarrow> bool" where
  "shared_delta nid L w hs w' hs' \<longleftrightarrow>
     arena_steps (kw_arena w) (kw_arena w') \<and> (\<forall>r x. kw_puts w r = Some x \<longrightarrow> kw_puts w' r = Some x) \<and>
     (\<forall>r. kw_puts w' r \<noteq> None \<longrightarrow> rev_sequence r \<le> version_of L w') \<and>
     fleet_holds nid (kw_fleet w') (mutation_typed L) hs' \<and> fl_capacity (kw_fleet w') = fl_capacity (kw_fleet w) \<and>
     version_of L w \<le> version_of L w' \<and> grows L w' hs hs'"

definition conns_delta :: "'c lru_ops \<Rightarrow> cache_layout \<Rightarrow> 'c cache_world \<Rightarrow> 'c cache_world \<Rightarrow> frame list list \<Rightarrow> bool" where
  "conns_delta lru L w w' hs' \<longleftrightarrow> length (kw_conns w) \<le> length (kw_conns w') \<and>
     (\<forall>i<length (kw_conns w'). cursor_ok hs' (cn_cursor (snd (kw_conns w' ! i))) \<and>
        (if i < length (kw_conns w)
         then fst (kw_conns w' ! i) = fst (kw_conns w ! i) \<and> conn_evolves lru L w' (snd (kw_conns w ! i)) (snd (kw_conns w' ! i))
         else fst (kw_conns w' ! i) < fl_capacity (kw_fleet w') \<and> cn_stores (snd (kw_conns w' ! i)) = []))"

lemma cache_invD:
  assumes "cache_inv lru good nid L w hs"
  shows "cache_layout_validate L = Inr ()" "fleet_holds nid (kw_fleet w) (mutation_typed L) hs" "world_ok (kw_arena w)"
    "slots_of w \<le> u32_max" "length (am_ring (arena_of w)) \<le> u64_max"
    "h \<in> set hs \<Longrightarrow> f \<in> set h \<Longrightarrow> frame_ok L w f" "kw_puts w r \<noteq> None \<Longrightarrow> rev_sequence r \<le> version_of L w"
    "i < length (kw_conns w) \<Longrightarrow> kw_conns w ! i = (node, conn) \<Longrightarrow> conn_ok lru good w hs (node, conn)"
  using assms nth_mem [of i "kw_conns w"] unfolding cache_inv_def by auto

lemma conn_okD:
  assumes "conn_ok lru good w hs (node, conn)"
  shows "node < fl_capacity (kw_fleet w)" "cursor_ok hs (cn_cursor conn)" "map_of (cn_stores conn) n = Some st \<Longrightarrow> store_ok lru good w n st"
  using assms by (simp_all add: conn_ok_def)

lemma conn_evolvesD:
  assumes "conn_evolves lru L w conn conn'"
  shows "map_of (cn_stores conn) n = Some st \<Longrightarrow> \<exists>st'. map_of (cn_stores conn') n = Some st' \<and> evolves lru L w n st st'"
    "map_of (cn_stores conn) n = None \<Longrightarrow> map_of (cn_stores conn') n = Some st' \<Longrightarrow> \<exists>c>0. st' = local_new lru c"
  using spec [OF assms [unfolded conn_evolves_def], of n] by auto

lemma grows_cursor: "grows L w hs hs' \<Longrightarrow> cursor_ok hs c \<Longrightarrow> cursor_ok hs' c"
  unfolding grows_def cursor_ok_def by (metis length_append le_add1 order_trans)

lemma genuine_mono:
  assumes "world_ok (kw_arena w)" "arena_steps (kw_arena w) (kw_arena w')" "\<forall>r x. kw_puts w r = Some x \<longrightarrow> kw_puts w' r = Some x" "genuine w m"
  shows "genuine w' m"
  using assms(4) steps_log [OF assms(2,1)] assms(3) by (cases m) (fastforce)+

context lru_cache
begin

lemma evolves_ok:
  assumes ok: "store_ok ops good w n st" and mono: "\<And>m. genuine w m \<Longrightarrow> genuine w' m" and ev: "evolves ops L w' n st st'"
  shows "store_ok ops good w' n st'"
proof -
  obtain run where run: "st' = foldl (local_step ops) st run"
    "\<And>k p r e. (k, Present p r e) \<in> set (concat (map presents run)) \<Longrightarrow> genuine w' (CPut n k r e p)"
    using ev unfolding evolves_def by blast
  have lo: "local_ok ops good st" and en: "\<And>k p r e. entries ops st k = Some (Present p r e) \<Longrightarrow> genuine w (CPut n k r e p)"
    using ok unfolding store_ok_def by blast+
  have "genuine w' (CPut n k r e p)" if "entries ops st' k = Some (Present p r e)" for k p r e
    using run_presents [OF lo that [unfolded run(1)]] run(2) mono [OF en] by blast
  then show ?thesis using run_ok [OF lo] run(1) by (simp add: store_ok_def)
qed

lemma delta_inv:
  assumes inv: "cache_inv ops good nid L w hs" and sd: "shared_delta nid L w hs w' hs'" and cd: "conns_delta ops L w w' hs'"
  shows "cache_inv ops good nid L w' hs'"
proof -
  note iD = cache_invD [OF inv]
  have ar: "arena_steps (kw_arena w) (kw_arena w')" and g: "grows L w' hs hs'" and v: "version_of L w \<le> version_of L w'"
    and pm: "\<forall>r x. kw_puts w r = Some x \<longrightarrow> kw_puts w' r = Some x" using sd by (simp_all add: shared_delta_def)
  have mono: "\<And>m. genuine w m \<Longrightarrow> genuine w' m" using genuine_mono [OF iD(3) ar pm] .
  have shape: "slots_of w' = slots_of w" "length (am_ring (arena_of w')) = length (am_ring (arena_of w))"
    using steps_shape [OF ar iD(3)] by (simp_all add: arena_shape_def)
  have old: "frame_ok L w' f" if "h \<in> set hs" "f \<in> set h" for h f
    using iD(6) [OF that] mono v shape(1) unfolding frame_ok_def by (metis le_trans)
  have "frame_ok L w' f" if h': "h' \<in> set hs'" "f \<in> set h'" for h' f
  proof -
    obtain j where "j < length hs'" "h' = hs' ! j" using h'(1) by (metis in_set_conv_nth)
    then have j: "j < length hs" "h' = hs' ! j" using g by (simp_all add: grows_def)
    then obtain new where "h' = hs ! j @ new" "\<forall>f\<in>set new. frame_ok L w' f" using g unfolding grows_def by blast
    then show ?thesis using h'(2) old [of "hs ! j"] j(1) by auto
  qed
  moreover have conns: "conn_ok ops good w' hs' (kw_conns w' ! i)" if i: "i < length (kw_conns w')" for i
  proof (cases "i < length (kw_conns w)")
    case True
    obtain node conn node' conn' where c: "kw_conns w ! i = (node, conn)" "kw_conns w' ! i = (node', conn')" by fastforce
    have co: "conn_ok ops good w hs (node, conn)" using iD(8) [OF True c(1)] .
    have d: "cursor_ok hs' (cn_cursor conn')" "node' = node" "conn_evolves ops L w' conn conn'"
      using cd i True c unfolding conns_delta_def by fastforce+
    have "store_ok ops good w' n st'" if st': "map_of (cn_stores conn') n = Some st'" for n st'
    proof (cases "map_of (cn_stores conn) n")
      case None
      then obtain cap' where "0 < cap'" "st' = local_new ops cap'" using conn_evolvesD(2) [OF d(3) None st'] by blast
      then show ?thesis using new_ok new [of cap'] by (simp add: store_ok_def local_new_def)
    next
      case (Some st)
      then have "evolves ops L w' n st st'" using conn_evolvesD(1) [OF d(3) Some] st' by auto
      then show ?thesis using evolves_ok [OF conn_okD(3) [OF co Some] mono] by blast
    qed
    then show ?thesis using d(1,2) conn_okD(1) [OF co] sd by (simp add: c(2) conn_ok_def shared_delta_def)
  next
    case False
    then show ?thesis using cd i by (auto simp: conns_delta_def conn_ok_def split: prod.split)
  qed
  moreover from conns have "\<forall>c\<in>set (kw_conns w'). conn_ok ops good w' hs' c" unfolding all_set_conv_all_nth by blast
  ultimately show ?thesis
    using iD(1,4,5) shape sd steps_keep_world [OF ar iD(3)] unfolding cache_inv_def shared_delta_def by simp
qed

end

end
