(* ===== verification/Cache_Steps.thy ===== *)
theory Cache_Steps
  imports Cache_World
begin

text \<open>
  What each step of the cache world does: the shared part grows, every local store evolves by legitimate
  operations, and a connection that moves its cursor has processed what it passed.
\<close>

section \<open>Outcomes\<close>

abbreviation conn_at :: "'c cache_world \<Rightarrow> nat \<Rightarrow> 'c cache_conn" where
  "conn_at w i \<equiv> snd (kw_conns w ! i)"

text \<open>A mutation of the key that the connection has not read yet.\<close>

definition pending_at :: "'c cache_world \<Rightarrow> frame list list \<Rightarrow> nat \<Rightarrow> bytes \<Rightarrow> bytes \<Rightarrow> cache_revision \<Rightarrow> bool" where
  "pending_at w hs i n k r \<longleftrightarrow> (\<exists>j c m. j < length hs \<and> c < length (hs ! j) \<and>
     next_counter (lc_lanes (cn_cursor (conn_at w i)) ! j) \<le> c \<and> cache_decode (slots_of w) (hs ! j ! c) = Some m \<and>
     mutation_store m = n \<and> concerns (OApply (\<lambda>_. None) m) k r)"

definition seen :: "'c lru_ops \<Rightarrow> 'c cache_world \<Rightarrow> nat \<Rightarrow> bytes \<Rightarrow> bytes \<Rightarrow> cache_revision \<Rightarrow> bool" where
  "seen lru w i n k r \<longleftrightarrow> (\<exists>st. map_of (cn_stores (conn_at w i)) n = Some st \<and> (lcs_coherent st \<longrightarrow> covered lru st k r))"

definition drained :: "'c lru_ops \<Rightarrow> cache_layout \<Rightarrow> 'c cache_world \<Rightarrow> frame list list \<Rightarrow> nat \<Rightarrow> 'c cache_world \<Rightarrow> bool" where
  "drained lru L w hs i w' \<longleftrightarrow> (\<forall>n k r. map_of (cn_stores (conn_at w i)) n \<noteq> None \<longrightarrow> pending_at w hs i n k r \<longrightarrow>
     rev_sequence r \<le> version_of L w \<longrightarrow> seen lru w' i n k r)"

definition outcome_of :: "'c lru_ops \<Rightarrow> netid_ops \<Rightarrow> cache_layout \<Rightarrow> 'c cache_world \<Rightarrow> frame list list \<Rightarrow> cache_event
    \<Rightarrow> 'c cache_world \<Rightarrow> frame list list \<Rightarrow> bool" where
  "outcome_of lru nid L w hs ev w' hs' \<longleftrightarrow> shared_delta nid L w hs w' hs' \<and> conns_delta lru L w w' hs' \<and>
     (\<forall>i<length (kw_conns w). lc_lanes (cn_cursor (conn_at w' i)) = lc_lanes (cn_cursor (conn_at w i)) \<or> drained lru L w hs i w') \<and>
     (\<forall>i. ev = Polled i \<longrightarrow> drained lru L w hs i w') \<and>
     (\<forall>n ko r. ev = Wrote n ko r \<longrightarrow> rev_sequence r \<le> version_of L w' \<and>
        (\<forall>i k. i < length (kw_conns w) \<longrightarrow> ko = None \<or> ko = Some k \<longrightarrow> pending_at w' hs' i n k r))"

section \<open>The shared part\<close>

lemma quiet_shared:
  assumes inv: "cache_inv lru good nid L w hs" and "arena_steps (kw_arena w) (kw_arena w')" "kw_puts w' = kw_puts w"
    and fl: "kw_fleet w' = kw_fleet w \<or> (\<exists>node<fl_capacity (kw_fleet w). kw_fleet w' = at_node w node)"
  shows "shared_delta nid L w hs w' hs"
proof -
  note iD = cache_invD [OF inv]
  have "fleet_holds nid (kw_fleet w') (mutation_typed L) hs \<and> version_of L w' = version_of L w \<and> fl_capacity (kw_fleet w') = fl_capacity (kw_fleet w)"
    using fl holds_node [OF iD(2)] iD(2) by (auto simp: at_node_def)
  then show ?thesis using assms(2,3) iD(7) by (auto simp: shared_delta_def grows_def)
qed

lemma holds_at_node:
  assumes inv: "cache_inv lru good nid L w hs" and "node < fl_capacity (kw_fleet w)" "env_for nid L env"
  shows "fleet_holds (ke_netid env) (at_node w node) (mutations_of env) hs" "fleet_version (at_node w node) (mutation_typed L) = version_of L w"
    "fl_node_id (at_node w node) = node" "fl_capacity (at_node w node) = fl_capacity (kw_fleet w)" "cache_layout_validate (ke_layout env) = Inr ()"
    "node < length hs"
  using holds_node [OF cache_invD(2) [OF inv] assms(2)] cache_invD(1,2) [OF inv] assms(2,3) layout_per_node
  by (auto simp: at_node_def env_for_def fleet_holds_def ring_lane_count_def)

lemma ready_at_node:
  assumes inv: "cache_inv lru good nid L w hs" and "node < fl_capacity (kw_fleet w)" "env_for nid L env" "lane_room L w node"
  shows "ready env (at_node w node) hs"
proof -
  note h = holds_at_node [OF inv assms(2,3)]
  have "fleet_lane_head (at_node w node) (mutations_of env) node = Some (at_node w node, length (hs ! node))"
    using lane_head_holds [OF h(1) layout_per_node [OF h(5)] h(6)] .
  then show ?thesis using assms(3,4) h by (simp add: ready_def lane_room_def env_for_def)
qed

lemma published_shared:
  assumes inv: "cache_inv lru good nid L w hs" and node: "node < fl_capacity (kw_fleet w)" "env_for nid L env"
    and pub: "published env (slots_of w) (at_node w node) hs (kw_fleet w') hs' m"
    and ar: "arena_steps (kw_arena w) (kw_arena w')" and gen: "genuine w' m"
    and puts: "\<forall>r x. kw_puts w r = Some x \<longrightarrow> kw_puts w' r = Some x"
      "\<forall>r. kw_puts w' r \<noteq> None \<longrightarrow> kw_puts w r \<noteq> None \<or> r = mutation_revision m"
  shows "shared_delta nid L w hs w' hs'" "rev_sequence (mutation_revision m) \<le> version_of L w'"
    "\<exists>f. hs' ! node = hs ! node @ [f] \<and> cache_decode (slots_of w') f = Some m" "length hs' = length hs" "node < length hs"
proof -
  note iD = cache_invD [OF inv] and h = holds_at_node [OF inv node]
  have e: "ke_netid env = nid" "ke_layout env = L" using node(2) by (simp_all add: env_for_def)
  have slots: "slots_of w' = slots_of w" using steps_shape [OF ar iD(3)] by (simp add: arena_shape_def)
  obtain f where f: "cache_decode (slots_of w) f = Some m" "hs' = hs[node := hs ! node @ [f]]" using pub h(3) by (auto simp: published_def)
  have p: "node < length hs" "fleet_holds nid (kw_fleet w') (mutation_typed L) hs'" "mutation_revision m = next_revision env (at_node w node)"
    "version_of L w' = version_of L w + 1" "fl_capacity (kw_fleet w') = fl_capacity (kw_fleet w)"
    using pub h(2,3,4) e by (simp_all add: published_def)
  have "rev_sequence (mutation_revision m) = version_of L w + 1"
    using next_revision_holds [OF h(1,5)] h(2) e by (simp add: p(3))
  then show seq: "rev_sequence (mutation_revision m) \<le> version_of L w'" using p(4) by simp
  then have "frame_ok L w' f" using f(1) gen slots by (auto simp: frame_ok_def)
  then have g: "grows L w' hs hs'" using p(1) by (auto simp: grows_def f(2) nth_list_update)
  have "rev_sequence r \<le> version_of L w'" if "kw_puts w' r \<noteq> None" for r using puts(2) that iD(7) [of r] p(4) seq by fastforce
  then show "shared_delta nid L w hs w' hs'" using ar puts(1) p g by (auto simp: shared_delta_def)
  show "\<exists>f. hs' ! node = hs ! node @ [f] \<and> cache_decode (slots_of w') f = Some m" "length hs' = length hs" "node < length hs"
    using f p(1) slots by auto
qed

lemma published_pending:
  assumes inv: "cache_inv lru good nid L w hs" and f: "hs' ! node = hs ! node @ [f]" "cache_decode (slots_of w') f = Some m"
    and hs: "length hs' = length hs" "node < length hs" and i: "i < length (kw_conns w)"
    and "lc_lanes (cn_cursor (conn_at w' i)) = lc_lanes (cn_cursor (conn_at w i))" "mutation_store m = n" "concerns (OApply (\<lambda>_. None) m) k r"
  shows "pending_at w' hs' i n k r"
proof -
  obtain nd conn where "kw_conns w ! i = (nd, conn)" by force
  then have "cursor_ok hs (cn_cursor (conn_at w i))" using conn_okD(2) [OF cache_invD(8) [OF inv i]] by simp
  then have "next_counter (lc_lanes (cn_cursor (conn_at w i)) ! node) \<le> length (hs ! node)" using hs(2) by (simp add: cursor_ok_def)
  then show ?thesis unfolding pending_at_def
    using assms by (intro exI [of _ node] exI [of _ "length (hs ! node)"] exI [of _ m]) simp
qed

section \<open>The connections\<close>

lemma evolves_refl: "evolves lru L w n st st"
  unfolding evolves_def by (rule exI [of _ "[]"]) simp

lemma conn_evolves_refl: "conn_evolves lru L w conn conn"
  by (auto simp: conn_evolves_def evolves_refl split: option.split)

lemma evolves_step:
  assumes "recovers_to (version_of L w) op" "\<And>k p r e. (k, Present p r e) \<in> set (presents op) \<Longrightarrow> genuine w (CPut n k r e p)"
  shows "evolves lru L w n st (local_step lru st op)"
  unfolding evolves_def by (rule exI [of _ "[op]"]) (use assms in auto)

lemma with_local_evolves:
  assumes "\<And>st. map_of (cn_stores conn) name = Some st \<Longrightarrow> f st = local_step lru st op" "recovers_to (version_of L w) op"
    and "\<And>k p r e. (k, Present p r e) \<in> set (presents op) \<Longrightarrow> genuine w (CPut name k r e p)"
  shows "conn_evolves lru L w conn (with_local name f conn)"
  using assms evolves_step [OF assms(2,3)] by (auto simp: conn_evolves_def with_local_store evolves_refl split: option.split)

lemma conns_one:
  assumes inv: "cache_inv lru good nid L w hs" and i: "i < length (kw_conns w)" "kw_conns w ! i = (node, conn)"
    and w': "kw_conns w' = (kw_conns w)[i := (node, conn')]" and g: "grows L w' hs hs'"
    and c: "conn_evolves lru L w' conn conn'" "cursor_ok hs' (cn_cursor conn')"
  shows "conns_delta lru L w w' hs'"
proof -
  have "cursor_ok hs' (cn_cursor (conn_at w j))" if "j < length (kw_conns w)" for j
  proof -
    obtain nd cn where "kw_conns w ! j = (nd, cn)" by force
    then show ?thesis using conn_okD(2) [OF cache_invD(8) [OF inv that]] grows_cursor [OF g] by simp
  qed
  then show ?thesis using i c by (auto simp: conns_delta_def w' nth_list_update conn_evolves_refl)
qed

lemma conns_same:
  assumes inv: "cache_inv lru good nid L w hs" and "kw_conns w' = kw_conns w"
  shows "conns_delta lru L w w' hs"
proof -
  have "cursor_ok hs (cn_cursor (conn_at w j))" if "j < length (kw_conns w)" for j
  proof -
    obtain nd cn where "kw_conns w ! j = (nd, cn)" by force
    then show ?thesis using conn_okD(2) [OF cache_invD(8) [OF inv that]] by simp
  qed
  then show ?thesis using assms(2) by (simp add: conns_delta_def conn_evolves_refl)
qed

lemma sharedD: "shared_delta nid L w hs w' hs' \<Longrightarrow> grows L w' hs hs'"
  by (simp add: shared_delta_def)

lemma grows_refl: "grows L w hs hs"
  by (simp add: grows_def)

lemma quiet_outcome:
  assumes "shared_delta nid L w hs w' hs" "conns_delta lru L w w' hs"
    and "\<forall>i<length (kw_conns w). lc_lanes (cn_cursor (conn_at w' i)) = lc_lanes (cn_cursor (conn_at w i))"
  shows "outcome_of lru nid L w hs Quiet w' hs"
  using assms by (simp add: outcome_of_def)

section \<open>Writers\<close>

text \<open>The common part of the three publishing operations of a handle.\<close>

lemma writer_outcome:
  assumes inv: "cache_inv lru good nid L w hs" and i: "i < length (kw_conns w)" "kw_conns w ! i = (node, conn)" and env: "env_for nid L env"
    and w': "kw_conns w' = (kw_conns w)[i := (node, conn')]" and ar: "arena_steps (kw_arena w) (kw_arena w')"
    and pub: "published env (slots_of w) (at_node w node) hs (kw_fleet w') hs' m" and gen: "genuine w' m"
    and puts: "\<forall>r x. kw_puts w r = Some x \<longrightarrow> kw_puts w' r = Some x" "\<forall>r. kw_puts w' r \<noteq> None \<longrightarrow> kw_puts w r \<noteq> None \<or> r = mutation_revision m"
    and ce: "conn_evolves lru L w' conn conn'" "cn_cursor conn' = cn_cursor conn" and ev: "ev = Quiet \<or> ev = Wrote name ko (mutation_revision m)"
    and m: "mutation_store m = name" "\<And>k. ko = None \<or> ko = Some k \<Longrightarrow> concerns (OApply (\<lambda>_. None) m) k (mutation_revision m)"
  shows "outcome_of lru nid L w hs ev w' hs'"
proof -
  have node: "node < fl_capacity (kw_fleet w)" and cur: "cursor_ok hs (cn_cursor conn)" using conn_okD(1,2) [OF cache_invD(8) [OF inv i]] .
  note ps = published_shared [OF inv node env pub ar gen puts]
  have cd: "conns_delta lru L w w' hs'"
    using conns_one [OF inv i w' sharedD [OF ps(1)] ce(1)] ce(2) grows_cursor [OF sharedD [OF ps(1)] cur] by simp
  have same: "lc_lanes (cn_cursor (conn_at w' j)) = lc_lanes (cn_cursor (conn_at w j))" if "j < length (kw_conns w)" for j
    using that i ce(2) by (auto simp: w' nth_list_update)
  obtain f where f: "hs' ! node = hs ! node @ [f]" "cache_decode (slots_of w') f = Some m" using ps(3) by blast
  have "pending_at w' hs' j name k (mutation_revision m)" if "j < length (kw_conns w)" "ko = None \<or> ko = Some k" for j k
    using published_pending [OF inv f ps(4,5) that(1) same [OF that(1)] m(1) m(2) [OF that(2)]] .
  then show ?thesis using ps(1,2) cd same ev by (auto simp: outcome_of_def)
qed

lemma failed_writer_outcome:
  assumes inv: "cache_inv lru good nid L w hs" and i: "i < length (kw_conns w)" "kw_conns w ! i = (node, conn)"
    and w': "kw_conns w' = (kw_conns w)[i := (node, conn)]" "kw_fleet w' = at_node w node" "kw_puts w' = kw_puts w"
    and ar: "arena_steps (kw_arena w) (kw_arena w')"
  shows "outcome_of lru nid L w hs Quiet w' hs"
proof -
  have node: "node < fl_capacity (kw_fleet w)" and cur: "cursor_ok hs (cn_cursor conn)" using conn_okD(1,2) [OF cache_invD(8) [OF inv i]] .
  have sd: "shared_delta nid L w hs w' hs" using quiet_shared [OF inv ar w'(3)] w'(2) node by blast
  show ?thesis
    using quiet_outcome [OF sd conns_one [OF inv i w'(1) grows_refl conn_evolves_refl cur]] i by (simp add: w'(1) nth_list_update)
qed

lemma delete_outcome:
  assumes inv: "cache_inv lru good nid L w hs" and i: "i < length (kw_conns w)" "kw_conns w ! i = (node, conn)" and env: "env_for nid L env"
    and room: "lane_room L w node" and del: "store_delete lru env (at_node w node) conn name key = Some (fl', conn', res)"
    and w': "w' = w\<lparr>kw_fleet := fl', kw_conns := (kw_conns w)[i := (node, conn')]\<rparr>"
  shows "\<exists>hs'. outcome_of lru nid L w hs (wrote name (Some key) res) w' hs'"
proof -
  have node: "node < fl_capacity (kw_fleet w)" using conn_okD(1) [OF cache_invD(8) [OF inv i]] .
  let ?m = "CDelete name key (next_revision env (at_node w node))"
  obtain res' where pd: "publish_delete env (at_node w node) name key = Some (fl', res')"
    and r: "(case res' of Inl e \<Rightarrow> conn' = conn \<and> res = Inl e
       | Inr (CDelete _ _ rv) \<Rightarrow> conn' = with_local name (\<lambda>st. install_missing lru st key rv) conn \<and> res = Inr rv | _ \<Rightarrow> False)"
    using del by (auto simp: store_delete_def split: option.splits sum.splits cache_mutation.splits)
  from publish_delete_logged [OF ready_at_node [OF inv node env room] pd refl, of "slots_of w"] show ?thesis
  proof (elim disjE conjE exE)
    fix e assume "fl' = at_node w node" "res' = Inl e"
    then show ?thesis using failed_writer_outcome [OF inv i, of w'] r arena_steps.stay by (auto simp: w' wrote_def)
  next
    fix hs' assume p: "published env (slots_of w) (at_node w node) hs fl' hs' ?m" "\<forall>m'. res' = Inr m' \<longrightarrow> m' = ?m"
    have "conn_evolves lru L w' conn (with_local name (\<lambda>st. local_step lru st (OMissing key (mutation_revision ?m))) conn)"
      by (rule with_local_evolves [where op = "OMissing key (mutation_revision ?m)"]) (simp_all add: recovers_to_def)
    then have "conn_evolves lru L w' conn conn' \<and> cn_cursor conn' = cn_cursor conn \<and>
        (wrote name (Some key) res = Quiet \<or> wrote name (Some key) res = Wrote name (Some key) (mutation_revision ?m))"
      using r p(2) conn_evolves_refl by (cases res') (auto simp: wrote_def)
    then have "outcome_of lru nid L w hs (wrote name (Some key) res) w' hs'"
      using p(1) by (intro writer_outcome [OF inv i env, where m = ?m and name = name and ko = "Some key" and conn' = conn'])
        (auto simp: w' intro: arena_steps.stay)
    then show ?thesis by blast
  qed
qed

lemma clear_outcome:
  assumes inv: "cache_inv lru good nid L w hs" and i: "i < length (kw_conns w)" "kw_conns w ! i = (node, conn)" and env: "env_for nid L env"
    and room: "lane_room L w node" and del: "store_reset lru env (at_node w node) conn name = Some (fl', conn', res)"
    and w': "w' = w\<lparr>kw_fleet := fl', kw_conns := (kw_conns w)[i := (node, conn')]\<rparr>"
  shows "\<exists>hs'. outcome_of lru nid L w hs (wrote name None res) w' hs'"
proof -
  have node: "node < fl_capacity (kw_fleet w)" using conn_okD(1) [OF cache_invD(8) [OF inv i]] .
  let ?m = "CReset name (next_revision env (at_node w node))"
  obtain res' where pd: "publish_reset env (at_node w node) name = Some (fl', res')"
    and r: "(case res' of Inl e \<Rightarrow> conn' = conn \<and> res = Inl e
       | Inr (CReset _ rv) \<Rightarrow> conn' = with_local name (\<lambda>st. reset_local lru st rv) conn \<and> res = Inr rv | _ \<Rightarrow> False)"
    using del by (auto simp: store_reset_def split: option.splits sum.splits cache_mutation.splits)
  from publish_reset_logged [OF ready_at_node [OF inv node env room] pd refl, of "slots_of w"] show ?thesis
  proof (elim disjE conjE exE)
    fix e assume "fl' = at_node w node" "res' = Inl e"
    then show ?thesis using failed_writer_outcome [OF inv i, of w'] r arena_steps.stay by (auto simp: w' wrote_def)
  next
    fix hs' assume p: "published env (slots_of w) (at_node w node) hs fl' hs' ?m" "\<forall>m'. res' = Inr m' \<longrightarrow> m' = ?m"
    have "conn_evolves lru L w' conn (with_local name (\<lambda>st. local_step lru st (OReset (mutation_revision ?m))) conn)"
      by (rule with_local_evolves [where op = "OReset (mutation_revision ?m)"]) (simp_all add: recovers_to_def)
    then have "conn_evolves lru L w' conn conn' \<and> cn_cursor conn' = cn_cursor conn \<and>
        (wrote name None res = Quiet \<or> wrote name None res = Wrote name None (mutation_revision ?m))"
      using r p(2) conn_evolves_refl by (cases res') (auto simp: wrote_def)
    then have "outcome_of lru nid L w hs (wrote name None res) w' hs'"
      using p(1) by (intro writer_outcome [OF inv i env, where m = ?m and name = name and ko = "None" and conn' = conn'])
        (auto simp: w' intro: arena_steps.stay)
    then show ?thesis by blast
  qed
qed

lemma put_arena:
  assumes ok: "world_ok aw" and al: "alive aw me" "env_ok aw (ke_arena env)"
    and st: "arena_store (ke_arena env) me (aw_mem aw) r = (am1, res)"
  shows "arena_step aw (aw\<lparr>aw_mem := am1, aw_log := put_log (case res of Inr a \<Rightarrow> Some a | Inl _ \<Rightarrow> None) r (aw_log aw)\<rparr>)"
    "res = Inr a \<Longrightarrow> ad_slot a < length (am_slots (aw_mem aw)) \<and> 0 < ad_generation a \<and> ad_generation a \<le> u64_max"
proof -
  have "write_record (ke_arena env) me (aw_mem aw) None r = (am1, res)" using st by (simp add: arena_store_def)
  note w = this
  show "arena_step aw (aw\<lparr>aw_mem := am1, aw_log := put_log (case res of Inr a \<Rightarrow> Some a | Inl _ \<Rightarrow> None) r (aw_log aw)\<rparr>)"
    using arena_step.write_step [OF al _ w] by (cases res) (simp_all add: put_log_def)
  show "res = Inr a \<Longrightarrow> ad_slot a < length (am_slots (aw_mem aw)) \<and> 0 < ad_generation a \<and> ad_generation a \<le> u64_max"
    using write_shape(2) [OF _ al(2) _ w] ok by (simp add: world_ok_def)
qed

lemma arena_world_swap: "(aw::arena_world)\<lparr>aw_log := l, aw_mem := x\<rparr> = aw\<lparr>aw_mem := x, aw_log := l\<rparr>"
  by (cases aw) simp

lemma next_revision_fresh:
  assumes inv: "cache_inv lru good nid L w hs" and "node < fl_capacity (kw_fleet w)" "env_for nid L env"
  shows "kw_puts w (next_revision env (at_node w node)) = None"
proof (rule ccontr)
  note h = holds_at_node [OF assms]
  assume "kw_puts w (next_revision env (at_node w node)) \<noteq> None"
  then have "rev_sequence (next_revision env (at_node w node)) \<le> version_of L w" using cache_invD(7) [OF inv] by blast
  then show False using next_revision_holds [OF h(1,5)] h(2) assms(3) by (simp add: env_for_def)
qed

lemma put_outcome:
  assumes inv: "cache_inv lru good nid L w hs" and i: "i < length (kw_conns w)" "kw_conns w ! i = (node, conn)" and env: "env_for nid L env"
    and room: "lane_room L w node" and al: "alive (kw_arena w) (cn_reader conn)" "env_ok (kw_arena w) (ke_arena env)"
    and put: "store_put lru env clock (at_node w node) (arena_of w) conn name key value ttl = Some (fl', am', conn', res)"
    and kept: "kept = put_stored env clock (cn_reader conn) (arena_of w) name key value ttl"
    and w': "w' = w\<lparr>kw_fleet := fl',
          kw_arena := (kw_arena w)\<lparr>aw_mem := am', aw_log := put_log kept (put_record value (put_deadline clock ttl)) (aw_log (kw_arena w))\<rparr>,
          kw_conns := (kw_conns w)[i := (node, conn')],
          kw_puts := (if kept = None then kw_puts w else (kw_puts w)(next_revision env (at_node w node) \<mapsto> (name, key, value)))\<rparr>"
  shows "\<exists>hs'. outcome_of lru nid L w hs (wrote name (Some key) res) w' hs'"
proof -
  note iD = cache_invD [OF inv]
  have node: "node < fl_capacity (kw_fleet w)" using conn_okD(1) [OF cache_invD(8) [OF inv i]] .
  let ?me = "cn_reader conn" and ?am = "arena_of w" and ?fl = "at_node w node" and ?r = "put_record value (put_deadline clock ttl)"
  obtain am1 sto where st: "arena_store (ke_arena env) ?me ?am ?r = (am1, sto)" by force
  note pa = put_arena [OF iD(3) al st]
  obtain res' where pp: "publish_put env clock ?me ?fl ?am name key value ttl = Some (fl', am', res')"
    and r: "(case res' of Inl e \<Rightarrow> conn' = conn \<and> res = Inl e
       | Inr (CPut _ _ rv ex p) \<Rightarrow> conn' = with_local name (\<lambda>st. install_local lru st key p rv ex) conn \<and> res = Inr rv | _ \<Rightarrow> False)"
    using put by (auto simp: store_put_def split: option.splits sum.splits cache_mutation.splits)
  have kept_sto: "kept = Some a \<Longrightarrow> sto = Inr a" for a using kept st by (simp add: put_stored_def split: sum.splits)
  have addr: "ad_slot a < slots_of w \<and> ad_slot a \<le> u32_max \<and> 0 < ad_generation a \<and> ad_generation a \<le> u64_max"
    if "put_stored env clock ?me ?am name key value ttl = Some a" for a
    using pa(2) [OF kept_sto [OF that [folded kept]]] iD(4) by simp
  note pl = publish_put_logged [OF ready_at_node [OF inv node env room] pp addr iD(5), folded kept]
  show ?thesis
  proof (cases kept)
    case None
    have k: "fl' = ?fl" "\<exists>e. res' = Inl e" "am' = ?am \<or> am' = am1 \<and> validate_put (ke_layout env) ?am name key value = Inr ()"
      using pl None st by simp_all
    have "arena_steps (kw_arena w) ((kw_arena w)\<lparr>aw_mem := am'\<rparr>)"
    proof (cases "am' = ?am")
      case True
      then show ?thesis using arena_steps.stay [of "kw_arena w"] by simp
    next
      case False
      then have "am' = am1" "\<forall>a. sto \<noteq> Inr a" using k(3) None kept st by (auto simp: put_stored_def split: sum.splits)
      then show ?thesis using steps_one [OF pa(1)] by (cases sto) (simp_all add: put_log_def)
    qed
    then have "outcome_of lru nid L w hs Quiet w' hs"
      using failed_writer_outcome [OF inv i, of w'] k(1,2) r None by (auto simp: w' put_log_def)
    then show ?thesis using k(2) r by (auto simp: wrote_def)
  next
    case (Some a)
    let ?m = "put_mutation env clock ?fl name key value ttl a"
    obtain hs' where p: "published env (slots_of w) ?fl hs fl' hs' ?m" "\<forall>m. res' = Inr m \<longrightarrow> m = ?m"
      and am': "am' = am1 \<or> am' = fst (forget_address (ke_arena env) am1 a)"
      using pl Some st by auto
    let ?aw = "(kw_arena w)\<lparr>aw_mem := am1, aw_log := put_log kept ?r (aw_log (kw_arena w))\<rparr>"
    have s1: "arena_step (kw_arena w) ?aw" using pa(1) kept_sto [OF Some] Some by simp
    have "arena_step ?aw (?aw\<lparr>aw_mem := fst (forget_address (ke_arena env) am1 a)\<rparr>)"
      using arena_step.forget_at [of "ke_arena env" ?aw a "fst (forget_address (ke_arena env) am1 a)" "snd (forget_address (ke_arena env) am1 a)"]
      by simp
    then have "arena_step ?aw ((kw_arena w)\<lparr>aw_mem := fst (forget_address (ke_arena env) am1 a), aw_log := put_log kept ?r (aw_log (kw_arena w))\<rparr>)"
      by (simp add: arena_world_swap)
    then have ar: "arena_steps (kw_arena w) (kw_arena w')"
      using am' steps_one [OF s1] steps_two [OF s1] by (auto simp: w')
    have gen: "genuine w' ?m" by (simp add: w' Some put_log_def put_record_def record_body_def)
    have "conn_evolves lru L w' conn (with_local name (\<lambda>st. local_step lru st
        (OInstall key \<lparr>pl_address = a, pl_value_len = length value\<rparr> (mutation_revision ?m) (put_deadline clock ttl))) conn)"
      by (rule with_local_evolves [where op = "OInstall key \<lparr>pl_address = a, pl_value_len = length value\<rparr> (mutation_revision ?m) (put_deadline clock ttl)"])
        (use gen in \<open>auto simp: recovers_to_def\<close>)
    then have ce: "conn_evolves lru L w' conn conn' \<and> cn_cursor conn' = cn_cursor conn \<and>
        (wrote name (Some key) res = Quiet \<or> wrote name (Some key) res = Wrote name (Some key) (mutation_revision ?m))"
      using r p(2) conn_evolves_refl by (cases res') (auto simp: wrote_def)
    have "outcome_of lru nid L w hs (wrote name (Some key) res) w' hs'"
    proof (rule writer_outcome [OF inv i env _ ar _ gen, where conn' = conn' and ko = "Some key"])
      show "conn_evolves lru L w' conn conn'" "cn_cursor conn' = cn_cursor conn" using ce by blast+
      show "published env (slots_of w) ?fl hs (kw_fleet w') hs' ?m" using p(1) by (simp add: w')
      show "\<forall>r x. kw_puts w r = Some x \<longrightarrow> kw_puts w' r = Some x"
        using next_revision_fresh [OF inv node env] by (auto simp: w' Some)
    qed (use ce Some in \<open>auto simp: w'\<close>)
    then show ?thesis by blast
  qed
qed

section \<open>Readers\<close>

lemma local_outcome:
  assumes inv: "cache_inv lru good nid L w hs" and i: "i < length (kw_conns w)" "kw_conns w ! i = (node, conn)"
    and w': "kw_conns w' = (kw_conns w)[i := (node, conn')]" "kw_fleet w' = kw_fleet w \<or> kw_fleet w' = at_node w node" "kw_puts w' = kw_puts w"
    and ar: "arena_steps (kw_arena w) (kw_arena w')" and ce: "conn_evolves lru L w' conn conn'"
    and cur: "cn_cursor conn' = cn_cursor conn \<or> lc_lanes (cn_cursor conn') = head_cursors hs \<and> drained lru L w hs i w'"
    and ev: "ev = Quiet \<or> ev = Polled i \<and> drained lru L w hs i w'"
  shows "outcome_of lru nid L w hs ev w' hs"
proof -
  have node: "node < fl_capacity (kw_fleet w)" and ok: "cursor_ok hs (cn_cursor conn)" using conn_okD(1,2) [OF cache_invD(8) [OF inv i]] .
  have sd: "shared_delta nid L w hs w' hs" using quiet_shared [OF inv ar w'(3)] w'(2) node by blast
  have cd: "conns_delta lru L w w' hs"
    using conns_one [OF inv i w'(1) grows_refl ce] ok head_cursors_ok cur by force
  have "lc_lanes (cn_cursor (conn_at w' j)) = lc_lanes (cn_cursor (conn_at w j)) \<or> drained lru L w hs j w'" if "j < length (kw_conns w)" for j
    using that i cur by (cases "j = i") (auto simp: w'(1))
  then show ?thesis using sd cd ev by (auto simp: outcome_of_def)
qed

lemma open_outcome:
  assumes inv: "cache_inv lru good nid L w hs" and i: "i < length (kw_conns w)" "kw_conns w ! i = (node, conn)" and "0 < capacity"
    and op: "open_store lru env conn name capacity = (conn', res)" and w': "w' = w\<lparr>kw_conns := (kw_conns w)[i := (node, conn')]\<rparr>"
  shows "outcome_of lru nid L w hs Quiet w' hs"
proof (rule local_outcome [OF inv i])
  show "conn_evolves lru L w' conn conn'"
    using op assms(4) by (auto simp: open_store_def conn_evolves_def evolves_refl split: sum.splits option.splits if_splits)
  show "cn_cursor conn' = cn_cursor conn \<or> lc_lanes (cn_cursor conn') = head_cursors hs \<and> drained lru L w hs i w'"
    using op by (auto simp: open_store_def split: sum.splits option.splits)
qed (simp_all add: w' arena_steps.stay)

lemma read_outcome:
  assumes inv: "cache_inv lru good nid L w hs" and i: "i < length (kw_conns w)" "kw_conns w ! i = (node, conn)"
    and al: "alive (kw_arena w) (cn_reader conn)"
    and rd: "store_read_at lru aenv (arena_of w) conn name key now_ms = Some (am', conn', res, pinned)"
    and w': "w' = w\<lparr>kw_arena := (kw_arena w)\<lparr>aw_mem := am',
        aw_entries := (case pinned of Some e \<Rightarrow> e # aw_entries (kw_arena w) | None \<Rightarrow> aw_entries (kw_arena w))\<rparr>,
      kw_conns := (kw_conns w)[i := (node, conn')]\<rparr>"
  shows "outcome_of lru nid L w hs Quiet w' hs"
proof -
  let ?res = "arena_resolve aenv (cn_reader conn) (arena_of w)"
  obtain st st' where st: "map_of (cn_stores conn) name = Some st" "local_read_at lru ?res st key now_ms = (st', res)"
    "conn' = with_local name (\<lambda>_. st') conn"
    and am': "am' = arena_of w \<and> pinned = None \<or> (\<exists>a. get_address aenv (cn_reader conn) (arena_of w) a = (am', pinned))"
    using rd by (auto simp: store_read_at_def Let_def split: option.splits prod.splits cache_read.splits local_slot.splits)
  have ar: "arena_steps (kw_arena w) (kw_arena w')"
  proof (cases "am' = arena_of w \<and> pinned = None")
    case True
    then show ?thesis using arena_steps.stay [of "kw_arena w"] by (simp add: w')
  next
    case False
    then obtain a where "get_address aenv (cn_reader conn) (arena_of w) a = (am', pinned)" using am' by blast
    from steps_one [OF arena_step.get_address [OF al this]] show ?thesis by (simp add: w')
  qed
  have "conn_evolves lru L w' conn conn'"
    unfolding st(3) by (rule with_local_evolves [where op = "ORead ?res key now_ms"]) (use st(1,2) in \<open>auto simp: recovers_to_def\<close>)
  from local_outcome [OF inv i _ _ _ ar this] show ?thesis using st(3) by (simp add: w')
qed

lemma connect_outcome:
  assumes inv: "cache_inv lru good nid L w hs" and env: "env_for nid L env" and node: "node < fl_capacity (kw_fleet w)"
    and op: "cache_new env (at_node w node) (arena_of w) = Some (fl', am', Inr conn) \<or>
       replay_retained env (at_node w node) (arena_of w) = Some (fl', am', Inr conn)"
    and ar: "arena_step (kw_arena w) aw'"
    and w': "w' = w\<lparr>kw_fleet := fl', kw_arena := aw', kw_conns := kw_conns w @ [(node, conn)]\<rparr>"
  shows "outcome_of lru nid L w hs Quiet w' hs"
proof -
  note h = holds_at_node [OF inv node env]
  note per = layout_per_node [OF h(5)]
  have len: "length hs = fl_capacity (kw_fleet w)" using h(1,4) per by (simp add: fleet_holds_def ring_lane_count_def)
  have c: "fl' = at_node w node" "cn_stores conn = []" "cursor_ok hs (cn_cursor conn)"
  proof -
    have st: "cache_open env (at_node w node) (arena_of w) start = Some (fl', am', Inr conn) \<Longrightarrow>
        \<exists>c. start (at_node w node) (mutations_of env) = Some (fl', c) \<and> cn_stores conn = [] \<and> cn_cursor conn = c" for start
      by (auto simp: cache_open_def split: sum.splits prod.splits)
    have "fl' = at_node w node \<and> cn_stores conn = [] \<and>
        (lc_lanes (cn_cursor conn) = head_cursors hs \<or> lc_lanes (cn_cursor conn) = replicate (length hs) cursor_from_start)"
      using op st [of lane_cursor_at_head] st [of "\<lambda>fl T. map_option (Pair fl) (lane_cursor_from_start fl T)"]
        cursor_at_head_holds [OF h(1) per] per h(4) len
      by (auto simp: cache_new_def replay_retained_def lane_cursor_from_start_def)
    then show "fl' = at_node w node" "cn_stores conn = []" "cursor_ok hs (cn_cursor conn)"
      using head_cursors_ok by (auto simp: cursor_ok_def cursor_from_start_def)
  qed
  have sd: "shared_delta nid L w hs w' hs" by (rule quiet_shared [OF inv]) (use ar c(1) node in \<open>auto simp: w' intro: steps_one\<close>)
  have "cursor_ok hs (cn_cursor (conn_at w j))" if "j < length (kw_conns w)" for j
    using conns_same [OF inv refl] that by (simp add: conns_delta_def)
  then have "conns_delta lru L w w' hs"
    using c node by (auto simp: conns_delta_def w' nth_append conn_evolves_refl at_node_def)
  then show ?thesis by (rule quiet_outcome [OF sd]) (simp add: w' nth_append)
qed

lemma recover_outcome:
  assumes inv: "cache_inv lru good nid L w hs" and i: "i < length (kw_conns w)" "kw_conns w ! i = (node, conn)" and env: "env_for nid L env"
    and rec: "recover_from_backing lru env (at_node w node) conn = Some (fl', conn')"
    and w': "w' = w\<lparr>kw_fleet := fl', kw_conns := (kw_conns w)[i := (node, conn')]\<rparr>"
  shows "outcome_of lru nid L w hs Quiet w' hs"
proof -
  have node: "node < fl_capacity (kw_fleet w)" using conn_okD(1) [OF cache_invD(8) [OF inv i]] .
  note h = holds_at_node [OF inv node env]
  have e: "ke_layout env = L" using env by (simp add: env_for_def)
  have r: "fl' = at_node w node" "lc_lanes (cn_cursor conn') = head_cursors hs"
    "map_of (cn_stores conn') n = map_option (\<lambda>st. local_recover_from_backing lru st (version_of L w)) (map_of (cn_stores conn) n)" for n
    using rec h(2) cursor_at_head_holds [OF h(1) layout_per_node [OF h(5)]] current_version_holds [OF h(1)]
    by (auto simp: recover_from_backing_def for_each_store e)
  have v: "version_of L w' = version_of L w" using h(2) by (simp add: w' r(1))
  have "evolves lru L w' n st (local_recover_from_backing lru st (version_of L w))" for n st
    using evolves_step [where L = L and w = w' and op = "ORecover (version_of L w)" and n = n and lru = lru and st = st] by (simp add: recovers_to_def v)
  then have ce: "conn_evolves lru L w' conn conn'" using r(3) by (auto simp: conn_evolves_def split: option.split)
  have "drained lru L w hs i w'"
    using i r(3) by (auto simp: drained_def seen_def w' covered_def local_recover_from_backing_def local_accepts_def raise_floor_accepts)
  then show ?thesis using local_outcome [OF inv i _ _ _ _ ce] r(1,2) arena_steps.stay by (simp add: w')
qed

lemma concerns_resolve: "concerns (OApply res m) k r = concerns (OApply res' m) k r"
  by (cases m) simp_all

context lru_cache
begin

lemma poll_outcome:
  assumes inv: "cache_inv ops good nid L w hs" and i: "i < length (kw_conns w)" "kw_conns w ! i = (node, conn)" and env: "env_for nid L env"
    and poll: "cache_poll_all ops env (at_node w node) (arena_of w) conn = Some (fl', conn', p)"
    and w': "w' = w\<lparr>kw_fleet := fl', kw_conns := (kw_conns w)[i := (node, conn')]\<rparr>"
  shows "outcome_of ops nid L w hs (Polled i) w' hs"
proof -
  have co: "conn_ok ops good w hs (node, conn)" using cache_invD(8) [OF inv i] .
  note h = holds_at_node [OF inv conn_okD(1) [OF co] env]
  obtain resync resolve ms where ps: "fl' = at_node w node" "lc_lanes (cn_cursor conn') = head_cursors hs"
    "\<And>n. map_of (cn_stores conn') n = map_option (\<lambda>st. foldl (local_step ops) st (poll_run resync resolve ms n)) (map_of (cn_stores conn) n)"
    "\<And>m. m \<in> set ms \<Longrightarrow> \<exists>h\<in>set hs. \<exists>f\<in>set h. cache_decode (slots_of w) f = Some m"
    "\<And>j n. \<not> resync \<Longrightarrow> j < length hs \<Longrightarrow> next_counter (lc_lanes (cn_cursor conn) ! j) \<le> n \<Longrightarrow> n < length (hs ! j) \<Longrightarrow>
       \<exists>m\<in>set ms. cache_decode (slots_of w) (hs ! j ! n) = Some m"
    by (rule poll_stores [OF h(1,5) conn_okD(2) [OF co] poll refl]) blast
  have v: "version_of L w' = version_of L w" using h(2) by (simp add: w' ps(1))
  have rt: "list_all (recovers_to x) (poll_run resync resolve ms n)" for n x
    by (auto simp: poll_run_def recovers_to_def list_all_iff)
  have gen: "genuine w' m" if m: "m \<in> set ms" for m
  proof -
    obtain h f where f: "h \<in> set hs" "f \<in> set h" "cache_decode (slots_of w) f = Some m" using ps(4) [OF m] by blast
    then have "genuine w m" using cache_invD(6) [OF inv] by (fastforce simp: frame_ok_def)
    then show ?thesis by (cases m) (simp_all add: w')
  qed
  have pres: "genuine w' (CPut n k r e q)" if kp: "(k, Present q r e) \<in> set (concat (map presents (poll_run resync resolve ms n)))" for n k q r e
  proof -
    obtain m where "m \<in> set ms" "mutation_store m = n" "(k, Present q r e) \<in> set (presents (OApply resolve m))"
      using kp by (auto simp: poll_run_def split: if_splits)
    moreover have "genuine w' m" using gen \<open>m \<in> set ms\<close> .
    ultimately show ?thesis by (cases m rule: cache_mutation.exhaust) simp_all
  qed
  have "evolves ops L w' n st (foldl (local_step ops) st (poll_run resync resolve ms n))" for n st
    unfolding evolves_def using rt pres by blast
  then have ce: "conn_evolves ops L w' conn conn'" by (simp add: conn_evolves_def ps(3) split: option.split)
  have "seen ops w' i n k r" if st: "map_of (cn_stores (conn_at w i)) n \<noteq> None" and pn: "pending_at w hs i n k r" and "rev_sequence r \<le> version_of L w"
    for n k r
  proof -
    obtain st where st: "map_of (cn_stores conn) n = Some st" using st i by auto
    have lo: "local_ok ops good st" using conn_okD(3) [OF co st] by (simp add: store_ok_def)
    have "lcs_coherent (foldl (local_step ops) st (poll_run resync resolve ms n)) \<longrightarrow> covered ops (foldl (local_step ops) st (poll_run resync resolve ms n)) k r"
    proof (cases resync)
      case True
      have "lcs_coherent (foldl (local_step ops) st (poll_run resync resolve ms n)) = lcs_coherent (require_resync ops st)"
        using applies_coherent [OF resync_ok(1) [OF lo], of resolve "filter (\<lambda>m. mutation_store m = n) ms"] True
        by (simp add: poll_run_def foldl_map)
      then show ?thesis by (simp add: require_resync_def Let_def)
    next
      case False
      obtain j c m where j: "j < length hs" "c < length (hs ! j)" "next_counter (lc_lanes (cn_cursor conn) ! j) \<le> c"
        and m: "cache_decode (slots_of w) (hs ! j ! c) = Some m" "mutation_store m = n" "concerns (OApply (\<lambda>_. None) m) k r"
        using pn i by (auto simp: pending_at_def)
      have "m \<in> set ms" using ps(5) [OF False j(1,3,2)] m(1) by auto
      then have "OApply resolve m \<in> set (poll_run resync resolve ms n)" using m(2) by (simp add: poll_run_def)
      then show ?thesis using run_covers [OF lo _ _ rt] m(3) concerns_resolve order_refl by blast
    qed
    then show ?thesis using st i by (simp add: seen_def w' ps(3))
  qed
  then have "drained ops L w hs i w'" by (simp add: drained_def)
  then show ?thesis using local_outcome [OF inv i _ _ _ _ ce] ps(1,2) arena_steps.stay by (simp add: w')
qed

lemma step_outcome:
  assumes inv: "cache_inv ops good nid L w hs" and "cache_step ops nid L w ev w'"
  shows "\<exists>hs'. outcome_of ops nid L w hs ev w' hs'"
  using assms(2)
proof cases
  case (elsewhere aw')
  have "shared_delta nid L w hs w' hs" by (rule quiet_shared [OF inv]) (use elsewhere steps_one in auto)
  then have "outcome_of ops nid L w hs Quiet w' hs"
    using conns_same [OF inv, of w'] elsewhere by (intro quiet_outcome) simp_all
  then show ?thesis using elsewhere by blast
next
  case (connect env node fl' am' conn aw')
  then show ?thesis using connect_outcome [OF inv connect(3,4,5,6)] by blast
next
  case (opens i node conn env capacity nm conn1 res)
  then show ?thesis using open_outcome [OF inv] by blast
next
  case (put i node conn env clock name key val ttl fl' am' conn' res kept)
  then show ?thesis using put_outcome [OF inv put(3-10)] by blast
next
  case (delete i node conn env name key fl' conn' res)
  then show ?thesis using delete_outcome [OF inv] by blast
next
  case (clear i node conn env name fl' conn' res)
  then show ?thesis using clear_outcome [OF inv] by blast
next
  case (poll i node conn env fl' conn' p)
  then show ?thesis using poll_outcome [OF inv] by blast
next
  case (recover i node conn env fl' conn')
  then show ?thesis using recover_outcome [OF inv] by blast
next
  case (read i node conn aenv name key now_ms am' conn' res pinned)
  then show ?thesis using read_outcome [OF inv] by blast
qed

end

end
