(* ===== verification/Cache_Safety.thy ===== *)
theory Cache_Safety
  imports Cache_Steps
begin

text \<open>
  End-to-end safety of the cache: what a store hands out is what was put, and a process that has polled
  after a mutation never answers with anything older.
\<close>

section \<open>Runs\<close>

definition tracked :: "'c lru_ops \<Rightarrow> cache_layout \<Rightarrow> nat \<Rightarrow> bytes \<Rightarrow> bytes \<Rightarrow> cache_revision \<Rightarrow> 'c cache_world \<Rightarrow> frame list list \<Rightarrow> bool" where
  "tracked lru L i n k r w hs \<longleftrightarrow> i < length (kw_conns w) \<and> rev_sequence r \<le> version_of L w \<and>
     map_of (cn_stores (conn_at w i)) n \<noteq> None \<and> (pending_at w hs i n k r \<or> seen lru w i n k r)"

lemma outcomeD:
  assumes "outcome_of lru nid L w hs ev w' hs'"
  shows "shared_delta nid L w hs w' hs'" "conns_delta lru L w w' hs'"
    "i < length (kw_conns w) \<Longrightarrow> lc_lanes (cn_cursor (conn_at w' i)) = lc_lanes (cn_cursor (conn_at w i)) \<or> drained lru L w hs i w'"
    "ev = Polled i \<Longrightarrow> drained lru L w hs i w'"
    "ev = Wrote n ko r \<Longrightarrow> rev_sequence r \<le> version_of L w'"
    "ev = Wrote n ko r \<Longrightarrow> i < length (kw_conns w) \<Longrightarrow> ko = None \<or> ko = Some k \<Longrightarrow> pending_at w' hs' i n k r"
  using assms unfolding outcome_of_def by blast+

lemma conn_deltaD:
  assumes "conns_delta lru L w w' hs'" "i < length (kw_conns w)"
  shows "i < length (kw_conns w')" "conn_evolves lru L w' (conn_at w i) (conn_at w' i)"
  using assms unfolding conns_delta_def by auto

lemma pending_moves:
  assumes inv: "cache_inv lru good nid L w hs" and sd: "shared_delta nid L w hs w' hs'" and pn: "pending_at w hs i n k r"
    and c: "lc_lanes (cn_cursor (conn_at w' i)) = lc_lanes (cn_cursor (conn_at w i))"
  shows "pending_at w' hs' i n k r"
proof -
  have g: "grows L w' hs hs'" and "arena_steps (kw_arena w) (kw_arena w')" using sd by (simp_all add: shared_delta_def)
  then have slots: "slots_of w' = slots_of w" using steps_shape cache_invD(3) [OF inv] by (fastforce simp: arena_shape_def)
  obtain j x m where j: "j < length hs" "x < length (hs ! j)" "next_counter (lc_lanes (cn_cursor (conn_at w i)) ! j) \<le> x"
    "cache_decode (slots_of w) (hs ! j ! x) = Some m" "mutation_store m = n" "concerns (OApply (\<lambda>_. None) m) k r"
    using pn unfolding pending_at_def by blast
  obtain new where "hs' ! j = hs ! j @ new" "length hs' = length hs" using g j(1) unfolding grows_def by blast
  then show ?thesis unfolding pending_at_def
    using j c slots by (intro exI [of _ j] exI [of _ x] exI [of _ m]) (simp add: nth_append)
qed

context lru_cache
begin

lemma step_inv:
  assumes "cache_inv ops good nid L w hs" "cache_step ops nid L w ev w'"
  obtains hs' where "cache_inv ops good nid L w' hs'" "outcome_of ops nid L w hs ev w' hs'"
  using step_outcome [OF assms] delta_inv [OF assms(1)] outcomeD(1,2) by blast

lemma cache_run_inv: "cache_run ops nid L w w' \<Longrightarrow> cache_inv ops good nid L w hs \<Longrightarrow> \<exists>hs'. cache_inv ops good nid L w' hs'"
proof (induction arbitrary: hs rule: cache_run.induct)
  case (step w w' ev w'')
  then obtain hs' where "cache_inv ops good nid L w' hs'" by blast
  then show ?case using step_inv [OF _ step.hyps(2)] by blast
qed blast

lemma seen_moves:
  assumes inv: "cache_inv ops good nid L w hs" and i: "i < length (kw_conns w)" and cd: "conns_delta ops L w w' hs'"
    and v: "rev_sequence r \<le> version_of L w'" and s: "seen ops w i n k r"
  shows "seen ops w' i n k r"
proof -
  obtain st where st: "map_of (cn_stores (conn_at w i)) n = Some st" "lcs_coherent st \<longrightarrow> covered ops st k r" using s unfolding seen_def by blast
  obtain node conn where c: "kw_conns w ! i = (node, conn)" by force
  have lo: "local_ok ops good st" using conn_okD(3) [OF cache_invD(8) [OF inv i c]] st(1) c by (simp add: store_ok_def)
  obtain st' where st': "map_of (cn_stores (conn_at w' i)) n = Some st'" "evolves ops L w' n st st'"
    using conn_evolvesD(1) [OF conn_deltaD(2) [OF cd i] st(1)] by blast
  then show ?thesis using run_safe [OF lo st(2) _ v] unfolding seen_def evolves_def by blast
qed

lemma step_tracked:
  assumes inv: "cache_inv ops good nid L w hs" and out: "outcome_of ops nid L w hs ev w' hs'" and tr: "tracked ops L i n k r w hs"
  shows "tracked ops L i n k r w' hs'" "ev = Polled i \<or> seen ops w i n k r \<Longrightarrow> seen ops w' i n k r"
proof -
  note oD = outcomeD [OF out]
  have t: "i < length (kw_conns w)" "rev_sequence r \<le> version_of L w" "map_of (cn_stores (conn_at w i)) n \<noteq> None"
    "pending_at w hs i n k r \<or> seen ops w i n k r" using tr unfolding tracked_def by blast+
  have v: "rev_sequence r \<le> version_of L w'" using t(2) oD(1) by (auto simp: shared_delta_def)
  have drain: "pending_at w hs i n k r \<Longrightarrow> drained ops L w hs i w' \<Longrightarrow> seen ops w' i n k r" using t(2,3) unfolding drained_def by blast
  have st: "map_of (cn_stores (conn_at w' i)) n \<noteq> None" using conn_evolvesD(1) [OF conn_deltaD(2) [OF oD(2) t(1)]] t(3) by fastforce
  show "seen ops w' i n k r" if "ev = Polled i \<or> seen ops w i n k r" using that t(4) drain oD(4) seen_moves [OF inv t(1) oD(2) v] by blast
  have "pending_at w' hs' i n k r \<or> seen ops w' i n k r"
    using t(4) drain oD(3) [OF t(1)] pending_moves [OF inv oD(1)] seen_moves [OF inv t(1) oD(2) v] by blast
  then show "tracked ops L i n k r w' hs'" using conn_deltaD(1) [OF oD(2) t(1)] v st unfolding tracked_def by blast
qed

lemma run_tracked:
  "cache_run ops nid L w w' \<Longrightarrow> cache_inv ops good nid L w hs \<Longrightarrow> tracked ops L i n k r w hs \<Longrightarrow>
    \<exists>hs'. cache_inv ops good nid L w' hs' \<and> tracked ops L i n k r w' hs' \<and> (seen ops w i n k r \<longrightarrow> seen ops w' i n k r)"
proof (induction arbitrary: hs rule: cache_run.induct)
  case (step w w' ev w'')
  then obtain hs' where h: "cache_inv ops good nid L w' hs'" "tracked ops L i n k r w' hs'" "seen ops w i n k r \<longrightarrow> seen ops w' i n k r" by blast
  obtain hs'' where "cache_inv ops good nid L w'' hs''" "outcome_of ops nid L w' hs' ev w'' hs''" by (rule step_inv [OF h(1) step.hyps(2)])
  then show ?case using step_tracked [OF h(1) _ h(2)] h(3) by blast
qed blast

lemma start_inv:
  assumes "cache_layout_validate L = Inr ()" "fleet_holds nid fl (mutation_typed L) hs" "\<forall>h\<in>set hs. h = []"
    and "is_power_of_two slots" "slots \<le> u32_max" "ring \<noteq> []" "length ring \<le> u64_max"
  shows "cache_inv ops good nid L (cache_start fl slots readers ring) hs"
proof -
  have "slots \<le> 2 ^ 63" using assms(5) by (simp add: u32_max_def)
  then show ?thesis
    using assms fresh_world_ok [OF assms(4) _ assms(6)] by (auto simp: cache_inv_def cache_start_def fresh_world_def arena_create_def)
qed

text \<open>The two properties, from any state in which the invariant holds.\<close>

lemma hit_genuine:
  assumes inv: "cache_inv ops good nid L w hs" and i: "i < length (kw_conns w)" "kw_conns w ! i = (node, conn)"
    and al: "alive (kw_arena w) (cn_reader conn)"
    and rd: "store_read_at ops aenv (arena_of w) conn name key now = Some (am', conn', Hit e, pinned)"
  shows "kw_puts w (ce_revision e) = Some (name, key, ce_value e) \<and> \<not> entry_is_expired_at e now"
proof -
  let ?res = "arena_resolve aenv (cn_reader conn) (arena_of w)"
  obtain st st' where st: "map_of (cn_stores conn) name = Some st" "local_read_at ops ?res st key now = (st', Hit e)"
    using rd by (auto simp: store_read_at_def Let_def split: option.splits prod.splits)
  have so: "store_ok ops good w name st" using conn_okD(3) [OF cache_invD(8) [OF inv i] st(1)] .
  then have "good (lcs_slots st)" by (simp add: store_ok_def local_ok_def)
  from read_hit [OF this st(2)] obtain p where p: "entries ops st key = Some (Present p (ce_revision e) (ce_expires_at_ms e))"
    "\<not> entry_is_expired_at e now" "?res (pl_address p) = Some (ce_value e)" by blast
  have "genuine w (CPut name key (ce_revision e) (ce_expires_at_ms e) p)" using so p(1) by (simp add: store_ok_def)
  then obtain rc where rc: "kw_puts w (ce_revision e) = Some (name, key, re_body rc)"
    "aw_log (kw_arena w) (ad_generation (pl_address p)) = Some (None, rc)" by auto
  obtain am2 en where "get_address aenv (cn_reader conn) (arena_of w) (pl_address p) = (am2, Some en)" "ce_value e = entry_body am2 en"
    using p(3) by (auto simp: arena_resolve_def split: prod.splits option.splits)
  then show ?thesis using get_address_reads [OF cache_invD(3) [OF inv] al] rc p(2) by fastforce
qed

lemma read_after_write:
  assumes inv: "cache_inv ops good nid L w0 hs" and wr: "cache_step ops nid L w0 (Wrote n ko r) w1" and r1: "cache_run ops nid L w1 w2"
    and po: "cache_step ops nid L w2 (Polled i) w3" and r2: "cache_run ops nid L w3 w4"
    and i: "i < length (kw_conns w0)" "map_of (cn_stores (conn_at w0 i)) n \<noteq> None" and k: "ko = None \<or> ko = Some k"
    and rd: "store_read_at ops aenv (arena_of w4) (conn_at w4 i) n k now = Some (am', conn', Hit e, pinned)"
  shows "r \<le> ce_revision e"
proof -
  obtain hs1 where h1: "cache_inv ops good nid L w1 hs1" "outcome_of ops nid L w0 hs (Wrote n ko r) w1 hs1" by (rule step_inv [OF inv wr])
  note oD = outcomeD [OF h1(2)]
  have "map_of (cn_stores (conn_at w1 i)) n \<noteq> None" using conn_evolvesD(1) [OF conn_deltaD(2) [OF oD(2) i(1)]] i(2) by fastforce
  then have t1: "tracked ops L i n k r w1 hs1"
    using oD(5) [OF refl] oD(6) [OF refl i(1) k] conn_deltaD(1) [OF oD(2) i(1)] by (simp add: tracked_def)
  obtain hs2 where h2: "cache_inv ops good nid L w2 hs2" "tracked ops L i n k r w2 hs2" using run_tracked [OF r1 h1(1) t1] by blast
  obtain hs3 where h3: "cache_inv ops good nid L w3 hs3" "outcome_of ops nid L w2 hs2 (Polled i) w3 hs3" by (rule step_inv [OF h2(1) po])
  note t3 = step_tracked [OF h2(1) h3(2) h2(2)]
  obtain hs4 where h4: "cache_inv ops good nid L w4 hs4" "seen ops w4 i n k r" "i < length (kw_conns w4)"
    using run_tracked [OF r2 h3(1) t3(1)] t3(2) unfolding tracked_def by blast
  obtain node conn where c: "kw_conns w4 ! i = (node, conn)" by force
  obtain st st' where st: "map_of (cn_stores conn) n = Some st" "local_read_at ops (arena_resolve aenv (cn_reader conn) (arena_of w4)) st k now = (st', Hit e)"
    using rd c by (auto simp: store_read_at_def Let_def split: option.splits prod.splits)
  have lo: "local_ok ops good st" using conn_okD(3) [OF cache_invD(8) [OF h4(1,3) c] st(1)] by (simp add: store_ok_def)
  then have "lcs_coherent st" using read_hit [OF _ st(2)] by (auto simp: local_ok_def)
  then have "covered ops st k r" using h4(2) st(1) c by (simp add: seen_def)
  then show ?thesis using covered_hit [OF lo _ st(2)] by blast
qed

end

section \<open>A small cache\<close>

text \<open>One process connects, opens a store, puts a value, polls and reads it.\<close>

definition demo_cache_env :: cache_env where
  "demo_cache_env = \<lparr>ke_netid = packed_netid, ke_layout = demo_cache_layout, ke_arena = demo_env, ke_os_lock = Inr (), ke_notify = Inr ()\<rparr>"

definition demo_cache_fleet :: fleet where
  "demo_cache_fleet = \<lparr>fl_name = [97], fl_capacity = 2, fl_node_id = 0, fl_id_counters = (\<lambda>_. None),
     fl_backing = InMemory \<lparr>rg_fleet_capacity = 2, rg_rings = [194 \<mapsto> \<lparr>r_kind = 194, r_capacity = 2, r_payload_capacity = 64,
       r_topology = PerNode, version_counter = 0, lanes = [lane_new 2, lane_new 2]\<rparr>]\<rparr>\<rparr>"

definition demo_cache :: "nat \<Rightarrow> lru_list cache_world" where
  "demo_cache n =
     (let w0 = cache_start demo_cache_fleet 2 1 (replicate 16 0);
          c1 = the (cache_new demo_cache_env (at_node w0 0) (arena_of w0));
          w1 = w0\<lparr>kw_fleet := fst c1, kw_arena := (kw_arena w0)\<lparr>aw_mem := fst (snd c1), aw_dead := (aw_dead (kw_arena w0))(0 := False)\<rparr>,
                  kw_conns := kw_conns w0 @ [(0, projr (snd (snd c1)))]\<rparr>;
          w2 = w1\<lparr>kw_conns := (kw_conns w1)[0 := (0, fst (open_store lru_list_ops demo_cache_env (conn_at w1 0) [9] 4))]\<rparr>;
          c3 = the (store_put lru_list_ops demo_cache_env (Some 100) (at_node w2 0) (arena_of w2) (conn_at w2 0) [9] [1] [7, 8] None);
          kept = put_stored demo_cache_env (Some 100) (cn_reader (conn_at w2 0)) (arena_of w2) [9] [1] [7, 8] None;
          w3 = w2\<lparr>kw_fleet := fst c3,
                  kw_arena := (kw_arena w2)\<lparr>aw_mem := fst (snd c3), aw_log := put_log kept (put_record [7, 8] (put_deadline (Some 100) None)) (aw_log (kw_arena w2))\<rparr>,
                  kw_conns := (kw_conns w2)[0 := (0, fst (snd (snd c3)))],
                  kw_puts := (if kept = None then kw_puts w2 else (kw_puts w2)(next_revision demo_cache_env (at_node w2 0) \<mapsto> ([9], [1], [7, 8])))\<rparr>;
          c4 = the (cache_poll_all lru_list_ops demo_cache_env (at_node w3 0) (arena_of w3) (conn_at w3 0));
          w4 = w3\<lparr>kw_fleet := fst c4, kw_conns := (kw_conns w3)[0 := (0, fst (snd c4))]\<rparr>
      in if n = 0 then w0 else if n = 1 then w1 else if n = 2 then w2 else if n = 3 then w3 else w4)"

lemma demo_cache_new:
  "(case cache_new demo_cache_env (at_node (demo_cache 0) 0) (arena_of (demo_cache 0)) of Some (_, _, Inr c) \<Rightarrow> cn_reader (c :: lru_list cache_conn) = 0 | _ \<Rightarrow> False)"
  by code_simp

lemma demo_cache_claim:
  "arena_claim demo_env (arena_of (demo_cache 0)) = (arena_of (demo_cache 1), Inr 0)"
  by code_simp

lemma demo_cache_put:
  "(case store_put lru_list_ops demo_cache_env (Some 100) (at_node (demo_cache 2) 0) (arena_of (demo_cache 2)) (conn_at (demo_cache 2) 0) [9] [1] [7, 8] None of
      Some (_, _, _, Inr r) \<Rightarrow> rev_sequence r = 1 | _ \<Rightarrow> False)"
  by code_simp

lemma demo_cache_poll:
  "cache_poll_all lru_list_ops demo_cache_env (at_node (demo_cache 3) 0) (arena_of (demo_cache 3)) (conn_at (demo_cache 3) 0) \<noteq> None"
  by code_simp

lemma demo_cache_read:
  "(case store_read_at lru_list_ops demo_env (arena_of (demo_cache 4)) (conn_at (demo_cache 4) 0) [9] [1] 200 of
      Some (_, _, Hit e, _) \<Rightarrow> ce_value e = [7, 8] \<and> rev_sequence (ce_revision e) = 1 | _ \<Rightarrow> False)"
  by code_simp

lemma demo_cache_guards:
  "cn_reader (conn_at (demo_cache 2) 0) = 0" "map_of (cn_stores (conn_at (demo_cache 2) 0)) [9] \<noteq> None"
  "lane_room demo_cache_layout (demo_cache 2) 0" "cn_reader (conn_at (demo_cache 4) 0) = 0"
  by code_simp+

lemma demo_cache_holds: "fleet_holds packed_netid demo_cache_fleet (mutation_typed demo_cache_layout) [[], []]"
  using packed_netid_laws
  by (simp add: fleet_holds_def demo_cache_fleet_def mutation_typed_def demo_cache_layout_def spec_per_node_def ring_lane_count_def
      ring_spec_of_def ring_logged_def lane_logged_def lane_new_def window_ok_def max_defs less_Suc_eq)

lemma demo_cache_valid: "cache_layout_validate demo_cache_layout = Inr ()"
  using demo_power
  by (simp add: cache_layout_validate_def demo_cache_layout_def spec_per_node_def Let_def ARENA_KIND_def MIN_MUTATION_HEADER_LEN_def max_defs)

lemma demo_cache_env_for: "env_for packed_netid demo_cache_layout demo_cache_env"
  by (simp add: env_for_def demo_cache_env_def)

lemma demo_hold: "holds_only dead demo_env"
  by (simp add: holds_only_def demo_env_def)

text \<open>The worlds of the run are folded; only these equations about them are used.\<close>

lemma demo_cache_0: "demo_cache 0 = cache_start demo_cache_fleet 2 1 (replicate 16 0)"
  by (simp add: demo_cache_def Let_def)

lemma demo_cache_1:
  "demo_cache 1 = (let c1 = the (cache_new demo_cache_env (at_node (demo_cache 0) 0) (arena_of (demo_cache 0))) in
     (demo_cache 0)\<lparr>kw_fleet := fst c1, kw_arena := (kw_arena (demo_cache 0))\<lparr>aw_mem := fst (snd c1), aw_dead := (aw_dead (kw_arena (demo_cache 0)))(0 := False)\<rparr>,
        kw_conns := kw_conns (demo_cache 0) @ [(0, projr (snd (snd c1)))]\<rparr>)"
  unfolding demo_cache_def Let_def by simp

lemma demo_cache_2:
  "demo_cache 2 = (demo_cache 1)\<lparr>kw_conns := (kw_conns (demo_cache 1))[0 := (0, fst (open_store lru_list_ops demo_cache_env (conn_at (demo_cache 1) 0) [9] 4))]\<rparr>"
  unfolding demo_cache_def Let_def by simp

lemma demo_cache_3:
  "demo_cache 3 = (let
      c3 = the (store_put lru_list_ops demo_cache_env (Some 100) (at_node (demo_cache 2) 0) (arena_of (demo_cache 2)) (conn_at (demo_cache 2) 0) [9] [1] [7, 8] None);
      kept = put_stored demo_cache_env (Some 100) (cn_reader (conn_at (demo_cache 2) 0)) (arena_of (demo_cache 2)) [9] [1] [7, 8] None
    in (demo_cache 2)\<lparr>kw_fleet := fst c3,
        kw_arena := (kw_arena (demo_cache 2))\<lparr>aw_mem := fst (snd c3), aw_log := put_log kept (put_record [7, 8] (put_deadline (Some 100) None)) (aw_log (kw_arena (demo_cache 2)))\<rparr>,
        kw_conns := (kw_conns (demo_cache 2))[0 := (0, fst (snd (snd c3)))],
        kw_puts := (if kept = None then kw_puts (demo_cache 2) else (kw_puts (demo_cache 2))(next_revision demo_cache_env (at_node (demo_cache 2) 0) \<mapsto> ([9], [1], [7, 8])))\<rparr>)"
  unfolding demo_cache_def Let_def by simp

lemma demo_cache_4:
  "demo_cache 4 = (let c4 = the (cache_poll_all lru_list_ops demo_cache_env (at_node (demo_cache 3) 0) (arena_of (demo_cache 3)) (conn_at (demo_cache 3) 0)) in
     (demo_cache 3)\<lparr>kw_fleet := fst c4, kw_conns := (kw_conns (demo_cache 3))[0 := (0, fst (snd c4))]\<rparr>)"
  unfolding demo_cache_def Let_def by simp

lemma some_triple: "(case x of Some (a, b, Inr c) \<Rightarrow> P c | _ \<Rightarrow> False) \<Longrightarrow> x = Some (fst (the x), fst (snd (the x)), Inr (projr (snd (snd (the x)))))"
  by (auto split: option.splits prod.splits sum.splits)

lemma some_quad:
  "(case x of Some (a, b, c, Inr d) \<Rightarrow> P d | _ \<Rightarrow> False) \<Longrightarrow>
     x = Some (fst (the x), fst (snd (the x)), fst (snd (snd (the x))), Inr (projr (snd (snd (snd (the x))))))"
  by (auto split: option.splits prod.splits sum.splits)

lemma demo_cache_conns:
  "length (kw_conns (demo_cache 1)) = 1 \<and> fst (kw_conns (demo_cache 1) ! 0) = 0" "length (kw_conns (demo_cache 2)) = 1 \<and> fst (kw_conns (demo_cache 2) ! 0) = 0"
  "length (kw_conns (demo_cache 3)) = 1 \<and> fst (kw_conns (demo_cache 3) ! 0) = 0" "length (kw_conns (demo_cache 4)) = 1 \<and> fst (kw_conns (demo_cache 4) ! 0) = 0"
proof -
  show 1: "length (kw_conns (demo_cache 1)) = 1 \<and> fst (kw_conns (demo_cache 1) ! 0) = 0"
    unfolding demo_cache_1 by (simp add: demo_cache_0 cache_start_def Let_def)
  then show 2: "length (kw_conns (demo_cache 2)) = 1 \<and> fst (kw_conns (demo_cache 2) ! 0) = 0"
    unfolding demo_cache_2 by (simp del: One_nat_def)
  then show 3: "length (kw_conns (demo_cache 3)) = 1 \<and> fst (kw_conns (demo_cache 3) ! 0) = 0" unfolding demo_cache_3 by (simp add: Let_def)
  then show "length (kw_conns (demo_cache 4)) = 1 \<and> fst (kw_conns (demo_cache 4) ! 0) = 0" unfolding demo_cache_4 by (simp add: Let_def)
qed

lemma demo_conn: "length (kw_conns w) = 1 \<and> fst (kw_conns w ! 0) = 0 \<Longrightarrow> 0 < length (kw_conns w)"
    "length (kw_conns w) = 1 \<and> fst (kw_conns w ! 0) = 0 \<Longrightarrow> kw_conns w ! 0 = (0, conn_at w 0)"
  by (auto simp: prod_eq_iff)

lemma demo_cache_alive: "alive (kw_arena (demo_cache 2)) 0" "alive (kw_arena (demo_cache 4)) 0"
proof -
  have "0 < length (am_active (arena_of (demo_cache 2)))" "0 < length (am_active (arena_of (demo_cache 4)))" by code_simp+
  then show "alive (kw_arena (demo_cache 2)) 0" "alive (kw_arena (demo_cache 4)) 0"
    unfolding alive_def by (simp_all add: demo_cache_4 demo_cache_3 demo_cache_2 demo_cache_1 Let_def del: One_nat_def)
qed

lemma demo_cache_steps:
  "cache_run lru_list_ops packed_netid demo_cache_layout (demo_cache 0) (demo_cache 2)"
  "\<exists>r. rev_sequence r = 1 \<and> cache_step lru_list_ops packed_netid demo_cache_layout (demo_cache 2) (Wrote [9] (Some [1]) r) (demo_cache 3)"
  "cache_step lru_list_ops packed_netid demo_cache_layout (demo_cache 3) (Polled 0) (demo_cache 4)"
proof -
  let ?step = "cache_step lru_list_ops packed_netid demo_cache_layout"
  have "?step (demo_cache 0) Quiet (demo_cache 1)"
  proof -
    note n = some_triple [OF demo_cache_new]
    have a: "arena_step (kw_arena (demo_cache 0)) ((kw_arena (demo_cache 0))\<lparr>aw_mem := arena_of (demo_cache 1), aw_dead := (aw_dead (kw_arena (demo_cache 0)))(0 := False)\<rparr>)"
      by (rule arena_step.claim [OF demo_hold demo_cache_claim]) (auto simp: demo_cache_0 cache_start_def fresh_world_def arena_create_def)
    have m: "fst (snd (the (cache_new demo_cache_env (at_node (demo_cache 0) 0) (arena_of (demo_cache 0))) :: fleet \<times> arena_mem \<times> (cache_error + lru_list cache_conn))) = arena_of (demo_cache 1)"
      unfolding demo_cache_1 by (simp add: Let_def)
    have cap: "0 < fl_capacity (kw_fleet (demo_cache 0))" by (simp add: demo_cache_0 cache_start_def demo_cache_fleet_def)
    show ?thesis
      by (subst demo_cache_1) (use cache_step.connect [OF demo_cache_env_for cap disjI1 [OF n] a] m in \<open>simp add: Let_def\<close>)
  qed
  moreover have "?step (demo_cache 1) Quiet (demo_cache 2)"
    by (subst demo_cache_2, rule cache_step.opens [OF demo_conn [OF demo_cache_conns(1)] demo_cache_env_for _ surjective_pairing]) simp
  ultimately show "cache_run lru_list_ops packed_netid demo_cache_layout (demo_cache 0) (demo_cache 2)" by (meson cache_run.intros)
next
  let ?p = "store_put lru_list_ops demo_cache_env (Some 100) (at_node (demo_cache 2) 0) (arena_of (demo_cache 2)) (conn_at (demo_cache 2) 0) [9] [1] [7, 8] None"
  let ?r = "projr (snd (snd (snd (the ?p))))"
  have al: "alive (kw_arena (demo_cache 2)) (cn_reader (conn_at (demo_cache 2) 0))" using demo_cache_alive(1) demo_cache_guards(1) by simp
  have hold: "env_ok (kw_arena (demo_cache 2)) (ke_arena demo_cache_env)" using demo_hold by (simp add: demo_cache_env_def)
  have "cache_step lru_list_ops packed_netid demo_cache_layout (demo_cache 2) (wrote [9] (Some [1]) (Inr ?r)) (demo_cache 3)"
    by (subst demo_cache_3, unfold Let_def, rule cache_step.put [OF demo_conn [OF demo_cache_conns(2)] demo_cache_env_for demo_cache_guards(3)
        al hold some_quad [OF demo_cache_put] refl])
  moreover have "rev_sequence ?r = 1" using demo_cache_put by (auto split: option.splits prod.splits sum.splits)
  ultimately show "\<exists>r. rev_sequence r = 1 \<and> cache_step lru_list_ops packed_netid demo_cache_layout (demo_cache 2) (Wrote [9] (Some [1]) r) (demo_cache 3)"
    by (auto simp: wrote_def)
next
  let ?p = "cache_poll_all lru_list_ops demo_cache_env (at_node (demo_cache 3) 0) (arena_of (demo_cache 3)) (conn_at (demo_cache 3) 0)"
  have "?p = Some (fst (the ?p), fst (snd (the ?p)), snd (snd (the ?p)))" using demo_cache_poll by auto
  from cache_step.poll [OF demo_conn [OF demo_cache_conns(3)] demo_cache_env_for this] show "cache_step lru_list_ops packed_netid demo_cache_layout (demo_cache 3) (Polled 0) (demo_cache 4)"
    by (subst demo_cache_4) (simp add: Let_def)
qed

section \<open>Properties\<close>

text \<open>
  C10: A hit returns exactly what was put. In every run of processes that connect, open stores, put, delete,
  reset, poll, lose history, recover and read over one fleet and one arena, while others write, evict and
  reset the arena, the value of a hit is the value that was put under the revision of the hit, in that store
  and under that key, and it has not expired.
\<close>

theorem cache_hit_is_what_was_put:
  assumes "lru_cache lru good cap" "cache_layout_validate L = Inr ()"
    and "fleet_holds nid fl (mutation_typed L) hs" "\<forall>h\<in>set hs. h = []" "is_power_of_two slots" "slots \<le> u32_max" "ring \<noteq> []" "length ring \<le> u64_max"
    and "cache_run lru nid L (cache_start fl slots readers ring) w"
    and "i < length (kw_conns w)" "kw_conns w ! i = (node, conn)" "alive (kw_arena w) (cn_reader conn)"
    and "store_read_at lru aenv (arena_of w) conn name key now = Some (am', conn', Hit e, pinned)"
  shows "kw_puts w (ce_revision e) = Some (name, key, ce_value e) \<and> \<not> entry_is_expired_at e now"
proof -
  obtain hs' where "cache_inv lru good nid L w hs'"
    using lru_cache.cache_run_inv [OF assms(1,9) lru_cache.start_inv [OF assms(1-8)]] by blast
  then show ?thesis using lru_cache.hit_genuine [OF assms(1)] assms(10-13) by blast
qed

theorem cache_hit_is_what_was_put_witness:
  "\<exists>e :: cache_entry. ce_value e = [7, 8] \<and> kw_puts (demo_cache 4) (ce_revision e) = Some ([9], [1], [7, 8])"
proof -
  obtain am' conn' e pinned where rd: "store_read_at lru_list_ops demo_env (arena_of (demo_cache 4)) (conn_at (demo_cache 4) 0) [9] [1] 200 =
      Some (am', conn', Hit e, pinned)" "ce_value e = [7, 8]"
    using demo_cache_read by (auto split: option.splits prod.splits cache_read.splits)
  have run: "cache_run lru_list_ops packed_netid demo_cache_layout (cache_start demo_cache_fleet 2 1 (replicate 16 0)) (demo_cache 4)"
    using demo_cache_steps unfolding demo_cache_0 by (meson cache_run.step)
  from cache_hit_is_what_was_put [OF lru_list.lru_cache_axioms demo_cache_valid demo_cache_holds _ demo_power _ _ _ run demo_conn [OF demo_cache_conns(4)] _ rd(1)]
    demo_cache_alive(2) demo_cache_guards(4) rd(2) show ?thesis by (auto simp: max_defs)
qed



end
