(* ===== verification/Cache_Late.thy ===== *)
theory Cache_Late
  imports Cache_Safety
begin

text \<open>
  A connection opened while a put is in flight. A publisher takes its sequence before it publishes, so a
  mutation with a smaller sequence can appear in its lane after a newer one has appeared in another. Stores
  that saw the newer one refuse the late one. A connection opened in between stands behind the newer one and
  starts without a revision floor, unlike one that recovers, and takes the late mutation for the newest.
\<close>

definition late_payload :: "address \<Rightarrow> payload_ref" where
  "late_payload a = \<lparr>pl_address = a, pl_value_len = 1\<rparr>"

text \<open>The two halves of \<open>publish_put\<close> of the slow publisher at node 1: up to the sequence, and the publication.\<close>

definition late_mint :: "fleet \<times> arena_mem \<Rightarrow> fleet \<times> arena_mem \<times> nat \<times> bytes" where
  "late_mint = (\<lambda>(fl, am).
     let (am1, a) = arena_store demo_env 0 am (put_record [4] None);
         encoded = projr (encode_put demo_cache_layout [9] [1] None (late_payload (projr a)));
         (fl1, sequence) = the (fleet_next_ring_version (fl\<lparr>fl_node_id := 1\<rparr>) (mutation_typed demo_cache_layout))
     in (fl1, am1, sequence, encoded))"

definition late_open :: "fleet \<Rightarrow> arena_mem \<Rightarrow> lru_list cache_conn" where
  "late_open fl am = fst (open_store lru_list_ops demo_cache_env (projr (snd (snd (the (cache_new demo_cache_env fl am))))) [9] 4)"

definition late_read :: "fleet \<Rightarrow> arena_mem \<Rightarrow> lru_list cache_conn \<Rightarrow> cache_read" where
  "late_read fl am conn =
     (let conn' = fst (snd (the (cache_poll_all lru_list_ops demo_cache_env fl am conn)))
      in fst (snd (snd (the (store_read_at lru_list_ops demo_env am conn' [9] [1] 200)))))"

definition late_run :: "cache_read \<times> cache_read" where
  "late_run =
     (let am0 = arena_create 4 1 (replicate 16 0); early = late_open demo_cache_fleet am0;
          (fl1, am1, sequence, encoded) = late_mint (demo_cache_fleet, am0);
          (fl2, am2, _) = the (publish_put demo_cache_env (Some 100) 0 (fl1\<lparr>fl_node_id := 0\<rparr>) am1 [9] [1] [5] None);
          late = late_open fl2 am2;
          (fl3, _) = the (publish_mutation demo_cache_env (fl2\<lparr>fl_node_id := 1\<rparr>) FRAME_KIND_PUT sequence encoded)
      in (late_read fl3 am2 early, late_read fl3 am2 late))"


end
