(* ===== verification/Arena_Live.thy ===== *)
theory Arena_Live
  imports Arena_Write
begin

text \<open>
  The bounded reservation loop is complete: if some span of the wanted length is free of pins, the
  cursor reaches it within the attempts the code allows, whatever is pinned elsewhere. The cursor is
  followed in absolute bytes; \<open>target\<close> is the first free span at or after it, no step passes it, and every
  failed attempt leaves behind a pinned slot that ends before it.
\<close>

definition free_of_pins :: "arena_mem \<Rightarrow> nat \<Rightarrow> nat \<Rightarrow> bool" where
  "free_of_pins am p q \<longleftrightarrow> (\<forall>i<length (am_slots am). slot_pinned am i \<longrightarrow> \<not> meets (arena_slot_at am i) p q)"

definition same_pins :: "arena_mem \<Rightarrow> arena_mem \<Rightarrow> bool" where
  "same_pins am am' \<longleftrightarrow> weakens (\<lambda>_. False) am am' \<and> am_pins am' = am_pins am \<and> am_active am' = am_active am"

definition ahead :: "arena_mem \<Rightarrow> nat \<Rightarrow> nat \<Rightarrow> nat set" where
  "ahead am c T = {i. i < length (am_slots am) \<and> slot_pinned am i \<and>
     (\<exists>b. length (am_ring am) dvd b \<and> c < b + snd (slot_span (arena_slot_at am i)) \<and> b + snd (slot_span (arena_slot_at am i)) \<le> T)}"

lemma same_pinsD:
  assumes "same_pins am am'"
  shows "slot_pinned am' i = slot_pinned am i" "length (am_slots am') = length (am_slots am)" "am_ring am' = am_ring am"
    "i < length (am_slots am) \<Longrightarrow> slot_span (arena_slot_at am' i) = slot_span (arena_slot_at am i)"
    "free_of_pins am' p q = free_of_pins am p q" "ahead am' c T = ahead am c T"
proof -
  have w: "weakens (\<lambda>_. False) am am'" and pins: "am_pins am' = am_pins am" "am_active am' = am_active am"
    using assms by (simp_all add: same_pins_def)
  show pin: "slot_pinned am' i = slot_pinned am i" for i using pins by (simp add: slot_pinned_def)
  show len: "length (am_slots am') = length (am_slots am)" and ring: "am_ring am' = am_ring am" using weakensD(1,3) [OF w] by simp_all
  show span: "slot_span (arena_slot_at am' i) = slot_span (arena_slot_at am i)" if "i < length (am_slots am)" for i
    using retired_from_simps(1) [OF weakensD(5) [OF w that]] .
  show "free_of_pins am' p q = free_of_pins am p q" using pin len span by (simp add: free_of_pins_def meets_def)
  show "ahead am' c T = ahead am c T" using pin len span ring by (auto simp: ahead_def)
qed

lemma foldl_block_max:
  assumes "foldl (\<lambda>b i. block_past b (f i)) b is = Some m"
  shows "b = Some m \<or> (\<exists>i\<in>set is. f i = m)"
  using assms
proof (induction "is" arbitrary: b)
  case (Cons i "is")
  then show ?case by (cases b) (fastforce simp: block_past_def max_def split: if_splits)+
qed simp

text \<open>One attempt, with the cursor \<open>c\<close> in absolute bytes and room below the 64-bit limit.\<close>

lemma attempt_progress:
  assumes ok: "arena_ok am" and free: "free_of_pins am a (a + len)" and a: "a + len \<le> length (am_ring am)"
    and T: "T mod length (am_ring am) = a" "c \<le> T" "T < c + length (am_ring am)" "T + 2 * length (am_ring am) \<le> u64_max"
    and at: "alloc_attempt len c am = (am', c', None)"
  shows "same_pins am am'" "c \<le> c'" "c' \<le> T" "card (ahead am c' T) < card (ahead am c T)"
proof -
  define bs where "bs = length (am_ring am)"
  have bs: "0 < bs" using arena_okD(2) [OF ok] by (simp add: bs_def)
  define m where "m = c div bs"
  define q where "q = c mod bs"
  have c: "c = bs * m + q" "q < bs" using bs by (simp_all add: m_def q_def)
  define k where "k = T div bs"
  have Tk: "T = bs * k + a" "a < bs" using T(1) bs by (auto simp: k_def bs_def)
  have lap: "u < v" if "bs * u + y < bs * v + x" "x \<le> y" for u v x y
    using that by (metis add_le_mono leD mult_le_mono2 not_le_imp_less)
  define wraps where "wraps = (q + len > bs)"
  define m1 where "m1 = (if wraps then Suc m else m)"
  define p where "p = (if wraps then 0 else q)"
  have pl: "p + len \<le> bs" "p < bs" using a bs c(2) by (auto simp: p_def wraps_def bs_def)
  have c1: "c \<le> bs * m1 + p" using c by (auto simp: m1_def p_def)
  have c1T: "bs * m1 + p \<le> T"
  proof (cases wraps)
    case True
    then have "a < q" using a by (simp add: wraps_def bs_def)
    then have "m < k" using lap [of m q k a] T(2) Tk(1) c(1) by (cases "m < k") (auto simp: not_less dest: mult_le_mono2 [of k m bs])
    then have "bs * Suc m \<le> bs * k" by (intro mult_le_mono2) simp
    then show ?thesis using True Tk(1) by (simp add: m1_def p_def)
  qed (use T(2) c in \<open>simp add: m1_def p_def\<close>)
  obtain am1 b where sc: "alloc_scan [0..<length (am_slots am)] p (p + len) am None = (am1, b)"
    by (cases "alloc_scan [0..<length (am_slots am)] p (p + len) am None")
  have limit: "bs * m1 + p + bs \<le> u64_max" "c + bs \<le> u64_max" using c1T c1 T(2,4) by (simp_all add: bs_def)
  have cur: "(if wraps then wrapping_add u64_max c (bs - q) else c) = bs * m1 + p"
    using limit(2) c by (simp add: m1_def p_def wrapping_add_exact)
  have res: "(am', c', None) = (case b of Some past \<Rightarrow> (am1, wrapping_add u64_max (bs * m1 + p) (past - p), None)
      | None \<Rightarrow> (am1\<lparr>am_cursor := wrapping_add u64_max (bs * m1 + p) len\<rparr>, bs * m1 + p, Some p))"
    using at sc unfolding alloc_attempt_def Let_def bs_def [symmetric] q_def [symmetric] wraps_def [symmetric] p_def [symmetric] cur
    by (simp split: option.splits)
  then obtain past where b: "b = Some past" and am': "am' = am1" and c': "c' = wrapping_add u64_max (bs * m1 + p) (past - p)"
    by (cases b) auto
  show "same_pins am am'" using alloc_scan_weakens [OF sc] am' by (simp add: same_pins_def)
  obtain i where i: "i \<in> set (blockers am p (p + len) [0..<length (am_slots am)])" "snd (slot_span (arena_slot_at am i)) = past"
  proof -
    have "foldl (\<lambda>b i. block_past b (snd (slot_span (arena_slot_at am i)))) None (blockers am p (p + len) [0..<length (am_slots am)]) = Some past"
      using alloc_scan_blocked [OF sc] b by (simp add: lessThan_atLeast0)
    then show ?thesis using foldl_block_max that by fastforce
  qed
  then have n: "i < length (am_slots am)" and pin: "slot_pinned am i" and start: "fst (slot_span (arena_slot_at am i)) < p + len" "p < past"
    and ne: "sl_state (arena_slot_at am i) \<noteq> SLOT_EMPTY"
    by (auto simp: blockers_def meets_def case_prod_unfold)
  have past: "past \<le> bs" using arena_okD(5) [OF ok n] ne i(2) by (simp add: arena_slot_ok_def bs_def)
  have c'eq: "c' = bs * m1 + past" using c' start(2) past limit(1) by (simp add: wrapping_add_exact)
  then show cc: "c \<le> c'" using c1 start(2) by simp
  show c'T: "c' \<le> T"
  proof (cases "m1 < k")
    case True
    then have "bs * Suc m1 \<le> bs * k" by (intro mult_le_mono2) simp
    then show ?thesis using past c'eq Tk(1) by simp
  next
    case False
    then have "bs * k \<le> bs * m1" by simp
    then have "p \<le> a" using c1T Tk(1) by linarith
    moreover have "past \<le> a \<or> a + len \<le> fst (slot_span (arena_slot_at am i))"
      using free n pin i(2) by (auto simp: free_of_pins_def meets_def case_prod_unfold)
    ultimately have "past \<le> a" using start(1) by linarith
    moreover have "m1 = k" using False lap [of k a m1 p] c1T Tk pl(2) bs
      by (metis add.commute add_lessD1 le_neq_implies_less linorder_not_less mult_Suc_right mult_le_mono2 not_less_eq_eq le_add1 order.trans less_le_trans add_less_cancel_left)
    ultimately show ?thesis using c'eq Tk(1) by simp
  qed
  have "ahead am c' T \<subseteq> ahead am c T" using cc by (fastforce simp: ahead_def)
  moreover have "i \<in> ahead am c T"
    using n pin i(2) c'T c'eq c1 start(2) by (auto simp: ahead_def bs_def [symmetric] intro!: exI [of _ "bs * m1"])
  moreover have "i \<notin> ahead am c' T"
  proof
    assume "i \<in> ahead am c' T"
    then obtain b' where b': "bs dvd b'" "c' < b' + past" "b' + past \<le> T" using i(2) by (auto simp: ahead_def bs_def)
    then obtain j where j: "b' = bs * j" by (elim dvdE)
    have "m1 < j" using b'(2) c'eq j by (metis add_le_cancel_right leD mult_le_mono2 not_le_imp_less)
    then have "bs * Suc m1 \<le> b'" unfolding j by (intro mult_le_mono2) simp
    then show False using b'(3) T(3) cc c'eq by (simp add: bs_def [symmetric])
  qed
  moreover have "finite (ahead am c T)" by (simp add: ahead_def)
  ultimately show "card (ahead am c' T) < card (ahead am c T)" by (intro psubset_card_mono) auto
qed

lemma loop_reaches:
  assumes "arena_ok am" "free_of_pins am a (a + len)" "a + len \<le> length (am_ring am)" "T mod length (am_ring am) = a" "c \<le> T"
    "T < c + length (am_ring am)" "T + 2 * length (am_ring am) \<le> u64_max" "card (ahead am c T) < attempts"
  shows "\<exists>am' p. alloc_loop attempts len c am = (am', Inr p)"
  using assms
proof (induction attempts arbitrary: c am)
  case (Suc attempts)
  obtain am1 c1 found where at: "alloc_attempt len c am = (am1, c1, found)" by (cases "alloc_attempt len c am")
  show ?case
  proof (cases found)
    case None
    note pr = attempt_progress [OF Suc.prems(1-7) at [unfolded None]]
    have ok1: "arena_ok am1" using weakens_ok [OF Suc.prems(1)] pr(1) unfolding same_pins_def by blast
    have "\<exists>am' p. alloc_loop attempts len c1 am1 = (am', Inr p)"
      by (rule Suc.IH) (use ok1 pr Suc.prems same_pinsD [OF pr(1)] in simp_all)
    then show ?thesis using at None by simp
  qed (use at in simp)
qed simp

lemma alloc_complete:
  assumes ok: "arena_ok am" and free: "free_of_pins am a (a + len)" and a: "a + len \<le> length (am_ring am)" "a < length (am_ring am)"
    and room: "am_cursor am + 4 * length (am_ring am) \<le> u64_max"
  shows "\<exists>am' p. allocate_locked am len = (am', Inr p)"
proof -
  define bs where "bs = length (am_ring am)"
  define c where "c = am_cursor am"
  have bs: "0 < bs" "a < bs" using a(2) by (auto simp: bs_def)
  define m where "m = c div bs"
  define q where "q = c mod bs"
  define T where "T = (if q \<le> a then bs * m + a else bs * Suc m + a)"
  have c: "c = bs * m + q" "q < bs" using bs by (simp_all add: m_def q_def)
  have "(bs * x + a) mod bs = a" for x using bs(2) by simp
  then have "T mod bs = a" unfolding T_def by presburger
  moreover have "c \<le> T" "T < c + bs"
    using c bs(2) by (auto simp: T_def)
  moreover have "T + 2 * bs \<le> u64_max" using room \<open>T < c + bs\<close> by (simp add: bs_def c_def)
  moreover have "card (ahead am c T) \<le> length (am_slots am)"
    using card_mono [of "{..<length (am_slots am)}" "ahead am c T"] by (auto simp: ahead_def)
  ultimately show ?thesis
    unfolding allocate_locked_def c_def [symmetric]
    by (intro loop_reaches [OF ok free a(1), of T c]) (simp_all add: bs_def)
qed

lemma min_by_key_exists: "xs \<noteq> [] \<Longrightarrow> \<exists>x. min_by_key f xs = Some x"
  by (cases xs) (auto split: option.split)

lemma free_slot_complete:
  assumes "i < length (am_slots am)" "\<not> slot_pinned am i"
  shows "\<exists>am' j. free_slot_locked am key = (am', Inr j)"
proof -
  let ?n = "length (am_slots am)"
  let ?xs = "filter (\<lambda>i. \<not> slot_pinned am i) [0..<?n]"
  have "?xs \<noteq> []" using assms by (auto simp: filter_empty_conv)
  then obtain j where j: "min_by_key (\<lambda>i. sl_generation (arena_slot_at am i)) ?xs = Some j" using min_by_key_exists by blast
  then have "\<not> slot_pinned am j" using min_by_key_in [OF j] by auto
  then have "pressure_loop [0..<?n] am = (evict_at am j, Inr j)"
    using j assms(1) by (cases "[0..<?n]") (simp_all add: Let_def)
  then show ?thesis by (auto simp: free_slot_locked_def Let_def split: option.split)
qed

section \<open>A write succeeds whenever it can\<close>

text \<open>
  C26: A write is refused for pins only when it must be. If some span of the record's length is free of
  reader pins and some index slot is not pinned, a record within the size limit is written, at the first
  try and within the bounded number of attempts, whatever else is pinned or published; the generation
  and the cursor have room.
\<close>

theorem arena_write_succeeds:
  assumes "arena_ok am" "record_total r \<le> length (am_ring am) div 4" "arena_lock env = Inr ()"
    and "free_of_pins am a (a + record_total r)" "a + record_total r \<le> length (am_ring am)" "a < length (am_ring am)"
    and "i < length (am_slots am)" "\<not> slot_pinned am i"
    and "am_cursor am + 4 * length (am_ring am) \<le> u64_max" "am_record_generation am < u64_max"
  shows "\<exists>am' a. write_record env me am key r = (am', Inr a)"
proof -
  define am1 where "am1 = (case Option.bind key (find_locked am) of Some i \<Rightarrow> evict_at am i | None \<Rightarrow> am)"
  have w1: "weakens (\<lambda>_. False) am am1" using evict_weakens weakens_refl by (auto simp: am1_def split: option.split)
  have sp: "same_pins am am1" using w1 by (auto simp: same_pins_def am1_def split: option.split)
  have ok1: "arena_ok am1" using weakens_ok [OF assms(1) w1] .
  have "am_cursor am1 = am_cursor am" by (simp add: am1_def split: option.split)
  then obtain am2 p where 2: "allocate_locked am1 (record_total r) = (am2, Inr p)"
    using alloc_complete [OF ok1, of a "record_total r"] assms(4-6,9) same_pinsD [OF sp] by auto
  have small: "record_total r \<le> length (am_ring am1)" using assms(2) same_pinsD(3) [OF sp] by simp
  have w2: "weakens (\<lambda>_. False) am1 am2" using alloc_loop_spec [OF ok1 small] 2 unfolding allocate_locked_def by blast
  have "\<not> slot_pinned am2 i" using weakens_pinned [OF weakens_trans [OF w1 w2]] assms(8) by blast
  then obtain am3 j where 3: "free_slot_locked am2 (case key of Some k \<Rightarrow> k | None \<Rightarrow> p) = (am3, Inr j)"
    using free_slot_complete [of i am2] assms(7) weakensD(3) [OF weakens_trans [OF w1 w2]] by metis
  have w3: "weakens (\<lambda>_. False) am2 am3" using free_slot_spec [OF weakens_ok [OF ok1 w2] 3] by blast
  have "am_record_generation am3 = am_record_generation am" using weakensD(2) w1 w2 w3 by metis
  then obtain am4 ad where 4: "publish_record am3 key r p j = (am4, Inr ad)" using assms(10) by (simp add: publish_record_eq)
  have "write_record env me am key r = (am4, Inr ad)"
    using assms(2,3) 2 3 4 by (simp add: write_record_def Let_def am1_def [symmetric] retry_reclaimed_def)
  then show ?thesis by blast
qed

theorem arena_write_succeeds_witness:
  "\<exists>am' a. write_record \<lparr>ae_forked = False, ae_lock = Inr (), ae_shm = False, ae_hold = (\<lambda>_. Inr False)\<rparr> 0
     (arena_create 2 1 [0, 0, 0, 0]) (Some 5) (record_body [7]) = (am', Inr a)"
proof (rule arena_write_succeeds)
  have pow: "is_power_of_two 2" by (simp add: is_power_of_two_def exI [of _ 1])
  show "arena_ok (arena_create 2 1 [0, 0, 0, 0])" using arena_create_ok [OF pow] by simp
  have np: "\<not> slot_pinned (arena_create 2 1 [0, 0, 0, 0]) j" if "j < 2" for j using that by (auto simp: slot_pinned_iff arena_create_def)
  then show "\<not> slot_pinned (arena_create 2 1 [0, 0, 0, 0]) 0" by simp
  show "free_of_pins (arena_create 2 1 [0, 0, 0, 0]) 0 (0 + record_total (record_body [7]))"
    using np by (simp add: free_of_pins_def) (simp add: arena_create_def)
qed (simp_all add: arena_create_def record_total_def record_body_def arena_lock_def u64_max_def)

end
