(* ===== verification/Arena_Race.thy ===== *)
theory Arena_Race
  imports Arena
begin

text \<open>
  The pin protocol of the arena at the granularity of its atomic operations. Readers pin first and look
  at the state afterwards; a writer retires the slot first and looks for pins afterwards, one row at a
  time. Threads of several reader processes share the counter of their row, processes crash between any
  two operations, and dead rows are reclaimed. \<open>pr_bytes\<close> is the generation whose bytes are intact in the
  span, if any.
\<close>

section \<open>Steps\<close>

datatype reader_phase = Resting | Entered nat | Saw nat nat | Undoing | Holding nat | Gone

datatype writer_phase = Waiting | Checking "nat list" | Overwriting | Stamped

record pin_race =
  pr_state :: nat
  pr_generation :: nat
  pr_bytes :: "nat option"
  pr_pins :: "nat \<Rightarrow> nat"
  pr_phase :: "nat \<Rightarrow> reader_phase"
  pr_writer :: writer_phase

definition at_phase :: "pin_race \<Rightarrow> nat \<Rightarrow> reader_phase \<Rightarrow> pin_race" where
  "at_phase s i ph = s\<lparr>pr_phase := (pr_phase s)(i := ph)\<rparr>"

definition add_pin :: "pin_race \<Rightarrow> nat \<Rightarrow> pin_race" where
  "add_pin s r = s\<lparr>pr_pins := (pr_pins s)(r := pr_pins s r + 1)\<rparr>"

definition sub_pin :: "pin_race \<Rightarrow> nat \<Rightarrow> pin_race" where
  "sub_pin s r = s\<lparr>pr_pins := (pr_pins s)(r := pr_pins s r - 1)\<rparr>"

text \<open>A lookup by key can also miss because the slot now has another key, so \<open>miss\<close> has no guard.\<close>

text \<open>\<open>threads\<close> threads, thread \<open>i\<close> in row \<open>row i\<close> of \<open>rows\<close> rows.\<close>

inductive pin_step :: "nat \<Rightarrow> nat \<Rightarrow> (nat \<Rightarrow> nat) \<Rightarrow> pin_race \<Rightarrow> pin_race \<Rightarrow> bool" for threads rows row where
  pin: "i < threads \<Longrightarrow> pr_phase s i = Resting \<Longrightarrow> pin_step threads rows row s (at_phase (add_pin s (row i)) i (Entered g))"
| look: "i < threads \<Longrightarrow> pr_phase s i = Entered g \<Longrightarrow> pin_step threads rows row s (at_phase s i (Saw g (pr_state s)))"
| hit: "i < threads \<Longrightarrow> pr_phase s i = Saw g st \<Longrightarrow> pr_generation s = g \<Longrightarrow> st = SLOT_LIVE \<or> st = SLOT_ADDRESSED \<Longrightarrow>
     pin_step threads rows row s (at_phase s i (Holding g))"
| miss: "i < threads \<Longrightarrow> pr_phase s i = Saw g st \<Longrightarrow> pin_step threads rows row s (at_phase s i Undoing)"
| undo: "i < threads \<Longrightarrow> pr_phase s i = Undoing \<Longrightarrow> pin_step threads rows row s (at_phase (sub_pin s (row i)) i Resting)"
| unpin: "i < threads \<Longrightarrow> pr_phase s i = Holding g \<Longrightarrow> pin_step threads rows row s (at_phase (sub_pin s (row i)) i Resting)"
| retire: "pr_writer s = Waiting \<Longrightarrow> pr_state s \<noteq> SLOT_EMPTY \<Longrightarrow>
     pin_step threads rows row s (s\<lparr>pr_state := SLOT_RETIRED, pr_writer := Checking [0..<rows]\<rparr>)"
| unpinned_row: "pr_writer s = Checking (r # rs) \<Longrightarrow> pr_pins s r = 0 \<Longrightarrow> pin_step threads rows row s (s\<lparr>pr_writer := Checking rs\<rparr>)"
| pinned_row: "pr_writer s = Checking (r # rs) \<Longrightarrow> pr_pins s r \<noteq> 0 \<Longrightarrow> pin_step threads rows row s (s\<lparr>pr_writer := Waiting\<rparr>)"
| reuse: "pr_writer s = Checking [] \<Longrightarrow> pin_step threads rows row s (s\<lparr>pr_bytes := None, pr_writer := Overwriting\<rparr>)"
| take_empty: "pr_writer s = Waiting \<Longrightarrow> pr_state s = SLOT_EMPTY \<Longrightarrow>
     pin_step threads rows row s (s\<lparr>pr_bytes := None, pr_writer := Overwriting\<rparr>)"
| elsewhere: "pr_writer s = Overwriting \<Longrightarrow> pin_step threads rows row s (s\<lparr>pr_writer := Waiting\<rparr>)"
| stamp: "pr_writer s = Overwriting \<Longrightarrow> pr_generation s < g \<Longrightarrow>
     pin_step threads rows row s (s\<lparr>pr_generation := g, pr_writer := Stamped, pr_bytes := Some g\<rparr>)"
| publish: "pr_writer s = Stamped \<Longrightarrow> st = SLOT_LIVE \<or> st = SLOT_ADDRESSED \<Longrightarrow>
     pin_step threads rows row s (s\<lparr>pr_state := st, pr_writer := Waiting\<rparr>)"
| crash: "r < rows \<Longrightarrow> pin_step threads rows row s (s\<lparr>pr_phase := (\<lambda>i. if row i = r then Gone else pr_phase s i)\<rparr>)"
| reclaim: "r < rows \<Longrightarrow> \<forall>i<threads. row i = r \<longrightarrow> pr_phase s i = Gone \<Longrightarrow> pin_step threads rows row s (s\<lparr>pr_pins := (pr_pins s)(r := 0)\<rparr>)"
| claim: "r < rows \<Longrightarrow> \<forall>i<threads. row i = r \<longrightarrow> pr_phase s i = Gone \<Longrightarrow>
     pin_step threads rows row s (s\<lparr>pr_pins := (pr_pins s)(r := 0), pr_phase := (\<lambda>i. if row i = r then Resting else pr_phase s i)\<rparr>)"

definition race_start :: pin_race where
  "race_start = \<lparr>pr_state = SLOT_EMPTY, pr_generation = 0, pr_bytes = None, pr_pins = (\<lambda>_. 0), pr_phase = (\<lambda>_. Gone), pr_writer = Waiting\<rparr>"

inductive pin_reach :: "nat \<Rightarrow> nat \<Rightarrow> (nat \<Rightarrow> nat) \<Rightarrow> pin_race \<Rightarrow> bool" for threads rows row where
  init: "pin_reach threads rows row race_start"
| step: "pin_reach threads rows row s \<Longrightarrow> pin_step threads rows row s s' \<Longrightarrow> pin_reach threads rows row s'"

section \<open>The invariant\<close>

definition counted :: "reader_phase \<Rightarrow> bool" where
  "counted ph \<longleftrightarrow> ph \<noteq> Resting \<and> ph \<noteq> Gone"

definition exposed :: "reader_phase \<Rightarrow> bool" where
  "exposed ph \<longleftrightarrow> (\<exists>g. ph = Holding g) \<or> (\<exists>g st. ph = Saw g st \<and> (st = SLOT_LIVE \<or> st = SLOT_ADDRESSED))"

definition pin_total :: "nat \<Rightarrow> (nat \<Rightarrow> nat) \<Rightarrow> pin_race \<Rightarrow> nat \<Rightarrow> nat" where
  "pin_total threads row s r = card {i. i < threads \<and> row i = r \<and> counted (pr_phase s i)}"

definition pin_ok :: "nat \<Rightarrow> nat \<Rightarrow> (nat \<Rightarrow> nat) \<Rightarrow> pin_race \<Rightarrow> bool" where
  "pin_ok threads rows row s \<longleftrightarrow>
     (\<forall>r. pin_total threads row s r \<le> pr_pins s r) \<and>
     (\<forall>i<threads. exposed (pr_phase s i) \<longrightarrow> pr_bytes s = Some (pr_generation s) \<and>
        (pr_writer s = Waiting \<or> (\<exists>rs. pr_writer s = Checking rs \<and> row i \<in> set rs))) \<and>
     (\<forall>i<threads. \<forall>g. pr_phase s i = Holding g \<longrightarrow> pr_generation s = g) \<and>
     (pr_state s = SLOT_LIVE \<or> pr_state s = SLOT_ADDRESSED \<longrightarrow> pr_writer s = Waiting \<and> pr_bytes s = Some (pr_generation s)) \<and>
     (pr_writer s = Stamped \<longrightarrow> pr_bytes s = Some (pr_generation s)) \<and>
     (pr_state s = SLOT_EMPTY \<longrightarrow> (\<forall>i<threads. \<not> exposed (pr_phase s i)))"

lemma pin_okD:
  assumes "pin_ok threads rows row s"
  shows "pin_total threads row s r \<le> pr_pins s r"
    "i < threads \<Longrightarrow> exposed (pr_phase s i) \<Longrightarrow> pr_bytes s = Some (pr_generation s) \<and>
       (pr_writer s = Waiting \<or> (\<exists>rs. pr_writer s = Checking rs \<and> row i \<in> set rs))"
    "i < threads \<Longrightarrow> pr_phase s i = Holding g \<Longrightarrow> pr_generation s = g"
    "pr_state s = SLOT_LIVE \<or> pr_state s = SLOT_ADDRESSED \<Longrightarrow> pr_writer s = Waiting \<and> pr_bytes s = Some (pr_generation s)"
    "pr_writer s = Stamped \<Longrightarrow> pr_bytes s = Some (pr_generation s)"
    "pr_state s = SLOT_EMPTY \<Longrightarrow> i < threads \<Longrightarrow> \<not> exposed (pr_phase s i)"
  using assms unfolding pin_ok_def by blast+

lemma pin_total_mono:
  assumes "\<And>i. i < threads \<Longrightarrow> row i = r \<Longrightarrow> counted (pr_phase s' i) \<Longrightarrow> counted (pr_phase s i)"
  shows "pin_total threads row s' r \<le> pin_total threads row s r"
  unfolding pin_total_def using assms by (intro card_mono) auto

lemma pin_total_enter:
  assumes "pr_phase s' = (pr_phase s)(i := ph)" "i < threads"
  shows "pin_total threads row s' (row i) \<le> pin_total threads row s (row i) + 1"
proof -
  have "{j. j < threads \<and> row j = row i \<and> counted (pr_phase s' j)} \<subseteq> insert i {j. j < threads \<and> row j = row i \<and> counted (pr_phase s j)}"
    using assms by auto
  then have "pin_total threads row s' (row i) \<le> card (insert i {j. j < threads \<and> row j = row i \<and> counted (pr_phase s j)})"
    unfolding pin_total_def by (intro card_mono) auto
  also have "\<dots> \<le> pin_total threads row s (row i) + 1" unfolding pin_total_def using card_insert_le_m1 by (simp add: card_insert_if)
  finally show ?thesis .
qed

lemma pin_total_leave:
  assumes "pr_phase s' = (pr_phase s)(i := ph)" "i < threads" "counted (pr_phase s i)" "\<not> counted ph"
  shows "pin_total threads row s' (row i) + 1 \<le> pin_total threads row s (row i)"
proof -
  let ?S = "{j. j < threads \<and> row j = row i \<and> counted (pr_phase s j)}"
  have "{j. j < threads \<and> row j = row i \<and> counted (pr_phase s' j)} = ?S - {i}" using assms by auto
  moreover have "card (?S - {i}) + 1 = card ?S" using assms by (subst card.remove [of ?S i]) auto
  ultimately show ?thesis unfolding pin_total_def by simp
qed

text \<open>A change of one thread's phase and of its row's counter.\<close>

lemma phase_change_ok:
  assumes ok: "pin_ok threads rows row s" and i: "i < threads" and s': "s' = s\<lparr>pr_pins := (pr_pins s)(row i := n), pr_phase := (pr_phase s)(i := ph)\<rparr>"
    and n: "counted ph \<and> n = pr_pins s (row i) + 1 \<or> counted (pr_phase s i) \<and> \<not> counted ph \<and> n = pr_pins s (row i) - 1 \<or>
      counted (pr_phase s i) \<and> n = pr_pins s (row i)"
    and ex: "exposed ph \<Longrightarrow> exposed (pr_phase s i) \<or> pr_writer s = Waiting \<and> pr_bytes s = Some (pr_generation s) \<and> pr_state s \<noteq> SLOT_EMPTY"
    and hold: "\<And>g. ph = Holding g \<Longrightarrow> pr_generation s = g"
  shows "pin_ok threads rows row s'"
proof -
  have ph: "pr_phase s' = (pr_phase s)(i := ph)" by (simp add: s')
  have "pin_total threads row s' r \<le> pr_pins s' r" for r
  proof (cases "r = row i")
    case True
    from n consider (enter) "n = pr_pins s (row i) + 1" | (leave) "counted (pr_phase s i)" "\<not> counted ph" "n = pr_pins s (row i) - 1"
      | (same) "counted (pr_phase s i)" "n = pr_pins s (row i)" by blast
    then show ?thesis
    proof cases
      case enter
      then show ?thesis using pin_total_enter [OF ph i, of row] pin_okD(1) [OF ok, of r] True by (simp add: s')
    next
      case leave
      then show ?thesis using pin_total_leave [OF ph i leave(1,2), of row] pin_okD(1) [OF ok, of r] True by (simp add: s')
    next
      case same
      then have "pin_total threads row s' r \<le> pin_total threads row s r" by (intro pin_total_mono) (auto simp: ph split: if_splits)
      then show ?thesis using same pin_okD(1) [OF ok, of r] True by (simp add: s')
    qed
  next
    case False
    then have "pin_total threads row s' r \<le> pin_total threads row s r" by (intro pin_total_mono) (auto simp: ph split: if_splits)
    then show ?thesis using pin_okD(1) [OF ok, of r] False by (simp add: s')
  qed
  moreover have "pr_bytes s' = Some (pr_generation s') \<and> (pr_writer s' = Waiting \<or> (\<exists>rs. pr_writer s' = Checking rs \<and> row j \<in> set rs))"
    if "j < threads" "exposed (pr_phase s' j)" for j
    using that pin_okD(2) [OF ok] ex by (cases "j = i") (auto simp: s')
  moreover have "pr_generation s' = g" if "j < threads" "pr_phase s' j = Holding g" for j g
    using that pin_okD(3) [OF ok] hold by (cases "j = i") (auto simp: s')
  moreover have "pr_state s' = pr_state s" "pr_writer s' = pr_writer s" "pr_bytes s' = pr_bytes s" "pr_generation s' = pr_generation s"
    by (simp_all add: s')
  moreover have "\<not> exposed (pr_phase s' j)" if "j < threads" "pr_state s = SLOT_EMPTY" for j
    using that pin_okD(6) [OF ok] i ex by (cases "j = i") (auto simp: s')
  ultimately show ?thesis using pin_okD(4,5) [OF ok] unfolding pin_ok_def by simp
qed

lemma no_exposed:
  assumes "pin_ok threads rows row s" "pr_writer s \<noteq> Waiting" "\<forall>rs. pr_writer s = Checking rs \<longrightarrow> rs = []" "i < threads"
  shows "\<not> exposed (pr_phase s i)"
  using pin_okD(2) [OF assms(1,4)] assms(2,3) by auto

lemma writer_change_ok:
  assumes ok: "pin_ok threads rows row s" and same: "pr_phase s' = pr_phase s" "pr_pins s' = pr_pins s"
    and none: "\<And>i. i < threads \<Longrightarrow> \<not> exposed (pr_phase s i)"
    and st: "pr_state s' = SLOT_LIVE \<or> pr_state s' = SLOT_ADDRESSED \<Longrightarrow> pr_writer s' = Waiting \<and> pr_bytes s' = Some (pr_generation s')"
    and stamped: "pr_writer s' = Stamped \<Longrightarrow> pr_bytes s' = Some (pr_generation s')"
  shows "pin_ok threads rows row s'"
proof -
  have "pin_total threads row s' r = pin_total threads row s r" for r by (simp add: pin_total_def same)
  moreover have "pr_phase s i \<noteq> Holding g" if "i < threads" for i g using none [OF that] by (auto simp: exposed_def)
  ultimately show ?thesis using pin_okD(1) [OF ok] none st stamped same unfolding pin_ok_def by simp
qed

lemma row_change_ok:
  assumes ok: "pin_ok threads rows row s" and pins: "\<And>r. pin_total threads row s' r \<le> pr_pins s' r"
    and ph: "\<And>i. pr_phase s' i = pr_phase s i \<or> pr_phase s' i = Gone \<or> pr_phase s' i = Resting"
    and same: "pr_state s' = pr_state s" "pr_generation s' = pr_generation s" "pr_bytes s' = pr_bytes s" "pr_writer s' = pr_writer s"
  shows "pin_ok threads rows row s'"
proof -
  have "exposed (pr_phase s' i) \<Longrightarrow> exposed (pr_phase s i)" "pr_phase s' i = Holding g \<Longrightarrow> pr_phase s i = Holding g" for i g
    using ph [of i] by (auto simp: exposed_def)
  then show ?thesis using pins pin_okD(2-6) [OF ok] unfolding pin_ok_def same by blast
qed

lemma pin_step_ok:
  assumes "pin_step threads rows row s s'" "pin_ok threads rows row s" and rows: "\<forall>i<threads. row i < rows"
  shows "pin_ok threads rows row s'"
  using assms(1)
proof cases
  case (pin i g)
  show ?thesis
    by (rule phase_change_ok [OF assms(2) pin(2), where ph = "Entered g" and n = "pr_pins s (row i) + 1"]) (simp_all add: pin at_phase_def add_pin_def counted_def exposed_def)
next
  case (look i g)
  show ?thesis
  proof (rule phase_change_ok [OF assms(2) look(2), where ph = "Saw g (pr_state s)" and n = "pr_pins s (row i)"])
    show "exposed (pr_phase s i) \<or> pr_writer s = Waiting \<and> pr_bytes s = Some (pr_generation s) \<and> pr_state s \<noteq> SLOT_EMPTY" if "exposed (Saw g (pr_state s))"
      using that pin_okD(4) [OF assms(2)] by (auto simp: exposed_def)
  qed (simp_all add: look at_phase_def counted_def)
next
  case (hit i g st)
  show ?thesis
  proof (rule phase_change_ok [OF assms(2) hit(2), where ph = "Holding g" and n = "pr_pins s (row i)"])
    show "exposed (pr_phase s i) \<or> pr_writer s = Waiting \<and> pr_bytes s = Some (pr_generation s) \<and> pr_state s \<noteq> SLOT_EMPTY"
      using hit by (auto simp: exposed_def)
  qed (use hit in \<open>simp_all add: at_phase_def counted_def\<close>)
next
  case (miss i g st)
  show ?thesis
    by (rule phase_change_ok [OF assms(2) miss(2), where ph = Undoing and n = "pr_pins s (row i)"])
      (simp_all add: miss at_phase_def counted_def exposed_def)
next
  case (undo i)
  show ?thesis
    by (rule phase_change_ok [OF assms(2) undo(2), where ph = Resting and n = "pr_pins s (row i) - 1"])
      (simp_all add: undo at_phase_def sub_pin_def counted_def exposed_def)
next
  case (unpin i g)
  show ?thesis
    by (rule phase_change_ok [OF assms(2) unpin(2), where ph = Resting and n = "pr_pins s (row i) - 1"])
      (simp_all add: unpin at_phase_def sub_pin_def counted_def exposed_def)
next
  case retire
  then show ?thesis
    using assms(2) rows unfolding pin_ok_def pin_total_def by (auto simp: exposed_def)
next
  case (unpinned_row r rs)
  have "row i \<noteq> r" if "i < threads" "exposed (pr_phase s i)" for i
  proof
    assume "row i = r"
    then have "i \<in> {i. i < threads \<and> row i = r \<and> counted (pr_phase s i)}" using that by (auto simp: exposed_def counted_def)
    then have "0 < pin_total threads row s r" unfolding pin_total_def by (subst card_gt_0_iff) auto
    then show False using pin_okD(1) [OF assms(2), of r] unpinned_row(3) by simp
  qed
  then show ?thesis
    using assms(2) unpinned_row unfolding pin_ok_def pin_total_def by (auto 0 4)
next
  case (pinned_row r rs)
  then show ?thesis using assms(2) unfolding pin_ok_def pin_total_def by auto
next
  case reuse
  then show ?thesis
    using writer_change_ok [OF assms(2), of s'] no_exposed [OF assms(2)] pin_okD(4) [OF assms(2)] by auto
next
  case take_empty
  then show ?thesis using writer_change_ok [OF assms(2), of s'] pin_okD(6) [OF assms(2)] by auto
next
  case elsewhere
  then show ?thesis
    using writer_change_ok [OF assms(2), of s'] no_exposed [OF assms(2)] pin_okD(4) [OF assms(2)] by auto
next
  case (stamp g)
  then show ?thesis
    using writer_change_ok [OF assms(2), of s'] no_exposed [OF assms(2)] pin_okD(4) [OF assms(2)] by auto
next
  case (publish st)
  then show ?thesis
    using writer_change_ok [OF assms(2), of s'] no_exposed [OF assms(2)] pin_okD(5) [OF assms(2)] by auto
next
  case (crash r)
  have "pin_total threads row s' r' \<le> pin_total threads row s r'" for r'
    by (rule pin_total_mono) (auto simp: crash counted_def split: if_splits)
  then have "pin_total threads row s' r' \<le> pr_pins s' r'" for r' using pin_okD(1) [OF assms(2), of r'] order.trans by (fastforce simp: crash)
  then show ?thesis by (rule row_change_ok [OF assms(2)]) (simp_all add: crash)
next
  case (reclaim r)
  have "pin_total threads row s r = 0" using reclaim(3) by (auto simp: pin_total_def counted_def card_eq_0_iff)
  then show ?thesis
    using pin_okD [OF assms(2)] unfolding pin_ok_def by (auto simp: reclaim pin_total_def)
next
  case (claim r)
  have z: "pin_total threads row s' r = 0" by (auto simp: claim pin_total_def counted_def card_eq_0_iff)
  have "pin_total threads row s' r' \<le> pin_total threads row s r'" if "r' \<noteq> r" for r'
    by (rule pin_total_mono) (use that in \<open>auto simp: claim counted_def split: if_splits\<close>)
  then have "pin_total threads row s' r' \<le> pr_pins s' r'" for r'
    using z pin_okD(1) [OF assms(2), of r'] order.trans by (cases "r' = r") (fastforce simp: claim)+
  then show ?thesis by (rule row_change_ok [OF assms(2)]) (simp_all add: claim)
qed

lemma pin_reach_ok: "pin_reach threads rows row s \<Longrightarrow> \<forall>i<threads. row i < rows \<Longrightarrow> pin_ok threads rows row s"
proof (induction rule: pin_reach.induct)
  case init
  then show ?case by (simp add: pin_ok_def race_start_def pin_total_def counted_def exposed_def)
next
  case (step s s')
  then show ?case using pin_step_ok by blast
qed

section \<open>Exclusion\<close>

text \<open>
  C24: A held entry and an overwriting writer exclude each other. Whatever the interleaving of the single
  atomic operations of any number of reader threads and of the writer, with crashes and reclaimed rows,
  as long as a thread holds generation \<open>g\<close> the bytes of \<open>g\<close> are intact, the slot still carries that
  generation, and no writer is overwriting them.
\<close>

theorem arena_pin_excludes_writer:
  assumes "pin_reach threads rows row s" "\<forall>i<threads. row i < rows" "i < threads" "pr_phase s i = Holding g"
  shows "pr_bytes s = Some g \<and> pr_generation s = g \<and> pr_writer s \<noteq> Overwriting \<and> pr_writer s \<noteq> Stamped"
proof -
  have ok: "pin_ok threads rows row s" using pin_reach_ok [OF assms(1,2)] .
  have "exposed (pr_phase s i)" using assms(4) by (simp add: exposed_def)
  then show ?thesis using pin_okD(2) [OF ok assms(3)] pin_okD(3) [OF ok assms(3,4)] by auto
qed

definition demo_race :: pin_race where
  "demo_race = \<lparr>pr_state = SLOT_ADDRESSED, pr_generation = 1, pr_bytes = Some 1, pr_pins = (\<lambda>_. 0)(0 := 1),
     pr_phase = (\<lambda>_. Resting)(0 := Holding 1), pr_writer = Waiting\<rparr>"

lemma demo_pin_reach: "pin_reach 1 1 (\<lambda>_. 0) demo_race"
proof -
  let ?step = "pin_step 1 1 (\<lambda>_. 0)"
  define s1 where "s1 = race_start\<lparr>pr_pins := (\<lambda>_. 0), pr_phase := (\<lambda>_. Resting)\<rparr>"
  define s2 where "s2 = s1\<lparr>pr_bytes := None, pr_writer := Overwriting\<rparr>"
  define s3 where "s3 = s2\<lparr>pr_generation := 1, pr_writer := Stamped, pr_bytes := Some 1\<rparr>"
  define s4 where "s4 = s3\<lparr>pr_state := SLOT_ADDRESSED, pr_writer := Waiting\<rparr>"
  define s5 where "s5 = at_phase (add_pin s4 0) 0 (Entered 1)"
  define s6 where "s6 = at_phase s5 0 (Saw 1 (pr_state s5))"
  have "pin_reach 1 1 (\<lambda>_. 0) s1"
    using pin_reach.step [OF pin_reach.init, of 1 1 "\<lambda>_. 0" s1] pin_step.claim [of 0 1 1 "\<lambda>_. 0" race_start]
    by (simp add: s1_def race_start_def fun_upd_idem)
  moreover have "?step s1 s2" unfolding s2_def by (rule pin_step.take_empty) (simp_all add: s1_def race_start_def)
  moreover have "?step s2 s3" unfolding s3_def by (rule pin_step.stamp) (simp_all add: s2_def s1_def race_start_def)
  moreover have "?step s3 s4" unfolding s4_def by (rule pin_step.publish) (simp_all add: s3_def)
  moreover have "?step s4 s5"
    unfolding s5_def using pin_step.pin [of 0 1 s4 1 "\<lambda>_. 0" 1] by (simp add: s4_def s3_def s2_def s1_def)
  moreover have "?step s5 s6" unfolding s6_def by (rule pin_step.look) (simp_all add: s5_def at_phase_def)
  moreover have "?step s6 (at_phase s6 0 (Holding 1))"
    by (rule pin_step.hit [where st = "pr_state s5"]) (simp_all add: s6_def s5_def at_phase_def add_pin_def s4_def s3_def)
  moreover have "at_phase s6 0 (Holding 1) = demo_race"
    by (simp add: s6_def s5_def at_phase_def add_pin_def s4_def s3_def s2_def s1_def race_start_def demo_race_def fun_eq_iff)
  ultimately show ?thesis by (metis pin_reach.step)
qed

theorem arena_pin_excludes_writer_witness: "pr_bytes demo_race = Some 1 \<and> pr_generation demo_race = 1"
  using arena_pin_excludes_writer [OF demo_pin_reach, of 0 1] by (simp add: demo_race_def)

end
