(* ===== verification/Arena_Reader.thy ===== *)
theory Arena_Reader
  imports Arena_World
begin

text \<open>
  Opening an existing segment: the header check of a producer (\<^verbatim>\<open>arena/src/lib.rs\<close>) and the diagnostic reader
  of \<^verbatim>\<open>arena/src/reader.rs\<close>, which takes its geometry from the header it finds. Every address the reader
  forms lies inside the mapping, and it agrees with the producer about where things are.
\<close>

section \<open>Layout\<close>

definition ARENA_MAGIC :: nat where "ARENA_MAGIC = 0x4152454e"
definition ARENA_VERSION :: nat where "ARENA_VERSION = 2"
definition ARENA_HEADER_SIZE :: nat where "ARENA_HEADER_SIZE = 64"
definition ARENA_SLOT_SIZE :: nat where "ARENA_SLOT_SIZE = 128"

record arena_header =
  ah_magic :: nat
  ah_version :: nat
  ah_header_size :: nat
  ah_slots :: nat
  ah_slot_size :: nat
  ah_bytes :: nat
  ah_readers :: nat

definition arena_header_new :: "nat \<Rightarrow> nat \<Rightarrow> nat \<Rightarrow> arena_header" where
  "arena_header_new slots bytes readers =
     \<lparr>ah_magic = ARENA_MAGIC, ah_version = ARENA_VERSION, ah_header_size = ARENA_HEADER_SIZE, ah_slots = slots mod 2 ^ 32,
      ah_slot_size = ARENA_SLOT_SIZE, ah_bytes = bytes, ah_readers = readers\<rparr>"

definition arena_compatible :: "nat \<Rightarrow> nat \<Rightarrow> nat \<Rightarrow> arena_header \<Rightarrow> bool" where
  "arena_compatible slots bytes readers h \<longleftrightarrow>
     ah_magic h = ARENA_MAGIC \<and> ah_version h = ARENA_VERSION \<and> ah_header_size h = ARENA_HEADER_SIZE \<and>
     ah_slots h = slots \<and> ah_slot_size h = ARENA_SLOT_SIZE \<and> ah_bytes h = bytes \<and> ah_readers h = readers"

definition reader_stride :: "nat \<Rightarrow> nat" where
  "reader_stride slots = 64 + slots * 4"

definition arena_ring_offset :: "nat \<Rightarrow> nat \<Rightarrow> nat" where
  "arena_ring_offset slots readers = ARENA_HEADER_SIZE + slots * ARENA_SLOT_SIZE + readers * reader_stride slots"

definition arena_segment_size :: "nat \<Rightarrow> nat \<Rightarrow> nat \<Rightarrow> nat" where
  "arena_segment_size slots bytes readers = arena_ring_offset slots readers + bytes"

text \<open>\<open>created\<close> is whether this process made the segment; otherwise \<open>h\<close> is the header it found.\<close>

definition arena_open_or_create :: "nat \<Rightarrow> nat \<Rightarrow> nat \<Rightarrow> bool \<Rightarrow> arena_header \<Rightarrow> arena_error + arena_header" where
  "arena_open_or_create slots bytes readers created h =
     (if created then Inr (arena_header_new slots bytes readers)
      else if arena_compatible slots bytes readers h then Inr h
      else Inl (ArIo ''incompatible arena layout''))"

section \<open>The diagnostic reader\<close>

record reader_geometry =
  rg_slots :: nat
  rg_readers :: nat
  rg_rows_offset :: nat
  rg_row_stride :: nat
  rg_ring_offset :: nat
  rg_bytes :: nat

definition reader_attach :: "arena_header \<Rightarrow> nat \<Rightarrow> arena_error + reader_geometry" where
  "reader_attach h region_len =
     (if ah_magic h \<noteq> ARENA_MAGIC \<or> ah_version h \<noteq> ARENA_VERSION \<or> ah_header_size h \<noteq> ARENA_HEADER_SIZE \<or> ah_slot_size h \<noteq> ARENA_SLOT_SIZE
      then Inl (ArIo ''incompatible arena header layout'')
      else if \<not> (ah_readers h \<le> u16_max \<and> ah_readers h > 0) then Inl (ArIo ''invalid arena reader count'')
      else if \<not> ah_bytes h > 0 then Inl (ArIo ''invalid arena byte capacity'')
      else if \<not> is_power_of_two (ah_slots h) then Inl (ArIo ''invalid arena slot count'')
      else let slots = ah_slots h;
               rows = Option.bind (checked_mul u64_max slots ARENA_SLOT_SIZE) (\<lambda>n. checked_add u64_max n ARENA_HEADER_SIZE);
               stride = Option.bind (checked_mul u64_max slots 4) (\<lambda>n. checked_add u64_max n 64)
           in case (rows, stride) of
                (Some rows_offset, Some row_stride) \<Rightarrow>
                  (case Option.bind (checked_mul u64_max row_stride (ah_readers h)) (\<lambda>n. checked_add u64_max n rows_offset) of
                     None \<Rightarrow> Inl (ArIo ''arena geometry overflow'')
                   | Some ring_offset \<Rightarrow>
                       (case checked_add u64_max ring_offset (ah_bytes h) of
                          Some len \<Rightarrow>
                            if len > region_len then Inl (ArIo ''arena geometry exceeds the mapped segment'')
                            else Inr \<lparr>rg_slots = slots, rg_readers = ah_readers h, rg_rows_offset = rows_offset,
                              rg_row_stride = row_stride, rg_ring_offset = ring_offset, rg_bytes = ah_bytes h\<rparr>
                        | None \<Rightarrow> Inl (ArIo ''arena geometry exceeds the mapped segment'')))
              | _ \<Rightarrow> Inl (ArIo ''arena geometry overflow''))"

definition reader_active_addr :: "reader_geometry \<Rightarrow> nat \<Rightarrow> nat" where
  "reader_active_addr g reader = rg_rows_offset g + reader * rg_row_stride g"

definition reader_pin_addr :: "reader_geometry \<Rightarrow> nat \<Rightarrow> nat \<Rightarrow> nat" where
  "reader_pin_addr g reader slot = rg_rows_offset g + reader * rg_row_stride g + 64 + slot * 4"

definition reader_slot_addr :: "nat \<Rightarrow> nat" where
  "reader_slot_addr slot = ARENA_HEADER_SIZE + slot * ARENA_SLOT_SIZE"

text \<open>
  \<open>get_address\<close> of the reader on the slots it maps: the pin, the checks, and the span check that a producer's
  handle does not need. Early returns drop the entry and with it the pin.
\<close>

definition reader_get_address ::
    "bool \<Rightarrow> nat \<Rightarrow> arena_mem \<Rightarrow> address \<Rightarrow> arena_mem \<times> (arena_error + (nat \<times> nat) option)" where
  "reader_get_address forked me am a =
     (if forked then (am, Inl (ArIo ''arena reader belongs to another process''))
      else if ad_slot a \<ge> length (am_slots am) then (am, Inr None)
      else case checked_add u32_max (am_pins am ! me ! ad_slot a) 1 of
             None \<Rightarrow> (am, Inl (ArIo ''arena reader pin count exhausted''))
           | Some n \<Rightarrow>
               let am' = set_pin am me (ad_slot a) n; s = arena_slot_at am' (ad_slot a);
                   dropped = set_pin am' me (ad_slot a) (am_pins am' ! me ! ad_slot a - 1)
               in if sl_state s \<noteq> SLOT_ADDRESSED \<or> sl_generation s \<noteq> ad_generation a then (dropped, Inr None)
                  else case checked_add u64_max (sl_body_offset s) (sl_body_len s) of
                         Some stop \<Rightarrow>
                           if stop > length (am_ring am) then (dropped, Inl (ArIo ''arena record span is outside the byte region''))
                           else (am', Inr (Some (sl_body_offset s, sl_body_len s)))
                       | None \<Rightarrow> (dropped, Inl (ArIo ''arena record span is outside the byte region'')))"

section \<open>Properties\<close>

text \<open>
  A diagnostic reader stays inside the mapping. Whatever bytes it finds as a header, if it attaches then
  the index, every reader row with its pin counters and the ring follow each other without overlap, end
  inside the mapped region, and lie where a producer of the same geometry puts them.
\<close>

lemma arena_reader_in_bounds:
  assumes "reader_attach h region_len = Inr g" "slot < rg_slots g" "reader < rg_readers g"
  shows "reader_slot_addr slot + ARENA_SLOT_SIZE \<le> rg_rows_offset g \<and>
    reader_active_addr g reader + 64 \<le> reader_pin_addr g reader 0 \<and>
    reader_pin_addr g reader slot + 4 \<le> reader_active_addr g (reader + 1) \<and>
    reader_active_addr g (reader + 1) \<le> rg_ring_offset g \<and>
    rg_ring_offset g + rg_bytes g \<le> region_len \<and>
    rg_ring_offset g = arena_ring_offset (rg_slots g) (rg_readers g) \<and>
    arena_compatible (rg_slots g) (rg_bytes g) (rg_readers g) h"
proof -
  let ?n = "ah_slots h" and ?r = "ah_readers h"
  have g: "g = \<lparr>rg_slots = ?n, rg_readers = ?r, rg_rows_offset = ?n * ARENA_SLOT_SIZE + ARENA_HEADER_SIZE, rg_row_stride = ?n * 4 + 64,
      rg_ring_offset = (?n * 4 + 64) * ?r + (?n * ARENA_SLOT_SIZE + ARENA_HEADER_SIZE), rg_bytes = ah_bytes h\<rparr>"
    and len: "(?n * 4 + 64) * ?r + (?n * ARENA_SLOT_SIZE + ARENA_HEADER_SIZE) + ah_bytes h \<le> region_len"
    and hd: "ah_magic h = ARENA_MAGIC" "ah_version h = ARENA_VERSION" "ah_header_size h = ARENA_HEADER_SIZE" "ah_slot_size h = ARENA_SLOT_SIZE"
    using assms(1) by (auto simp: reader_attach_def Let_def bind_eq_Some_conv split: if_splits option.splits)
  have "(slot + 1) * ARENA_SLOT_SIZE \<le> ?n * ARENA_SLOT_SIZE" using assms(2) by (intro mult_le_mono1) (simp add: g)
  moreover have "(reader + 1) * (?n * 4 + 64) \<le> ?r * (?n * 4 + 64)" using assms(3) by (intro mult_le_mono1) (simp add: g)
  moreover have "(slot + 1) * 4 \<le> ?n * 4" using assms(2) by (intro mult_le_mono1) (simp add: g)
  ultimately show ?thesis
    using len hd unfolding g
    by (simp add: reader_slot_addr_def reader_active_addr_def reader_pin_addr_def arena_ring_offset_def reader_stride_def
        arena_compatible_def algebra_simps)
qed

text \<open>
  The diagnostic reader sees what a producer sees. On a well-formed segment it never refuses a record
  as out of range: it pins exactly when the ordinary lookup by address pins, leaves the segment in the
  same state, and borrows the same bytes.
\<close>

lemma arena_reader_agrees:
  assumes "arena_ok am" "me < length (am_active am)" "length (am_ring am) \<le> u64_max" "am_pins am ! me ! ad_slot a < u32_max" "\<not> ae_forked env"
  shows "\<exists>found. get_address env me am a = (fst (reader_get_address False me am a), found) \<and>
    snd (reader_get_address False me am a) = Inr (map_option en_body found)"
proof (cases "ad_slot a < length (am_slots am)")
  case False
  then show ?thesis by (simp add: get_address_def pin_entry_def reader_get_address_def)
next
  case True
  let ?s = "arena_slot_at am (ad_slot a)"
  have sp: "sl_body_offset ?s + sl_body_len ?s \<le> length (am_ring am)" if "sl_state ?s = SLOT_ADDRESSED"
    using arena_okD(5) [OF assms(1) True] that by (simp add: arena_slot_ok_def slot_span_def)
  have ca: "checked_add u32_max (am_pins am ! me ! ad_slot a) 1 = Some (am_pins am ! me ! ad_slot a + 1)"
    using assms(4) by (simp add: checked_add_def)
  let ?n = "am_pins am ! me ! ad_slot a + 1" and ?hit = "sl_generation ?s = ad_generation a \<and> sl_state ?s = SLOT_ADDRESSED"
  let ?dropped = "set_pin (set_pin am me (ad_slot a) ?n) me (ad_slot a) (am_pins (set_pin am me (ad_slot a) ?n) ! me ! ad_slot a - 1)"
  have sl: "am_slots (set_pin am me i n) = am_slots am" "am_ring (set_pin am me i n) = am_ring am" for i n by (simp_all add: set_pin_def)
  have get: "get_address env me am a = (if ?hit then (set_pin am me (ad_slot a) ?n, Some (entry_pinned am me (ad_slot a) (ad_generation a)))
      else (?dropped, None))"
    unfolding get_address_def pin_entry_def ca using True assms(5)
    by (simp only: Let_def sl option.case if_False not_le [symmetric] simp_thms entry_pinned_def)
  have rd: "reader_get_address False me am a = (if ?hit then (set_pin am me (ad_slot a) ?n, Inr (Some (sl_body_offset ?s, sl_body_len ?s)))
      else (?dropped, Inr None))"
  proof (cases ?hit)
    case hit: True
    have cb: "checked_add u64_max (sl_body_offset ?s) (sl_body_len ?s) = Some (sl_body_offset ?s + sl_body_len ?s)"
      using sp hit assms(3) by (simp add: checked_add_def)
    show ?thesis
      unfolding reader_get_address_def ca using hit True sp
      by (simp only: Let_def sl cb option.case if_False if_True not_le [symmetric] simp_thms)
  next
    case False
    then have miss: "(sl_state ?s \<noteq> SLOT_ADDRESSED \<or> sl_generation ?s \<noteq> ad_generation a) = True" by auto
    have inside: "(ad_slot a \<ge> length (am_slots am)) = False" using True by simp
    show ?thesis
      unfolding reader_get_address_def ca using False by (simp only: Let_def sl option.case if_False if_True inside miss)
  qed
  show ?thesis unfolding get rd by (simp add: entry_pinned_def Let_def)
qed

definition demo_stored :: arena_mem where
  "demo_stored = fst (arena_store demo_env 0 (arena_create 2 1 (replicate 16 0)) (record_body [7, 8]))"

lemma demo_store: "arena_store demo_env 0 (arena_create 2 1 (replicate 16 0)) (record_body [7, 8]) =
    (demo_stored, Inr \<lparr>ad_slot = 0, ad_generation = 1\<rparr>)"
  by code_simp

lemma demo_stored_ok: "arena_ok demo_stored"
proof -
  have ok: "arena_ok (arena_create 2 1 (replicate 16 0))" using arena_create_ok [OF demo_power] by simp
  have "holds_only (\<lambda>_. False) demo_env" by (simp add: holds_only_def demo_env_def)
  from write_record_spec [OF ok this _ demo_store [unfolded arena_store_def]]
  obtain am1 offset where "weakens (\<lambda>_. False) (arena_create 2 1 (replicate 16 0)) am1" "reserved am1 None (record_body [7, 8]) offset 0"
    "publish_record am1 None (record_body [7, 8]) offset 0 = (demo_stored, Inr \<lparr>ad_slot = 0, ad_generation = 1\<rparr>)" by auto
  then show ?thesis using publish_ok weakens_ok [OF ok] by blast
qed

end
