(* ===== verification/Auth_Codec.thy ===== *)
theory Auth_Codec
  imports Prelude
begin

text \<open>
  The protected records of the authentication table: \<^verbatim>\<open>auth/src/error.rs\<close>, \<^verbatim>\<open>auth/src/protection.rs\<close>,
  the context labels of \<^verbatim>\<open>auth/src/keyring.rs\<close> and the first half of \<^verbatim>\<open>auth/src/table.rs\<close> (\<open>Record\<close>,
  \<open>RecordProtection\<close>).  Keyed BLAKE3, XChaCha20-Poly1305, HMAC and HKDF are other crates: they enter
  as the functions of a \<open>crypto\<close> record, and \<open>crypto_ok\<close> states what their documentation promises, output
  sizes and that decryption inverts encryption.  Nothing is assumed about collisions.  A call of
  \<open>getrandom\<close> is an argument, the bytes drawn or \<open>None\<close> when the system has none.
\<close>

section \<open>Errors, policies, labels\<close>

datatype auth_error =
    InvalidInput | DuplicateKey | MissingActiveKey | Randomness | InvalidToken | TokenTooLarge
  | Expired | NotYetValid | MissingCapability | Revoked | Replayed | PolicyUnavailable | StateFull
  | IncompatibleLayout | IncompatibleProtection

datatype state_protection = Blake3State | EncryptedState | UnprotectedState

fun protection_id :: "state_protection \<Rightarrow> nat" where
  "protection_id Blake3State = 1"
| "protection_id EncryptedState = 2"
| "protection_id UnprotectedState = 3"

record crypto =
  blake3_keyed :: "bytes \<Rightarrow> bytes \<Rightarrow> bytes"
  aead_encrypt :: "bytes \<Rightarrow> bytes \<Rightarrow> bytes \<Rightarrow> bytes \<Rightarrow> (bytes \<times> bytes) option"
  aead_decrypt :: "bytes \<Rightarrow> bytes \<Rightarrow> bytes \<Rightarrow> bytes \<Rightarrow> bytes \<Rightarrow> bytes option"
  aead_seal :: "bytes \<Rightarrow> bytes \<Rightarrow> bytes \<Rightarrow> bytes \<Rightarrow> bytes option"
  aead_open :: "bytes \<Rightarrow> bytes \<Rightarrow> bytes \<Rightarrow> bytes \<Rightarrow> bytes option"
  sha256 :: "bytes \<Rightarrow> bytes"
  hmac_sha256 :: "bytes \<Rightarrow> bytes \<Rightarrow> bytes"
  hkdf_sha256 :: "bytes \<Rightarrow> bytes \<Rightarrow> bytes \<Rightarrow> bytes"

definition crypto_ok :: "crypto \<Rightarrow> bool" where
  "crypto_ok c \<longleftrightarrow>
     (\<forall>k m. length (blake3_keyed c k m) = 32) \<and> (\<forall>k m. length (hmac_sha256 c k m) = 32) \<and>
     (\<forall>k nonce aad plain cipher tag. aead_encrypt c k nonce aad plain = Some (cipher, tag) \<longrightarrow>
        length cipher = length plain \<and> length tag = 16 \<and> aead_decrypt c k nonce aad cipher tag = Some plain) \<and>
     (\<forall>k nonce aad plain sealed. aead_seal c k nonce aad plain = Some sealed \<longrightarrow>
        length sealed = length plain + 16 \<and> aead_open c k nonce aad sealed = Some plain)"

definition ascii :: "string \<Rightarrow> bytes" where
  "ascii s = map of_char s"

definition to_be_bytes :: "nat \<Rightarrow> nat \<Rightarrow> bytes" where
  "to_be_bytes n x = rev (to_le_bytes n x)"

text \<open>\<open>keyring::context\<close>: every part behind its length.\<close>

fun context_parts :: "bytes list \<Rightarrow> bytes" where
  "context_parts [] = []"
| "context_parts (part # parts) = to_be_bytes 8 (length part) @ part @ context_parts parts"

section \<open>Records\<close>

definition SESSION :: nat where "SESSION = 1"
definition REVOKED :: nat where "REVOKED = 2"
definition CONSUMED :: nat where "CONSUMED = 3"

lemmas status_defs = SESSION_def REVOKED_def CONSUMED_def

lemma status_distinct [simp]:
  "SESSION \<noteq> REVOKED" "SESSION \<noteq> CONSUMED" "REVOKED \<noteq> SESSION" "REVOKED \<noteq> CONSUMED" "CONSUMED \<noteq> SESSION" "CONSUMED \<noteq> REVOKED"
  by (simp_all add: status_defs)

definition RECORD_WORDS :: nat where [simp]: "RECORD_WORDS = 12"
definition BANK_WORDS :: nat where [simp]: "BANK_WORDS = 17"
definition AUTH_STATE_KIND :: nat where "AUTH_STATE_KIND = 198"

type_synonym store_key = "nat list"
type_synonym wire = "nat list"

record auth_record =
  ar_key :: store_key
  ar_subject :: "nat list"
  ar_created_at :: nat
  ar_expires_at :: nat
  ar_generation :: nat
  ar_status :: nat

definition record_words :: "auth_record \<Rightarrow> nat list" where
  "record_words r = ar_key r @ ar_subject r @ [ar_created_at r, ar_expires_at r, ar_generation r, ar_status r]"

definition record_valid :: "auth_record \<Rightarrow> bool" where
  "record_valid r \<longleftrightarrow> ar_status r \<in> {SESSION, REVOKED, CONSUMED} \<and> ar_created_at r < ar_expires_at r \<and>
     (ar_status r = CONSUMED \<longrightarrow> ar_subject r = replicate 4 0 \<and> ar_generation r = 0)"

definition record_from_words :: "nat list \<Rightarrow> auth_error + auth_record" where
  "record_from_words ws =
     (let r = \<lparr>ar_key = take 4 ws, ar_subject = sub_slice ws 4 8, ar_created_at = ws ! 8, ar_expires_at = ws ! 9,
               ar_generation = ws ! 10, ar_status = ws ! 11\<rparr>
      in if ar_status r \<notin> {SESSION, REVOKED, CONSUMED} \<or> ar_created_at r \<ge> ar_expires_at r \<or>
            ar_status r = CONSUMED \<and> (ar_subject r \<noteq> replicate 4 0 \<or> ar_generation r \<noteq> 0)
         then Inl PolicyUnavailable else Inr r)"

text \<open>The types of the fields: four words each for key and subject, all words 64 bits wide.\<close>

definition record_typed :: "auth_record \<Rightarrow> bool" where
  "record_typed r \<longleftrightarrow> length (ar_key r) = 4 \<and> length (ar_subject r) = 4 \<and> (\<forall>w\<in>set (record_words r). w \<le> u64_max)"

definition wire_typed :: "wire \<Rightarrow> bool" where
  "wire_typed w \<longleftrightarrow> length w = BANK_WORDS \<and> (\<forall>x\<in>set w. x \<le> u64_max)"

section \<open>Words and bytes\<close>

definition words_to_bytes :: "nat list \<Rightarrow> bytes" where
  "words_to_bytes ws = concat (map (to_le_bytes 8) ws)"

text \<open>\<open>array::from_fn(|i| u64::from_le_bytes(bytes[i * 8..i * 8 + 8]))\<close> for \<open>n\<close> words.\<close>

definition bytes_to_words :: "nat \<Rightarrow> bytes \<Rightarrow> nat list" where
  "bytes_to_words n bs = map (\<lambda>i. from_le_bytes (sub_slice bs (i * 8) (i * 8 + 8))) [0..<n]"

lemma length_words_to_bytes [simp]: "length (words_to_bytes ws) = 8 * length ws"
  by (induction ws) (simp_all add: words_to_bytes_def)

lemma words_to_bytes_Cons: "words_to_bytes (w # ws) = to_le_bytes 8 w @ words_to_bytes ws"
  by (simp add: words_to_bytes_def)

lemma bytes_to_words_Suc:
  "bytes_to_words (Suc n) bs = from_le_bytes (take 8 bs) # bytes_to_words n (drop 8 bs)"
  unfolding bytes_to_words_def
  by (simp add: upt_conv_Cons map_Suc_upt [symmetric] sub_slice_def add.commute del: upt_Suc)

lemma length_bytes_to_words [simp]: "length (bytes_to_words n bs) = n"
  by (simp add: bytes_to_words_def)

lemma words_bytes_words:
  "n = length ws \<Longrightarrow> \<forall>w\<in>set ws. w \<le> u64_max \<Longrightarrow> bytes_to_words n (words_to_bytes ws) = ws"
proof (induction ws arbitrary: n)
  case Nil
  then show ?case by (simp add: bytes_to_words_def)
next
  case (Cons w ws)
  have "w mod 256 ^ 8 = w" using Cons.prems by (simp add: u64_max_def)
  then show ?case using Cons by (simp add: bytes_to_words_Suc words_to_bytes_Cons from_to_le_bytes)
qed

lemma bytes_words_bytes: "length bs = 8 * n \<Longrightarrow> words_to_bytes (bytes_to_words n bs) = bs"
proof (induction n arbitrary: bs)
  case 0
  then show ?case by (simp add: bytes_to_words_def words_to_bytes_def)
next
  case (Suc n)
  have "to_le_bytes 8 (from_le_bytes (take 8 bs)) = take 8 bs"
    using to_from_le_bytes [of "take 8 bs"] Suc.prems by simp
  then show ?case using Suc by (simp add: bytes_to_words_Suc words_to_bytes_Cons)
qed

lemma bytes_to_words_bound: "w \<in> set (bytes_to_words n bs) \<Longrightarrow> w \<le> u64_max"
proof -
  have "from_le_bytes (sub_slice bs i (i + 8)) \<le> u64_max" for i
    using from_le_bytes_bound [of "sub_slice bs i (i + 8)"] power_increasing [of "length (sub_slice bs i (i + 8))" 8 "256::nat"]
    by (simp add: sub_slice_def u64_max_def)
  then show "w \<in> set (bytes_to_words n bs) \<Longrightarrow> w \<le> u64_max" by (auto simp: bytes_to_words_def)
qed

lemma bytes_to_words_typed: "wire_typed (bytes_to_words BANK_WORDS bs)"
  by (auto simp: wire_typed_def dest: bytes_to_words_bound)

section \<open>Protection\<close>

record record_protection =
  rp_key :: bytes
  rp_policy :: state_protection

definition protection_context :: "record_protection \<Rightarrow> nat \<Rightarrow> nat \<Rightarrow> bytes" where
  "protection_context p index revision =
     ascii ''orbit-auth/v4/state-record'' @ [word_of_nat AUTH_STATE_KIND] @ to_le_bytes 8 (protection_id (rp_policy p)) @
     to_le_bytes 8 index @ to_le_bytes 8 revision"

definition protection_tag :: "crypto \<Rightarrow> record_protection \<Rightarrow> bytes \<Rightarrow> bytes \<Rightarrow> bytes" where
  "protection_tag c p aad rec = blake3_keyed c (rp_key p) (aad @ rec)"

definition encode :: "crypto \<Rightarrow> record_protection \<Rightarrow> bytes option \<Rightarrow> nat \<Rightarrow> nat \<Rightarrow> auth_record \<Rightarrow> auth_error + wire" where
  "encode c p random index revision r =
     (let plaintext = words_to_bytes (record_words r); aad = protection_context p index revision
      in case rp_policy p of
           Blake3State \<Rightarrow> Inr (bytes_to_words BANK_WORDS (plaintext @ protection_tag c p aad plaintext @ replicate 8 0))
         | EncryptedState \<Rightarrow>
             (case random of None \<Rightarrow> Inl Randomness
              | Some nonce \<Rightarrow>
                  (case aead_encrypt c (rp_key p) nonce aad plaintext of None \<Rightarrow> Inl PolicyUnavailable
                   | Some (cipher, tag) \<Rightarrow> Inr (bytes_to_words BANK_WORDS (nonce @ cipher @ tag))))
         | UnprotectedState \<Rightarrow> Inr (bytes_to_words BANK_WORDS (plaintext @ replicate 40 0)))"

definition decode :: "crypto \<Rightarrow> record_protection \<Rightarrow> nat \<Rightarrow> nat \<Rightarrow> wire \<Rightarrow> auth_error + auth_record" where
  "decode c p index revision w =
     (let bs = words_to_bytes w; aad = protection_context p index revision
      in case (case rp_policy p of
                 Blake3State \<Rightarrow>
                   if protection_tag c p aad (sub_slice bs 0 96) \<noteq> sub_slice bs 96 128 \<or> (\<exists>v\<in>set (drop 128 bs). v \<noteq> 0)
                   then Inl PolicyUnavailable else Inr (sub_slice bs 0 96)
               | EncryptedState \<Rightarrow>
                   ok_or PolicyUnavailable
                     (aead_decrypt c (rp_key p) (sub_slice bs 0 24) aad (sub_slice bs 24 120) (drop 120 bs))
               | UnprotectedState \<Rightarrow>
                   if \<exists>v\<in>set (drop 96 bs). v \<noteq> 0 then Inl PolicyUnavailable else Inr (sub_slice bs 0 96)) of
           Inl e \<Rightarrow> Inl e
         | Inr plaintext \<Rightarrow> record_from_words (bytes_to_words RECORD_WORDS plaintext))"

section \<open>Records and words\<close>

lemma record_from_words_valid:
  assumes "record_typed r"
  shows "record_from_words (record_words r) = (if record_valid r then Inr r else Inl PolicyUnavailable)"
proof -
  have key: "length (ar_key r) = 4" "length (ar_subject r) = 4" using assms by (simp_all add: record_typed_def)
  have "\<lparr>ar_key = take 4 (record_words r), ar_subject = sub_slice (record_words r) 4 8, ar_created_at = record_words r ! 8,
      ar_expires_at = record_words r ! 9, ar_generation = record_words r ! 10, ar_status = record_words r ! 11\<rparr> = r"
    using key by (simp add: record_words_def sub_slice_def nth_append)
  then show ?thesis by (auto simp: record_from_words_def record_valid_def Let_def not_less)
qed

lemma twelve_words:
  assumes "length ws = 12"
  shows "take 4 ws @ sub_slice ws 4 8 @ [ws ! 8, ws ! 9, ws ! 10, ws ! 11] = ws"
proof -
  have "ws = take 4 ws @ take 4 (drop 4 ws) @ drop 8 ws"
    by (metis add_2_eq_Suc' append_take_drop_id drop_drop numeral_Bit0 add.commute)
  moreover have "drop 8 ws = [ws ! 8, ws ! 9, ws ! 10, ws ! 11]"
    using assms by (intro nth_equalityI) (auto simp: less_Suc_eq numeral_eq_Suc)
  ultimately show ?thesis by (simp add: sub_slice_def)
qed

lemma record_from_wordsD:
  assumes ok: "record_from_words ws = Inr r" and len: "length ws = 12" and bound: "\<forall>w\<in>set ws. w \<le> u64_max"
  shows "record_words r = ws \<and> record_typed r \<and> record_valid r"
proof -
  have r: "r = \<lparr>ar_key = take 4 ws, ar_subject = sub_slice ws 4 8, ar_created_at = ws ! 8, ar_expires_at = ws ! 9,
      ar_generation = ws ! 10, ar_status = ws ! 11\<rparr>" and v: "record_valid r"
    using ok by (auto simp: record_from_words_def record_valid_def Let_def not_le split: if_splits)
  have w: "record_words r = ws" using twelve_words [OF len] by (simp add: r record_words_def)
  then have "record_typed r" using len bound by (simp add: record_typed_def) (simp add: r sub_slice_def)
  with w v show ?thesis by blast
qed

lemma record_words_length: "record_typed r \<Longrightarrow> length (record_words r) = 12"
  by (simp add: record_typed_def record_words_def)

lemma record_words_bytes: "record_typed r \<Longrightarrow> bytes_to_words 12 (words_to_bytes (record_words r)) = record_words r"
  using words_bytes_words [of 12 "record_words r"] by (simp add: record_words_length record_typed_def)

section \<open>Round trips of the protected record\<close>

definition nonce_ok :: "bytes option \<Rightarrow> bool" where
  "nonce_ok random \<longleftrightarrow> (\<forall>n. random = Some n \<longrightarrow> length n = 24)"

lemma decode_encode:
  assumes cr: "crypto_ok c" and n: "nonce_ok random" and r: "record_typed r" "record_valid r"
    and e: "encode c p random index revision r = Inr w"
  shows "decode c p index revision w = Inr r"
proof -
  let ?pt = "words_to_bytes (record_words r)"
  have len: "length ?pt = 96" using r(1) by (simp add: record_words_length)
  have readback: "record_from_words (bytes_to_words 12 ?pt) = Inr r"
    using r by (simp add: record_words_bytes record_from_words_valid)
  note slices = sub_slice_def bytes_words_bytes Let_def decode_def
  show ?thesis
  proof (cases "rp_policy p")
    case Blake3State
    have "length (protection_tag c p (protection_context p index revision) ?pt) = 32"
      using cr by (simp add: crypto_ok_def protection_tag_def)
    then show ?thesis using e Blake3State len readback by (auto simp: encode_def slices)
  next
    case EncryptedState
    with e obtain nonce cipher tag where d: "random = Some nonce"
        "aead_encrypt c (rp_key p) nonce (protection_context p index revision) ?pt = Some (cipher, tag)"
        "w = bytes_to_words BANK_WORDS (nonce @ cipher @ tag)"
      by (auto simp: encode_def Let_def split: option.splits)
    have l: "length nonce = 24" "length cipher = 96" "length tag = 16"
        "aead_decrypt c (rp_key p) nonce (protection_context p index revision) cipher tag = Some ?pt"
      using n cr d(1,2) len unfolding crypto_ok_def nonce_ok_def by fastforce+
    then show ?thesis using EncryptedState readback by (simp add: d(3) slices)
  next
    case UnprotectedState
    then show ?thesis using e len readback by (auto simp: encode_def slices)
  qed
qed

lemma encode_typed: "encode c p random index revision r = Inr w \<Longrightarrow> wire_typed w"
  by (auto simp: encode_def Let_def bytes_to_words_typed simp del: BANK_WORDS_def
      split: state_protection.splits option.splits)

lemma decode_valid: "decode c p index revision w = Inr r \<Longrightarrow> record_typed r \<and> record_valid r"
  by (auto simp: decode_def Let_def dest!: record_from_wordsD dest: bytes_to_words_bound
      split: state_protection.splits sum.splits if_splits)


lemma zeros: "\<not> (\<exists>v\<in>set bs. v \<noteq> 0) \<longleftrightarrow> bs = replicate (length bs) 0"
  by (metis in_set_replicate replicate_length_same)

lemma encode_decode:
  assumes w: "wire_typed w" and pol: "rp_policy p \<noteq> EncryptedState" and d: "decode c p index revision w = Inr r"
  shows "encode c p random index revision r = Inr w"
proof -
  let ?bs = "words_to_bytes w"
  have len: "length ?bs = 136" and readback: "bytes_to_words 17 ?bs = w"
    using w by (simp_all add: wire_typed_def words_bytes_words)
  have pt: "words_to_bytes (record_words r) = sub_slice ?bs 0 96"
  proof -
    have "record_from_words (bytes_to_words 12 (sub_slice ?bs 0 96)) = Inr r"
      using d pol by (auto simp: decode_def Let_def split: state_protection.splits if_splits)
    then have "record_words r = bytes_to_words 12 (sub_slice ?bs 0 96)"
      using record_from_wordsD [of "bytes_to_words 12 (sub_slice ?bs 0 96)" r] by (auto dest: bytes_to_words_bound)
    then show ?thesis using len by (simp add: bytes_words_bytes)
  qed
  show ?thesis
  proof (cases "rp_policy p")
    case Blake3State
    then have t: "protection_tag c p (protection_context p index revision) (sub_slice ?bs 0 96) = sub_slice ?bs 96 128"
        and "drop 128 ?bs = replicate (length (drop 128 ?bs)) 0"
      using d zeros [of "drop 128 ?bs"] by (auto simp: decode_def Let_def split: if_splits)
    then have z: "drop 128 ?bs = replicate 8 0" using len by simp
    have "sub_slice ?bs 0 96 @ sub_slice ?bs 96 128 @ drop 128 ?bs = ?bs"
      using append_take_drop_id [of 96 ?bs] append_take_drop_id [of 32 "drop 96 ?bs"] by (simp add: sub_slice_def)
    then show ?thesis using Blake3State readback by (simp add: encode_def Let_def pt t z [symmetric])
  next
    case UnprotectedState
    then have "drop 96 ?bs = replicate (length (drop 96 ?bs)) 0"
      using d zeros [of "drop 96 ?bs"] by (auto simp: decode_def Let_def split: if_splits)
    then have z: "drop 96 ?bs = replicate 40 0" using len by simp
    have "sub_slice ?bs 0 96 @ drop 96 ?bs = ?bs" by (simp add: sub_slice_def)
    then show ?thesis using UnprotectedState readback by (simp add: encode_def Let_def pt z [symmetric])
  qed (use pol in simp)
qed

section \<open>Labels are unambiguous\<close>

lemma to_le_bytes_inj:
  assumes "to_le_bytes 8 x = to_le_bytes 8 y" "x \<le> u64_max" "y \<le> u64_max"
  shows "x = y"
proof -
  have "from_le_bytes (to_le_bytes 8 x) = from_le_bytes (to_le_bytes 8 y)" by (simp add: assms(1))
  then show ?thesis using assms(2,3) by (simp add: from_to_le_bytes u64_max_def)
qed

lemma length_to_be_bytes [simp]: "length (to_be_bytes n x) = n"
  by (simp add: to_be_bytes_def)

lemma to_be_bytes_inj:
  "to_be_bytes 8 x = to_be_bytes 8 y \<Longrightarrow> x \<le> u64_max \<Longrightarrow> y \<le> u64_max \<Longrightarrow> x = y"
  by (rule to_le_bytes_inj) (simp_all add: to_be_bytes_def)

lemma context_parts_inj:
  "\<forall>x\<in>set xs. length x \<le> u64_max \<Longrightarrow> \<forall>y\<in>set ys. length y \<le> u64_max \<Longrightarrow>
   context_parts xs = context_parts ys \<Longrightarrow> xs = ys"
proof (induction xs arbitrary: ys)
  case Nil
  then have "length (context_parts ys) = 0" by simp
  then show ?case by (cases ys) simp_all
next
  case (Cons x xs)
  have "context_parts ys \<noteq> []" using arg_cong [OF Cons.prems(3), of length] by auto
  then obtain y ys' where ys: "ys = y # ys'" by (cases ys) simp_all
  have "to_be_bytes 8 (length x) = to_be_bytes 8 (length y) \<and> x @ context_parts xs = y @ context_parts ys'"
    using Cons.prems(3) by (simp add: ys append_eq_append_conv)
  moreover from this have "length x = length y" using Cons.prems(1,2) by (intro to_be_bytes_inj) (simp_all add: ys)
  ultimately have "x = y" "context_parts xs = context_parts ys'" by (simp_all add: append_eq_append_conv)
  moreover from this have "xs = ys'" using Cons.IH [of ys'] Cons.prems(1,2) by (simp add: ys)
  ultimately show ?case by (simp add: ys)
qed

lemma protection_context_inj:
  assumes "protection_context p i r = protection_context p j q" "i \<le> u64_max" "j \<le> u64_max" "r \<le> u64_max" "q \<le> u64_max"
  shows "i = j \<and> r = q"
  using assms to_le_bytes_inj [of i j] to_le_bytes_inj [of r q]
  by (auto simp: protection_context_def append_eq_append_conv)

lemma length_protection_context [simp]: "length (protection_context p i r) = 51"
  by (simp add: protection_context_def ascii_def)

section \<open>Properties\<close>

text \<open>A concrete instance of the foreign functions, for the examples: the last bytes of a message as its hash and the identity cipher.\<close>

definition demo_hash :: "bytes \<Rightarrow> bytes \<Rightarrow> bytes" where
  "demo_hash k m = take 32 (rev (k @ m) @ replicate 32 0)"

definition demo_crypto :: crypto where
  "demo_crypto = \<lparr>blake3_keyed = demo_hash, aead_encrypt = (\<lambda>k n a m. Some (m, take 16 (demo_hash k (n @ a @ m)))),
     aead_decrypt = (\<lambda>k n a m t. if t = take 16 (demo_hash k (n @ a @ m)) then Some m else None),
     aead_seal = (\<lambda>k n a m. Some (m @ take 16 (demo_hash k (n @ a @ m)))),
     aead_open = (\<lambda>k n a m. let b = take (length m - 16) m
                            in if drop (length m - 16) m = take 16 (demo_hash k (n @ a @ b)) then Some b else None),
     sha256 = demo_hash [], hmac_sha256 = demo_hash, hkdf_sha256 = (\<lambda>salt k info. demo_hash (salt @ k) info)\<rparr>"

definition demo_record :: auth_record where
  "demo_record = \<lparr>ar_key = [5, 6, 7, 8], ar_subject = [1, 2, 3, 4], ar_created_at = 10, ar_expires_at = 90,
     ar_generation = 0, ar_status = 1\<rparr>"

lemma length_demo_hash [simp]: "length (demo_hash k m) = 32"
  by (simp only: demo_hash_def length_take length_append length_replicate length_rev)

lemma demo_crypto_ok: "crypto_ok demo_crypto"
  by (auto simp: crypto_ok_def demo_crypto_def Let_def)

lemma demo_record_ok: "record_typed demo_record" "record_valid demo_record"
  by code_simp+


text \<open>
  Under every protection policy a valid record written for a slot and a revision is read back from its
  seventeen words unchanged, whatever the nonce, and writing fails only when the encrypting policy draws
  no nonce or its cipher refuses.
\<close>

lemma record_roundtrip:
  assumes "crypto_ok c" "nonce_ok random" "record_typed r" "record_valid r"
  shows "case encode c p random index revision r of
       Inr w \<Rightarrow> decode c p index revision w = Inr r \<and> length w = BANK_WORDS
     | Inl e \<Rightarrow> rp_policy p = EncryptedState \<and> (random = None \<and> e = Randomness \<or>
         (\<exists>n. random = Some n \<and> aead_encrypt c (rp_key p) n (protection_context p index revision)
            (words_to_bytes (record_words r)) = None) \<and> e = PolicyUnavailable)"
proof (cases "encode c p random index revision r")
  case (Inl e)
  then show ?thesis by (auto simp: encode_def Let_def split: state_protection.splits option.splits)
next
  case (Inr w)
  then show ?thesis using decode_encode [OF assms Inr] encode_typed [OF Inr] by (simp add: wire_typed_def)
qed

text \<open>
  C19: what the keyed hash protects.  If a bank is accepted for slot \<open>i\<close> at revision \<open>r\<close>, its words are
  exactly what the code itself writes for that record, slot and revision; and the same words accepted in
  another place, at another slot or another revision, exhibit two different messages with one keyed hash.
  Copying a record elsewhere or restoring it under a later revision therefore needs a collision.
\<close>

theorem blake3_record_authentic:
  assumes "rp_policy p = Blake3State" "wire_typed w" "decode c p i r w = Inr rec"
  shows "encode c p random i r rec = Inr w \<and>
    (\<forall>j q rec'. j \<le> u64_max \<and> q \<le> u64_max \<and> i \<le> u64_max \<and> r \<le> u64_max \<and> (j, q) \<noteq> (i, r) \<and> decode c p j q w = Inr rec' \<longrightarrow>
       (\<exists>m m'. m \<noteq> m' \<and> blake3_keyed c (rp_key p) m = blake3_keyed c (rp_key p) m'))"
proof (intro conjI allI impI)
  show "encode c p random i r rec = Inr w" using assms by (intro encode_decode) simp_all
next
  fix j q rec'
  let ?m = "\<lambda>a b. protection_context p a b @ sub_slice (words_to_bytes w) 0 96"
  assume a: "j \<le> u64_max \<and> q \<le> u64_max \<and> i \<le> u64_max \<and> r \<le> u64_max \<and> (j, q) \<noteq> (i, r) \<and> decode c p j q w = Inr rec'"
  then have "blake3_keyed c (rp_key p) (?m j q) = blake3_keyed c (rp_key p) (?m i r)"
    using assms(1,3) by (simp add: decode_def Let_def protection_tag_def split: if_splits)
  moreover have "?m j q \<noteq> ?m i r"
    using protection_context_inj [of p j q i r] a by auto
  ultimately show "\<exists>m m'. m \<noteq> m' \<and> blake3_keyed c (rp_key p) m = blake3_keyed c (rp_key p) m'" by blast
qed

theorem blake3_record_authentic_witness:
  "\<exists>w. encode demo_crypto \<lparr>rp_key = [9], rp_policy = Blake3State\<rparr> None 4 7 demo_record = Inr w \<and>
     decode demo_crypto \<lparr>rp_key = [9], rp_policy = Blake3State\<rparr> 4 7 w = Inr demo_record"
proof -
  let ?p = "\<lparr>rp_key = [9], rp_policy = Blake3State\<rparr>"
  obtain w where w: "encode demo_crypto ?p None 4 7 demo_record = Inr w" by (simp add: encode_def Let_def)
  have d: "decode demo_crypto ?p 4 7 w = Inr demo_record"
    by (rule decode_encode [OF demo_crypto_ok _ demo_record_ok w]) (simp add: nonce_ok_def)
  show ?thesis using blake3_record_authentic [OF _ encode_typed [OF w] d, of None] d by auto
qed

end
