(* ===== verification/Auth_Table.thy ===== *)
theory Auth_Table
  imports Auth_Codec
begin

text \<open>
  The bounded table of \<^verbatim>\<open>auth/src/table.rs\<close>: slots with two banks and a revision that never wraps, the
  lock-free scan and the operations under the writer lock.  A read of a slot performs eighteen further
  loads after the first, each at its own instant: \<open>read_once\<close> takes the slot as it stands at each of
  its loads, so that a writer may run between any two of them.  A write is the list of its atomic stores.
  The nonce that a store draws is looked up by slot index, because no operation stores twice in one slot.
\<close>

section \<open>Slots\<close>

record auth_slot =
  sl_revision :: nat
  sl_banks :: "wire list"

datatype slot_read = RdEmpty | RdValue nat wire | RdChanged

datatype auth_write = StBank nat nat nat | StRevision nat

definition auth_slot_empty :: auth_slot where
  "auth_slot_empty = \<lparr>sl_revision = 0, sl_banks = replicate 2 (replicate BANK_WORDS 0)\<rparr>"

definition read_once :: "(nat \<Rightarrow> auth_slot) \<Rightarrow> slot_read" where
  "read_once obs =
     (let before = sl_revision (obs 0)
      in if before = 0 then RdEmpty
         else let ws = map (\<lambda>i. sl_banks (obs (Suc i)) ! (before mod 2) ! i) [0..<BANK_WORDS]
              in if sl_revision (obs (Suc BANK_WORDS)) \<noteq> before then RdChanged else RdValue before ws)"

fun apply_write :: "auth_slot \<Rightarrow> auth_write \<Rightarrow> auth_slot" where
  "apply_write s (StBank b i v) = s\<lparr>sl_banks := (sl_banks s)[b := (sl_banks s ! b)[i := v]]\<rparr>"
| "apply_write s (StRevision r) = s\<lparr>sl_revision := r\<rparr>"

definition store_writes :: "nat \<Rightarrow> wire \<Rightarrow> auth_write list" where
  "store_writes revision w = map (\<lambda>i. StBank (revision mod 2) i (w ! i)) [0..<BANK_WORDS] @ [StRevision revision]"

definition auth_store ::
    "crypto \<Rightarrow> record_protection \<Rightarrow> bytes option \<Rightarrow> auth_slot \<Rightarrow> auth_record \<Rightarrow> nat \<Rightarrow> auth_slot \<times> (auth_error + nat)" where
  "auth_store c p random s r index =
     (case record_from_words (record_words r) of
        Inl e \<Rightarrow> (s, Inl e)
      | Inr _ \<Rightarrow>
          (case checked_add u64_max (sl_revision s) 1 of
             None \<Rightarrow> (s, Inl PolicyUnavailable)
           | Some revision \<Rightarrow>
               (case encode c p random index revision r of
                  Inl e \<Rightarrow> (s, Inl e)
                | Inr w \<Rightarrow> (foldl apply_write s (store_writes revision w), Inr revision))))"

section \<open>Scans\<close>

record auth_snapshot =
  sn_index :: nat
  sn_revision :: nat
  sn_record :: auth_record
  sn_wire :: wire

record auth_lookup =
  lk_snapshot :: "auth_snapshot option"
  lk_raced :: bool

definition lookup_stable :: "auth_snapshot option \<Rightarrow> auth_lookup" where
  "lookup_stable s = \<lparr>lk_snapshot = s, lk_raced = False\<rparr>"

definition lookup_changed :: auth_lookup where
  "lookup_changed = \<lparr>lk_snapshot = None, lk_raced = True\<rparr>"

text \<open>\<open>(key.0[0] as usize).wrapping_add(offset) % slots.len()\<close>\<close>

definition auth_path :: "nat \<Rightarrow> store_key \<Rightarrow> nat \<Rightarrow> nat" where
  "auth_path n key offset = wrapping_add u64_max (hd key) offset mod n"

text \<open>The scan: \<open>obs offset\<close> is what the loads of the slot at that offset see.\<close>

fun lookup_scan ::
    "crypto \<Rightarrow> record_protection \<Rightarrow> nat \<Rightarrow> (nat \<Rightarrow> nat \<Rightarrow> auth_slot) \<Rightarrow> store_key \<Rightarrow> nat list \<Rightarrow> auth_error + auth_lookup" where
  "lookup_scan c p n obs key [] = Inr (lookup_stable None)"
| "lookup_scan c p n obs key (offset # offsets) =
     (case read_once (obs offset) of
        RdEmpty \<Rightarrow> Inr (lookup_stable None)
      | RdValue revision w \<Rightarrow>
          (case decode c p (auth_path n key offset) revision w of
             Inl e \<Rightarrow> Inl e
           | Inr r \<Rightarrow>
               if ar_key r = key
               then Inr (lookup_stable (Some \<lparr>sn_index = auth_path n key offset, sn_revision = revision,
                                              sn_record = r, sn_wire = w\<rparr>))
               else lookup_scan c p n obs key offsets)
      | RdChanged \<Rightarrow> Inr lookup_changed)"

definition lookup :: "crypto \<Rightarrow> record_protection \<Rightarrow> nat \<Rightarrow> (nat \<Rightarrow> nat \<Rightarrow> auth_slot) \<Rightarrow> store_key \<Rightarrow> auth_error + auth_lookup" where
  "lookup c p n obs key = lookup_scan c p n obs key [0..<n]"

text \<open>What the loads see while the writer lock is held: the slots do not move.\<close>

definition quiet :: "auth_slot list \<Rightarrow> store_key \<Rightarrow> nat \<Rightarrow> nat \<Rightarrow> auth_slot" where
  "quiet slots key offset load = slots ! auth_path (length slots) key offset"

definition find_record :: "crypto \<Rightarrow> record_protection \<Rightarrow> auth_slot list \<Rightarrow> store_key \<Rightarrow> auth_error + auth_snapshot option" where
  "find_record c p slots key =
     (case lookup c p (length slots) (quiet slots key) key of
        Inl e \<Rightarrow> Inl e
      | Inr result \<Rightarrow> if lk_raced result then Inl PolicyUnavailable else Inr (lk_snapshot result))"

fun sessions_from ::
    "crypto \<Rightarrow> record_protection \<Rightarrow> nat list \<Rightarrow> nat \<Rightarrow> nat \<Rightarrow> auth_slot list \<Rightarrow> auth_error + auth_snapshot list" where
  "sessions_from c p subject now index [] = Inr []"
| "sessions_from c p subject now index (s # slots) =
     (case read_once (\<lambda>_. s) of
        RdEmpty \<Rightarrow> sessions_from c p subject now (Suc index) slots
      | RdChanged \<Rightarrow> Inl PolicyUnavailable
      | RdValue revision w \<Rightarrow>
          (case decode c p index revision w of
             Inl e \<Rightarrow> Inl e
           | Inr r \<Rightarrow>
               if ar_status r = SESSION \<and> ar_subject r = subject \<and> now < ar_expires_at r
               then if now < ar_created_at r then Inl NotYetValid
                    else (case sessions_from c p subject now (Suc index) slots of
                            Inl e \<Rightarrow> Inl e
                          | Inr rest \<Rightarrow>
                              Inr (\<lparr>sn_index = index, sn_revision = revision, sn_record = r, sn_wire = w\<rparr> # rest))
               else sessions_from c p subject now (Suc index) slots))"

definition subject_sessions ::
    "crypto \<Rightarrow> record_protection \<Rightarrow> auth_slot list \<Rightarrow> nat list \<Rightarrow> nat \<Rightarrow> auth_error + auth_snapshot list" where
  "subject_sessions c p slots subject now = sessions_from c p subject now 0 slots"

definition store_at ::
    "crypto \<Rightarrow> record_protection \<Rightarrow> (nat \<Rightarrow> bytes option) \<Rightarrow> auth_slot list \<Rightarrow> nat \<Rightarrow> auth_record \<Rightarrow> auth_slot list \<times> (auth_error + nat)" where
  "store_at c p random slots index r =
     (case auth_store c p (random index) (slots ! index) r index of (s, res) \<Rightarrow> (slots[index := s], res))"

fun insert_scan ::
    "crypto \<Rightarrow> record_protection \<Rightarrow> (nat \<Rightarrow> bytes option) \<Rightarrow> auth_slot list \<Rightarrow> auth_record \<Rightarrow> nat \<Rightarrow> nat list \<Rightarrow>
     auth_slot list \<times> (auth_error + unit)" where
  "insert_scan c p random slots r now [] = (slots, Inl StateFull)"
| "insert_scan c p random slots r now (offset # offsets) =
     (let index = auth_path (length slots) (ar_key r) offset
      in case (case read_once (\<lambda>_. slots ! index) of
                 RdEmpty \<Rightarrow> Inr True
               | RdValue revision w \<Rightarrow>
                   (case decode c p index revision w of Inl e \<Rightarrow> Inl e | Inr old \<Rightarrow> Inr (now \<ge> ar_expires_at old))
               | RdChanged \<Rightarrow> Inl PolicyUnavailable) of
           Inl e \<Rightarrow> (slots, Inl e)
         | Inr reusable \<Rightarrow>
             if reusable
             then (case store_at c p random slots index r of
                     (slots', Inl e) \<Rightarrow> (slots', Inl e) | (slots', Inr _) \<Rightarrow> (slots', Inr ()))
             else insert_scan c p random slots r now offsets)"

definition insert_record ::
    "crypto \<Rightarrow> record_protection \<Rightarrow> (nat \<Rightarrow> bytes option) \<Rightarrow> auth_slot list \<Rightarrow> auth_record \<Rightarrow> nat \<Rightarrow> auth_slot list \<times> (auth_error + unit)" where
  "insert_record c p random slots r now = insert_scan c p random slots r now [0..<length slots]"

section \<open>The table\<close>

text \<open>
  \<open>Table::write\<close>: the mutex or the file lock may be unavailable.  \<open>Table::lookup\<close>: a raced scan is repeated
  once under the lock, on the slots as they stand then.
\<close>

definition table_write :: "bool \<Rightarrow> 't \<Rightarrow> ('t \<Rightarrow> 't \<times> (auth_error + 'a)) \<Rightarrow> 't \<times> (auth_error + 'a)" where
  "table_write lock slots f = (if lock then f slots else (slots, Inl PolicyUnavailable))"

definition table_lookup ::
    "crypto \<Rightarrow> record_protection \<Rightarrow> bool \<Rightarrow> (nat \<Rightarrow> nat \<Rightarrow> auth_slot) \<Rightarrow> auth_slot list \<Rightarrow> store_key \<Rightarrow> auth_error + auth_snapshot option" where
  "table_lookup c p lock obs slots key =
     (case lookup c p (length slots) obs key of
        Inl e \<Rightarrow> Inl e
      | Inr result \<Rightarrow>
          if lk_raced result
          then snd (table_write lock slots (\<lambda>slots. (slots, find_record c p slots key)))
          else Inr (lk_snapshot result))"

definition table_unchanged ::
    "record_protection \<Rightarrow> (nat \<Rightarrow> auth_slot) \<Rightarrow> nat \<Rightarrow> auth_snapshot \<Rightarrow> bool" where
  "table_unchanged p obs n snapshot =
     (if \<not> sn_index snapshot < n then False
      else if protection_id (rp_policy p) = protection_id UnprotectedState
           then sl_revision (obs 0) = sn_revision snapshot
           else read_once obs = RdValue (sn_revision snapshot) (sn_wire snapshot))"

section \<open>Opening\<close>

definition AUTH_HEADER :: nat where [simp]: "AUTH_HEADER = 64"
definition AUTH_SLOT_SIZE :: nat where [simp]: "AUTH_SLOT_SIZE = 320"

definition auth_header :: "nat \<Rightarrow> nat \<Rightarrow> bytes" where
  "auth_header capacity protection =
     ascii ''OAUTH004'' @ to_le_bytes 8 capacity @ to_le_bytes 8 AUTH_SLOT_SIZE @ to_le_bytes 8 BANK_WORDS @ to_le_bytes 8 1 @
     to_le_bytes 8 protection @ replicate 16 0"

text \<open>The header check of \<open>Table::shm\<close> on a segment that already existed.\<close>

definition header_accepts :: "nat \<Rightarrow> nat \<Rightarrow> bytes \<Rightarrow> auth_error + unit" where
  "header_accepts capacity protection actual =
     (let expected = auth_header capacity protection
      in if take 40 actual \<noteq> take 40 expected \<or> drop 48 actual \<noteq> drop 48 expected then Inl IncompatibleLayout
         else if sub_slice actual 40 48 \<noteq> sub_slice expected 40 48 then Inl IncompatibleProtection
         else Inr ())"

record shm_table =
  st_header :: bytes
  st_slots :: "auth_slot list"

definition table_shm :: "nat \<Rightarrow> nat \<Rightarrow> shm_table option \<Rightarrow> auth_error + shm_table" where
  "table_shm capacity protection existing =
     (case existing of
        None \<Rightarrow> Inr \<lparr>st_header = auth_header capacity protection, st_slots = replicate capacity auth_slot_empty\<rparr>
      | Some t \<Rightarrow> (case header_accepts capacity protection (st_header t) of Inl e \<Rightarrow> Inl e | Inr _ \<Rightarrow> Inr t))"

record memory_table =
  mt_protection :: nat
  mt_slots :: "auth_slot list"
  mt_handles :: nat

text \<open>The registry of process-local tables, by the address of the fleet; a table with no handle is gone.\<close>

definition table_new_memory ::
    "nat \<Rightarrow> (nat \<rightharpoonup> memory_table) \<Rightarrow> nat \<Rightarrow> nat \<Rightarrow> (nat \<rightharpoonup> memory_table) \<times> (auth_error + memory_table)" where
  "table_new_memory capacity registry fleet protection =
     (let retained = (\<lambda>f. case registry f of Some t \<Rightarrow> (if mt_handles t > 0 then Some t else None) | None \<Rightarrow> None)
      in case retained fleet of
           Some t \<Rightarrow>
             if mt_protection t \<noteq> protection then (retained, Inl IncompatibleProtection)
             else (let t' = t\<lparr>mt_handles := Suc (mt_handles t)\<rparr> in (retained(fleet \<mapsto> t'), Inr t'))
         | None \<Rightarrow>
             (let t' = \<lparr>mt_protection = protection, mt_slots = replicate capacity auth_slot_empty, mt_handles = 1\<rparr>
              in (retained(fleet \<mapsto> t'), Inr t')))"

end
