(* ===== verification/Auth_Map.thy ===== *)
theory Auth_Map
  imports Auth_Table
begin

text \<open>
  The table of \<^verbatim>\<open>auth/src/table.rs\<close> as a finite map from keys to records.  \<open>auth_ok\<close> is the table
  invariant: every committed bank decodes, every record lies on the probe path of its key behind occupied
  slots only, and no key occurs twice.  \<open>find_record\<close> is the lookup in that map; a store through a snapshot
  replaces one record, and an insertion adds one record and at most drops an expired one.
\<close>

section \<open>Slots at rest\<close>

definition slot_typed :: "auth_slot \<Rightarrow> bool" where
  "slot_typed s \<longleftrightarrow> length (sl_banks s) = 2 \<and> (\<forall>w\<in>set (sl_banks s). length w = BANK_WORDS) \<and> sl_revision s \<le> u64_max"

definition active_bank :: "auth_slot \<Rightarrow> wire" where
  "active_bank s = sl_banks s ! (sl_revision s mod 2)"

lemma bank_length: "slot_typed s \<Longrightarrow> length (sl_banks s ! (n mod 2)) = BANK_WORDS"
  by (simp add: slot_typed_def)

lemma read_now:
  assumes "slot_typed s"
  shows "read_once (\<lambda>_. s) = (if sl_revision s = 0 then RdEmpty else RdValue (sl_revision s) (active_bank s))"
proof -
  have "map (\<lambda>i. sl_banks s ! (sl_revision s mod 2) ! i) [0..<BANK_WORDS] = active_bank s"
    using bank_length [OF assms] map_nth [of "active_bank s"] by (simp add: active_bank_def)
  then show ?thesis by (simp add: read_once_def Let_def)
qed

lemma partial_bank:
  assumes "slot_typed s" "length w = BANK_WORDS" "k \<le> BANK_WORDS" "b < 2"
  shows "foldl apply_write s (map (\<lambda>i. StBank b i (w ! i)) [0..<k]) =
    s\<lparr>sl_banks := (sl_banks s)[b := take k w @ drop k (sl_banks s ! b)]\<rparr>"
  using assms(3)
proof (induction k)
  case 0
  then show ?case by simp
next
  case (Suc k)
  have l: "b < length (sl_banks s)" "length (sl_banks s ! b) = BANK_WORDS"
    using assms(1,4) by (auto simp: slot_typed_def)
  have "(take k w @ drop k (sl_banks s ! b))[k := w ! k] = take (Suc k) w @ drop (Suc k) (sl_banks s ! b)"
    using Suc.prems assms(2) l(2)
    by (simp add: list_update_append take_Suc_conv_app_nth Cons_nth_drop_Suc [symmetric])
  then show ?case using Suc l(1) by simp
qed

lemma store_writes_commit:
  assumes "slot_typed s" "length w = BANK_WORDS"
  shows "foldl apply_write s (store_writes revision w) =
    s\<lparr>sl_revision := revision, sl_banks := (sl_banks s)[revision mod 2 := w]\<rparr>"
proof -
  have "length (sl_banks s ! (revision mod 2)) = BANK_WORDS" by (rule bank_length [OF assms(1)])
  then show ?thesis
    using partial_bank [OF assms, of BANK_WORDS "revision mod 2"] assms(2) by (simp add: store_writes_def)
qed

definition slot_record :: "crypto \<Rightarrow> record_protection \<Rightarrow> nat \<Rightarrow> auth_slot \<Rightarrow> auth_record option" where
  "slot_record c p index s =
     (if sl_revision s = 0 then None
      else case decode c p index (sl_revision s) (active_bank s) of Inl _ \<Rightarrow> None | Inr r \<Rightarrow> Some r)"

definition slot_ok :: "crypto \<Rightarrow> record_protection \<Rightarrow> nat \<Rightarrow> auth_slot \<Rightarrow> bool" where
  "slot_ok c p index s \<longleftrightarrow> slot_typed s \<and> (sl_revision s \<noteq> 0 \<longrightarrow> slot_record c p index s \<noteq> None)"

lemma slot_okD: "slot_ok c p i s \<Longrightarrow> slot_record c p i s = None \<longleftrightarrow> sl_revision s = 0"
  by (auto simp: slot_ok_def slot_record_def)

lemma slot_record_decode:
  "slot_record c p i s = Some r \<longleftrightarrow> sl_revision s \<noteq> 0 \<and> decode c p i (sl_revision s) (active_bank s) = Inr r"
  by (auto simp: slot_record_def split: sum.splits)

definition stored :: "crypto \<Rightarrow> record_protection \<Rightarrow> nat \<Rightarrow> auth_record \<Rightarrow> auth_slot \<Rightarrow> auth_slot \<Rightarrow> bool" where
  "stored c p i r s s' \<longleftrightarrow> slot_ok c p i s' \<and> slot_record c p i s' = Some r \<and> sl_revision s' = Suc (sl_revision s)"

lemma auth_store_cases:
  assumes cr: "crypto_ok c" and n: "nonce_ok random" and s: "slot_ok c p i s" and r: "record_typed r"
    and st: "auth_store c p random s r i = (s', res)"
  shows "(\<exists>e. res = Inl e \<and> s' = s) \<or> (res = Inr (sl_revision s') \<and> record_valid r \<and> stored c p i r s s')"
proof (cases "record_valid r \<and> sl_revision s < u64_max")
  case False
  then show ?thesis using st r by (auto simp: auth_store_def record_from_words_valid checked_add_def split: if_splits)
next
  case True
  show ?thesis
  proof (cases "encode c p random i (Suc (sl_revision s)) r")
    case (Inl e)
    then show ?thesis using st r True
      by (auto simp: auth_store_def record_from_words_valid checked_add_def)
  next
    case (Inr w)
    let ?rev = "Suc (sl_revision s)"
    have len: "length w = BANK_WORDS" using encode_typed [OF Inr] by (simp add: wire_typed_def)
    have s': "s' = s\<lparr>sl_revision := ?rev, sl_banks := (sl_banks s)[?rev mod 2 := w]\<rparr>" "res = Inr ?rev"
      using st r True Inr s store_writes_commit [of s w ?rev] len
      by (simp_all add: auth_store_def record_from_words_valid checked_add_def slot_ok_def)
    have banks: "length (sl_banks s) = 2" using s by (simp add: slot_ok_def slot_typed_def)
    have act: "active_bank s' = w" using banks by (simp add: s'(1) active_bank_def)
    have "slot_typed s'"
      using s len True by (auto simp: slot_ok_def slot_typed_def s'(1) dest: set_update_subset_insert [THEN subsetD])
    moreover have "decode c p i ?rev w = Inr r" using cr n r True by (intro decode_encode [OF _ _ _ _ Inr]) simp_all
    ultimately show ?thesis using True s' act by (simp add: stored_def slot_ok_def slot_record_def)
  qed
qed

section \<open>The table as a map\<close>

definition held :: "crypto \<Rightarrow> record_protection \<Rightarrow> auth_slot list \<Rightarrow> nat \<Rightarrow> auth_record option" where
  "held c p slots i = (if i < length slots then slot_record c p i (slots ! i) else None)"

definition auth_ok :: "crypto \<Rightarrow> record_protection \<Rightarrow> auth_slot list \<Rightarrow> bool" where
  "auth_ok c p slots \<longleftrightarrow>
     (\<forall>i<length slots. slot_ok c p i (slots ! i)) \<and>
     (\<forall>i r. held c p slots i = Some r \<longrightarrow>
        (\<exists>d<length slots. auth_path (length slots) (ar_key r) d = i \<and>
           (\<forall>e<d. held c p slots (auth_path (length slots) (ar_key r) e) \<noteq> None))) \<and>
     (\<forall>i j r q. held c p slots i = Some r \<and> held c p slots j = Some q \<and> ar_key r = ar_key q \<longrightarrow> i = j)"

definition current :: "crypto \<Rightarrow> record_protection \<Rightarrow> auth_slot list \<Rightarrow> store_key \<Rightarrow> auth_record option" where
  "current c p slots key =
     List.find (\<lambda>r. ar_key r = key) (List.map_filter (held c p slots) [0..<length slots])"

lemma held_length: "held c p slots i = Some r \<Longrightarrow> i < length slots"
  by (simp add: held_def split: if_splits)

lemma auth_ok_unique:
  "auth_ok c p slots \<Longrightarrow> held c p slots i = Some r \<Longrightarrow> held c p slots j = Some q \<Longrightarrow> ar_key r = ar_key q \<Longrightarrow> i = j"
  unfolding auth_ok_def by blast

lemma held_typed: "held c p slots i = Some r \<Longrightarrow> record_typed r \<and> record_valid r"
  by (auto simp: held_def slot_record_decode split: if_splits dest: decode_valid)

lemma set_held: "set (List.map_filter (held c p slots) [0..<length slots]) = {r. \<exists>i. held c p slots i = Some r}"
proof -
  have "r \<in> set (List.map_filter (held c p slots) [0..<length slots])" if "held c p slots i = Some r" for i r
    using that held_length [OF that] by (force simp: map_filter_def)
  then show ?thesis by (auto simp: map_filter_def)
qed

lemma current_Some:
  assumes "auth_ok c p slots"
  shows "current c p slots key = Some r \<longleftrightarrow> (\<exists>i. held c p slots i = Some r) \<and> ar_key r = key"
proof
  assume "current c p slots key = Some r"
  then show "(\<exists>i. held c p slots i = Some r) \<and> ar_key r = key"
    unfolding current_def using find_SomeD set_held by fastforce
next
  assume h: "(\<exists>i. held c p slots i = Some r) \<and> ar_key r = key"
  then have "r \<in> set (List.map_filter (held c p slots) [0..<length slots])" by (simp add: set_held)
  then obtain q where q: "current c p slots key = Some q"
    using h unfolding current_def by (metis (mono_tags, lifting) find_None_iff not_None_eq)
  then have "(\<exists>i. held c p slots i = Some q) \<and> ar_key q = key"
    unfolding current_def using find_SomeD set_held by fastforce
  with h assms have "q = r" unfolding auth_ok_def by (metis option.inject)
  with q show "current c p slots key = Some r" by simp
qed

lemma current_None:
  "current c p slots key = None \<longleftrightarrow> (\<forall>i r. held c p slots i = Some r \<longrightarrow> ar_key r \<noteq> key)"
  unfolding current_def by (auto simp: find_None_iff set_held)

lemma current_key: "current c p slots key = Some r \<Longrightarrow> ar_key r = key"
  unfolding current_def by (drule find_SomeD) simp

lemma current_typed: "auth_ok c p slots \<Longrightarrow> current c p slots key = Some r \<Longrightarrow> record_typed r \<and> record_valid r"
  by (auto simp: current_Some dest: held_typed)

lemma path_less: "0 < n \<Longrightarrow> auth_path n key d < n"
  by (simp add: auth_path_def)

section \<open>Lookup\<close>

lemma read_held:
  assumes "auth_ok c p slots" "i < length slots"
  shows "read_once (\<lambda>_. slots ! i) =
    (case held c p slots i of None \<Rightarrow> RdEmpty | Some r \<Rightarrow> RdValue (sl_revision (slots ! i)) (active_bank (slots ! i)))"
proof -
  have "slot_ok c p i (slots ! i)" using assms by (simp add: auth_ok_def)
  then show ?thesis
    using assms(2) slot_okD [of c p i "slots ! i"] by (auto simp: held_def read_now slot_ok_def split: option.splits)
qed

lemma decode_held:
  "held c p slots i = Some r \<Longrightarrow> decode c p i (sl_revision (slots ! i)) (active_bank (slots ! i)) = Inr r"
  by (simp add: held_def slot_record_decode split: if_splits)

definition snapshot_at :: "auth_slot list \<Rightarrow> nat \<Rightarrow> auth_record \<Rightarrow> auth_snapshot" where
  "snapshot_at slots i r =
     \<lparr>sn_index = i, sn_revision = sl_revision (slots ! i), sn_record = r, sn_wire = active_bank (slots ! i)\<rparr>"

lemma snapshot_at_simps [simp]: "sn_index (snapshot_at slots i r) = i" "sn_record (snapshot_at slots i r) = r"
  by (simp_all add: snapshot_at_def)

lemma lookup_scan_quiet:
  fixes key :: store_key
  assumes ok: "auth_ok c p slots" and n: "0 < length slots"
  defines "path \<equiv> auth_path (length slots) key"
  shows "lookup_scan c p (length slots) (quiet slots key) key (map f [a..<b]) =
    (case List.find (\<lambda>d. held c p slots (path (f d)) = None \<or> (\<exists>r. held c p slots (path (f d)) = Some r \<and> ar_key r = key)) [a..<b] of
       None \<Rightarrow> Inr (lookup_stable None)
     | Some d \<Rightarrow> Inr (lookup_stable (map_option (snapshot_at slots (path (f d))) (held c p slots (path (f d))))))"
proof (induction "b - a" arbitrary: a)
  case 0
  then show ?case by simp
next
  case (Suc k)
  let ?i = "path (f a)"
  have "a < b" using Suc.hyps(2) by simp
  moreover have "quiet slots key (f a) = (\<lambda>_. slots ! ?i)" by (rule ext) (simp add: quiet_def path_def)
  moreover have "?i < length slots" using n by (simp add: path_def path_less)
  ultimately show ?case
    using Suc.hyps(1) [of "Suc a"] Suc.hyps(2) read_held [OF ok, of ?i]
    by (cases "held c p slots ?i")
      (auto simp: upt_conv_Cons decode_held snapshot_at_def path_def [symmetric] lookup_stable_def)
qed

lemma find_record_exact:
  assumes ok: "auth_ok c p slots"
  shows "find_record c p slots key = Inr (case current c p slots key of None \<Rightarrow> None
     | Some r \<Rightarrow> Some (snapshot_at slots (THE i. held c p slots i = Some r) r))"
proof (cases "length slots = 0")
  case True
  then show ?thesis by (simp add: find_record_def lookup_def lookup_stable_def current_def map_filter_def)
next
  case False
  let ?n = "length slots" let ?path = "auth_path ?n key"
  let ?P = "\<lambda>d. held c p slots (?path d) = None \<or> (\<exists>r. held c p slots (?path d) = Some r \<and> ar_key r = key)"
  have scan: "find_record c p slots key = Inr (case List.find ?P [0..<?n] of None \<Rightarrow> None
      | Some d \<Rightarrow> map_option (snapshot_at slots (?path d)) (held c p slots (?path d)))"
    using lookup_scan_quiet [OF ok, of key id 0 ?n] False
    by (auto simp: find_record_def lookup_def lookup_stable_def split: option.splits)
  show ?thesis
  proof (cases "current c p slots key")
    case None
    then have "\<not> (\<exists>r. held c p slots i = Some r \<and> ar_key r = key)" for i by (simp add: current_None)
    then have "held c p slots (?path d) = None" if "List.find ?P [0..<?n] = Some d" for d
      using find_SomeD [OF that] by blast
    then have "(case List.find ?P [0..<?n] of None \<Rightarrow> None
        | Some d \<Rightarrow> map_option (snapshot_at slots (?path d)) (held c p slots (?path d))) = None"
      by (cases "List.find ?P [0..<?n]") simp_all
    then show ?thesis by (simp only: None scan option.case)
  next
    case (Some r)
    then obtain i where i: "held c p slots i = Some r" "ar_key r = key" using ok by (auto simp: current_Some)
    then obtain d where d: "d < ?n" "?path d = i" "\<forall>e<d. held c p slots (?path e) \<noteq> None"
      using ok unfolding auth_ok_def by blast
    have uniq: "j = i" if "held c p slots j = Some q" "ar_key q = key" for j q
      using auth_ok_unique [OF ok that(1) i(1)] that(2) i(2) by simp
    have the: "(THE i. held c p slots i = Some r) = i" by (rule the_equality, rule i(1), rule uniq [OF _ i(2)])
    have "?P d" using d(2) i by simp
    then have "List.find ?P [0..<?n] \<noteq> None" unfolding find_None_iff using d(1) by (auto simp del: split_paired_Ex)
    then obtain e where e: "List.find ?P [0..<?n] = Some e" by blast
    have "\<forall>j<e. \<not> ?P j" using e unfolding find_Some_iff by auto
    then have first: "\<not> d < e" using \<open>?P d\<close> by blast
    have "held c p slots (?path e) \<noteq> None"
    proof (cases "e = d")
      case False
      then show ?thesis using first d(3) by simp
    qed (simp add: d(2) i(1))
    then obtain q where q: "held c p slots (?path e) = Some q" "ar_key q = key" using find_SomeD [OF e] by auto
    have "?path e = i" by (rule uniq [OF q])
    then show ?thesis using scan e i Some the by simp
  qed
qed

lemma find_record_None: "auth_ok c p slots \<Longrightarrow> find_record c p slots key = Inr None \<longleftrightarrow> current c p slots key = None"
  by (auto simp: find_record_exact split: option.splits)

lemma find_record_Some:
  assumes ok: "auth_ok c p slots" and f: "find_record c p slots key = Inr (Some sn)"
  shows "held c p slots (sn_index sn) = Some (sn_record sn)" "current c p slots key = Some (sn_record sn)"
    "sn = snapshot_at slots (sn_index sn) (sn_record sn)" "ar_key (sn_record sn) = key" "sn_index sn < length slots"
proof -
  obtain r where r: "current c p slots key = Some r" "sn = snapshot_at slots (THE i. held c p slots i = Some r) r"
    using f by (auto simp: find_record_exact [OF ok] split: option.splits)
  then obtain i where i: "held c p slots i = Some r" using ok by (auto simp: current_Some)
  moreover have "(THE i. held c p slots i = Some r) = i"
    using ok i unfolding auth_ok_def by (intro the_equality) blast+
  ultimately show "held c p slots (sn_index sn) = Some (sn_record sn)" using r by simp
  then show "sn_index sn < length slots" by (rule held_length)
  show "current c p slots key = Some (sn_record sn)" "sn = snapshot_at slots (sn_index sn) (sn_record sn)" using r by simp_all
  then show "ar_key (sn_record sn) = key" by (auto dest: current_key)
qed

lemma find_record_no_error: "auth_ok c p slots \<Longrightarrow> find_record c p slots key \<noteq> Inl e"
  by (simp add: find_record_exact)

lemma find_record_present:
  assumes "auth_ok c p slots" "current c p slots key = Some r"
  obtains sn where "find_record c p slots key = Inr (Some sn)" "sn_record sn = r"
  using assms by (auto simp: find_record_exact)

section \<open>Stores\<close>

lemma held_update:
  "i < length slots \<Longrightarrow> held c p (slots[i := s]) j = (if j = i then slot_record c p i s else held c p slots j)"
  by (simp add: held_def)

text \<open>
  The two ways a committed store keeps the invariant: it rewrites the record of the key that is there, or
  it fills a slot of the path of an absent key in front of which every slot is occupied.
\<close>

lemma auth_ok_store:
  assumes ok: "auth_ok c p slots" and i: "i < length slots" and st: "stored c p i r (slots ! i) s'"
    and at: "(\<exists>q. held c p slots i = Some q \<and> ar_key q = ar_key r) \<or>
      (current c p slots (ar_key r) = None \<and> (\<exists>d<length slots. auth_path (length slots) (ar_key r) d = i \<and>
         (\<forall>e<d. held c p slots (auth_path (length slots) (ar_key r) e) \<noteq> None)))"
  shows "auth_ok c p (slots[i := s'])"
proof -
  let ?n = "length slots" and ?slots = "slots[i := s']"
  have h: "held c p ?slots j = (if j = i then Some r else held c p slots j)" for j
    using i st by (simp add: held_update stored_def)
  then have more: "held c p slots j \<noteq> None \<Longrightarrow> held c p ?slots j \<noteq> None" for j by simp
  have "slot_ok c p j (?slots ! j)" if "j < ?n" for j
    using ok st that by (cases "i = j") (simp_all add: auth_ok_def stored_def)
  moreover have "\<exists>d<?n. auth_path ?n (ar_key q) d = j \<and> (\<forall>e<d. held c p ?slots (auth_path ?n (ar_key q) e) \<noteq> None)"
    if "held c p ?slots j = Some q" for j q
  proof -
    have "\<exists>d<?n. auth_path ?n (ar_key q) d = j \<and> (\<forall>e<d. held c p slots (auth_path ?n (ar_key q) e) \<noteq> None)"
    proof (cases "j = i")
      case True
      then have "q = r" using that h by simp
      with at True ok show ?thesis unfolding auth_ok_def by metis
    next
      case False
      then show ?thesis using that h ok unfolding auth_ok_def by simp
    qed
    then show ?thesis using more by blast
  qed
  moreover have "j = k" if "held c p ?slots j = Some q" "held c p ?slots k = Some q'" "ar_key q = ar_key q'" for j k q q'
  proof -
    have new: "a = i" if "held c p slots a = Some x" "ar_key x = ar_key r" for a x
      using at that ok current_None [of c p slots "ar_key r"] unfolding auth_ok_def by metis
    show ?thesis
    proof (cases "j = i \<or> k = i")
      case True
      then show ?thesis using that h new by (metis option.inject)
    next
      case False
      then show ?thesis using that h ok unfolding auth_ok_def by metis
    qed
  qed
  ultimately show ?thesis unfolding auth_ok_def by (simp only: length_list_update) blast
qed

lemma option_eqI: "(\<And>x. a = Some x \<longleftrightarrow> b = Some x) \<Longrightarrow> a = b"
  by (metis not_None_eq)

lemma current_store:
  assumes ok: "auth_ok c p slots" and i: "i < length slots" and st: "stored c p i r (slots ! i) s'"
    and ok': "auth_ok c p (slots[i := s'])"
  shows "current c p (slots[i := s']) key =
    (if key = ar_key r then Some r
     else if (\<exists>q. held c p slots i = Some q \<and> ar_key q = key) then None else current c p slots key)"
proof -
  have h: "held c p (slots[i := s']) j = (if j = i then Some r else held c p slots j)" for j
    using i st by (simp add: held_update stored_def)
  have "current c p (slots[i := s']) key = Some x \<longleftrightarrow>
    (if key = ar_key r then x = r else (\<nexists>q. held c p slots i = Some q \<and> ar_key q = key) \<and> current c p slots key = Some x)" for x
  proof (cases "key = ar_key r")
    case True
    have "held c p (slots[i := s']) i = Some r" using h by simp
    then show ?thesis using True current_Some [OF ok', of key] by (metis option.inject)
  next
    case False
    have "(\<exists>j. j \<noteq> i \<and> held c p slots j = Some x) \<and> ar_key x = key \<longleftrightarrow>
        (\<nexists>q. held c p slots i = Some q \<and> ar_key q = key) \<and> (\<exists>j. held c p slots j = Some x) \<and> ar_key x = key"
      using ok unfolding auth_ok_def by metis
    then show ?thesis using False h current_Some [OF ok', of key x] current_Some [OF ok, of key x] by auto
  qed
  note eq = this
  show ?thesis
  proof (rule option_eqI)
    fix x
    show "current c p (slots[i := s']) key = Some x \<longleftrightarrow>
      (if key = ar_key r then Some r else if \<exists>q. held c p slots i = Some q \<and> ar_key q = key then None
       else current c p slots key) = Some x"
      unfolding eq by auto
  qed
qed

section \<open>Effects\<close>

text \<open>
  \<open>replaced\<close>: slot \<open>i\<close> now carries \<open>r\<close>, everything else is as it was.  All the writing operations are
  sequences of it.
\<close>

definition replaced :: "crypto \<Rightarrow> record_protection \<Rightarrow> nat \<Rightarrow> auth_record \<Rightarrow> auth_slot list \<Rightarrow> auth_slot list \<Rightarrow> bool" where
  "replaced c p i r slots slots' \<longleftrightarrow> i < length slots \<and> record_valid r \<and>
     (\<exists>s'. stored c p i r (slots ! i) s' \<and> slots' = slots[i := s'])"

definition nonces_ok :: "(nat \<Rightarrow> bytes option) \<Rightarrow> bool" where
  "nonces_ok random \<longleftrightarrow> (\<forall>i. nonce_ok (random i))"

lemma store_at_cases:
  assumes "crypto_ok c" "nonces_ok random" "auth_ok c p slots" "record_typed r" "i < length slots"
    and "store_at c p random slots i r = (slots', res)"
  shows "(\<exists>e. res = Inl e \<and> slots' = slots) \<or> (\<exists>rev. res = Inr rev \<and> replaced c p i r slots slots')"
proof -
  obtain s' where s': "auth_store c p (random i) (slots ! i) r i = (s', res)" "slots' = slots[i := s']"
    using assms(6) by (auto simp: store_at_def split: prod.splits)
  have "slot_ok c p i (slots ! i)" using assms(3,5) by (simp add: auth_ok_def)
  then show ?thesis
    using auth_store_cases [OF assms(1) _ _ assms(4) s'(1)] assms(2,5) s'(2)
    by (auto simp: nonces_ok_def replaced_def)
qed

lemma store_never_full: "store_at c p random slots i r \<noteq> (slots', Inl StateFull)"
  by (auto simp: store_at_def auth_store_def encode_def record_from_words_def Let_def checked_add_def
      split: prod.splits sum.splits option.splits if_splits state_protection.splits)

lemma replaced_held:
  "replaced c p i r slots slots' \<Longrightarrow> held c p slots' j = (if j = i then Some r else held c p slots j)"
  by (auto simp: replaced_def held_update stored_def)

lemma replaced_length: "replaced c p i r slots slots' \<Longrightarrow> length slots' = length slots"
  by (auto simp: replaced_def)

lemma replaced_same_key:
  assumes ok: "auth_ok c p slots" and rep: "replaced c p i r slots slots'" and q: "held c p slots i = Some q" "ar_key q = ar_key r"
  shows "auth_ok c p slots' \<and> current c p slots' = (current c p slots)(ar_key r \<mapsto> r)"
proof -
  from rep obtain s' where s': "i < length slots" "stored c p i r (slots ! i) s'" "slots' = slots[i := s']"
    by (auto simp: replaced_def)
  have ok': "auth_ok c p slots'" using auth_ok_store [OF ok s'(1,2)] q s'(3) by blast
  have "current c p slots' key = ((current c p slots)(ar_key r \<mapsto> r)) key" for key
    using current_store [OF ok s'(1,2), of key] ok' q s'(3) by simp
  with ok' show ?thesis by blast
qed

definition admits :: "crypto \<Rightarrow> record_protection \<Rightarrow> nat \<Rightarrow> auth_record \<Rightarrow> auth_slot list \<Rightarrow> nat \<Rightarrow> bool" where
  "admits c p now r slots d \<longleftrightarrow>
     (\<forall>q. held c p slots (auth_path (length slots) (ar_key r) d) = Some q \<longrightarrow> ar_expires_at q \<le> now)"

lemma insert_scan_cases:
  assumes cr: "crypto_ok c" "nonces_ok random" and ok: "auth_ok c p slots" and r: "record_typed r"
    and n: "b \<le> length slots"
    and ins: "insert_scan c p random slots r now [a..<b] = (slots', res)"
  shows "(\<exists>e. res = Inl e \<and> slots' = slots \<and> (e = StateFull \<longrightarrow> (\<forall>d\<in>{a..<b}. \<not> admits c p now r slots d))) \<or>
     (res = Inr () \<and> (\<exists>d\<in>{a..<b}. admits c p now r slots d \<and> (\<forall>e\<in>{a..<d}. \<not> admits c p now r slots e) \<and>
        replaced c p (auth_path (length slots) (ar_key r) d) r slots slots'))"
  using ins
proof (induction "b - a" arbitrary: a)
  case 0
  then show ?case by auto
next
  case (Suc k)
  let ?path = "auth_path (length slots) (ar_key r)"
  have ab: "a < b" "[a..<b] = a # [Suc a..<b]" using Suc.hyps(2) by (simp_all add: upt_conv_Cons)
  have i: "?path a < length slots" by (rule path_less) (use ab(1) n in linarith)
  note read = read_held [OF ok i]
  show ?case
  proof (cases "admits c p now r slots a")
    case True
    then have "insert_scan c p random slots r now [a..<b] =
        (case store_at c p random slots (?path a) r of (slots', Inl e) \<Rightarrow> (slots', Inl e) | (slots', Inr _) \<Rightarrow> (slots', Inr ()))"
      using read by (auto simp: ab(2) Let_def admits_def decode_held split: option.splits)
    then show ?thesis
      using Suc.prems store_at_cases [OF cr ok r i] True ab(1) store_never_full [of c p random slots "?path a" r]
      by (auto split: prod.splits sum.splits)
  next
    case False
    then obtain q where q: "held c p slots (?path a) = Some q" "\<not> ar_expires_at q \<le> now" by (auto simp: admits_def)
    then have "insert_scan c p random slots r now [Suc a..<b] = (slots', res)"
      using Suc.prems read by (simp add: ab(2) Let_def decode_held)
    with Suc.hyps(1) [of "Suc a"] Suc.hyps(2) have
      "(\<exists>e. res = Inl e \<and> slots' = slots \<and> (e = StateFull \<longrightarrow> (\<forall>d\<in>{Suc a..<b}. \<not> admits c p now r slots d))) \<or>
       (res = Inr () \<and> (\<exists>d\<in>{Suc a..<b}. admits c p now r slots d \<and> (\<forall>e\<in>{Suc a..<d}. \<not> admits c p now r slots e) \<and>
          replaced c p (?path d) r slots slots'))" by simp
    moreover have "{a..<m} = insert a {Suc a..<m}" if "a < m" for m using that by auto
    ultimately show ?thesis using False ab(1) by fastforce
  qed
qed

lemma insert_record_cases:
  assumes cr: "crypto_ok c" "nonces_ok random" and ok: "auth_ok c p slots" and r: "record_typed r"
    and absent: "current c p slots (ar_key r) = None"
    and ins: "insert_record c p random slots r now = (slots', res)"
  shows "(\<exists>e. res = Inl e \<and> slots' = slots) \<or>
    (res = Inr () \<and> auth_ok c p slots' \<and> (\<exists>i. replaced c p i r slots slots' \<and>
       (\<forall>q. held c p slots i = Some q \<longrightarrow> ar_expires_at q \<le> now) \<and>
       (\<forall>key. current c p slots' key = (if key = ar_key r then Some r
          else if \<exists>q. held c p slots i = Some q \<and> ar_key q = key then None else current c p slots key))))"
proof (cases res)
  case (Inl e)
  then show ?thesis using insert_scan_cases [OF cr ok r order_refl ins [unfolded insert_record_def]] by auto
next
  case (Inr u)
  let ?path = "auth_path (length slots) (ar_key r)"
  obtain d where d: "d < length slots" "admits c p now r slots d" "\<forall>e<d. \<not> admits c p now r slots e"
      "replaced c p (?path d) r slots slots'"
    using insert_scan_cases [OF cr ok r order_refl ins [unfolded insert_record_def]] Inr
    by (auto simp del: split_paired_Ex)
  from d(4) obtain s' where s': "?path d < length slots" "stored c p (?path d) r (slots ! ?path d) s'" "slots' = slots[?path d := s']"
    by (auto simp: replaced_def)
  have "\<forall>e<d. held c p slots (?path e) \<noteq> None" using d(3) by (auto simp: admits_def)
  then have ok': "auth_ok c p slots'" using auth_ok_store [OF ok s'(1,2)] absent d(1) s'(3) by blast
  moreover have "\<forall>q. held c p slots (?path d) = Some q \<longrightarrow> ar_expires_at q \<le> now" using d(2) by (simp add: admits_def)
  moreover have "\<forall>key. current c p slots' key = (if key = ar_key r then Some r
        else if \<exists>q. held c p slots (?path d) = Some q \<and> ar_key q = key then None else current c p slots key)"
    using current_store [OF ok s'(1,2)] ok' s'(3) by simp
  ultimately show ?thesis using d(4) Inr by (intro disjI2 conjI exI [of _ "?path d"]) simp_all
qed

section \<open>Enumeration of a subject\<close>

definition live_session :: "nat list \<Rightarrow> nat \<Rightarrow> auth_record \<Rightarrow> bool" where
  "live_session subject now r \<longleftrightarrow> ar_status r = SESSION \<and> ar_subject r = subject \<and> now < ar_expires_at r"

lemma sessions_from_exact:
  assumes "\<forall>i<length slots. slot_ok c p (index + i) (slots ! i)"
    and "sessions_from c p subject now index slots = Inr live"
  shows "live = List.map_filter (\<lambda>i. case slot_record c p (index + i) (slots ! i) of
        Some r \<Rightarrow> if live_session subject now r
                  then Some \<lparr>sn_index = index + i, sn_revision = sl_revision (slots ! i), sn_record = r, sn_wire = active_bank (slots ! i)\<rparr>
                  else None
      | None \<Rightarrow> None) [0..<length slots] \<and> (\<forall>sn\<in>set live. ar_created_at (sn_record sn) \<le> now)"
  using assms
proof (induction slots arbitrary: index live)
  case Nil
  then show ?case by (simp add: map_filter_def)
next
  case (Cons s slots)
  have s: "slot_ok c p index s" using Cons.prems(1) by force
  have rest: "\<forall>i<length slots. slot_ok c p (Suc index + i) (slots ! i)"
    using Cons.prems(1) by (metis Suc_less_eq add_Suc add_Suc_right length_Cons nth_Cons_Suc)
  let ?g = "\<lambda>index slots i. case slot_record c p (index + i) (slots ! i) of
        Some r \<Rightarrow> if live_session subject now r
                  then Some \<lparr>sn_index = index + i, sn_revision = sl_revision (slots ! i), sn_record = r, sn_wire = active_bank (slots ! i)\<rparr>
                  else None
      | None \<Rightarrow> None"
  have shift: "List.map_filter (?g index (s # slots)) [0..<length (s # slots)] =
      (case ?g index (s # slots) 0 of None \<Rightarrow> [] | Some x \<Rightarrow> [x]) @ List.map_filter (?g (Suc index) slots) [0..<length slots]"
    by (simp add: upt_conv_Cons map_Suc_upt [symmetric] map_filter_def filter_map comp_def del: upt_Suc split: option.splits)
  show ?case
  proof (cases "slot_record c p index s")
    case None
    then have "sessions_from c p subject now (Suc index) slots = Inr live"
      using Cons.prems(2) s slot_okD [OF s] by (simp add: read_now slot_ok_def)
    from Cons.IH [OF rest this] show ?thesis using None by (simp only: shift) simp
  next
    case (Some r)
    then have d: "sl_revision s \<noteq> 0" "decode c p index (sl_revision s) (active_bank s) = Inr r"
      by (simp_all add: slot_record_decode)
    have rd: "read_once (\<lambda>_. s) = RdValue (sl_revision s) (active_bank s)" using s d(1) by (simp add: read_now slot_ok_def)
    show ?thesis
    proof (cases "live_session subject now r")
      case True
      then obtain tail where tail: "sessions_from c p subject now (Suc index) slots = Inr tail"
          "live = \<lparr>sn_index = index, sn_revision = sl_revision s, sn_record = r, sn_wire = active_bank s\<rparr> # tail"
          "ar_created_at r \<le> now"
        using Cons.prems(2) rd d by (auto simp: live_session_def split: if_splits sum.splits)
      from Cons.IH [OF rest tail(1)] show ?thesis using Some True tail(2,3) by (simp only: shift) simp
    next
      case False
      then have "sessions_from c p subject now (Suc index) slots = Inr live"
        using Cons.prems(2) rd d by (auto simp: live_session_def)
      from Cons.IH [OF rest this] show ?thesis using Some False by (simp only: shift) simp
    qed
  qed
qed

lemma subject_sessions_exact:
  assumes ok: "auth_ok c p slots" and live: "subject_sessions c p slots subject now = Inr live"
  shows "set live = {snapshot_at slots i r |i r. held c p slots i = Some r \<and> live_session subject now r}"
    "distinct (map sn_index live)" "\<forall>sn\<in>set live. ar_created_at (sn_record sn) \<le> now"
proof -
  let ?g = "\<lambda>i. case slot_record c p i (slots ! i) of
        Some r \<Rightarrow> if live_session subject now r then Some (snapshot_at slots i r) else None | None \<Rightarrow> None"
  have e: "live = List.map_filter ?g [0..<length slots]" "\<forall>sn\<in>set live. ar_created_at (sn_record sn) \<le> now"
    using sessions_from_exact [of slots c p 0 subject now live] ok live
    unfolding subject_sessions_def auth_ok_def snapshot_at_def add_0 by blast+
  show "\<forall>sn\<in>set live. ar_created_at (sn_record sn) \<le> now" by (rule e(2))
  have gi: "sn_index x = i" if "?g i = Some x" for i x using that by (auto split: option.splits if_splits)
  have "map sn_index (List.map_filter ?g xs) = filter (\<lambda>i. ?g i \<noteq> None) xs" for xs
    by (induction xs) (auto simp: map_filter_simps split: option.splits if_splits)
  then show "distinct (map sn_index live)" by (simp add: e(1))
  show "set live = {snapshot_at slots i r |i r. held c p slots i = Some r \<and> live_session subject now r}"
  proof (intro set_eqI iffI)
    fix x assume "x \<in> set live"
    then obtain i where i: "i < length slots" "?g i = Some x" by (auto simp: e(1) map_filter_def)
    then show "x \<in> {snapshot_at slots i r |i r. held c p slots i = Some r \<and> live_session subject now r}"
      by (auto simp: held_def split: option.splits if_splits)
  next
    fix x assume "x \<in> {snapshot_at slots i r |i r. held c p slots i = Some r \<and> live_session subject now r}"
    then obtain i r where i: "x = snapshot_at slots i r" "held c p slots i = Some r" "live_session subject now r" by blast
    then have "i < length slots" "?g i = Some x" by (auto simp: held_def split: if_splits)
    then show "x \<in> set live" by (force simp: e(1) map_filter_def)
  qed
qed

section \<open>Revisions\<close>

text \<open>A slot keeps its content or moves to a later revision: what a revision names never changes.\<close>

definition revisions_grow :: "auth_slot list \<Rightarrow> auth_slot list \<Rightarrow> bool" where
  "revisions_grow slots slots' \<longleftrightarrow> length slots' = length slots \<and>
     (\<forall>j<length slots. slots' ! j = slots ! j \<or> sl_revision (slots ! j) < sl_revision (slots' ! j))"

lemma revisions_grow_refl [simp]: "revisions_grow slots slots"
  by (simp add: revisions_grow_def)

lemma revisions_grow_trans: "revisions_grow a b \<Longrightarrow> revisions_grow b d \<Longrightarrow> revisions_grow a d"
  unfolding revisions_grow_def by (metis order_less_trans)

lemma replaced_grows: "replaced c p i r slots slots' \<Longrightarrow> revisions_grow slots slots'"
  by (auto simp: replaced_def revisions_grow_def stored_def nth_list_update)

end
