(* ===== verification/Auth_Token.thy ===== *)
theory Auth_Token
  imports Auth_Codec
begin

text \<open>
  Credentials: \<^verbatim>\<open>auth/src/principal.rs\<close>, \<^verbatim>\<open>auth/src/keyring.rs\<close>, \<^verbatim>\<open>auth/src/cache.rs\<close> and \<^verbatim>\<open>auth/src/lib.rs\<close>.
  An \<open>Authority\<close> issues sealed tokens for claims, a \<open>Validator\<close> opens them for one audience and purpose and
  asks a hook about the current state; the cached path skips the cryptography and nothing else.  Base64 and
  the JSON of serde are parameters (\<open>token_codec\<close>).  A \<open>String\<close> is the list of its Unicode scalar values, a
  \<open>BTreeMap\<close> or \<open>BTreeSet\<close> the list of its entries in order.
\<close>

section \<open>Labels and claims\<close>

type_synonym rstr = "nat list"

fun utf8_char :: "nat \<Rightarrow> bytes" where
  "utf8_char u =
     (if u < 0x80 then [word_of_nat u]
      else if u < 0x800 then [word_of_nat (0xC0 + u div 64), word_of_nat (0x80 + u mod 64)]
      else if u < 0x10000 then [word_of_nat (0xE0 + u div 4096), word_of_nat (0x80 + u div 64 mod 64), word_of_nat (0x80 + u mod 64)]
      else [word_of_nat (0xF0 + u div 262144), word_of_nat (0x80 + u div 4096 mod 64), word_of_nat (0x80 + u div 64 mod 64),
            word_of_nat (0x80 + u mod 64)])"

definition utf8 :: "rstr \<Rightarrow> bytes" where
  "utf8 s = concat (map utf8_char s)"

definition is_control :: "nat \<Rightarrow> bool" where
  "is_control u \<longleftrightarrow> u \<le> 0x1F \<or> 0x7F \<le> u \<and> u \<le> 0x9F"

definition MAX_LABEL_LEN :: nat where "MAX_LABEL_LEN = 256"
definition MAX_CAPABILITIES :: nat where "MAX_CAPABILITIES = 64"

definition valid_label :: "rstr \<Rightarrow> bool" where
  "valid_label s \<longleftrightarrow> s \<noteq> [] \<and> length (utf8 s) \<le> MAX_LABEL_LEN \<and> \<not> list_ex is_control s"

definition label_new :: "rstr \<Rightarrow> auth_error + rstr" where
  "label_new s = (if valid_label s then Inr s else Inl InvalidInput)"

datatype purpose = Session | Refresh | Access | WebSocket | Internal

fun purpose_bytes :: "purpose \<Rightarrow> bytes" where
  "purpose_bytes Session = ascii ''session''"
| "purpose_bytes Refresh = ascii ''refresh''"
| "purpose_bytes Access = ascii ''access''"
| "purpose_bytes WebSocket = ascii ''websocket''"
| "purpose_bytes Internal = ascii ''internal''"

record claims =
  cl_subject :: rstr
  cl_audience :: rstr
  cl_purpose :: purpose
  cl_capabilities :: "rstr list"
  cl_issued_at :: nat
  cl_not_before :: nat
  cl_expires_at :: nat

definition check_shape :: "claims \<Rightarrow> auth_error + unit" where
  "check_shape cl =
     (if \<not> valid_label (cl_subject cl) \<or> length (cl_capabilities cl) > MAX_CAPABILITIES \<or>
         cl_issued_at cl > cl_not_before cl \<or> cl_not_before cl \<ge> cl_expires_at cl
      then Inl InvalidInput else Inr ())"

record session_binding =
  sb_id :: bytes
  sb_generation :: nat

record principal =
  pn_realm :: rstr
  pn_issuer :: rstr
  pn_jti :: bytes
  pn_session :: "session_binding option"
  pn_claims :: claims

abbreviation pn_subject :: "principal \<Rightarrow> rstr" where
  "pn_subject pn \<equiv> cl_subject (pn_claims pn)"

record validation =
  va_audience :: rstr
  va_purpose :: purpose
  va_required_capabilities :: "rstr list"

section \<open>Keys\<close>

record keyring =
  kr_active :: nat
  kr_keys :: "(nat \<times> bytes) list"

fun retain_keys :: "(nat \<times> bytes) list \<Rightarrow> (nat \<times> bytes) list \<Rightarrow> auth_error + (nat \<times> bytes) list" where
  "retain_keys retained [] = Inr retained"
| "retain_keys retained ((i, key) # keys) =
     (if i \<in> fst ` set retained then Inl DuplicateKey else retain_keys (insort_key fst (i, key) retained) keys)"

definition keyring_new :: "nat \<Rightarrow> (nat \<times> bytes) list \<Rightarrow> auth_error + keyring" where
  "keyring_new active keys =
     (case retain_keys [] keys of
        Inl e \<Rightarrow> Inl e
      | Inr retained \<Rightarrow> if active \<in> fst ` set retained then Inr \<lparr>kr_active = active, kr_keys = retained\<rparr> else Inl MissingActiveKey)"

definition derive :: "crypto \<Rightarrow> bytes \<Rightarrow> bytes \<Rightarrow> bytes" where
  "derive c key info = hkdf_sha256 c (ascii ''orbit-auth/v1/hkdf-sha256'') key info"

definition token_scope :: "rstr \<Rightarrow> rstr \<Rightarrow> rstr \<Rightarrow> purpose \<Rightarrow> nat \<Rightarrow> bytes" where
  "token_scope realm issuer audience prp i =
     context_parts [ascii ''orbit-auth/v1/xchacha20poly1305'', utf8 realm, utf8 issuer, utf8 audience, purpose_bytes prp, to_be_bytes 4 i]"

section \<open>Authority\<close>

record authority =
  au_realm :: rstr
  au_issuer :: rstr
  au_keyring :: keyring
  au_cache_seed :: bytes

record token_codec =
  b64_encode :: "bytes \<Rightarrow> bytes"
  b64_decode :: "bytes \<Rightarrow> bytes option"
  json_to_vec :: "principal \<Rightarrow> bytes option"
  json_from_slice :: "bytes \<Rightarrow> principal option"

definition codec_ok :: "token_codec \<Rightarrow> bool" where
  "codec_ok t \<longleftrightarrow>
     (\<forall>bs. b64_decode t (b64_encode t bs) = Some bs \<and> length (b64_encode t bs) = div_ceil (length bs * 4) 3) \<and>
     (\<forall>pn bs. json_to_vec t pn = Some bs \<longrightarrow> json_from_slice t bs = Some pn)"

definition MAX_TOKEN_LEN :: nat where "MAX_TOKEN_LEN = 16 * 1024"
definition TOKEN_PREFIX :: bytes where "TOKEN_PREFIX = ascii ''oa1.''"
definition HEADER_LEN :: nat where [simp]: "HEADER_LEN = 28"
definition TAG_LEN :: nat where [simp]: "TAG_LEN = 16"

definition authority_new :: "crypto \<Rightarrow> rstr \<Rightarrow> rstr \<Rightarrow> keyring \<Rightarrow> auth_error + authority" where
  "authority_new c realm issuer kr =
     (if \<not> valid_label realm \<or> \<not> valid_label issuer then Inl InvalidInput
      else Inr \<lparr>au_realm = realm, au_issuer = issuer, au_keyring = kr,
        au_cache_seed = sha256 c (ascii ''orbit-auth/v1/cache-keyring'' @
          concat (map (\<lambda>(i, key). to_be_bytes 4 i @
            derive c key (context_parts [ascii ''cache'', utf8 realm, utf8 issuer, to_be_bytes 4 i])) (kr_keys kr)))\<rparr>)"

definition authority_scope :: "authority \<Rightarrow> rstr \<Rightarrow> purpose \<Rightarrow> nat \<Rightarrow> bytes" where
  "authority_scope a audience prp i = token_scope (au_realm a) (au_issuer a) audience prp i"

definition issue_bound ::
    "crypto \<Rightarrow> token_codec \<Rightarrow> bytes option \<Rightarrow> bytes option \<Rightarrow> authority \<Rightarrow> claims \<Rightarrow> session_binding option \<Rightarrow> auth_error + bytes" where
  "issue_bound c t random_jti random_nonce a cl session =
     (case check_shape cl of Inl e \<Rightarrow> Inl e | Inr _ \<Rightarrow>
      case random_jti of None \<Rightarrow> Inl Randomness | Some jti \<Rightarrow>
      case random_nonce of None \<Rightarrow> Inl Randomness | Some nonce \<Rightarrow>
      let i = kr_active (au_keyring a);
          info = authority_scope a (cl_audience cl) (cl_purpose cl) i;
          key = derive c (the (map_of (kr_keys (au_keyring a)) i)) info;
          pn = \<lparr>pn_realm = au_realm a, pn_issuer = au_issuer a, pn_jti = jti, pn_session = session, pn_claims = cl\<rparr>
      in case json_to_vec t pn of None \<Rightarrow> Inl InvalidInput | Some plaintext \<Rightarrow>
         if length TOKEN_PREFIX + div_ceil ((HEADER_LEN + TAG_LEN + length plaintext) * 4) 3 > MAX_TOKEN_LEN then Inl TokenTooLarge
         else case aead_seal c key nonce info plaintext of None \<Rightarrow> Inl InvalidToken | Some ciphertext \<Rightarrow>
           Inr (TOKEN_PREFIX @ b64_encode t (to_be_bytes 4 i @ nonce @ ciphertext)))"

definition issue :: "crypto \<Rightarrow> token_codec \<Rightarrow> bytes option \<Rightarrow> bytes option \<Rightarrow> authority \<Rightarrow> claims \<Rightarrow> auth_error + bytes" where
  "issue c t random_jti random_nonce a cl = issue_bound c t random_jti random_nonce a cl None"

record session =
  ss_binding :: session_binding
  ss_subject :: rstr
  ss_created_at :: nat
  ss_expires_at :: nat
  ss_realm :: rstr
  ss_issuer :: rstr

definition check_issuance :: "session \<Rightarrow> authority \<Rightarrow> claims \<Rightarrow> auth_error + unit" where
  "check_issuance s a cl =
     (if ss_realm s \<noteq> au_realm a \<or> ss_issuer s \<noteq> au_issuer a \<or> cl_subject cl \<noteq> ss_subject s \<or>
         cl_issued_at cl < ss_created_at s \<or> cl_expires_at cl > ss_expires_at s
      then Inl InvalidInput else Inr ())"

definition issue_session ::
    "crypto \<Rightarrow> token_codec \<Rightarrow> bytes option \<Rightarrow> bytes option \<Rightarrow> authority \<Rightarrow> claims \<Rightarrow> session \<Rightarrow> auth_error + bytes" where
  "issue_session c t random_jti random_nonce a cl s =
     (case check_issuance s a cl of Inl e \<Rightarrow> Inl e
      | Inr _ \<Rightarrow> issue_bound c t random_jti random_nonce a cl (Some (ss_binding s)))"

section \<open>Validator\<close>

record validator =
  vd_realm :: rstr
  vd_issuer :: rstr
  vd_validation :: validation
  vd_keys :: "(nat \<times> bytes) list"
  vd_cache_secret :: bytes

definition authority_validator :: "crypto \<Rightarrow> authority \<Rightarrow> validation \<Rightarrow> validator" where
  "authority_validator c a va =
     \<lparr>vd_realm = au_realm a, vd_issuer = au_issuer a, vd_validation = va,
      vd_keys = map (\<lambda>(i, key). (i, derive c key (authority_scope a (va_audience va) (va_purpose va) i))) (kr_keys (au_keyring a)),
      vd_cache_secret = hmac_sha256 c (au_cache_seed a)
        (context_parts [ascii ''orbit-auth/v1/cache-policy'', utf8 (va_audience va), purpose_bytes (va_purpose va)] @
         concat (map (\<lambda>cap. context_parts [utf8 cap]) (va_required_capabilities va)))\<rparr>"

definition check_size :: "bytes \<Rightarrow> auth_error + unit" where
  "check_size token = (if length token > MAX_TOKEN_LEN then Inl TokenTooLarge else if token = [] then Inl InvalidToken else Inr ())"

definition decrypt :: "crypto \<Rightarrow> token_codec \<Rightarrow> validator \<Rightarrow> bytes \<Rightarrow> auth_error + principal" where
  "decrypt c t v token =
     (case check_size token of Inl e \<Rightarrow> Inl e | Inr _ \<Rightarrow>
      if take (length TOKEN_PREFIX) token \<noteq> TOKEN_PREFIX then Inl InvalidToken
      else case b64_decode t (drop (length TOKEN_PREFIX) token) of None \<Rightarrow> Inl InvalidToken | Some w \<Rightarrow>
      if length w < HEADER_LEN + TAG_LEN then Inl InvalidToken
      else let i = from_le_bytes (rev (take 4 w))
      in case map_of (vd_keys v) i of None \<Rightarrow> Inl InvalidToken | Some key \<Rightarrow>
         let info = token_scope (vd_realm v) (vd_issuer v) (va_audience (vd_validation v)) (va_purpose (vd_validation v)) i
         in case aead_open c key (sub_slice w 4 HEADER_LEN) info (drop HEADER_LEN w) of None \<Rightarrow> Inl InvalidToken
            | Some plaintext \<Rightarrow> ok_or InvalidToken (json_from_slice t plaintext))"

definition check_lapsed :: "validator \<Rightarrow> principal \<Rightarrow> nat \<Rightarrow> auth_error + unit" where
  "check_lapsed v pn now =
     (let cl = pn_claims pn
      in if check_shape cl \<noteq> Inr () then Inl InvalidToken
         else if pn_realm pn \<noteq> vd_realm v \<or> pn_issuer pn \<noteq> vd_issuer v \<or>
                 cl_audience cl \<noteq> va_audience (vd_validation v) \<or> cl_purpose cl \<noteq> va_purpose (vd_validation v)
              then Inl InvalidToken
         else if now < cl_not_before cl \<or> now < cl_issued_at cl then Inl NotYetValid
         else if \<not> set (va_required_capabilities (vd_validation v)) \<subseteq> set (cl_capabilities cl) then Inl MissingCapability
         else Inr ())"

definition check_static :: "validator \<Rightarrow> principal \<Rightarrow> nat \<Rightarrow> auth_error + unit" where
  "check_static v pn now =
     (case check_lapsed v pn now of Inl e \<Rightarrow> Inl e
      | Inr _ \<Rightarrow> if now \<ge> cl_expires_at (pn_claims pn) then Inl Expired else Inr ())"

text \<open>A hook reads and may change the state it guards; it answers yes or with an error.\<close>

type_synonym 's hook = "'s \<Rightarrow> principal \<Rightarrow> nat \<Rightarrow> 's \<times> (auth_error + unit)"

definition allow_reusable :: "'s hook" where
  "allow_reusable s pn now = (s, Inr ())"

definition hook_lapsed_default :: "'s hook" where
  "hook_lapsed_default s pn now = (s, Inl Expired)"

definition validate ::
    "crypto \<Rightarrow> token_codec \<Rightarrow> validator \<Rightarrow> 's hook \<Rightarrow> 's \<Rightarrow> bytes \<Rightarrow> nat \<Rightarrow> 's \<times> (auth_error + principal)" where
  "validate c t v hook s token now =
     (case decrypt c t v token of Inl e \<Rightarrow> (s, Inl e) | Inr pn \<Rightarrow>
      case check_static v pn now of Inl e \<Rightarrow> (s, Inl e) | Inr _ \<Rightarrow>
      case hook s pn now of (s', Inl e) \<Rightarrow> (s', Inl e) | (s', Inr _) \<Rightarrow> (s', Inr pn))"

definition validate_lapsed ::
    "crypto \<Rightarrow> token_codec \<Rightarrow> validator \<Rightarrow> 's hook \<Rightarrow> 's \<Rightarrow> bytes \<Rightarrow> nat \<Rightarrow> 's \<times> (auth_error + principal)" where
  "validate_lapsed c t v hook_lapsed s token now =
     (case decrypt c t v token of Inl e \<Rightarrow> (s, Inl e) | Inr pn \<Rightarrow>
      case check_lapsed v pn now of Inl e \<Rightarrow> (s, Inl e) | Inr _ \<Rightarrow>
      case hook_lapsed s pn now of (s', Inl e) \<Rightarrow> (s', Inl e) | (s', Inr _) \<Rightarrow> (s', Inr pn))"

record cached_principal =
  cp_key :: bytes
  cp_principal :: principal
  cp_cached_at :: nat
  cp_valid_until :: nat

record 'k principal_cache =
  pc_get :: "'k \<Rightarrow> bytes \<Rightarrow> 'k \<times> cached_principal option"
  pc_insert :: "'k \<Rightarrow> bytes \<Rightarrow> cached_principal \<Rightarrow> 'k"

definition cache_key :: "crypto \<Rightarrow> validator \<Rightarrow> bytes \<Rightarrow> auth_error + bytes" where
  "cache_key c v token = (case check_size token of Inl e \<Rightarrow> Inl e | Inr _ \<Rightarrow> Inr (hmac_sha256 c (vd_cache_secret v) token))"

text \<open>\<open>ttl\<close> is in whole seconds.\<close>

definition entry_fresh :: "cached_principal \<Rightarrow> bytes \<Rightarrow> nat \<Rightarrow> nat \<Rightarrow> bool" where
  "entry_fresh entry key now ttl \<longleftrightarrow> cp_key entry = key \<and> cp_cached_at entry \<le> now \<and> now < cp_valid_until entry \<and>
     now < saturating_add u64_max (cp_cached_at entry) ttl"

definition validate_cached ::
    "crypto \<Rightarrow> token_codec \<Rightarrow> validator \<Rightarrow> 'k principal_cache \<Rightarrow> nat \<Rightarrow> 's hook \<Rightarrow> 'k \<Rightarrow> 's \<Rightarrow> bytes \<Rightarrow> nat \<Rightarrow>
     'k \<times> 's \<times> (auth_error + principal)" where
  "validate_cached c t v ops ttl hook k s token now =
     (if ttl = 0 then (k, validate c t v hook s token now)
      else case cache_key c v token of Inl e \<Rightarrow> (k, s, Inl e) | Inr key \<Rightarrow>
      case pc_get ops k key of (k1, found) \<Rightarrow>
      (case (case found of None \<Rightarrow> None | Some entry \<Rightarrow> if entry_fresh entry key now ttl then Some entry else None) of
         Some entry \<Rightarrow>
           (case check_static v (cp_principal entry) now of Inl e \<Rightarrow> (k1, s, Inl e)
            | Inr _ \<Rightarrow> (case hook s (cp_principal entry) now of
                (s', Inl e) \<Rightarrow> (k1, s', Inl e) | (s', Inr _) \<Rightarrow> (k1, s', Inr (cp_principal entry))))
       | None \<Rightarrow>
           (case validate c t v hook s token now of
              (s', Inl e) \<Rightarrow> (k1, s', Inl e)
            | (s', Inr pn) \<Rightarrow>
                (pc_insert ops k1 key \<lparr>cp_key = key, cp_principal = pn, cp_cached_at = now,
                   cp_valid_until = min (saturating_add u64_max now ttl) (cl_expires_at (pn_claims pn))\<rparr>, s', Inr pn))))"

section \<open>Properties\<close>

lemma map_of_map_val: "map_of (map (\<lambda>(i, x). (i, f i x)) xs) i = map_option (f i) (map_of xs i)"
  by (induction xs) auto

lemma be_bytes_back: "i < 2 ^ 32 \<Longrightarrow> from_le_bytes (rev (to_be_bytes 4 i)) = i"
  by (simp add: to_be_bytes_def from_to_le_bytes)

lemma decrypt_issued:
  assumes cr: "crypto_ok c" "codec_ok t"
    and i: "kr_active (au_keyring a) < 2 ^ 32" "kr_active (au_keyring a) \<in> fst ` set (kr_keys (au_keyring a))"
    and iss: "issue_bound c t (Some jti) (Some nonce) a cl session = Inr token" "length nonce = 24"
    and va: "va_audience va = cl_audience cl" "va_purpose va = cl_purpose cl"
  shows "decrypt c t (authority_validator c a va) token =
    Inr \<lparr>pn_realm = au_realm a, pn_issuer = au_issuer a, pn_jti = jti, pn_session = session, pn_claims = cl\<rparr>"
proof -
  let ?i = "kr_active (au_keyring a)" and ?v = "authority_validator c a va"
  let ?pn = "\<lparr>pn_realm = au_realm a, pn_issuer = au_issuer a, pn_jti = jti, pn_session = session, pn_claims = cl\<rparr>"
  let ?info = "token_scope (au_realm a) (au_issuer a) (cl_audience cl) (cl_purpose cl) ?i"
  obtain master where master: "map_of (kr_keys (au_keyring a)) ?i = Some master"
    using i(2) by (metis map_of_eq_None_iff not_None_eq)
  obtain plaintext sealed where p: "json_to_vec t ?pn = Some plaintext"
      "length TOKEN_PREFIX + div_ceil ((HEADER_LEN + TAG_LEN + length plaintext) * 4) 3 \<le> MAX_TOKEN_LEN"
      "aead_seal c (derive c master ?info) nonce ?info plaintext = Some sealed"
      "token = TOKEN_PREFIX @ b64_encode t (to_be_bytes 4 ?i @ nonce @ sealed)"
    using iss(1) master
    by (auto simp: issue_bound_def Let_def authority_scope_def simp del: HEADER_LEN_def TAG_LEN_def
        split: sum.splits option.splits if_splits)
  have s: "length sealed = length plaintext + 16" "aead_open c (derive c master ?info) nonce ?info sealed = Some plaintext"
    using cr(1) p(3) unfolding crypto_ok_def by blast+
  have b: "b64_decode t (b64_encode t bs) = Some bs" "length (b64_encode t bs) = div_ceil (length bs * 4) 3" for bs
    using cr(2) by (simp_all add: codec_ok_def)
  have "length token \<le> MAX_TOKEN_LEN" using p(2,4) s(1) iss(2) by (simp add: b(2) add.assoc)
  then have size: "check_size token = Inr ()" by (simp add: check_size_def p(4) TOKEN_PREFIX_def ascii_def)
  have key: "map_of (vd_keys ?v) ?i = Some (derive c master ?info)"
    using master va by (simp add: authority_validator_def map_of_map_val authority_scope_def)
  have "json_from_slice t plaintext = Some ?pn" using cr(2) p(1) by (simp add: codec_ok_def)
  then show ?thesis
    using size key s iss(2) va i(1)
    by (simp add: decrypt_def p(4) b(1) be_bytes_back Let_def sub_slice_def)
      (simp add: authority_validator_def)
qed

text \<open>A concrete encoding for the examples: padding to the length of base64, and the JSON of one principal.\<close>

definition demo_claims :: claims where
  "demo_claims = \<lparr>cl_subject = [97], cl_audience = [98], cl_purpose = Refresh, cl_capabilities = [[99], [100]],
     cl_issued_at = 10, cl_not_before = 10, cl_expires_at = 80\<rparr>"

definition demo_principal :: principal where
  "demo_principal = \<lparr>pn_realm = [114], pn_issuer = [105], pn_jti = replicate 16 2,
     pn_session = Some \<lparr>sb_id = replicate 16 5, sb_generation = 0\<rparr>, pn_claims = demo_claims\<rparr>"

definition demo_codec :: token_codec where
  "demo_codec = \<lparr>b64_encode = (\<lambda>bs. bs @ replicate (div_ceil (length bs * 4) 3 - length bs) 0),
     b64_decode = (\<lambda>bs. Some (take (length bs * 3 div 4) bs)),
     json_to_vec = (\<lambda>pn. if pn = demo_principal then Some [1] else None),
     json_from_slice = (\<lambda>bs. if bs = [1] then Some demo_principal else None)\<rparr>"

definition demo_authority :: authority where
  "demo_authority = \<lparr>au_realm = [114], au_issuer = [105], au_keyring = \<lparr>kr_active = 1, kr_keys = [(1, [3, 1])]\<rparr>, au_cache_seed = [4]\<rparr>"

definition demo_validation :: validation where
  "demo_validation = \<lparr>va_audience = [98], va_purpose = Refresh, va_required_capabilities = [[99]]\<rparr>"

lemma demo_codec_ok: "codec_ok demo_codec"
proof -
  have "n \<le> div_ceil (n * 4) 3 \<and> div_ceil (n * 4) 3 * 3 div 4 = n" for n :: nat
    unfolding div_ceil_def by presburger
  then show ?thesis by (auto simp: codec_ok_def demo_codec_def)
qed

text \<open>
  C21: a credential that an authority issues is one its validators accept.  For the audience and purpose of
  the claims, the required capabilities granted and a time inside the validity window, validation opens the
  token, recovers exactly the issued principal and leaves the verdict to the hook; in particular every
  token that passes the size check of the issuer passes that of the validator.
\<close>

theorem issued_token_validates:
  assumes "crypto_ok c" "codec_ok t"
    and "kr_active (au_keyring a) < 2 ^ 32" "kr_active (au_keyring a) \<in> fst ` set (kr_keys (au_keyring a))"
    and iss: "issue_bound c t (Some jti) (Some nonce) a cl session = Inr token" and "length nonce = 24"
    and va: "va_audience va = cl_audience cl" "va_purpose va = cl_purpose cl"
      "set (va_required_capabilities va) \<subseteq> set (cl_capabilities cl)"
    and now: "cl_not_before cl \<le> now" "now < cl_expires_at cl"
  shows "validate c t (authority_validator c a va) hook s token now =
    (let pn = \<lparr>pn_realm = au_realm a, pn_issuer = au_issuer a, pn_jti = jti, pn_session = session, pn_claims = cl\<rparr>
     in case hook s pn now of (s', Inl e) \<Rightarrow> (s', Inl e) | (s', Inr _) \<Rightarrow> (s', Inr pn))"
proof -
  have shape: "check_shape cl = Inr ()" using iss by (auto simp: issue_bound_def split: sum.splits)
  then have "cl_issued_at cl \<le> now" using now(1) by (auto simp: check_shape_def split: if_splits)
  then show ?thesis
    using decrypt_issued [OF assms(1-4) iss assms(6) va(1,2)] shape va now
    by (simp add: validate_def check_static_def check_lapsed_def Let_def authority_validator_def)
qed

theorem issued_token_validates_witness:
  "\<exists>token. issue_bound demo_crypto demo_codec (Some (replicate 16 2)) (Some (replicate 24 6)) demo_authority demo_claims
       (pn_session demo_principal) = Inr token \<and>
     validate demo_crypto demo_codec (authority_validator demo_crypto demo_authority demo_validation) allow_reusable () token 20
       = ((), Inr demo_principal)"
proof -
  have "\<not> isl (issue_bound demo_crypto demo_codec (Some (replicate 16 2)) (Some (replicate 24 6)) demo_authority demo_claims
      (pn_session demo_principal))"
    by (simp add: issue_bound_def check_shape_def valid_label_def utf8_def is_control_def MAX_LABEL_LEN_def MAX_CAPABILITIES_def
        demo_claims_def demo_principal_def demo_authority_def demo_codec_def demo_crypto_def Let_def TOKEN_PREFIX_def ascii_def
        MAX_TOKEN_LEN_def div_ceil_def)
  then obtain token where token: "issue_bound demo_crypto demo_codec (Some (replicate 16 2)) (Some (replicate 24 6)) demo_authority
      demo_claims (pn_session demo_principal) = Inr token" by (metis sum.collapse(2))
  have "validate demo_crypto demo_codec (authority_validator demo_crypto demo_authority demo_validation) allow_reusable () token 20
       = ((), Inr demo_principal)"
    by (subst issued_token_validates [OF demo_crypto_ok demo_codec_ok _ _ token])
      (simp_all add: demo_authority_def demo_validation_def demo_claims_def allow_reusable_def demo_principal_def)
  with token show ?thesis by blast
qed


definition demo_cache :: "cached_principal principal_cache" where
  "demo_cache = \<lparr>pc_get = (\<lambda>k key. (k, if cp_key k = key then Some k else None)), pc_insert = (\<lambda>k key entry. entry)\<rparr>"

definition demo_entry :: cached_principal where
  "demo_entry = \<lparr>cp_key = hmac_sha256 demo_crypto (vd_cache_secret (authority_validator demo_crypto demo_authority demo_validation)) [1, 2],
     cp_principal = demo_principal, cp_cached_at = 12, cp_valid_until = 50\<rparr>"


end
