(* ===== verification/Auth_Fleet.thy ===== *)
theory Auth_Fleet
  imports Auth_Map Auth_Token "HOL-Library.Product_Lexorder"
begin

text \<open>
  Live sessions and replay state: \<^verbatim>\<open>auth/src/fleet.rs\<close>.  The handle's keys and labels are an \<open>auth_handle\<close>;
  the shared table is a list of slots that the operations under the writer lock transform; the LRU of
  verified session views belongs to the crate \<^verbatim>\<open>lru\<close> and enters as \<open>view_ops\<close>.  An operation that reads
  without the lock sees the table through an \<open>auth_env\<close>: what the loads of its scan and of its view check
  observe, the slots under the lock should it have to repeat the scan, and whether the locks are available.
  Randomness is an argument, by slot for the nonces of the encrypting policy.
\<close>

section \<open>Handles\<close>

record auth_handle =
  ah_state_key :: bytes
  ah_protection :: record_protection
  ah_realm :: rstr
  ah_issuer :: rstr

definition fleet_auth_new :: "crypto \<Rightarrow> bytes \<Rightarrow> authority \<Rightarrow> bytes \<Rightarrow> state_protection \<Rightarrow> auth_handle" where
  "fleet_auth_new c fleet_name a state_key policy =
     \<lparr>ah_state_key = derive c state_key (context_parts
        [ascii ''orbit-auth/v2/fleet-state'', fleet_name, utf8 (au_realm a), utf8 (au_issuer a)]),
      ah_protection = \<lparr>rp_key = derive c state_key (context_parts
        [ascii ''orbit-auth/v4/fleet-state-protection'', fleet_name, to_le_bytes 8 (protection_id policy)]), rp_policy = policy\<rparr>,
      ah_realm = au_realm a, ah_issuer = au_issuer a\<rparr>"

definition auth_mac :: "crypto \<Rightarrow> bytes \<Rightarrow> bytes \<Rightarrow> nat list" where
  "auth_mac c key v = bytes_to_words 4 (hmac_sha256 c key v)"

definition session_key :: "crypto \<Rightarrow> auth_handle \<Rightarrow> bytes \<Rightarrow> store_key" where
  "session_key c h i = auth_mac c (ah_state_key h) (context_parts [ascii ''session'', i])"

definition subject_tag :: "crypto \<Rightarrow> auth_handle \<Rightarrow> rstr \<Rightarrow> nat list" where
  "subject_tag c h subject = auth_mac c (ah_state_key h) (context_parts [ascii ''subject'', utf8 subject])"

definition replay_key :: "crypto \<Rightarrow> auth_handle \<Rightarrow> bytes \<Rightarrow> store_key" where
  "replay_key c h jti = auth_mac c (ah_state_key h) (context_parts [ascii ''replay'', jti])"

definition session_handle :: "auth_handle \<Rightarrow> bytes \<Rightarrow> rstr \<Rightarrow> auth_record \<Rightarrow> session" where
  "session_handle h i subject r =
     \<lparr>ss_binding = \<lparr>sb_id = i, sb_generation = ar_generation r\<rparr>, ss_subject = subject, ss_created_at = ar_created_at r,
      ss_expires_at = ar_expires_at r, ss_realm = ah_realm h, ss_issuer = ah_issuer h\<rparr>"

section \<open>Checks of one record\<close>

definition check_scope_lapsed :: "auth_handle \<Rightarrow> principal \<Rightarrow> nat \<Rightarrow> auth_error + unit" where
  "check_scope_lapsed h pn now =
     (if pn_realm pn \<noteq> ah_realm h \<or> pn_issuer pn \<noteq> ah_issuer h then Inl InvalidToken
      else if now < cl_not_before (pn_claims pn) \<or> now < cl_issued_at (pn_claims pn) then Inl NotYetValid
      else Inr ())"

definition check_scope :: "auth_handle \<Rightarrow> principal \<Rightarrow> nat \<Rightarrow> auth_error + unit" where
  "check_scope h pn now =
     (case check_scope_lapsed h pn now of Inl e \<Rightarrow> Inl e
      | Inr _ \<Rightarrow> if now \<ge> cl_expires_at (pn_claims pn) then Inl Expired else Inr ())"

definition check_live :: "auth_record \<Rightarrow> nat \<Rightarrow> auth_error + unit" where
  "check_live r now =
     (if ar_status r = REVOKED then Inl Revoked
      else if ar_status r \<noteq> SESSION then Inl PolicyUnavailable
      else if now \<ge> ar_expires_at r then Inl Expired
      else if now < ar_created_at r then Inl NotYetValid
      else Inr ())"

definition check_metadata :: "auth_record \<Rightarrow> principal \<Rightarrow> nat \<Rightarrow> auth_error + unit" where
  "check_metadata r pn now =
     (case check_live r now of Inl e \<Rightarrow> Inl e | Inr _ \<Rightarrow>
      if cl_issued_at (pn_claims pn) < ar_created_at r \<or> cl_expires_at (pn_claims pn) > ar_expires_at r then Inl InvalidToken
      else case pn_session pn of None \<Rightarrow> Inl InvalidToken
           | Some binding \<Rightarrow>
               if cl_purpose (pn_claims pn) = Refresh \<and> sb_generation binding \<noteq> ar_generation r then Inl Replayed else Inr ())"

definition check_record :: "auth_record \<Rightarrow> nat list \<Rightarrow> principal \<Rightarrow> nat \<Rightarrow> auth_error + unit" where
  "check_record r subject pn now = (if ar_subject r \<noteq> subject then Inl InvalidToken else check_metadata r pn now)"

section \<open>Operations under the writer lock\<close>

type_synonym slots = "auth_slot list"
type_synonym nonces = "nat \<Rightarrow> bytes option"

text \<open>The loops over snapshots: each stores an updated record and stops at the first error.\<close>

fun store_each :: "crypto \<Rightarrow> record_protection \<Rightarrow> nonces \<Rightarrow> slots \<Rightarrow> (auth_snapshot \<times> auth_record) list \<Rightarrow> slots \<times> (auth_error + unit)" where
  "store_each c p random slots [] = (slots, Inr ())"
| "store_each c p random slots ((sn, r) # rest) =
     (case store_at c p random slots (sn_index sn) r of
        (slots', Inl e) \<Rightarrow> (slots', Inl e)
      | (slots', Inr _) \<Rightarrow> store_each c p random slots' rest)"

definition revoked :: "auth_snapshot \<Rightarrow> auth_snapshot \<times> auth_record" where
  "revoked sn = (sn, (sn_record sn)\<lparr>ar_status := REVOKED\<rparr>)"

definition by_age :: "auth_snapshot list \<Rightarrow> auth_snapshot list" where
  "by_age live = sort_key (\<lambda>sn. (ar_created_at (sn_record sn), sn_index sn)) live"

definition create_locked ::
    "crypto \<Rightarrow> record_protection \<Rightarrow> nonces \<Rightarrow> auth_record \<Rightarrow> nat \<Rightarrow> nat option \<Rightarrow> slots \<Rightarrow> slots \<times> (auth_error + unit)" where
  "create_locked c p random r now limit slots =
     (case find_record c p slots (ar_key r) of
        Inl e \<Rightarrow> (slots, Inl e)
      | Inr (Some _) \<Rightarrow> (slots, Inl InvalidInput)
      | Inr None \<Rightarrow>
          (case (case limit of Some _ \<Rightarrow> subject_sessions c p slots (ar_subject r) now | None \<Rightarrow> Inr []) of
             Inl e \<Rightarrow> (slots, Inl e)
           | Inr live \<Rightarrow>
               (case insert_record c p random slots r now of
                  (slots', Inl e) \<Rightarrow> (slots', Inl e)
                | (slots', Inr _) \<Rightarrow>
                    (case limit of
                       None \<Rightarrow> (slots', Inr ())
                     | Some m \<Rightarrow>
                         let excess = saturating_sub (length live) (m - 1)
                         in store_each c p random slots' (map revoked (take excess (by_age live)))))))"

definition create ::
    "crypto \<Rightarrow> auth_handle \<Rightarrow> bytes option \<Rightarrow> nonces \<Rightarrow> bool \<Rightarrow> slots \<Rightarrow> rstr \<Rightarrow> nat \<Rightarrow> nat \<Rightarrow> nat option \<Rightarrow> slots \<times> (auth_error + session)" where
  "create c h random_id random lock slots subject now expires_at limit =
     (if \<not> valid_label subject \<or> now \<ge> expires_at then (slots, Inl InvalidInput)
      else case random_id of None \<Rightarrow> (slots, Inl Randomness) | Some i \<Rightarrow>
      let r = \<lparr>ar_key = session_key c h i, ar_subject = subject_tag c h subject, ar_created_at = now, ar_expires_at = expires_at,
               ar_generation = 0, ar_status = SESSION\<rparr>
      in case table_write lock slots (create_locked c (ah_protection h) random r now limit) of
           (slots', Inl e) \<Rightarrow> (slots', Inl e)
         | (slots', Inr _) \<Rightarrow> (slots', Inr (session_handle h i subject r)))"

definition create_session ::
    "crypto \<Rightarrow> auth_handle \<Rightarrow> bytes option \<Rightarrow> nonces \<Rightarrow> bool \<Rightarrow> slots \<Rightarrow> rstr \<Rightarrow> nat \<Rightarrow> nat \<Rightarrow> slots \<times> (auth_error + session)" where
  "create_session c h random_id random lock slots subject now expires_at =
     create c h random_id random lock slots subject now expires_at None"

definition create_session_with_limit ::
    "crypto \<Rightarrow> auth_handle \<Rightarrow> bytes option \<Rightarrow> nonces \<Rightarrow> bool \<Rightarrow> slots \<Rightarrow> rstr \<Rightarrow> nat \<Rightarrow> nat \<Rightarrow> nat \<Rightarrow> slots \<times> (auth_error + session)" where
  "create_session_with_limit c h random_id random lock slots subject now expires_at limit =
     create c h random_id random lock slots subject now expires_at (Some limit)"

definition revoke_subject_sessions ::
    "crypto \<Rightarrow> auth_handle \<Rightarrow> nonces \<Rightarrow> bool \<Rightarrow> slots \<Rightarrow> rstr \<Rightarrow> nat \<Rightarrow> slots \<times> (auth_error + nat)" where
  "revoke_subject_sessions c h random lock slots subject now =
     (if \<not> valid_label subject then (slots, Inl InvalidInput)
      else table_write lock slots (\<lambda>slots.
        case subject_sessions c (ah_protection h) slots (subject_tag c h subject) now of
          Inl e \<Rightarrow> (slots, Inl e)
        | Inr live \<Rightarrow>
            (case store_each c (ah_protection h) random slots (map revoked live) of
               (slots', Inl e) \<Rightarrow> (slots', Inl e)
             | (slots', Inr _) \<Rightarrow> (slots', Inr (length live)))))"

definition extend_subject_sessions ::
    "crypto \<Rightarrow> auth_handle \<Rightarrow> nonces \<Rightarrow> bool \<Rightarrow> slots \<Rightarrow> rstr \<Rightarrow> nat \<Rightarrow> (nat \<Rightarrow> nat \<Rightarrow> nat) \<Rightarrow> slots \<times> (auth_error + nat)" where
  "extend_subject_sessions c h random lock slots subject now horizon =
     (if \<not> valid_label subject then (slots, Inl InvalidInput)
      else table_write lock slots (\<lambda>slots.
        case subject_sessions c (ah_protection h) slots (subject_tag c h subject) now of
          Inl e \<Rightarrow> (slots, Inl e)
        | Inr live \<Rightarrow>
            (let targets = map (\<lambda>sn. (sn, horizon (ar_created_at (sn_record sn)) (ar_expires_at (sn_record sn)))) live
             in if list_ex (\<lambda>(sn, target). target < ar_expires_at (sn_record sn) \<or> target \<le> now) targets
                then (slots, Inl InvalidInput)
                else let moved = filter (\<lambda>(sn, target). target > ar_expires_at (sn_record sn)) targets
                     in case store_each c (ah_protection h) random slots
                               (map (\<lambda>(sn, target). (sn, (sn_record sn)\<lparr>ar_expires_at := target\<rparr>)) moved) of
                          (slots', Inl e) \<Rightarrow> (slots', Inl e)
                        | (slots', Inr _) \<Rightarrow> (slots', Inr (length moved)))))"

definition revoke_session :: "crypto \<Rightarrow> auth_handle \<Rightarrow> nonces \<Rightarrow> bool \<Rightarrow> slots \<Rightarrow> bytes \<Rightarrow> nat \<Rightarrow> slots \<times> (auth_error + unit)" where
  "revoke_session c h random lock slots i now =
     table_write lock slots (\<lambda>slots.
       case find_record c (ah_protection h) slots (session_key c h i) of
         Inl e \<Rightarrow> (slots, Inl e)
       | Inr None \<Rightarrow> (slots, Inl Revoked)
       | Inr (Some sn) \<Rightarrow>
           (let r = sn_record sn
            in if ar_status r \<noteq> SESSION \<and> ar_status r \<noteq> REVOKED then (slots, Inl PolicyUnavailable)
               else if now < ar_created_at r then (slots, Inl NotYetValid)
               else case store_at c (ah_protection h) random slots (sn_index sn) (r\<lparr>ar_status := REVOKED\<rparr>) of
                      (slots', Inl e) \<Rightarrow> (slots', Inl e) | (slots', Inr _) \<Rightarrow> (slots', Inr ())))"

definition extend_session ::
    "crypto \<Rightarrow> auth_handle \<Rightarrow> nonces \<Rightarrow> bool \<Rightarrow> slots \<Rightarrow> bytes \<Rightarrow> rstr \<Rightarrow> nat \<Rightarrow> nat \<Rightarrow> slots \<times> (auth_error + session)" where
  "extend_session c h random lock slots i subject now expires_at =
     (if \<not> valid_label subject \<or> now \<ge> expires_at then (slots, Inl InvalidInput)
      else table_write lock slots (\<lambda>slots.
        case find_record c (ah_protection h) slots (session_key c h i) of
          Inl e \<Rightarrow> (slots, Inl e)
        | Inr None \<Rightarrow> (slots, Inl Revoked)
        | Inr (Some sn) \<Rightarrow>
            (let r = sn_record sn
             in if ar_subject r \<noteq> subject_tag c h subject then (slots, Inl InvalidInput)
                else case check_live r now of Inl e \<Rightarrow> (slots, Inl e) | Inr _ \<Rightarrow>
                if expires_at < ar_expires_at r then (slots, Inl InvalidInput)
                else if expires_at > ar_expires_at r
                     then (let r' = r\<lparr>ar_expires_at := expires_at\<rparr>
                           in case store_at c (ah_protection h) random slots (sn_index sn) r' of
                                (slots', Inl e) \<Rightarrow> (slots', Inl e)
                              | (slots', Inr _) \<Rightarrow> (slots', Inr (session_handle h i subject r')))
                     else (slots, Inr (session_handle h i subject r)))))"

text \<open>The locked section of \<open>refresh\<close>, for the principal that validation returned.\<close>

definition refresh_locked ::
    "crypto \<Rightarrow> auth_handle \<Rightarrow> nonces \<Rightarrow> principal \<Rightarrow> session_binding \<Rightarrow> nat \<Rightarrow> nat \<Rightarrow> slots \<Rightarrow> slots \<times> (auth_error + session)" where
  "refresh_locked c h random pn binding now expires_at slots =
     (case find_record c (ah_protection h) slots (session_key c h (sb_id binding)) of
        Inl e \<Rightarrow> (slots, Inl e)
      | Inr None \<Rightarrow> (slots, Inl Revoked)
      | Inr (Some sn) \<Rightarrow>
          (let r = sn_record sn
           in case check_record r (subject_tag c h (pn_subject pn)) pn now of Inl e \<Rightarrow> (slots, Inl e) | Inr _ \<Rightarrow>
              if expires_at < ar_expires_at r then (slots, Inl InvalidInput)
              else case checked_add u64_max (ar_generation r) 1 of None \<Rightarrow> (slots, Inl PolicyUnavailable)
              | Some generation \<Rightarrow>
                  (let r' = r\<lparr>ar_generation := generation, ar_expires_at := expires_at\<rparr>
                   in case store_at c (ah_protection h) random slots (sn_index sn) r' of
                        (slots', Inl e) \<Rightarrow> (slots', Inl e)
                      | (slots', Inr _) \<Rightarrow> (slots', Inr (session_handle h (sb_id binding) (pn_subject pn) r')))))"

definition replay_locked :: "crypto \<Rightarrow> auth_handle \<Rightarrow> nonces \<Rightarrow> principal \<Rightarrow> nat \<Rightarrow> slots \<Rightarrow> slots \<times> (auth_error + unit)" where
  "replay_locked c h random pn now slots =
     (case (case pn_session pn of
              None \<Rightarrow> Inr ()
            | Some binding \<Rightarrow>
                (case find_record c (ah_protection h) slots (session_key c h (sb_id binding)) of
                   Inl e \<Rightarrow> Inl e
                 | Inr None \<Rightarrow> Inl Revoked
                 | Inr (Some sn) \<Rightarrow> check_record (sn_record sn) (subject_tag c h (pn_subject pn)) pn now)) of
        Inl e \<Rightarrow> (slots, Inl e)
      | Inr _ \<Rightarrow>
          (case find_record c (ah_protection h) slots (replay_key c h (pn_jti pn)) of
             Inl e \<Rightarrow> (slots, Inl e)
           | Inr (Some _) \<Rightarrow> (slots, Inl Replayed)
           | Inr None \<Rightarrow>
               insert_record c (ah_protection h) random slots
                 \<lparr>ar_key = replay_key c h (pn_jti pn), ar_subject = replicate 4 0, ar_created_at = now,
                  ar_expires_at = cl_expires_at (pn_claims pn), ar_generation = 0, ar_status = CONSUMED\<rparr> now))"

definition replay_check :: "crypto \<Rightarrow> auth_handle \<Rightarrow> nonces \<Rightarrow> bool \<Rightarrow> slots hook" where
  "replay_check c h random lock slots pn now =
     (case check_scope h pn now of Inl e \<Rightarrow> (slots, Inl e)
      | Inr _ \<Rightarrow> table_write lock slots (replay_locked c h random pn now))"

section \<open>Reads without the lock\<close>

record session_view =
  sv_snapshot :: auth_snapshot
  sv_subject :: rstr

record 'w view_ops =
  vw_get :: "'w \<Rightarrow> bytes \<Rightarrow> 'w \<times> session_view option"
  vw_pop :: "'w \<Rightarrow> bytes \<Rightarrow> 'w"
  vw_put :: "'w \<Rightarrow> bytes \<Rightarrow> session_view \<Rightarrow> 'w"

record auth_env =
  ae_scan :: "nat \<Rightarrow> nat \<Rightarrow> auth_slot"
  ae_view :: "nat \<Rightarrow> auth_slot"
  ae_locked :: slots
  ae_lock :: bool
  ae_views :: bool
  ae_views_put :: bool

definition get_session :: "crypto \<Rightarrow> auth_handle \<Rightarrow> auth_env \<Rightarrow> bytes \<Rightarrow> rstr \<Rightarrow> nat \<Rightarrow> auth_error + session" where
  "get_session c h env i subject now =
     (if \<not> valid_label subject then Inl InvalidInput
      else case table_lookup c (ah_protection h) (ae_lock env) (ae_scan env) (ae_locked env) (session_key c h i) of
             Inl e \<Rightarrow> Inl e
           | Inr None \<Rightarrow> Inl Revoked
           | Inr (Some sn) \<Rightarrow>
               if ar_subject (sn_record sn) \<noteq> subject_tag c h subject then Inl InvalidInput
               else case check_live (sn_record sn) now of Inl e \<Rightarrow> Inl e
                    | Inr _ \<Rightarrow> Inr (session_handle h i subject (sn_record sn)))"

definition check_session :: "crypto \<Rightarrow> auth_handle \<Rightarrow> 'w view_ops \<Rightarrow> auth_env \<Rightarrow> 'w hook" where
  "check_session c h ops env views pn now =
     (case pn_session pn of None \<Rightarrow> (views, Inl InvalidToken) | Some binding \<Rightarrow>
      if \<not> ae_views env then (views, Inl PolicyUnavailable)
      else case vw_get ops views (sb_id binding) of (views1, found) \<Rightarrow>
      (case (case found of None \<Rightarrow> None
             | Some view \<Rightarrow>
                 if table_unchanged (ah_protection h) (ae_view env) (length (ae_locked env)) (sv_snapshot view)
                 then Some view else None) of
         Some view \<Rightarrow>
           (views1, if sv_subject view \<noteq> pn_subject pn then Inl InvalidToken
                    else check_metadata (sn_record (sv_snapshot view)) pn now)
       | None \<Rightarrow>
           (let views2 = (case found of None \<Rightarrow> views1 | Some _ \<Rightarrow> vw_pop ops views1 (sb_id binding))
            in case table_lookup c (ah_protection h) (ae_lock env) (ae_scan env) (ae_locked env) (session_key c h (sb_id binding)) of
                 Inl e \<Rightarrow> (views2, Inl e)
               | Inr None \<Rightarrow> (views2, Inl Revoked)
               | Inr (Some sn) \<Rightarrow>
                   (case check_record (sn_record sn) (subject_tag c h (pn_subject pn)) pn now of
                      Inl e \<Rightarrow> (views2, Inl e)
                    | Inr _ \<Rightarrow>
                        if \<not> ae_views_put env then (views2, Inl PolicyUnavailable)
                        else (vw_put ops views2 (sb_id binding) \<lparr>sv_snapshot = sn, sv_subject = pn_subject pn\<rparr>, Inr ())))))"

definition fleet_check :: "crypto \<Rightarrow> auth_handle \<Rightarrow> 'w view_ops \<Rightarrow> auth_env \<Rightarrow> 'w hook" where
  "fleet_check c h ops env views pn now =
     (case check_scope h pn now of Inl e \<Rightarrow> (views, Inl e) | Inr _ \<Rightarrow> check_session c h ops env views pn now)"

definition fleet_check_lapsed :: "crypto \<Rightarrow> auth_handle \<Rightarrow> 'w view_ops \<Rightarrow> auth_env \<Rightarrow> 'w hook" where
  "fleet_check_lapsed c h ops env views pn now =
     (case check_scope_lapsed h pn now of Inl e \<Rightarrow> (views, Inl e) | Inr _ \<Rightarrow> check_session c h ops env views pn now)"

text \<open>\<open>refresh\<close>: the table may change between the validation, which reads through \<open>env\<close>, and the lock.\<close>

definition refresh ::
    "crypto \<Rightarrow> token_codec \<Rightarrow> auth_handle \<Rightarrow> 'w view_ops \<Rightarrow> auth_env \<Rightarrow> nonces \<Rightarrow> bool \<Rightarrow> validator \<Rightarrow> 'w \<Rightarrow> slots \<Rightarrow> bytes \<Rightarrow> nat \<Rightarrow> nat \<Rightarrow>
     'w \<times> slots \<times> (auth_error + session)" where
  "refresh c t h ops env random lock v views slots token now expires_at =
     (if va_purpose (vd_validation v) \<noteq> Refresh then (views, slots, Inl InvalidInput)
      else case validate c t v (fleet_check c h ops env) views token now of
             (views', Inl e) \<Rightarrow> (views', slots, Inl e)
           | (views', Inr pn) \<Rightarrow>
               (case pn_session pn of None \<Rightarrow> (views', slots, Inl InvalidToken)
                | Some binding \<Rightarrow> (views', table_write lock slots (refresh_locked c h random pn binding now expires_at))))"

end
