(* ===== verification/Auth_Life.thy ===== *)
theory Auth_Life
  imports Auth_Fleet
begin

text \<open>
  What the operations of \<^verbatim>\<open>auth/src/fleet.rs\<close> do to the map of records.  \<open>evolves\<close> lists the only ways the
  record of one key may change in one operation: it is admitted where there was none, reclaimed after its
  expiry, extended, refreshed or revoked while it is a session.  The locale \<open>record_lifecycle\<close> states that law
  for a state with operations and derives what it means for sequences of operations; it is interpreted on
  the operations of the code.
\<close>

section \<open>Life of one record\<close>

definition evolves :: "nat \<Rightarrow> bool \<Rightarrow> auth_record option \<Rightarrow> auth_record option \<Rightarrow> bool" where
  "evolves now creates old new \<longleftrightarrow> new = old \<or>
     (\<exists>r. creates \<and> old = None \<and> new = Some r \<and> ar_created_at r = now) \<or>
     (\<exists>r. old = Some r \<and> new = None \<and> ar_expires_at r \<le> now) \<or>
     (\<exists>r r'. old = Some r \<and> new = Some r' \<and> ar_status r \<noteq> CONSUMED \<and>
        (ar_status r' = REVOKED \<or> ar_status r = SESSION \<and> ar_status r' = SESSION \<and> now < ar_expires_at r) \<and>
        ar_subject r' = ar_subject r \<and> ar_created_at r' = ar_created_at r \<and>
        ar_generation r \<le> ar_generation r' \<and> ar_expires_at r \<le> ar_expires_at r')"

definition dead :: "auth_record option \<Rightarrow> bool" where
  "dead r \<longleftrightarrow> (case r of None \<Rightarrow> True | Some r \<Rightarrow> ar_status r \<noteq> SESSION)"

lemma record_evolves_refl [simp]: "evolves now b r r"
  by (simp add: evolves_def)

lemma evolves_generation:
  assumes "evolves now False old new" "\<And>r. old = Some r \<Longrightarrow> g \<le> ar_generation r" "new = Some r"
  shows "g \<le> ar_generation r"
proof (cases "new = old")
  case True
  then show ?thesis using assms(2,3) by simp
next
  case False
  then obtain q where "old = Some q" "ar_generation q \<le> ar_generation r" using assms(1,3) by (auto simp: evolves_def)
  then show ?thesis using assms(2) [of q] by linarith
qed

locale record_lifecycle =
  fixes good :: "'s \<Rightarrow> bool" and cur :: "'s \<Rightarrow> store_key \<Rightarrow> auth_record option"
    and step :: "'s \<Rightarrow> 'op \<Rightarrow> 's" and fit :: "'op \<Rightarrow> bool" and time :: "'op \<Rightarrow> nat" and creates :: "'op \<Rightarrow> store_key \<Rightarrow> bool"
  assumes good_step: "good s \<Longrightarrow> fit x \<Longrightarrow> good (step s x)"
    and evolve: "good s \<Longrightarrow> fit x \<Longrightarrow> evolves (time x) (creates x key) (cur s key) (cur (step s x) key)"
begin

lemma run_good: "good s \<Longrightarrow> \<forall>x\<in>set xs. fit x \<Longrightarrow> good (foldl step s xs)"
  by (induction xs arbitrary: s) (simp_all add: good_step)

lemma consumed_kept:
  assumes "good s" "\<forall>x\<in>set xs. fit x \<and> time x < ar_expires_at r" "cur s key = Some r" "ar_status r = CONSUMED"
  shows "cur (foldl step s xs) key = Some r"
  using assms
proof (induction xs arbitrary: s)
  case Nil
  then show ?case by simp
next
  case (Cons x xs)
  have "cur (step s x) key = Some r"
    using evolve [of s x key] Cons.prems by (auto simp: evolves_def)
  then show ?case using Cons.IH [of "step s x"] good_step [of s x] Cons.prems by simp
qed

lemma stays_dead:
  assumes "good s" "\<forall>x\<in>set xs. fit x \<and> \<not> creates x key" "dead (cur s key)"
  shows "dead (cur (foldl step s xs) key)"
  using assms
proof (induction xs arbitrary: s)
  case Nil
  then show ?case by simp
next
  case (Cons x xs)
  have "dead (cur (step s x) key)"
    using evolve [of s x key] Cons.prems by (auto simp: evolves_def dead_def status_defs split: option.splits)
  then show ?case using Cons.IH [of "step s x"] good_step [of s x] Cons.prems by simp
qed

lemma generation_grows:
  assumes "good s" "\<forall>x\<in>set xs. fit x \<and> \<not> creates x key" "\<forall>r. cur s key = Some r \<longrightarrow> g \<le> ar_generation r"
  shows "\<forall>r. cur (foldl step s xs) key = Some r \<longrightarrow> g \<le> ar_generation r"
  using assms
proof (induction xs arbitrary: s)
  case Nil
  then show ?case by simp
next
  case (Cons x xs)
  have "evolves (time x) False (cur s key) (cur (step s x) key)" using evolve [of s x key] Cons.prems by simp
  then have "\<forall>r. cur (step s x) key = Some r \<longrightarrow> g \<le> ar_generation r"
    using evolves_generation Cons.prems(3) by blast
  with Cons.IH [of "step s x"] good_step [of s x] Cons.prems(1,2) show ?case by (simp del: not_None_eq)
qed

end

section \<open>Sequences of stores\<close>

definition updates_ok :: "crypto \<Rightarrow> record_protection \<Rightarrow> slots \<Rightarrow> (auth_snapshot \<times> auth_record) list \<Rightarrow> bool" where
  "updates_ok c p slots us \<longleftrightarrow> distinct (map (\<lambda>u. sn_index (fst u)) us) \<and>
     (\<forall>(sn, r)\<in>set us. held c p slots (sn_index sn) = Some (sn_record sn) \<and> ar_key r = ar_key (sn_record sn) \<and> record_typed r)"

lemma store_each_effect:
  assumes cr: "crypto_ok c" "nonces_ok random" and ok: "auth_ok c p slots" and us: "updates_ok c p slots us"
    and st: "store_each c p random slots us = (slots', res)"
  shows "auth_ok c p slots' \<and> revisions_grow slots slots' \<and>
    (\<forall>j. held c p slots' j = held c p slots j \<or> (\<exists>sn r. (sn, r) \<in> set us \<and> sn_index sn = j \<and> held c p slots' j = Some r)) \<and>
    (\<forall>u. res = Inr u \<longrightarrow> (\<forall>(sn, r)\<in>set us. held c p slots' (sn_index sn) = Some r \<and> record_valid r)) \<and>
    (\<forall>key. current c p slots' key = current c p slots key \<or>
       (\<exists>sn r. (sn, r) \<in> set us \<and> ar_key r = key \<and> current c p slots key = Some (sn_record sn) \<and> current c p slots' key = Some r))"
  using ok us st
proof (induction us arbitrary: slots)
  case Nil
  then show ?case by simp
next
  case (Cons u us)
  obtain sn r where u: "u = (sn, r)" by (cases u)
  let ?i = "sn_index sn"
  have h: "held c p slots ?i = Some (sn_record sn)" "ar_key (sn_record sn) = ar_key r" "record_typed r"
    and fresh: "\<forall>(sn', r')\<in>set us. sn_index sn' \<noteq> ?i"
    using Cons.prems(2) by (auto simp: updates_ok_def u rev_image_eqI)
  obtain slots1 res1 where s1: "store_at c p random slots ?i r = (slots1, res1)" by (cases "store_at c p random slots ?i r")
  have cur0: "current c p slots (ar_key r) = Some (sn_record sn)" using h Cons.prems(1) by (auto simp: current_Some)
  consider e where "res1 = Inl e" "slots1 = slots" | rev where "res1 = Inr rev" "replaced c p ?i r slots slots1"
    using store_at_cases [OF cr Cons.prems(1) h(3) held_length [OF h(1)] s1] by blast
  then show ?case
  proof cases
    case 1
    then show ?thesis using Cons.prems s1 by (auto simp: u)
  next
    case 2
    note rep = replaced_same_key [OF Cons.prems(1) 2(2) h(1,2)] and held1 = replaced_held [OF 2(2)]
    have us1: "updates_ok c p slots1 us"
      using Cons.prems(2) fresh by (fastforce simp: updates_ok_def u held1)
    have "store_each c p random slots1 us = (slots', res)" using Cons.prems(3) s1 2(1) by (simp add: u)
    note IH = Cons.IH [OF _ us1 this]
    have valid: "record_valid r" using 2(2) by (simp add: replaced_def)
    have "?i \<notin> sn_index ` fst ` set us" using fresh by auto
    then have last: "held c p slots' ?i = Some r" using IH rep held1 [of ?i] by (metis fst_conv image_eqI)
    have "current c p slots' key = current c p slots key \<or>
       (\<exists>sn' r'. (sn', r') \<in> set (u # us) \<and> ar_key r' = key \<and> current c p slots key = Some (sn_record sn') \<and> current c p slots' key = Some r')" for key
    proof (cases "key = ar_key r")
      case True
      have "current c p slots' key = Some r" using last IH rep True current_Some [of c p slots' key r] by blast
      then show ?thesis using True cur0 u by (intro disjI2) auto
    next
      case False
      then have same: "current c p slots1 key = current c p slots key" using rep by simp
      have "current c p slots' key = current c p slots1 key \<or> (\<exists>sn' r'. (sn', r') \<in> set us \<and> ar_key r' = key \<and>
          current c p slots1 key = Some (sn_record sn') \<and> current c p slots' key = Some r')" using IH rep by blast
      then show ?thesis unfolding same by (metis list.set_intros(2))
    qed
    moreover have "held c p slots' j = held c p slots j \<or> (\<exists>sn' r'. (sn', r') \<in> set (u # us) \<and> sn_index sn' = j \<and> held c p slots' j = Some r')" for j
    proof (cases "j = ?i")
      case True
      then show ?thesis using last u by auto
    next
      case False
      then show ?thesis using IH rep held1 [of j] by (metis list.set_intros(2))
    qed
    moreover have "\<forall>w. res = Inr w \<longrightarrow> (\<forall>(sn', r')\<in>set (u # us). held c p slots' (sn_index sn') = Some r' \<and> record_valid r')"
      using IH rep last valid by (auto simp: u)
    ultimately show ?thesis using IH rep revisions_grow_trans [OF replaced_grows [OF 2(2)]] by blast
  qed
qed

section \<open>Operations\<close>

datatype auth_op =
    OpCreate auth_handle "bytes option" nonces bool rstr nat nat "nat option"
  | OpRevokeSubject auth_handle nonces bool rstr nat
  | OpExtendSubject auth_handle nonces bool rstr nat "nat \<Rightarrow> nat \<Rightarrow> nat"
  | OpRevoke auth_handle nonces bool bytes nat
  | OpExtend auth_handle nonces bool bytes rstr nat nat
  | OpRefresh auth_handle nonces bool principal session_binding nat nat
  | OpReplay auth_handle nonces bool principal nat

fun op_step :: "crypto \<Rightarrow> slots \<Rightarrow> auth_op \<Rightarrow> slots" where
  "op_step c slots (OpCreate h i random lock subject now expires_at limit) = fst (create c h i random lock slots subject now expires_at limit)"
| "op_step c slots (OpRevokeSubject h random lock subject now) = fst (revoke_subject_sessions c h random lock slots subject now)"
| "op_step c slots (OpExtendSubject h random lock subject now horizon) = fst (extend_subject_sessions c h random lock slots subject now horizon)"
| "op_step c slots (OpRevoke h random lock i now) = fst (revoke_session c h random lock slots i now)"
| "op_step c slots (OpExtend h random lock i subject now expires_at) = fst (extend_session c h random lock slots i subject now expires_at)"
| "op_step c slots (OpRefresh h random lock pn binding now expires_at) = fst (table_write lock slots (refresh_locked c h random pn binding now expires_at))"
| "op_step c slots (OpReplay h random lock pn now) = fst (replay_check c h random lock slots pn now)"

fun op_time :: "auth_op \<Rightarrow> nat" where
  "op_time (OpCreate h i random lock subject now expires_at limit) = now"
| "op_time (OpRevokeSubject h random lock subject now) = now"
| "op_time (OpExtendSubject h random lock subject now horizon) = now"
| "op_time (OpRevoke h random lock i now) = now"
| "op_time (OpExtend h random lock i subject now expires_at) = now"
| "op_time (OpRefresh h random lock pn binding now expires_at) = now"
| "op_time (OpReplay h random lock pn now) = now"

text \<open>The key that an operation may admit.\<close>

fun op_creates :: "crypto \<Rightarrow> auth_op \<Rightarrow> store_key \<Rightarrow> bool" where
  "op_creates c (OpCreate h i random lock subject now expires_at limit) key = (\<exists>b. i = Some b \<and> key = session_key c h b)"
| "op_creates c (OpReplay h random lock pn now) key = (key = replay_key c h (pn_jti pn))"
| "op_creates c _ key = False"

text \<open>Arguments of their types, on a handle with the protection of this table.\<close>

fun op_fit :: "record_protection \<Rightarrow> auth_op \<Rightarrow> bool" where
  "op_fit p (OpCreate h i random lock subject now expires_at limit) = (ah_protection h = p \<and> nonces_ok random \<and> expires_at \<le> u64_max)"
| "op_fit p (OpRevokeSubject h random lock subject now) = (ah_protection h = p \<and> nonces_ok random)"
| "op_fit p (OpExtendSubject h random lock subject now horizon) = (ah_protection h = p \<and> nonces_ok random \<and> (\<forall>a b. horizon a b \<le> u64_max))"
| "op_fit p (OpRevoke h random lock i now) = (ah_protection h = p \<and> nonces_ok random)"
| "op_fit p (OpExtend h random lock i subject now expires_at) = (ah_protection h = p \<and> nonces_ok random \<and> expires_at \<le> u64_max)"
| "op_fit p (OpRefresh h random lock pn binding now expires_at) = (ah_protection h = p \<and> nonces_ok random \<and> expires_at \<le> u64_max)"
| "op_fit p (OpReplay h random lock pn now) = (ah_protection h = p \<and> nonces_ok random \<and> cl_expires_at (pn_claims pn) \<le> u64_max)"

definition effect :: "crypto \<Rightarrow> record_protection \<Rightarrow> nat \<Rightarrow> (store_key \<Rightarrow> bool) \<Rightarrow> slots \<Rightarrow> slots \<Rightarrow> bool" where
  "effect c p now creates slots slots' \<longleftrightarrow> auth_ok c p slots' \<and> revisions_grow slots slots' \<and>
     (\<forall>key. evolves now (creates key) (current c p slots key) (current c p slots' key))"

lemma effect_refl [intro]: "auth_ok c p slots \<Longrightarrow> effect c p now creates slots slots"
  by (simp add: effect_def)

lemma auth_mac_typed: "length (auth_mac c k v) = 4" "\<forall>w\<in>set (auth_mac c k v). w \<le> u64_max"
  by (auto simp: auth_mac_def dest: bytes_to_words_bound)

definition session_update :: "nat \<Rightarrow> auth_record \<Rightarrow> auth_record \<Rightarrow> bool" where
  "session_update now r r' \<longleftrightarrow> ar_key r' = ar_key r \<and> ar_status r \<noteq> CONSUMED \<and>
     (ar_status r' = REVOKED \<or> ar_status r = SESSION \<and> ar_status r' = SESSION \<and> now < ar_expires_at r) \<and>
     ar_subject r' = ar_subject r \<and> ar_created_at r' = ar_created_at r \<and>
     ar_generation r \<le> ar_generation r' \<and> ar_expires_at r \<le> ar_expires_at r'"

lemma session_update_evolves: "session_update now r r' \<Longrightarrow> evolves now b (Some r) (Some r')"
  unfolding evolves_def session_update_def by (intro disjI2 exI [of _ r] exI [of _ r']) simp

lemma store_found:
  assumes cr: "crypto_ok c" "nonces_ok random" and ok: "auth_ok c p slots" and f: "find_record c p slots key = Inr (Some sn)"
    and r: "record_typed r'" "ar_key r' = key" and st: "store_at c p random slots (sn_index sn) r' = (slots', res)"
  shows "(\<exists>e. res = Inl e \<and> slots' = slots) \<or>
    (\<exists>rev. res = Inr rev \<and> auth_ok c p slots' \<and> revisions_grow slots slots' \<and> current c p slots' = (current c p slots)(key \<mapsto> r'))"
  using store_at_cases [OF cr ok r(1) find_record_Some(5) [OF ok f] st]
    replaced_same_key [OF ok _ find_record_Some(1) [OF ok f]] find_record_Some(4) [OF ok f] r(2) replaced_grows by metis

lemma store_found_effect:
  assumes cr: "crypto_ok c" "nonces_ok random" and ok: "auth_ok c p slots" and f: "find_record c p slots key = Inr (Some sn)"
    and r: "record_typed r'" "session_update now (sn_record sn) r'" and st: "store_at c p random slots (sn_index sn) r' = (slots', res)"
  shows "effect c p now creates slots slots'"
proof -
  have key: "ar_key r' = key" using r(2) find_record_Some(4) [OF ok f] by (simp add: session_update_def)
  have cur: "current c p slots key = Some (sn_record sn)" by (rule find_record_Some(2) [OF ok f])
  have "auth_ok c p slots' \<and> revisions_grow slots slots' \<and> (slots' = slots \<or> current c p slots' = (current c p slots)(key \<mapsto> r'))"
    using store_found [OF cr ok f r(1) key st] ok by auto
  moreover have "evolves now b (current c p slots k) (((current c p slots)(key \<mapsto> r')) k)" for k b
    using session_update_evolves [OF r(2)] cur by simp
  ultimately show ?thesis unfolding effect_def by (metis record_evolves_refl)
qed

lemma store_each_evolves:
  assumes cr: "crypto_ok c" "nonces_ok random" and ok: "auth_ok c p slots" and us: "updates_ok c p slots us"
    and up: "\<forall>(sn, r)\<in>set us. session_update now (sn_record sn) r"
    and st: "store_each c p random slots us = (slots', res)"
  shows "effect c p now creates slots slots'"
proof -
  note e = store_each_effect [OF cr ok us st]
  have "evolves now (creates key) (current c p slots key) (current c p slots' key)" for key
  proof (cases "current c p slots' key = current c p slots key")
    case True
    then show ?thesis by (simp add: evolves_def)
  next
    case False
    then obtain sn r where "(sn, r) \<in> set us" "current c p slots key = Some (sn_record sn)" "current c p slots' key = Some r"
      using e by blast
    then show ?thesis using up session_update_evolves by fastforce
  qed
  then show ?thesis using e by (simp add: effect_def)
qed

lemma live_updates:
  assumes ok: "auth_ok c p slots" and live: "subject_sessions c p slots subject now = Inr live"
    and f: "\<And>r. record_typed r \<Longrightarrow> live_session subject now r \<Longrightarrow> ar_key (f r) = ar_key r \<and> record_typed (f r)"
    and sub: "set us \<subseteq> (\<lambda>sn. (sn, f (sn_record sn))) ` set live" "distinct (map (\<lambda>u. sn_index (fst u)) us)"
  shows "updates_ok c p slots us"
  using subject_sessions_exact(1) [OF ok live] sub f held_typed
  by (fastforce simp: updates_ok_def)

section \<open>Every operation obeys the law\<close>

lemma distinct_filter_index: "distinct (map f xs) \<Longrightarrow> distinct (map f (filter P xs))"
  by (induction xs) auto

lemma typed_update:
  assumes "record_typed r"
  shows "record_typed (r\<lparr>ar_status := REVOKED\<rparr>)" "x \<le> u64_max \<Longrightarrow> record_typed (r\<lparr>ar_expires_at := x\<rparr>)"
    "x \<le> u64_max \<Longrightarrow> y \<le> u64_max \<Longrightarrow> record_typed (r\<lparr>ar_generation := y, ar_expires_at := x\<rparr>)"
  using assms by (auto simp: record_typed_def record_words_def status_defs u64_max_def)

lemma revoke_update:
  "ar_status r \<noteq> CONSUMED \<Longrightarrow> session_update now r (r\<lparr>ar_status := REVOKED\<rparr>)"
  by (simp add: session_update_def)

lemma extend_update:
  "ar_status r = SESSION \<Longrightarrow> now < ar_expires_at r \<Longrightarrow> ar_expires_at r \<le> x \<Longrightarrow> ar_generation r \<le> g \<Longrightarrow>
   session_update now r (r\<lparr>ar_generation := g, ar_expires_at := x\<rparr>) \<and> session_update now r (r\<lparr>ar_expires_at := x\<rparr>)"
  by (simp add: session_update_def status_defs)

lemma revoked_live_ok:
  assumes ok: "auth_ok c p slots" and live: "subject_sessions c p slots subject now = Inr live"
    and us: "set us \<subseteq> set live" "distinct (map sn_index us)"
  shows "updates_ok c p slots (map revoked us)" "\<forall>(sn, r)\<in>set (map revoked us). session_update now (sn_record sn) r"
proof -
  show "updates_ok c p slots (map revoked us)"
    by (rule live_updates [OF ok live, where f = "\<lambda>r. r\<lparr>ar_status := REVOKED\<rparr>"])
      (use us in \<open>auto simp: typed_update revoked_def comp_def\<close>)
  have "ar_status (sn_record sn) = SESSION" if "sn \<in> set live" for sn
    using that unfolding subject_sessions_exact(1) [OF ok live] by (auto simp: live_session_def)
  then show "\<forall>(sn, r)\<in>set (map revoked us). session_update now (sn_record sn) r"
    using us(1) by (auto simp: revoked_def subset_eq intro!: revoke_update)
qed

lemma revoke_subject_effect:
  assumes cr: "crypto_ok c" and fit: "nonces_ok random" and ok: "auth_ok c (ah_protection h) slots"
    and st: "revoke_subject_sessions c h random lock slots subject now = (slots', res)"
  shows "effect c (ah_protection h) now creates slots slots'"
proof (cases "valid_label subject \<and> lock")
  case True
  show ?thesis
  proof (cases "subject_sessions c (ah_protection h) slots (subject_tag c h subject) now")
    case (Inl e)
    then show ?thesis using st ok True by (auto simp: revoke_subject_sessions_def table_write_def)
  next
    case (Inr live)
    have "\<exists>res'. store_each c (ah_protection h) random slots (map revoked live) = (slots', res')"
      using st True Inr by (auto simp: revoke_subject_sessions_def table_write_def split: prod.splits sum.splits)
    then show ?thesis
      using store_each_evolves [OF cr fit ok] revoked_live_ok [OF ok Inr order_refl subject_sessions_exact(2) [OF ok Inr]] by metis
  qed
qed (use st ok in \<open>auto simp: revoke_subject_sessions_def table_write_def split: if_splits\<close>)

lemma extend_subject_effect:
  assumes cr: "crypto_ok c" and fit: "nonces_ok random" "\<forall>a b. horizon a b \<le> u64_max" and ok: "auth_ok c (ah_protection h) slots"
    and st: "extend_subject_sessions c h random lock slots subject now horizon = (slots', res)"
  shows "effect c (ah_protection h) now creates slots slots'"
proof (cases "valid_label subject \<and> lock")
  case True
  let ?p = "ah_protection h" and ?x = "\<lambda>r. horizon (ar_created_at r) (ar_expires_at r)"
  show ?thesis
  proof (cases "subject_sessions c ?p slots (subject_tag c h subject) now")
    case (Inl e)
    then show ?thesis using st ok True by (auto simp: extend_subject_sessions_def table_write_def)
  next
    case (Inr live)
    note exact = subject_sessions_exact [OF ok Inr]
    define us where "us = map (\<lambda>sn. (sn, (sn_record sn)\<lparr>ar_expires_at := ?x (sn_record sn)\<rparr>))
      (filter (\<lambda>sn. ?x (sn_record sn) > ar_expires_at (sn_record sn)) live)"
    have form: "map (\<lambda>(sn, target). (sn, (sn_record sn)\<lparr>ar_expires_at := target\<rparr>))
        (filter (\<lambda>(sn, target). target > ar_expires_at (sn_record sn)) (map (\<lambda>sn. (sn, ?x (sn_record sn))) live)) = us"
      by (simp add: us_def filter_map comp_def)
    consider "slots' = slots" | res' where "store_each c ?p random slots us = (slots', res')"
      using st True Inr by (auto simp: extend_subject_sessions_def table_write_def Let_def form split: if_splits prod.splits sum.splits)
    then show ?thesis
    proof cases
      case 1
      then show ?thesis using ok by auto
    next
      case 2
      have "updates_ok c ?p slots us"
        by (rule live_updates [OF ok Inr, where f = "\<lambda>r. r\<lparr>ar_expires_at := ?x r\<rparr>"])
          (use exact(2) fit(2) in \<open>auto simp: us_def typed_update comp_def distinct_filter_index\<close>)
      moreover have "\<forall>(sn, r)\<in>set us. session_update now (sn_record sn) r"
        using exact(1) by (auto simp: us_def live_session_def intro!: extend_update [THEN conjunct2])
      ultimately show ?thesis by (rule store_each_evolves [OF cr fit(1) ok _ _ 2])
    qed
  qed
qed (use st ok in \<open>auto simp: extend_subject_sessions_def table_write_def split: if_splits\<close>)

lemma revoke_session_effect:
  assumes cr: "crypto_ok c" and fit: "nonces_ok random" and ok: "auth_ok c (ah_protection h) slots"
    and st: "revoke_session c h random lock slots i now = (slots', res)"
  shows "effect c (ah_protection h) now creates slots slots' \<and>
    (\<forall>u. res = Inr u \<longrightarrow> (\<exists>r. current c (ah_protection h) slots' (session_key c h i) = Some r \<and> ar_status r = REVOKED))"
proof -
  let ?p = "ah_protection h" and ?k = "session_key c h i"
  consider "slots' = slots" "\<exists>e. res = Inl e" | sn res' where "find_record c ?p slots ?k = Inr (Some sn)" "ar_status (sn_record sn) \<noteq> CONSUMED"
      "store_at c ?p random slots (sn_index sn) ((sn_record sn)\<lparr>ar_status := REVOKED\<rparr>) = (slots', res')" "isl res = isl res'"
    using st by (auto simp: revoke_session_def table_write_def Let_def status_defs
        split: if_splits prod.splits sum.splits option.splits)
  then show ?thesis
  proof cases
    case 1
    then show ?thesis using ok by auto
  next
    case 2
    have typed: "record_typed ((sn_record sn)\<lparr>ar_status := REVOKED\<rparr>)"
      using held_typed [OF find_record_Some(1) [OF ok 2(1)]] by (simp add: typed_update)
    have "effect c ?p now creates slots slots'"
      by (rule store_found_effect [OF cr fit ok 2(1) typed revoke_update [OF 2(2)] 2(3)])
    moreover have "ar_key ((sn_record sn)\<lparr>ar_status := REVOKED\<rparr>) = ?k" using find_record_Some(4) [OF ok 2(1)] by simp
    ultimately show ?thesis using store_found [OF cr fit ok 2(1) typed _ 2(3)] 2(4) by (cases res) auto
  qed
qed

end
