(* ===== verification/Auth_Runs.thy ===== *)
theory Auth_Runs
  imports Auth_Life "HOL-Library.Multiset"
begin

text \<open>
  The remaining operations of \<^verbatim>\<open>auth/src/fleet.rs\<close> against the law of \<open>Auth_Life\<close> (extension, refresh, replay,
  creation), the interpretation of \<open>record_lifecycle\<close> on runs of the code's operations, and the contract of
  session creation under a limit.
\<close>

lemma extend_session_effect:
  assumes cr: "crypto_ok c" and fit: "nonces_ok random" "expires_at \<le> u64_max" and ok: "auth_ok c (ah_protection h) slots"
    and st: "extend_session c h random lock slots i subject now expires_at = (slots', res)"
  shows "effect c (ah_protection h) now creates slots slots'"
proof -
  let ?p = "ah_protection h" and ?k = "session_key c h i"
  consider "slots' = slots" | sn res' where "find_record c ?p slots ?k = Inr (Some sn)" "check_live (sn_record sn) now = Inr ()"
      "ar_expires_at (sn_record sn) \<le> expires_at"
      "store_at c ?p random slots (sn_index sn) ((sn_record sn)\<lparr>ar_expires_at := expires_at\<rparr>) = (slots', res')"
    using st by (auto simp: extend_session_def table_write_def Let_def split: if_splits prod.splits sum.splits option.splits)
  then show ?thesis
  proof cases
    case 1
    then show ?thesis using ok by auto
  next
    case 2
    have typed: "record_typed ((sn_record sn)\<lparr>ar_expires_at := expires_at\<rparr>)"
      using held_typed [OF find_record_Some(1) [OF ok 2(1)]] fit(2) by (simp add: typed_update)
    have "session_update now (sn_record sn) ((sn_record sn)\<lparr>ar_expires_at := expires_at\<rparr>)"
      using 2(2,3) extend_update [of "sn_record sn" now expires_at "ar_generation (sn_record sn)"]
      by (auto simp: check_live_def split: if_splits)
    then show ?thesis by (rule store_found_effect [OF cr fit(1) ok 2(1) typed _ 2(4)])
  qed
qed

lemma check_recordD:
  assumes "check_record r subject pn now = Inr u"
  shows "ar_status r = SESSION" "ar_subject r = subject" "ar_created_at r \<le> now" "now < ar_expires_at r"
    "\<exists>b. pn_session pn = Some b \<and> (cl_purpose (pn_claims pn) = Refresh \<longrightarrow> sb_generation b = ar_generation r)"
    "ar_created_at r \<le> cl_issued_at (pn_claims pn)" "cl_expires_at (pn_claims pn) \<le> ar_expires_at r"
  using assms by (auto simp: check_record_def check_metadata_def check_live_def split: if_splits sum.splits option.splits)

lemma refresh_locked_effect:
  assumes cr: "crypto_ok c" and fit: "nonces_ok random" "expires_at \<le> u64_max" and ok: "auth_ok c (ah_protection h) slots"
    and st: "refresh_locked c h random pn binding now expires_at slots = (slots', res)"
  shows "effect c (ah_protection h) now creates slots slots' \<and>
    (\<forall>s. res = Inr s \<longrightarrow> (\<exists>r r'. let k = session_key c h (sb_id binding) in
       current c (ah_protection h) slots k = Some r \<and> current c (ah_protection h) slots' k = Some r' \<and>
       check_record r (subject_tag c h (pn_subject pn)) pn now = Inr () \<and> ar_generation r' = Suc (ar_generation r) \<and>
       ar_status r' = SESSION \<and> ar_expires_at r' = expires_at \<and> s = session_handle h (sb_id binding) (pn_subject pn) r'))"
proof -
  let ?p = "ah_protection h" and ?k = "session_key c h (sb_id binding)"
  let ?new = "\<lambda>r. r\<lparr>ar_generation := Suc (ar_generation r), ar_expires_at := expires_at\<rparr>"
  consider "slots' = slots" "\<exists>e. res = Inl e" | sn res' where "find_record c ?p slots ?k = Inr (Some sn)"
      "check_record (sn_record sn) (subject_tag c h (pn_subject pn)) pn now = Inr ()" "ar_expires_at (sn_record sn) \<le> expires_at"
      "ar_generation (sn_record sn) < u64_max"
      "store_at c ?p random slots (sn_index sn) (?new (sn_record sn)) = (slots', res')" "isl res = isl res'"
      "\<not> isl res \<longrightarrow> res = Inr (session_handle h (sb_id binding) (pn_subject pn) (?new (sn_record sn)))"
    using st by (auto simp: refresh_locked_def Let_def checked_add_def split: if_splits prod.splits sum.splits option.splits)
  then show ?thesis
  proof cases
    case 1
    then show ?thesis using ok by auto
  next
    case 2
    let ?r = "sn_record sn"
    have typed: "record_typed (?new ?r)"
      using held_typed [OF find_record_Some(1) [OF ok 2(1)]] fit(2) 2(4) by (intro typed_update) simp_all
    have "session_update now ?r (?new ?r)"
      using check_recordD [OF 2(2)] 2(3) by (intro extend_update [THEN conjunct1]) simp_all
    then have e: "effect c ?p now creates slots slots'" by (rule store_found_effect [OF cr fit(1) ok 2(1) typed _ 2(5)])
    have key: "ar_key (?new ?r) = ?k" using find_record_Some(4) [OF ok 2(1)] by simp
    have "current c ?p slots' ?k = Some (?new ?r)" if "\<not> isl res"
      using store_found [OF cr fit(1) ok 2(1) typed key 2(5)] that 2(6) by auto
    then show ?thesis
      using e 2(2,7) find_record_Some(2) [OF ok 2(1)] check_recordD(1) [OF 2(2)]
      by (intro conjI allI impI exI [of _ ?r] exI [of _ "?new ?r"]) (auto simp: Let_def)
  qed
qed

lemma insert_effect:
  assumes cr: "crypto_ok c" "nonces_ok random" and ok: "auth_ok c p slots" and r: "record_typed r"
    and absent: "current c p slots (ar_key r) = None" and now: "ar_created_at r = now"
    and ins: "insert_record c p random slots r now = (slots', res)"
  shows "effect c p now (\<lambda>key. key = ar_key r) slots slots' \<and>
    (\<forall>u. res = Inr u \<longrightarrow> current c p slots' (ar_key r) = Some r) \<and> (isl res \<longrightarrow> slots' = slots)"
proof -
  consider e where "res = Inl e" "slots' = slots" | i where "res = Inr ()" "auth_ok c p slots' \<and> revisions_grow slots slots'"
      "\<forall>q. held c p slots i = Some q \<longrightarrow> ar_expires_at q \<le> now"
      "\<forall>key. current c p slots' key = (if key = ar_key r then Some r
          else if \<exists>q. held c p slots i = Some q \<and> ar_key q = key then None else current c p slots key)"
    using insert_record_cases [OF cr ok r absent ins] replaced_grows by blast
  then show ?thesis
  proof cases
    case 1
    then show ?thesis using ok by auto
  next
    case 2
    have "evolves now (key = ar_key r) (current c p slots key) (current c p slots' key)" for key
    proof (cases "key \<noteq> ar_key r \<and> (\<exists>q. held c p slots i = Some q \<and> ar_key q = key)")
      case True
      then obtain q where q: "held c p slots i = Some q" "ar_key q = key" by blast
      then have "current c p slots key = Some q" using ok by (auto simp: current_Some)
      moreover have "current c p slots' key = None" using 2(4) True by simp
      ultimately show ?thesis using 2(3) q(1) by (simp add: evolves_def)
    next
      case False
      then show ?thesis using 2(4) absent now by (cases "key = ar_key r") (auto simp: evolves_def)
    qed
    then show ?thesis using 2 by (simp add: effect_def)
  qed
qed

lemma replay_locked_effect:
  assumes cr: "crypto_ok c" and fit: "nonces_ok random" "cl_expires_at (pn_claims pn) \<le> u64_max" "now < cl_expires_at (pn_claims pn)"
    and ok: "auth_ok c (ah_protection h) slots" and st: "replay_locked c h random pn now slots = (slots', res)"
  shows "effect c (ah_protection h) now (\<lambda>key. key = replay_key c h (pn_jti pn)) slots slots' \<and>
    (\<forall>u. res = Inr u \<longrightarrow> current c (ah_protection h) slots (replay_key c h (pn_jti pn)) = None \<and>
       (\<exists>r. current c (ah_protection h) slots' (replay_key c h (pn_jti pn)) = Some r \<and> ar_status r = CONSUMED \<and>
          ar_expires_at r = cl_expires_at (pn_claims pn)))"
proof -
  let ?p = "ah_protection h" and ?k = "replay_key c h (pn_jti pn)"
  let ?r = "\<lparr>ar_key = ?k, ar_subject = replicate 4 0, ar_created_at = now,
      ar_expires_at = cl_expires_at (pn_claims pn), ar_generation = 0, ar_status = CONSUMED\<rparr>"
  consider "slots' = slots" "\<exists>e. res = Inl e" | "find_record c ?p slots ?k = Inr None" "insert_record c ?p random slots ?r now = (slots', res)"
    using st by (auto simp: replay_locked_def split: prod.splits sum.splits option.splits)
  then show ?thesis
  proof cases
    case 1
    then show ?thesis using ok by auto
  next
    case 2
    have typed: "record_typed ?r"
      using fit(2,3) auth_mac_typed [of c "ah_state_key h"]
      by (auto simp: record_typed_def record_words_def replay_key_def status_defs u64_max_def)
    have absent: "current c ?p slots (ar_key ?r) = None" using 2(1) find_record_None [OF ok] by simp
    show ?thesis using insert_effect [OF cr fit(1) ok typed absent _ 2(2)] absent by simp
  qed
qed

section \<open>Creation\<close>

definition excess_sessions :: "nat option \<Rightarrow> auth_snapshot list \<Rightarrow> auth_snapshot list" where
  "excess_sessions limit live = (case limit of None \<Rightarrow> [] | Some m \<Rightarrow> take (length live - (m - 1)) (by_age live))"

lemma set_by_age [simp]: "set (by_age live) = set live" "length (by_age live) = length live"
  by (simp_all add: by_age_def)

lemma excess_sessions_sub: "set (excess_sessions limit live) \<subseteq> set live"
  using set_take_subset [of _ "by_age live"] by (auto simp: excess_sessions_def split: option.splits)

lemma excess_sessions_distinct: "distinct (map sn_index live) \<Longrightarrow> distinct (map sn_index (excess_sessions limit live))"
proof -
  assume d: "distinct (map sn_index live)"
  have "mset (map sn_index (by_age live)) = mset (map sn_index live)" by (simp only: by_age_def mset_map mset_sort)
  with d have "distinct (map sn_index (by_age live))" by (metis mset_eq_imp_distinct_iff)
  then show ?thesis by (simp add: excess_sessions_def take_map [symmetric] split: option.splits)
qed

lemma create_locked_cases:
  assumes cr: "crypto_ok c" "nonces_ok random" and ok: "auth_ok c p slots" and r: "record_typed r"
    and st: "create_locked c p random r now limit slots = (slots', res)"
  obtains (refused) "slots' = slots" "isl res"
  | (admitted) i slots1 live where "current c p slots (ar_key r) = None"
      "limit \<noteq> None \<Longrightarrow> subject_sessions c p slots (ar_subject r) now = Inr live" "limit = None \<Longrightarrow> live = []"
      "replaced c p i r slots slots1" "\<forall>q. held c p slots i = Some q \<longrightarrow> ar_expires_at q \<le> now"
      "insert_record c p random slots r now = (slots1, Inr ())" "auth_ok c p slots1"
      "store_each c p random slots1 (map revoked (excess_sessions limit live)) = (slots', res)"
proof -
  consider "slots' = slots" "isl res" | slots1 res1 live where "find_record c p slots (ar_key r) = Inr None"
      "(case limit of Some _ \<Rightarrow> subject_sessions c p slots (ar_subject r) now | None \<Rightarrow> Inr []) = Inr live"
      "insert_record c p random slots r now = (slots1, res1)"
      "(case res1 of Inl e \<Rightarrow> slots' = slots1 \<and> isl res
        | Inr _ \<Rightarrow> store_each c p random slots1 (map revoked (excess_sessions limit live)) = (slots', res))"
    using st
    by (auto simp: create_locked_def Let_def excess_sessions_def saturating_sub_def
        split: prod.splits sum.splits option.splits)
  then show ?thesis
  proof cases
    case 1
    then show ?thesis by (rule refused)
  next
    case 2
    have absent: "current c p slots (ar_key r) = None" using 2(1) find_record_None [OF ok] by simp
    from insert_record_cases [OF cr ok r absent 2(3)] consider e where "res1 = Inl e" "slots1 = slots"
      | i where "res1 = Inr ()" "auth_ok c p slots1" "replaced c p i r slots slots1" "\<forall>q. held c p slots i = Some q \<longrightarrow> ar_expires_at q \<le> now"
      by blast
    then show ?thesis
    proof cases
      case 1
      then show ?thesis using 2(4) refused by simp
    next
      case i: 2
      show ?thesis by (rule admitted [OF absent _ _ i(3,4) _ i(2)]) (use 2 i(1) in \<open>auto split: option.splits\<close>)
    qed
  qed
qed

lemma live_after_insert:
  assumes ok: "auth_ok c p slots" and rep: "replaced c p i r slots slots1" and old: "\<forall>q. held c p slots i = Some q \<longrightarrow> ar_expires_at q \<le> now"
    and live: "subject_sessions c p slots subject now = Inr live" and sn: "sn \<in> set live"
  shows "sn_index sn \<noteq> i" "held c p slots1 (sn_index sn) = Some (sn_record sn)" "held c p slots (sn_index sn) = Some (sn_record sn)"
    "live_session subject now (sn_record sn)"
proof -
  show h: "held c p slots (sn_index sn) = Some (sn_record sn)" and l: "live_session subject now (sn_record sn)"
    using sn unfolding subject_sessions_exact(1) [OF ok live] by auto
  then show "sn_index sn \<noteq> i" using old by (auto simp: live_session_def)
  then show "held c p slots1 (sn_index sn) = Some (sn_record sn)" using h replaced_held [OF rep] by simp
qed

lemma excess_updates_ok:
  assumes ok: "auth_ok c p slots" and rep: "replaced c p i r slots slots1" and old: "\<forall>q. held c p slots i = Some q \<longrightarrow> ar_expires_at q \<le> now"
    and live: "limit \<noteq> None \<Longrightarrow> subject_sessions c p slots subject now = Inr live" "limit = None \<Longrightarrow> live = []"
  shows "updates_ok c p slots1 (map revoked (excess_sessions limit live))"
proof (cases limit)
  case None
  then show ?thesis by (simp add: excess_sessions_def updates_ok_def)
next
  case (Some m)
  note l = live(1) [unfolded Some, simplified]
  have "updates_ok c p slots (map revoked (excess_sessions limit live))"
    by (rule revoked_live_ok(1) [OF ok l excess_sessions_sub excess_sessions_distinct [OF subject_sessions_exact(2) [OF ok l]]])
  then show ?thesis
    using live_after_insert(2) [OF ok rep old l] excess_sessions_sub [of limit live] by (auto simp: updates_ok_def revoked_def)
qed

lemma create_locked_effect:
  assumes cr: "crypto_ok c" "nonces_ok random" and ok: "auth_ok c p slots" and r: "record_typed r" "ar_created_at r = now"
    and st: "create_locked c p random r now limit slots = (slots', res)"
  shows "effect c p now (\<lambda>key. key = ar_key r) slots slots'"
  using cr ok r(1) st
proof (cases rule: create_locked_cases)
  case refused
  then show ?thesis using ok by auto
next
  case (admitted i slots1 live)
  let ?us = "map revoked (excess_sessions limit live)"
  have us: "updates_ok c p slots1 ?us" by (rule excess_updates_ok [OF ok admitted(4,5,2,3)])
  have ins: "effect c p now (\<lambda>key. key = ar_key r) slots slots1" "current c p slots1 (ar_key r) = Some r"
    using insert_effect [OF cr ok r(1) admitted(1) r(2) admitted(6)] by simp_all
  have keys: "current c p slots (ar_key q) = Some (sn_record sn) \<and> session_update now (sn_record sn) q" if "(sn, q) \<in> set ?us" for sn q
  proof -
    have sn: "sn \<in> set live" "q = (sn_record sn)\<lparr>ar_status := REVOKED\<rparr>" "limit \<noteq> None"
      using that excess_sessions_sub by (auto simp: revoked_def excess_sessions_def split: option.splits)
    note l = live_after_insert [OF ok admitted(4,5) admitted(2) [OF sn(3)] sn(1)]
    then show ?thesis using sn(2) ok by (auto simp: current_Some live_session_def intro!: revoke_update)
  qed
  note e = store_each_effect [OF cr admitted(7) us admitted(8)]
  have "evolves now (key = ar_key r) (current c p slots key) (current c p slots' key)" for key
  proof (cases "current c p slots' key = current c p slots1 key")
    case True
    then show ?thesis using ins(1) by (simp add: effect_def)
  next
    case False
    then obtain sn q where "(sn, q) \<in> set ?us" "ar_key q = key" "current c p slots' key = Some q" using e by blast
    then show ?thesis using keys session_update_evolves by metis
  qed
  then show ?thesis using e revisions_grow_trans [OF replaced_grows [OF admitted(4)]] by (simp add: effect_def)
qed

lemma session_record_typed:
  "now < expires_at \<Longrightarrow> expires_at \<le> u64_max \<Longrightarrow>
   record_typed \<lparr>ar_key = session_key c h i, ar_subject = subject_tag c h subject, ar_created_at = now, ar_expires_at = expires_at,
     ar_generation = 0, ar_status = SESSION\<rparr>"
  using auth_mac_typed [of c "ah_state_key h"]
  by (auto simp: record_typed_def record_words_def session_key_def subject_tag_def status_defs u64_max_def)

lemma create_effect:
  assumes cr: "crypto_ok c" and fit: "nonces_ok random" "expires_at \<le> u64_max" and ok: "auth_ok c (ah_protection h) slots"
    and st: "create c h random_id random lock slots subject now expires_at limit = (slots', res)"
  shows "effect c (ah_protection h) now (\<lambda>key. \<exists>i. random_id = Some i \<and> key = session_key c h i) slots slots'"
proof -
  let ?r = "\<lambda>i. \<lparr>ar_key = session_key c h i, ar_subject = subject_tag c h subject, ar_created_at = now, ar_expires_at = expires_at,
     ar_generation = 0, ar_status = SESSION\<rparr>"
  consider "slots' = slots" | i res' where "random_id = Some i" "now < expires_at"
      "create_locked c (ah_protection h) random (?r i) now limit slots = (slots', res')"
    using st by (auto simp: create_def Let_def table_write_def split: if_splits option.splits prod.splits sum.splits)
  then show ?thesis
  proof cases
    case 1
    then show ?thesis using ok by auto
  next
    case 2
    have typed: "record_typed (?r i)" using 2(2) fit(2) by (rule session_record_typed)
    show ?thesis using create_locked_effect [OF cr fit(1) ok typed _ 2(3)] 2(1) by simp
  qed
qed

section \<open>Runs\<close>

lemma op_step_effect:
  assumes cr: "crypto_ok c" and fit: "op_fit p x" and ok: "auth_ok c p slots"
  shows "effect c p (op_time x) (op_creates c x) slots (op_step c slots x)"
proof (cases x)
  case (OpCreate h i random lock subject now expires_at limit)
  moreover have "op_creates c x = (\<lambda>key. \<exists>b. i = Some b \<and> key = session_key c h b)" by (rule ext) (simp add: OpCreate)
  ultimately show ?thesis using create_effect [OF cr, of random expires_at h slots] fit ok
    by (cases "create c h i random lock slots subject now expires_at limit") simp
next
  case (OpRevokeSubject h random lock subject now)
  then show ?thesis using revoke_subject_effect [OF cr, of random h slots] fit ok
    by (cases "revoke_subject_sessions c h random lock slots subject now") fastforce
next
  case (OpExtendSubject h random lock subject now horizon)
  then show ?thesis using extend_subject_effect [OF cr, of random horizon h slots] fit ok
    by (cases "extend_subject_sessions c h random lock slots subject now horizon") fastforce
next
  case (OpRevoke h random lock i now)
  then show ?thesis using revoke_session_effect [OF cr, of random h slots] fit ok
    by (cases "revoke_session c h random lock slots i now") fastforce
next
  case (OpExtend h random lock i subject now expires_at)
  then show ?thesis using extend_session_effect [OF cr, of random expires_at h slots] fit ok
    by (cases "extend_session c h random lock slots i subject now expires_at") fastforce
next
  case (OpRefresh h random lock pn binding now expires_at)
  then show ?thesis using refresh_locked_effect [OF cr, of random expires_at h slots pn binding now] fit ok
    by (cases "refresh_locked c h random pn binding now expires_at slots") (auto simp: table_write_def)
next
  case (OpReplay h random lock pn now)
  show ?thesis
  proof (cases "check_scope h pn now = Inr () \<and> lock")
    case True
    then have "now < cl_expires_at (pn_claims pn)" by (auto simp: check_scope_def split: sum.splits if_splits)
    moreover have "op_creates c x = (\<lambda>key. key = replay_key c h (pn_jti pn))" by (rule ext) (simp add: OpReplay)
    ultimately show ?thesis using replay_locked_effect [OF cr, of random pn now h slots] fit ok True OpReplay
      by (cases "replay_locked c h random pn now slots") (auto simp: replay_check_def table_write_def)
  next
    case False
    then show ?thesis using ok OpReplay by (auto simp: replay_check_def table_write_def split: sum.splits)
  qed
qed

text \<open>The law holds of the code's operations on every table that satisfies the invariant.\<close>

interpretation auth_life: record_lifecycle "\<lambda>slots. crypto_ok c \<and> auth_ok c p slots" "current c p" "op_step c" "op_fit p" op_time
  "op_creates c" for c p
  by unfold_locales (use op_step_effect in \<open>auto simp: effect_def\<close>)

lemma auth_ok_empty: "auth_ok c p (replicate n auth_slot_empty)"
proof -
  have "slot_record c p i auth_slot_empty = None" for i by (simp add: slot_record_def auth_slot_empty_def)
  then have "held c p (replicate n auth_slot_empty) i = None" for i by (simp add: held_def)
  moreover have "slot_ok c p i auth_slot_empty" for i by (simp add: slot_ok_def slot_typed_def auth_slot_empty_def)
  ultimately show ?thesis by (simp add: auth_ok_def)
qed

section \<open>A concrete table\<close>

text \<open>One worker on a fresh table of one slot, for the examples of the following theories.\<close>

definition demo_handle :: auth_handle where
  "demo_handle = \<lparr>ah_state_key = [], ah_protection = \<lparr>rp_key = [9], rp_policy = UnprotectedState\<rparr>, ah_realm = [114], ah_issuer = [105]\<rparr>"

definition demo_nonces :: nonces where "demo_nonces i = None"

definition demo_slots :: slots where
  "demo_slots = fst (create_session demo_crypto demo_handle (Some (replicate 16 5)) demo_nonces True [auth_slot_empty] [97] 10 90)"

lemma demo_nonces_ok: "nonces_ok demo_nonces"
  by (simp add: nonces_ok_def nonce_ok_def demo_nonces_def)

lemma store_plain:
  assumes "rp_policy p \<noteq> EncryptedState" "record_typed r" "record_valid r" "sl_revision (slots ! i) < u64_max"
  obtains slots' rev where "store_at c p random slots i r = (slots', Inr rev)"
proof -
  obtain w where "encode c p (random i) i (Suc (sl_revision (slots ! i))) r = Inr w"
    using assms(1) by (cases "rp_policy p") (simp_all add: encode_def Let_def)
  then show thesis using assms(2,3,4) that by (simp add: store_at_def auth_store_def record_from_words_valid checked_add_def)
qed

lemma insert_fresh:
  assumes "rp_policy p \<noteq> EncryptedState" "record_typed r" "record_valid r"
  obtains slots' where "insert_record c p random [auth_slot_empty] r now = (slots', Inr ())"
proof -
  have "auth_path 1 (ar_key r) 0 = 0" by (simp add: auth_path_def)
  moreover have "read_once (\<lambda>_. auth_slot_empty) = RdEmpty" by (simp add: read_once_def auth_slot_empty_def)
  moreover obtain slots' rev where "store_at c p random [auth_slot_empty] 0 r = (slots', Inr rev)"
    by (rule store_plain [OF assms, of "[auth_slot_empty]" 0 c random]) (simp_all add: auth_slot_empty_def u64_max_def)
  ultimately have "insert_record c p random [auth_slot_empty] r now = (slots', Inr ())" by (simp add: insert_record_def Let_def)
  then show thesis by (rule that)
qed

lemma fresh_absent: "find_record c p [auth_slot_empty] key = Inr None" "auth_ok c p [auth_slot_empty]" "current c p [auth_slot_empty] key = None"
  using find_record_None [OF auth_ok_empty [of c p 1]] auth_ok_empty [of c p 1]
  by (simp_all add: current_def map_filter_def held_def slot_record_def auth_slot_empty_def)

lemma demo_label: "valid_label [97]"
  by (simp add: valid_label_def utf8_def is_control_def MAX_LABEL_LEN_def)

lemma create_fresh:
  assumes "valid_label subject" "now < expires_at" "expires_at \<le> u64_max" "rp_policy (ah_protection h) \<noteq> EncryptedState"
  obtains slots' where "create c h (Some i) random True [auth_slot_empty] subject now expires_at limit =
    (slots', Inr (session_handle h i subject \<lparr>ar_key = session_key c h i, ar_subject = subject_tag c h subject, ar_created_at = now,
       ar_expires_at = expires_at, ar_generation = 0, ar_status = SESSION\<rparr>))"
proof -
  let ?r = "\<lparr>ar_key = session_key c h i, ar_subject = subject_tag c h subject, ar_created_at = now,
       ar_expires_at = expires_at, ar_generation = 0, ar_status = SESSION\<rparr>"
  have typed: "record_typed ?r" by (rule session_record_typed [OF assms(2,3)])
  have "record_valid ?r" using assms(2) by (simp add: record_valid_def)
  from insert_fresh [OF assms(4) typed this] obtain slots' where
    "insert_record c (ah_protection h) random [auth_slot_empty] ?r now = (slots', Inr ())" by metis
  moreover have "subject_sessions c (ah_protection h) [auth_slot_empty] s now = Inr []" for s
    by (simp add: subject_sessions_def read_once_def auth_slot_empty_def)
  ultimately have "create_locked c (ah_protection h) random ?r now limit [auth_slot_empty] = (slots', Inr ())"
    by (simp add: create_locked_def fresh_absent by_age_def split: option.split)
  then show thesis using assms(1,2) that by (simp add: create_def table_write_def)
qed

definition demo_session :: auth_record where
  "demo_session = \<lparr>ar_key = session_key demo_crypto demo_handle (replicate 16 5), ar_subject = subject_tag demo_crypto demo_handle [97],
     ar_created_at = 10, ar_expires_at = 90, ar_generation = 0, ar_status = SESSION\<rparr>"

lemma demo_created:
  "create_session demo_crypto demo_handle (Some (replicate 16 5)) demo_nonces True [auth_slot_empty] [97] 10 90 =
     (demo_slots, Inr (session_handle demo_handle (replicate 16 5) [97] demo_session))"
proof -
  have pol: "rp_policy (ah_protection demo_handle) \<noteq> EncryptedState" by (simp add: demo_handle_def)
  show ?thesis
    by (rule create_fresh [OF demo_label _ _ pol, of 10 90 demo_crypto "replicate 16 5" demo_nonces None])
      (simp_all add: demo_slots_def create_session_def demo_session_def u64_max_def)
qed

lemma demo_slots_facts:
  "auth_ok demo_crypto (ah_protection demo_handle) demo_slots"
  "current demo_crypto (ah_protection demo_handle) demo_slots (ar_key demo_session) = Some demo_session"
  "sl_revision (demo_slots ! 0) = 1" "length demo_slots = 1"
proof -
  let ?p = "ah_protection demo_handle"
  have typed: "record_typed demo_session" unfolding demo_session_def by (rule session_record_typed) (simp_all add: u64_max_def)
  have l: "create_locked demo_crypto ?p demo_nonces demo_session 10 None [auth_slot_empty] = (demo_slots, Inr ())"
    using demo_created by (auto simp: create_session_def create_def table_write_def demo_label demo_session_def Let_def split: prod.splits sum.splits)
  from demo_crypto_ok demo_nonces_ok fresh_absent(2) typed l
  obtain i where i: "replaced demo_crypto ?p i demo_session [auth_slot_empty] demo_slots" "auth_ok demo_crypto ?p demo_slots"
    by (rule create_locked_cases) (simp_all add: excess_sessions_def)
  then have i0: "i = 0" "length demo_slots = 1" using replaced_length [OF i(1)] by (auto simp: replaced_def)
  show "auth_ok demo_crypto ?p demo_slots" "length demo_slots = 1" using i i0 by simp_all
  obtain s' where s': "sl_revision s' = Suc (sl_revision auth_slot_empty)" "demo_slots = [auth_slot_empty][0 := s']"
    using i(1) i0(1) by (auto simp: replaced_def stored_def)
  show "sl_revision (demo_slots ! 0) = 1" unfolding s'(2) by (simp add: s'(1)) (simp add: auth_slot_empty_def)
  show "current demo_crypto ?p demo_slots (ar_key demo_session) = Some demo_session"
    using i replaced_held [OF i(1), of i] by (auto simp: current_Some)
qed

lemma demo_auth_store:
  assumes "record_typed r" "record_valid r"
  obtains slots' rev where "store_at demo_crypto (ah_protection demo_handle) demo_nonces demo_slots 0 r = (slots', Inr rev)"
  by (rule store_plain [OF _ assms, of "ah_protection demo_handle" demo_slots 0 demo_crypto demo_nonces])
    (simp_all add: demo_slots_facts(3) u64_max_def, simp add: demo_handle_def)

lemma demo_found:
  obtains sn where "find_record demo_crypto (ah_protection demo_handle) demo_slots (session_key demo_crypto demo_handle (replicate 16 5)) = Inr (Some sn)"
    "sn_record sn = demo_session" "sn_index sn = 0"
proof -
  have k: "ar_key demo_session = session_key demo_crypto demo_handle (replicate 16 5)" by (simp add: demo_session_def)
  obtain sn where sn: "find_record demo_crypto (ah_protection demo_handle) demo_slots (ar_key demo_session) = Inr (Some sn)" "sn_record sn = demo_session"
    by (rule find_record_present [OF demo_slots_facts(1,2)])
  have "sn_index sn = 0" using find_record_Some(5) [OF demo_slots_facts(1) sn(1)] demo_slots_facts(4) by simp
  then show thesis using that sn unfolding k by blast
qed

end
