(* ===== verification/Auth_Safety.thy ===== *)
theory Auth_Safety
  imports Auth_Runs
begin

text \<open>
  What the authentication state guarantees over runs of operations by any number of workers: one-use
  credentials are consumed once, revocation is final, a refresh generation is spent once, a session limit
  holds, and a worker's verified views never answer for a record that has changed.
\<close>

section \<open>Verified views\<close>

text \<open>The documented behaviour of the LRU: \<open>get\<close> and \<open>pop\<close> invent nothing, \<open>put\<close> adds one entry.\<close>

definition view_laws :: "'w view_ops \<Rightarrow> bool" where
  "view_laws ops \<longleftrightarrow>
     (\<forall>w i j v. snd (vw_get ops (fst (vw_get ops w i)) j) = Some v \<longrightarrow> snd (vw_get ops w j) = Some v) \<and>
     (\<forall>w i j v. snd (vw_get ops (vw_pop ops w i) j) = Some v \<longrightarrow> snd (vw_get ops w j) = Some v) \<and>
     (\<forall>w i j v x. snd (vw_get ops (vw_put ops w i x) j) = Some v \<longrightarrow> (j = i \<and> v = x) \<or> snd (vw_get ops w j) = Some v)"

text \<open>A view is sound for the table when its revision, while current, still names its record.\<close>

definition view_sound :: "crypto \<Rightarrow> auth_handle \<Rightarrow> slots \<Rightarrow> bytes \<Rightarrow> session_view \<Rightarrow> bool" where
  "view_sound c h slots i view \<longleftrightarrow> (let sn = sv_snapshot view; s = slots ! sn_index sn in
     sn_index sn < length slots \<and> sn_revision sn \<noteq> 0 \<and> sn_revision sn \<le> sl_revision s \<and>
     ar_key (sn_record sn) = session_key c h i \<and> ar_subject (sn_record sn) = subject_tag c h (sv_subject view) \<and>
     (sn_revision sn = sl_revision s \<longrightarrow> held c (ah_protection h) slots (sn_index sn) = Some (sn_record sn)))"

definition views_sound :: "crypto \<Rightarrow> auth_handle \<Rightarrow> 'w view_ops \<Rightarrow> slots \<Rightarrow> 'w \<Rightarrow> bool" where
  "views_sound c h ops slots w \<longleftrightarrow> (\<forall>i view. snd (vw_get ops w i) = Some view \<longrightarrow> view_sound c h slots i view)"

lemma views_sound_ops:
  assumes "view_laws ops" "views_sound c h ops slots w"
  shows "views_sound c h ops slots (fst (vw_get ops w i))" "views_sound c h ops slots (vw_pop ops w i)"
    "view_sound c h slots i x \<Longrightarrow> views_sound c h ops slots (vw_put ops w i x)"
  using assms unfolding view_laws_def views_sound_def by blast+

lemma view_sound_grows:
  assumes "view_sound c h slots i view" "revisions_grow slots slots'"
  shows "view_sound c h slots' i view"
proof -
  let ?j = "sn_index (sv_snapshot view)"
  have "slots' ! ?j = slots ! ?j \<or> sl_revision (slots ! ?j) < sl_revision (slots' ! ?j)" "length slots' = length slots"
    using assms by (auto simp: view_sound_def revisions_grow_def Let_def)
  then show ?thesis using assms(1) by (auto simp: view_sound_def Let_def held_def)
qed

lemma views_sound_run:
  assumes cr: "crypto_ok c" and ok: "auth_ok c (ah_protection h) slots" and fit: "\<forall>x\<in>set xs. op_fit (ah_protection h) x"
    and v: "views_sound c h ops slots w"
  shows "auth_ok c (ah_protection h) (foldl (op_step c) slots xs) \<and> views_sound c h ops (foldl (op_step c) slots xs) w"
  using ok fit v
proof (induction xs arbitrary: slots)
  case (Cons x xs)
  have e: "effect c (ah_protection h) (op_time x) (op_creates c x) slots (op_step c slots x)"
    using Cons.prems by (intro op_step_effect [OF cr]) simp_all
  then have "views_sound c h ops (op_step c slots x) w"
    using Cons.prems(3) view_sound_grows by (fastforce simp: views_sound_def effect_def)
  then show ?case using Cons.IH [of "op_step c slots x"] Cons.prems(2) e by (simp add: effect_def)
qed simp

text \<open>An environment in which no writer runs during the check: every load sees the table as it stands.\<close>

definition settled :: "crypto \<Rightarrow> auth_handle \<Rightarrow> 'w view_ops \<Rightarrow> slots \<Rightarrow> 'w \<Rightarrow> bytes \<Rightarrow> auth_env \<Rightarrow> bool" where
  "settled c h ops slots w i env \<longleftrightarrow> ae_locked env = slots \<and> ae_scan env = quiet slots (session_key c h i) \<and>
     (\<forall>view. snd (vw_get ops w i) = Some view \<longrightarrow> ae_view env = (\<lambda>_. slots ! sn_index (sv_snapshot view)))"

lemma table_lookup_quiet:
  assumes "auth_ok c p slots"
  shows "table_lookup c p lock (quiet slots key) slots key = find_record c p slots key"
proof (cases "lookup c p (length slots) (quiet slots key) key")
  case (Inr res)
  have "\<not> lk_raced res" using find_record_no_error [OF assms, of key PolicyUnavailable] Inr by (auto simp: find_record_def)
  then show ?thesis using Inr by (simp add: table_lookup_def find_record_def)
qed (simp add: table_lookup_def find_record_def)

lemma unchanged_held:
  assumes ok: "auth_ok c (ah_protection h) slots" and v: "view_sound c h slots i view"
    and u: "table_unchanged (ah_protection h) (\<lambda>_. slots ! sn_index (sv_snapshot view)) (length slots) (sv_snapshot view)"
  shows "current c (ah_protection h) slots (session_key c h i) = Some (sn_record (sv_snapshot view))"
proof -
  let ?s = "slots ! sn_index (sv_snapshot view)"
  have lt: "sn_index (sv_snapshot view) < length slots" using v by (simp add: view_sound_def Let_def)
  then have typed: "slot_typed ?s" using ok by (simp add: auth_ok_def slot_ok_def)
  have "sl_revision ?s = sn_revision (sv_snapshot view)"
    using u read_now [OF typed] by (auto simp: table_unchanged_def split: if_splits)
  then have "held c (ah_protection h) slots (sn_index (sv_snapshot view)) = Some (sn_record (sv_snapshot view))"
    using v by (simp add: view_sound_def Let_def)
  then show ?thesis using v ok by (auto simp: current_Some view_sound_def Let_def)
qed

lemma found_view_sound:
  assumes ok: "auth_ok c (ah_protection h) slots" and f: "find_record c (ah_protection h) slots (session_key c h i) = Inr (Some sn)"
    and s: "ar_subject (sn_record sn) = subject_tag c h subject"
  shows "view_sound c h slots i \<lparr>sv_snapshot = sn, sv_subject = subject\<rparr>"
proof -
  note found = find_record_Some [OF ok f]
  have "sn_revision sn = sl_revision (slots ! sn_index sn)" using found(3) by (metis auth_snapshot.select_convs(2) snapshot_at_def)
  then show ?thesis using found s by (auto simp: view_sound_def Let_def held_def slot_record_decode split: if_splits)
qed

lemma check_session_current:
  assumes laws: "view_laws ops" and ok: "auth_ok c (ah_protection h) slots" and v: "views_sound c h ops slots w"
    and env: "\<And>b. pn_session pn = Some b \<Longrightarrow> settled c h ops slots w (sb_id b) env"
    and chk: "check_session c h ops env w pn now = (w', res)"
  shows "views_sound c h ops slots w' \<and> (\<forall>u. res = Inr u \<longrightarrow> (\<exists>b r. pn_session pn = Some b \<and>
     current c (ah_protection h) slots (session_key c h (sb_id b)) = Some r \<and>
     check_record r (subject_tag c h (pn_subject pn)) pn now = Inr ()))"
proof (cases "pn_session pn")
  case None
  then show ?thesis using chk v by (auto simp: check_session_def)
next
  case (Some b)
  let ?p = "ah_protection h" and ?i = "sb_id b"
  have locked: "ae_locked env = slots" and scan: "ae_scan env = quiet slots (session_key c h ?i)"
    and at: "\<And>view. snd (vw_get ops w ?i) = Some view \<Longrightarrow> ae_view env = (\<lambda>_. slots ! sn_index (sv_snapshot view))"
    using env [OF Some] by (simp_all add: settled_def)
  obtain w1 found where g: "vw_get ops w ?i = (w1, found)" by (cases "vw_get ops w ?i")
  have w1: "views_sound c h ops slots w1" using views_sound_ops(1) [OF laws v, of ?i] g by simp
  show ?thesis
  proof (cases "ae_views env")
    case False
    then show ?thesis using chk v Some by (auto simp: check_session_def)
  next
    case True
    show ?thesis
    proof (cases "\<exists>view. found = Some view \<and> table_unchanged ?p (ae_view env) (length slots) (sv_snapshot view)")
      case True
      then obtain view where view: "found = Some view" "table_unchanged ?p (ae_view env) (length slots) (sv_snapshot view)" by blast
      have s: "view_sound c h slots ?i view" using v g view(1) by (simp add: views_sound_def)
      have cur: "current c ?p slots (session_key c h ?i) = Some (sn_record (sv_snapshot view))"
        using unchanged_held [OF ok s] view(2) at [of view] view(1) g by simp
      have "check_session c h ops env w pn now = (w1, if sv_subject view \<noteq> pn_subject pn then Inl InvalidToken
          else check_metadata (sn_record (sv_snapshot view)) pn now)"
        using \<open>ae_views env\<close> view(2) by (simp add: check_session_def Some g view(1) locked)
      then have w': "w' = w1" and r: "res = (if sv_subject view \<noteq> pn_subject pn then Inl InvalidToken
          else check_metadata (sn_record (sv_snapshot view)) pn now)" using chk by simp_all
      have "check_record (sn_record (sv_snapshot view)) (subject_tag c h (pn_subject pn)) pn now = Inr ()" if "res = Inr u" for u
        using that r s by (auto simp: check_record_def view_sound_def Let_def split: if_splits)
      then show ?thesis using w1 w' cur Some by blast
    next
      case False
      define w2 where "w2 = (case found of None \<Rightarrow> w1 | Some _ \<Rightarrow> vw_pop ops w1 ?i)"
      have w2: "views_sound c h ops slots w2"
        using views_sound_ops(2) [OF laws w1] w1 by (cases found) (simp_all add: w2_def)
      have form: "(w', res) = (case find_record c ?p slots (session_key c h ?i) of
           Inl e \<Rightarrow> (w2, Inl e) | Inr None \<Rightarrow> (w2, Inl Revoked)
         | Inr (Some sn) \<Rightarrow> (case check_record (sn_record sn) (subject_tag c h (pn_subject pn)) pn now of
             Inl e \<Rightarrow> (w2, Inl e)
           | Inr _ \<Rightarrow> if \<not> ae_views_put env then (w2, Inl PolicyUnavailable)
                     else (vw_put ops w2 ?i \<lparr>sv_snapshot = sn, sv_subject = pn_subject pn\<rparr>, Inr ())))"
        unfolding chk [symmetric] w2_def using False \<open>ae_views env\<close>
        by (cases found) (simp_all add: check_session_def Some g Let_def locked scan table_lookup_quiet [OF ok] split: sum.split option.split)
      then consider "w' = w2" "isl res" | sn where "find_record c ?p slots (session_key c h ?i) = Inr (Some sn)"
          "check_record (sn_record sn) (subject_tag c h (pn_subject pn)) pn now = Inr ()"
          "w' = vw_put ops w2 ?i \<lparr>sv_snapshot = sn, sv_subject = pn_subject pn\<rparr>"
        by (auto split: sum.splits option.splits if_splits)
      then show ?thesis
      proof cases
        case 1
        then show ?thesis using w2 by auto
      next
        case 2
        have "view_sound c h slots ?i \<lparr>sv_snapshot = sn, sv_subject = pn_subject pn\<rparr>"
          by (rule found_view_sound [OF ok 2(1)]) (rule check_recordD(2) [OF 2(2)])
        then have "views_sound c h ops slots w'" unfolding 2(3) by (rule views_sound_ops(3) [OF laws w2])
        then show ?thesis using 2 Some find_record_Some(2) [OF ok 2(1)] by auto
      qed
    qed
  qed
qed

section \<open>Consumed credentials\<close>

lemma replay_checkD:
  assumes "replay_check c h random lock slots pn now = (slots', Inr u)"
  shows "now < cl_expires_at (pn_claims pn)" "replay_locked c h random pn now slots = (slots', Inr u)"
  using assms by (auto simp: replay_check_def check_scope_def table_write_def split: sum.splits if_splits)

text \<open>
  C12: a one-use credential is admitted once.  After the replay guard has admitted an identifier, no later call
  with the same identifier, by any worker of the fleet and for a credential that does not live longer, is
  admitted again, however many other operations ran in between, as long as the clock readings of the
  operations do not go backwards.  A full table refuses rather than forgets.
\<close>

theorem replay_admits_once:
  assumes cr: "crypto_ok c" and ok: "auth_ok c (ah_protection h) slots"
    and fit: "nonces_ok random" "nonces_ok random'" "cl_expires_at (pn_claims pn) \<le> u64_max" "\<forall>x\<in>set xs. op_fit (ah_protection h) x"
    and first: "replay_check c h random lock slots pn now = (slots1, Inr ())"
    and clock: "\<forall>x\<in>set xs. op_time x \<le> now'"
    and again: "pn_jti pn' = pn_jti pn" "cl_expires_at (pn_claims pn') \<le> cl_expires_at (pn_claims pn)"
  shows "\<exists>e. snd (replay_check c h random' lock' (foldl (op_step c) slots1 xs) pn' now') = Inl e"
proof (rule ccontr)
  let ?p = "ah_protection h" and ?k = "replay_key c h (pn_jti pn)" and ?slots2 = "foldl (op_step c) slots1 xs"
  assume "\<not> ?thesis"
  then obtain slots3 where second: "replay_check c h random' lock' ?slots2 pn' now' = (slots3, Inr ())"
    by (cases "replay_check c h random' lock' ?slots2 pn' now'", rename_tac a r, case_tac r) auto
  from replay_locked_effect [OF cr fit(1,3) replay_checkD(1) [OF first] ok replay_checkD(2) [OF first]]
  obtain r where r: "auth_ok c ?p slots1" "current c ?p slots1 ?k = Some r" "ar_status r = CONSUMED"
      "ar_expires_at r = cl_expires_at (pn_claims pn)" by (auto simp: effect_def)
  have late: "now' < ar_expires_at r" using replay_checkD(1) [OF second] again(2) r(4) by simp
  have "\<forall>x\<in>set xs. op_fit ?p x \<and> op_time x < ar_expires_at r" using fit(4) clock late by force
  then have kept: "current c ?p ?slots2 ?k = Some r" using cr r by (intro auth_life.consumed_kept) simp_all
  have ok2: "auth_ok c ?p ?slots2" using auth_life.run_good [of c ?p slots1 xs] cr r(1) fit(4) by simp
  have "cl_expires_at (pn_claims pn') \<le> u64_max" using again(2) fit(3) by simp
  from replay_locked_effect [OF cr fit(2) this replay_checkD(1) [OF second] ok2 replay_checkD(2) [OF second]]
  show False using kept again(1) by simp
qed

definition demo_once :: principal where
  "demo_once = demo_principal\<lparr>pn_session := None\<rparr>"

theorem replay_admits_once_witness:
  "\<exists>slots. replay_check demo_crypto demo_handle demo_nonces True [auth_slot_empty] demo_once 20 = (slots, Inr ()) \<and>
     (\<exists>e. snd (replay_check demo_crypto demo_handle demo_nonces True slots demo_once 30) = Inl e)"
proof -
  let ?r = "\<lparr>ar_key = replay_key demo_crypto demo_handle (pn_jti demo_once), ar_subject = replicate 4 0, ar_created_at = 20,
      ar_expires_at = 80, ar_generation = 0, ar_status = CONSUMED\<rparr>"
  have pol: "rp_policy (ah_protection demo_handle) \<noteq> EncryptedState" by (simp add: demo_handle_def)
  have typed: "record_typed ?r"
    using auth_mac_typed [of demo_crypto "ah_state_key demo_handle"]
    by (auto simp: record_typed_def record_words_def replay_key_def status_defs u64_max_def)
  have valid: "record_valid ?r" by (simp add: record_valid_def)
  obtain slots where "insert_record demo_crypto (ah_protection demo_handle) demo_nonces [auth_slot_empty] ?r 20 = (slots, Inr ())"
    by (rule insert_fresh [OF pol typed valid, of demo_crypto demo_nonces 20])
  moreover have e80: "cl_expires_at (pn_claims demo_once) = 80" "pn_session demo_once = None"
    by (simp_all add: demo_once_def demo_principal_def demo_claims_def)
  moreover have "check_scope demo_handle demo_once 20 = Inr ()"
    by (simp add: check_scope_def check_scope_lapsed_def demo_once_def demo_principal_def demo_claims_def demo_handle_def)
  ultimately have first: "replay_check demo_crypto demo_handle demo_nonces True [auth_slot_empty] demo_once 20 = (slots, Inr ())"
    by (simp add: replay_check_def table_write_def replay_locked_def fresh_absent(1))
  show ?thesis
    using first replay_admits_once [OF demo_crypto_ok fresh_absent(2) demo_nonces_ok demo_nonces_ok _ _ first _ refl order_refl, of "[]" 30 True]
    by (simp add: e80 u64_max_def)
qed

section \<open>Revocation\<close>

lemma find_dead:
  assumes "auth_ok c p slots" "dead (current c p slots key)"
  obtains "find_record c p slots key = Inr None"
  | sn where "find_record c p slots key = Inr (Some sn)" "ar_status (sn_record sn) \<noteq> SESSION"
proof (cases "find_record c p slots key")
  case (Inl e)
  then show ?thesis using find_record_no_error [OF assms(1)] by blast
next
  case (Inr found)
  then show ?thesis using that assms(2) find_record_Some(2) [OF assms(1)] by (cases found) (auto simp: dead_def)
qed

lemma check_live_dead: "ar_status r \<noteq> SESSION \<Longrightarrow> \<exists>e. check_live r now = Inl e"
  by (simp add: check_live_def)

lemma check_record_dead: "ar_status r \<noteq> SESSION \<Longrightarrow> \<exists>e. check_record r subject pn now = Inl e"
  using check_recordD(1) by (cases "check_record r subject pn now") blast+

lemma extend_session_live:
  assumes "auth_ok c (ah_protection h) slots" "dead (current c (ah_protection h) slots (session_key c h i))"
  shows "\<exists>e. snd (extend_session c h random lock slots i subject now expires_at) = Inl e"
  using assms
proof (cases rule: find_dead)
  case (2 sn)
  then show ?thesis using check_live_dead [OF 2(2), of now] by (auto simp: extend_session_def table_write_def Let_def)
qed (simp add: extend_session_def table_write_def)

lemma get_session_live:
  assumes "auth_ok c (ah_protection h) slots" "dead (current c (ah_protection h) slots (session_key c h i))"
    and env: "ae_locked env = slots" "ae_scan env = quiet slots (session_key c h i)"
  shows "\<exists>e. get_session c h env i subject now = Inl e"
  using assms(1,2)
proof (cases rule: find_dead)
  case (2 sn)
  then show ?thesis using check_live_dead [OF 2(2), of now] by (auto simp: get_session_def env table_lookup_quiet [OF assms(1)])
qed (simp add: get_session_def env table_lookup_quiet [OF assms(1)])

lemma replay_live:
  assumes "auth_ok c (ah_protection h) slots" and b: "pn_session pn = Some b"
    and "dead (current c (ah_protection h) slots (session_key c h (sb_id b)))"
  shows "\<exists>e. snd (replay_check c h random lock slots pn now) = Inl e"
proof -
  have "\<exists>e. snd (replay_locked c h random pn now slots) = Inl e"
    using assms(1,3)
  proof (cases rule: find_dead)
    case (2 sn)
    then show ?thesis using check_record_dead [OF 2(2), of "subject_tag c h (pn_subject pn)" pn now] b by (auto simp: replay_locked_def)
  qed (simp add: replay_locked_def b)
  then show ?thesis by (auto simp: replay_check_def table_write_def split: sum.splits)
qed

lemma refresh_live:
  assumes "auth_ok c (ah_protection h) slots" "dead (current c (ah_protection h) slots (session_key c h (sb_id b)))"
  shows "\<exists>e. snd (refresh_locked c h random pn b now expires_at slots) = Inl e"
  using assms
proof (cases rule: find_dead)
  case (2 sn)
  then show ?thesis using check_record_dead [OF 2(2), of "subject_tag c h (pn_subject pn)" pn now] by (auto simp: refresh_locked_def Let_def)
qed (simp add: refresh_locked_def)

lemma check_session_live:
  assumes "view_laws ops" "auth_ok c (ah_protection h) slots" "views_sound c h ops slots w"
    and b: "pn_session pn = Some b" "settled c h ops slots w (sb_id b) env" "dead (current c (ah_protection h) slots (session_key c h (sb_id b)))"
  shows "\<exists>e. snd (check_session c h ops env w pn now) = Inl e"
proof (cases "check_session c h ops env w pn now")
  case (Pair w' res)
  have "settled c h ops slots w (sb_id b') env" if "pn_session pn = Some b'" for b' using that b by simp
  from check_session_current [OF assms(1-3) this Pair] show ?thesis
    using b(1,3) check_recordD(1) Pair by (cases res) (auto simp: dead_def)
qed

text \<open>
  C13: revocation is final.  Once a session has been revoked, no operation that any worker performs brings it
  back: whatever ran in between, short of drawing the same random identifier for a new session, every later
  check of a credential bound to it is refused, cold or through a verified view, live or lapsed, and so are
  reading the session, extending it, refreshing it and consuming a one-use credential of it.  No clock
  assumption is needed.
\<close>

theorem revocation_is_final:
  assumes cr: "crypto_ok c" and ok: "auth_ok c (ah_protection h) slots" and fit: "nonces_ok random" "\<forall>x\<in>set xs. op_fit (ah_protection h) x"
    and rev: "revoke_session c h random lock slots i now = (slots1, Inr ())"
    and fresh: "\<forall>x\<in>set xs. \<not> op_creates c x (session_key c h i)"
    and views: "view_laws ops" "views_sound c h ops slots1 w"
    and pn: "pn_session pn = Some b" "sb_id b = i"
    and env: "settled c h ops (foldl (op_step c) slots1 xs) w i env"
  defines "slots2 \<equiv> foldl (op_step c) slots1 xs"
  shows "(\<exists>e. snd (fleet_check c h ops env w pn now') = Inl e) \<and> (\<exists>e. snd (fleet_check_lapsed c h ops env w pn now') = Inl e) \<and>
    (\<exists>e. get_session c h env i subject now' = Inl e) \<and>
    (\<exists>e. snd (extend_session c h random' lock' slots2 i subject now' expires_at) = Inl e) \<and>
    (\<exists>e. snd (refresh_locked c h random' pn b now' expires_at slots2) = Inl e) \<and>
    (\<exists>e. snd (replay_check c h random' lock' slots2 pn now') = Inl e)"
proof -
  let ?p = "ah_protection h" and ?k = "session_key c h i"
  obtain r where r: "auth_ok c ?p slots1" "current c ?p slots1 ?k = Some r" "ar_status r = REVOKED"
    using revoke_session_effect [OF cr fit(1) ok rev] by (auto simp: effect_def)
  have ok2: "auth_ok c ?p slots2" "views_sound c h ops slots2 w"
    using views_sound_run [OF cr r(1) fit(2) views(2)] by (simp_all add: slots2_def)
  have "dead (current c ?p slots1 ?k)" using r(2,3) by (simp add: dead_def)
  then have d: "dead (current c ?p slots2 ?k)"
    unfolding slots2_def using cr r(1) fit(2) fresh by (intro auth_life.stays_dead) simp_all
  have chk: "\<exists>e. snd (check_session c h ops env w pn now') = Inl e"
    using check_session_live [OF views(1) ok2 pn(1)] env d pn(2) by (simp add: slots2_def)
  have "ae_locked env = slots2" "ae_scan env = quiet slots2 ?k" using env by (simp_all add: settled_def slots2_def)
  then show ?thesis
    using chk get_session_live [OF ok2(1) d] extend_session_live [OF ok2(1) d] refresh_live [OF ok2(1), of b] replay_live [OF ok2(1) pn(1)] d pn(2)
    by (auto simp: fleet_check_def fleet_check_lapsed_def split: sum.splits)
qed

text \<open>A view cache of one entry, for the examples.\<close>

definition demo_views :: "(bytes \<times> session_view) option view_ops" where
  "demo_views = \<lparr>vw_get = (\<lambda>w i. (w, case w of Some (j, v) \<Rightarrow> (if j = i then Some v else None) | None \<Rightarrow> None)),
     vw_pop = (\<lambda>w i. case w of Some (j, v) \<Rightarrow> (if j = i then None else w) | None \<Rightarrow> None), vw_put = (\<lambda>w i v. Some (i, v))\<rparr>"

definition quiet_env :: "slots \<Rightarrow> store_key \<Rightarrow> auth_env" where
  "quiet_env slots key = \<lparr>ae_scan = quiet slots key, ae_view = (\<lambda>_. slots ! 0), ae_locked = slots, ae_lock = True, ae_views = True, ae_views_put = True\<rparr>"

lemma demo_views_laws: "view_laws demo_views"
  by (auto simp: view_laws_def demo_views_def split: option.splits if_splits)

lemma demo_views_empty: "views_sound c h demo_views slots None" "settled c h demo_views slots None i (quiet_env slots (session_key c h i))"
  by (simp_all add: views_sound_def settled_def demo_views_def quiet_env_def)

theorem revocation_is_final_witness:
  "\<exists>slots1. revoke_session demo_crypto demo_handle demo_nonces True demo_slots (replicate 16 5) 20 = (slots1, Inr ()) \<and>
     (\<exists>e. snd (fleet_check demo_crypto demo_handle demo_views
        (quiet_env slots1 (session_key demo_crypto demo_handle (replicate 16 5))) None demo_principal 30) = Inl e)"
proof -
  let ?r = "demo_session\<lparr>ar_status := REVOKED\<rparr>"
  have t: "record_typed demo_session \<and> record_valid demo_session" by (rule current_typed [OF demo_slots_facts(1,2)])
  have typed: "record_typed ?r" using t by (simp add: typed_update)
  have valid: "record_valid ?r" by (simp add: record_valid_def demo_session_def)
  obtain slots1 rev where st: "store_at demo_crypto (ah_protection demo_handle) demo_nonces demo_slots 0 ?r = (slots1, Inr rev)"
    by (rule demo_auth_store [OF typed valid])
  obtain sn where sn: "find_record demo_crypto (ah_protection demo_handle) demo_slots (session_key demo_crypto demo_handle (replicate 16 5)) = Inr (Some sn)"
      "sn_record sn = demo_session" "sn_index sn = 0" by (rule demo_found)
  have status: "ar_status demo_session = SESSION" "ar_created_at demo_session = 10" by (simp_all add: demo_session_def)
  have r: "revoke_session demo_crypto demo_handle demo_nonces True demo_slots (replicate 16 5) 20 = (slots1, Inr ())"
    using st by (simp add: revoke_session_def table_write_def sn status)
  have b: "pn_session demo_principal = Some \<lparr>sb_id = replicate 16 5, sb_generation = 0\<rparr>" by (simp add: demo_principal_def)
  show ?thesis
    using r revocation_is_final [OF demo_crypto_ok demo_slots_facts(1) demo_nonces_ok _ r _ demo_views_laws demo_views_empty(1) b,
        of "[]" "quiet_env slots1 (session_key demo_crypto demo_handle (replicate 16 5))"] demo_views_empty(2) by auto
qed

section \<open>Refresh\<close>

text \<open>
  C14: a refresh generation is spent once.  A refresh that succeeds hands out the next generation; from then on
  no credential of that or an earlier generation refreshes the session again, by any worker and after any
  operations in between, short of a new session that draws the same random identifier.  Of concurrent
  callers with one credential exactly the first under the writer lock succeeds.
\<close>

theorem refresh_generation_spent_once:
  assumes cr: "crypto_ok c" and ok: "auth_ok c (ah_protection h) slots" and fit: "nonces_ok random" "expires_at \<le> u64_max"
      "\<forall>x\<in>set xs. op_fit (ah_protection h) x" "\<forall>x\<in>set xs. \<not> op_creates c x (session_key c h (sb_id b))"
    and pn: "pn_session pn = Some b" "cl_purpose (pn_claims pn) = Refresh"
    and first: "refresh_locked c h random pn b now expires_at slots = (slots1, Inr s)"
    and pn': "pn_session pn' = Some b'" "cl_purpose (pn_claims pn') = Refresh" "sb_id b' = sb_id b" "sb_generation b' \<le> sb_generation b"
    and fit': "nonces_ok random'" "expires_at' \<le> u64_max"
  shows "sb_generation (ss_binding s) = Suc (sb_generation b) \<and>
    (\<exists>e. snd (refresh_locked c h random' pn' b' now' expires_at' (foldl (op_step c) slots1 xs)) = Inl e)"
proof -
  let ?p = "ah_protection h" and ?k = "session_key c h (sb_id b)" and ?slots2 = "foldl (op_step c) slots1 xs"
  obtain r r' where r: "auth_ok c ?p slots1" "current c ?p slots1 ?k = Some r'" "check_record r (subject_tag c h (pn_subject pn)) pn now = Inr ()"
      "ar_generation r' = Suc (ar_generation r)" "s = session_handle h (sb_id b) (pn_subject pn) r'"
    using refresh_locked_effect [OF cr fit(1,2) ok first] unfolding effect_def Let_def by blast
  have g: "ar_generation r = sb_generation b" using check_recordD(5) [OF r(3)] pn by auto
  have ok2: "auth_ok c ?p ?slots2" using auth_life.run_good [of c ?p slots1 xs] cr r(1) fit(3) by simp
  have later: "\<forall>q. current c ?p ?slots2 ?k = Some q \<longrightarrow> Suc (sb_generation b) \<le> ar_generation q"
    using cr r(1,2,4) fit(3,4) g by (intro auth_life.generation_grows) simp_all
  have "\<exists>e. snd (refresh_locked c h random' pn' b' now' expires_at' ?slots2) = Inl e"
  proof (cases "refresh_locked c h random' pn' b' now' expires_at' ?slots2")
    case (Pair slots3 res)
    show ?thesis
    proof (cases res)
      case (Inr t)
      then obtain q where q: "current c ?p ?slots2 ?k = Some q" "check_record q (subject_tag c h (pn_subject pn')) pn' now' = Inr ()"
        using refresh_locked_effect [OF cr fit' ok2 Pair] pn'(3) by (auto simp: Let_def)
      then show ?thesis using check_recordD(5) [OF q(2)] pn' later by auto
    qed (simp add: Pair)
  qed
  then show ?thesis using g r(4,5) by (simp add: session_handle_def)
qed

theorem refresh_generation_spent_once_witness:
  "\<exists>slots1 s. refresh_locked demo_crypto demo_handle demo_nonces demo_principal \<lparr>sb_id = replicate 16 5, sb_generation = 0\<rparr> 20 95 demo_slots =
       (slots1, Inr s) \<and>
     (\<exists>e. snd (refresh_locked demo_crypto demo_handle demo_nonces demo_principal \<lparr>sb_id = replicate 16 5, sb_generation = 0\<rparr> 30 96 slots1) = Inl e)"
proof -
  let ?b = "\<lparr>sb_id = replicate 16 5, sb_generation = 0\<rparr>" and ?r = "demo_session\<lparr>ar_generation := 1, ar_expires_at := 95\<rparr>"
  have t: "record_typed demo_session \<and> record_valid demo_session" by (rule current_typed [OF demo_slots_facts(1,2)])
  have typed: "record_typed ?r" using t by (intro typed_update) (simp_all add: u64_max_def)
  have valid: "record_valid ?r" by (simp add: record_valid_def demo_session_def)
  obtain slots1 rev where st: "store_at demo_crypto (ah_protection demo_handle) demo_nonces demo_slots 0 ?r = (slots1, Inr rev)"
    by (rule demo_auth_store [OF typed valid])
  obtain sn where sn: "find_record demo_crypto (ah_protection demo_handle) demo_slots (session_key demo_crypto demo_handle (replicate 16 5)) = Inr (Some sn)"
      "sn_record sn = demo_session" "sn_index sn = 0" by (rule demo_found)
  have chk: "check_record demo_session (subject_tag demo_crypto demo_handle (pn_subject demo_principal)) demo_principal 20 = Inr ()"
    by (simp add: check_record_def check_metadata_def check_live_def demo_session_def demo_principal_def demo_claims_def)
  have gen: "ar_generation demo_session = 0" "ar_expires_at demo_session = 90" by (simp_all add: demo_session_def)
  have first: "refresh_locked demo_crypto demo_handle demo_nonces demo_principal ?b 20 95 demo_slots =
      (slots1, Inr (session_handle demo_handle (replicate 16 5) (pn_subject demo_principal) ?r))"
    using st by (simp add: refresh_locked_def sn chk gen checked_add_def u64_max_def)
  have b: "pn_session demo_principal = Some ?b" "cl_purpose (pn_claims demo_principal) = Refresh"
    by (simp_all add: demo_principal_def demo_claims_def)
  show ?thesis
    using first refresh_generation_spent_once [OF demo_crypto_ok demo_slots_facts(1) demo_nonces_ok _ _ _ b first b refl order_refl demo_nonces_ok,
        of "[]" 96 30] by (auto simp: u64_max_def)
qed

section \<open>Warm checks\<close>

text \<open>
  C15: a verified view never answers for a record that has moved on.  Start from views that agree with the
  table and let any workers perform any operations: a check that consults the views and the table as they
  then are leaves the views in agreement with the table, and it admits a credential only if the session's
  current record, looked up afresh, passes the full check of subject, status, time, horizon and generation.
\<close>

theorem warm_check_is_current:
  assumes cr: "crypto_ok c" and ok: "auth_ok c (ah_protection h) slots" and fit: "\<forall>x\<in>set xs. op_fit (ah_protection h) x"
    and views: "view_laws ops" "views_sound c h ops slots w"
    and env: "\<forall>b. pn_session pn = Some b \<longrightarrow> settled c h ops (foldl (op_step c) slots xs) w (sb_id b) env"
    and chk: "check_session c h ops env w pn now = (w', res)"
  defines "slots2 \<equiv> foldl (op_step c) slots xs"
  shows "views_sound c h ops slots2 w' \<and> (res = Inr () \<longrightarrow> (\<exists>b r. pn_session pn = Some b \<and>
     current c (ah_protection h) slots2 (session_key c h (sb_id b)) = Some r \<and>
     check_record r (subject_tag c h (pn_subject pn)) pn now = Inr ()))"
proof -
  have "auth_ok c (ah_protection h) slots2" "views_sound c h ops slots2 w"
    using views_sound_run [OF cr ok fit views(2)] by (simp_all add: slots2_def)
  then show ?thesis using check_session_current [OF views(1) _ _ _ chk, of slots2] env by (simp add: slots2_def)
qed

theorem warm_check_is_current_witness:
  "\<exists>w'. check_session demo_crypto demo_handle demo_views (quiet_env demo_slots (session_key demo_crypto demo_handle (replicate 16 5)))
       None demo_principal 20 = (w', Inr ()) \<and> views_sound demo_crypto demo_handle demo_views demo_slots w'"
proof -
  let ?k = "session_key demo_crypto demo_handle (replicate 16 5)"
  have b: "pn_session demo_principal = Some \<lparr>sb_id = replicate 16 5, sb_generation = 0\<rparr>" by (simp add: demo_principal_def)
  obtain sn where sn: "find_record demo_crypto (ah_protection demo_handle) demo_slots ?k = Inr (Some sn)" "sn_record sn = demo_session"
    by (rule demo_found)
  have chk: "check_record demo_session (subject_tag demo_crypto demo_handle (pn_subject demo_principal)) demo_principal 20 = Inr ()"
    by (simp add: check_record_def check_metadata_def check_live_def demo_session_def demo_principal_def demo_claims_def)
  obtain w' where w': "check_session demo_crypto demo_handle demo_views (quiet_env demo_slots ?k) None demo_principal 20 = (w', Inr ())"
    using sn chk table_lookup_quiet [OF demo_slots_facts(1), of True ?k]
    by (simp add: check_session_def b) (simp add: quiet_env_def demo_views_def)
  have "\<forall>x. pn_session demo_principal = Some x \<longrightarrow>
      settled demo_crypto demo_handle demo_views (foldl (op_step demo_crypto) demo_slots []) None (sb_id x) (quiet_env demo_slots ?k)"
    using demo_views_empty(2) by (simp add: b)
  from warm_check_is_current [OF demo_crypto_ok demo_slots_facts(1) _ demo_views_laws demo_views_empty(1) this w'] show ?thesis using w' by auto
qed

end
