(* ===== verification/Auth_Limit.thy ===== *)
theory Auth_Limit
  imports Auth_Runs
begin

text \<open>
  Session creation under a limit (\<open>FleetAuth::create_session_with_limit\<close>): what remains live in the table and
  which sessions had to go.
\<close>

definition live_at :: "crypto \<Rightarrow> record_protection \<Rightarrow> slots \<Rightarrow> nat list \<Rightarrow> nat \<Rightarrow> nat set" where
  "live_at c p slots subject now = {i. \<exists>r. held c p slots i = Some r \<and> live_session subject now r}"

lemma finite_live_at: "finite (live_at c p slots subject now)"
  by (rule finite_subset [of _ "{..<length slots}"]) (auto simp: live_at_def dest: held_length)

lemma live_at_sessions:
  assumes "auth_ok c p slots" "subject_sessions c p slots subject now = Inr live"
  shows "live_at c p slots subject now = sn_index ` set live"
  unfolding subject_sessions_exact(1) [OF assms] by (force simp: live_at_def)

lemma live_after_create:
  assumes cr: "crypto_ok c" "nonces_ok random" and ok: "auth_ok c p slots" and rep: "replaced c p i r slots slots1"
    and ok1: "auth_ok c p slots1" and old: "\<forall>q. held c p slots i = Some q \<longrightarrow> ar_expires_at q \<le> now"
    and live: "subject_sessions c p slots (ar_subject r) now = Inr live" and r: "ar_status r = SESSION" "now < ar_expires_at r"
    and st: "store_each c p random slots1 (map revoked (excess_sessions (Some m) live)) = (slots', Inr u)"
  shows "live_at c p slots' (ar_subject r) now = insert i (sn_index ` set (drop (length live - (m - 1)) (by_age live)))"
    "held c p slots' i = Some r" "i \<notin> sn_index ` set live"
proof -
  let ?n = "length live - (m - 1)" and ?s = "ar_subject r"
  let ?old = "take ?n (by_age live)" and ?kept = "drop ?n (by_age live)"
  have us: "updates_ok c p slots1 (map revoked (excess_sessions (Some m) live))"
    by (rule excess_updates_ok [OF ok rep old live]) simp_all
  note e = store_each_effect [OF cr ok1 us st]
  have ex: "excess_sessions (Some m) live = ?old" by (simp add: excess_sessions_def)
  have split: "set live = set ?old \<union> set ?kept" by (metis append_take_drop_id set_append set_by_age(1))
  have "distinct (map sn_index (by_age live))"
    using subject_sessions_exact(2) [OF ok live] by (metis by_age_def mset_map mset_sort mset_eq_imp_distinct_iff)
  then have "distinct (map sn_index (?old @ ?kept))" by simp
  then have apart: "sn_index ` set ?old \<inter> sn_index ` set ?kept = {}" by (metis distinct_append map_append set_map)
  note la = live_after_insert [OF ok rep old live]
  show notin: "i \<notin> sn_index ` set live" using la(1) by blast
  have revd: "held c p slots' j = Some ((sn_record sn)\<lparr>ar_status := REVOKED\<rparr>)" if "sn \<in> set ?old" "j = sn_index sn" for sn j
    using e that by (auto simp: ex revoked_def)
  have same: "held c p slots' j = held c p slots1 j" if "j \<notin> sn_index ` set ?old" for j
    using e that by (auto simp: ex revoked_def)
  show hi: "held c p slots' i = Some r" using same [of i] notin split replaced_held [OF rep, of i] by auto
  have other: "held c p slots' j = held c p slots j" if "j \<notin> sn_index ` set ?old" "j \<noteq> i" for j
    using same [OF that(1)] replaced_held [OF rep, of j] that(2) by simp
  show "live_at c p slots' ?s now = insert i (sn_index ` set ?kept)"
  proof (intro set_eqI iffI)
    fix j assume "j \<in> live_at c p slots' ?s now"
    then obtain q where q: "held c p slots' j = Some q" "live_session ?s now q" by (auto simp: live_at_def)
    have "j \<notin> sn_index ` set ?old" using q revd by (auto simp: live_session_def)
    moreover have "j \<in> sn_index ` set live" if "j \<noteq> i"
    proof -
      have "held c p slots j = Some q" using other [OF calculation that] q(1) by simp
      then have "j \<in> live_at c p slots ?s now" using q(2) by (auto simp: live_at_def)
      then show ?thesis by (simp only: live_at_sessions [OF ok live])
    qed
    ultimately show "j \<in> insert i (sn_index ` set ?kept)" using split by auto
  next
    fix j assume j: "j \<in> insert i (sn_index ` set ?kept)"
    show "j \<in> live_at c p slots' ?s now"
    proof (cases "j = i")
      case True
      then show ?thesis using hi r by (simp add: live_at_def live_session_def)
    next
      case False
      then have "j \<in> sn_index ` set ?kept" using j by simp
      moreover from this have "j \<notin> sn_index ` set ?old" using apart by blast
      moreover have "j \<in> live_at c p slots ?s now" using calculation(1) split live_at_sessions [OF ok live] by auto
      ultimately show ?thesis using other [OF _ False] by (simp add: live_at_def)
    qed
  qed
qed

lemma create_limit_cases:
  assumes cr: "crypto_ok c" and fit: "nonces_ok random" "expires_at \<le> u64_max" and ok: "auth_ok c (ah_protection h) slots"
    and st: "create_session_with_limit c h random_id random lock slots subject now expires_at m = (slots', Inr s)"
  obtains i r live slots1 where "ar_subject r = subject_tag c h subject" "ar_key r = session_key c h (sb_id (ss_binding s))"
    "ar_status r = SESSION" "now < ar_expires_at r" "subject_sessions c (ah_protection h) slots (ar_subject r) now = Inr live"
    "replaced c (ah_protection h) i r slots slots1" "auth_ok c (ah_protection h) slots1"
    "\<forall>q. held c (ah_protection h) slots i = Some q \<longrightarrow> ar_expires_at q \<le> now"
    "store_each c (ah_protection h) random slots1 (map revoked (excess_sessions (Some m) live)) = (slots', Inr ())"
proof -
  let ?r = "\<lambda>i. \<lparr>ar_key = session_key c h i, ar_subject = subject_tag c h subject, ar_created_at = now, ar_expires_at = expires_at,
     ar_generation = 0, ar_status = SESSION\<rparr>"
  obtain b where b: "now < expires_at" "s = session_handle h b subject (?r b)"
      "create_locked c (ah_protection h) random (?r b) now (Some m) slots = (slots', Inr ())"
    using st by (auto simp: create_session_with_limit_def create_def Let_def table_write_def split: if_splits option.splits prod.splits sum.splits)
  have typed: "record_typed (?r b)" using b(1) fit(2) by (rule session_record_typed)
  show thesis
    using cr fit(1) ok typed b(3)
  proof (cases rule: create_locked_cases)
    case refused
    then show ?thesis by simp
  next
    case (admitted i slots1 live)
    show ?thesis
      by (rule that [of "?r b" live i slots1]) (use admitted b in \<open>simp_all add: session_handle_def\<close>)
  qed
qed

text \<open>
  C17: the session limit.  When a session is created under a limit, at most that many sessions of the subject
  are live afterwards, the new one is among them, every session live afterwards is the new one or was live
  before, and a session that had to go is at least as old, by creation time and then by slot, as each one that
  stayed.  The limit binds across all workers, because every creation runs under the table's writer lock.
\<close>

theorem session_limit_holds:
  assumes cr: "crypto_ok c" "nonces_ok random" "expires_at \<le> u64_max" and ok: "auth_ok c (ah_protection h) slots"
    and limit: "0 < m"
    and st: "create_session_with_limit c h random_id random lock slots subject now expires_at m = (slots', Inr s)"
  defines "before \<equiv> live_at c (ah_protection h) slots (subject_tag c h subject) now"
    and "after \<equiv> live_at c (ah_protection h) slots' (subject_tag c h subject) now"
    and "age \<equiv> \<lambda>i. (ar_created_at (the (held c (ah_protection h) slots i)), i)"
  shows "card after \<le> m \<and>
    (\<exists>i r. i \<in> after \<and> after - {i} \<subseteq> before \<and> held c (ah_protection h) slots' i = Some r \<and>
       ar_key r = session_key c h (sb_id (ss_binding s)) \<and> (\<forall>j k. j \<in> before - after \<and> k \<in> after - {i} \<longrightarrow> age j \<le> age k))"
proof -
  let ?p = "ah_protection h"
  obtain i r live slots1 where d: "ar_subject r = subject_tag c h subject" "ar_key r = session_key c h (sb_id (ss_binding s))"
      "ar_status r = SESSION" "now < ar_expires_at r" "subject_sessions c ?p slots (ar_subject r) now = Inr live"
      "replaced c ?p i r slots slots1" "auth_ok c ?p slots1" "\<forall>q. held c ?p slots i = Some q \<longrightarrow> ar_expires_at q \<le> now"
      "store_each c ?p random slots1 (map revoked (excess_sessions (Some m) live)) = (slots', Inr ())"
    by (rule create_limit_cases [OF cr ok st])
  let ?n = "length live - (m - 1)"
  let ?old = "take ?n (by_age live)" and ?kept = "drop ?n (by_age live)"
  note la = live_after_create [OF cr(1,2) ok d(6,7,8,5,3,4,9)]
  have after: "after = insert i (sn_index ` set ?kept)" using la(1) d(1) by (simp add: after_def)
  have before: "before = sn_index ` set live" using live_at_sessions [OF ok d(5)] d(1) by (simp add: before_def)
  have "card (sn_index ` set ?kept) \<le> length ?kept" by (metis card_image_le card_length finite_set order_trans)
  then have "card after \<le> Suc (length ?kept)" unfolding after by (metis card_insert_le_m1 card_insert_if finite_imageI finite_set le_SucI Suc_le_mono)
  moreover have "length ?kept \<le> m - 1" by simp
  ultimately have c1: "card after \<le> m" using limit by linarith
  have c2: "i \<in> after" "after - {i} \<subseteq> before"
    unfolding after before using set_drop_subset [of ?n "by_age live"] by auto
  have rec: "held c ?p slots (sn_index sn) = Some (sn_record sn)" if "sn \<in> set live" for sn
    by (rule live_after_insert(3) [OF ok d(6,8,5) that])
  have age: "age (sn_index sn) = (ar_created_at (sn_record sn), sn_index sn)" if "sn \<in> set live" for sn
    using rec [OF that] by (simp add: age_def)
  have sorted: "sorted (map (\<lambda>sn. (ar_created_at (sn_record sn), sn_index sn)) (?old @ ?kept))"
    by (simp add: by_age_def)
  have "age j \<le> age k" if jk: "j \<in> before - after" "k \<in> after - {i}" for j k
  proof -
    have parts: "set live = set ?old \<union> set ?kept" by (metis append_take_drop_id set_append set_by_age(1))
    obtain a where a: "j = sn_index a" "a \<in> set ?old" using jk(1) parts unfolding before after by auto
    obtain b where b: "k = sn_index b" "b \<in> set ?kept" using jk(2) unfolding after by auto
    show ?thesis using sorted a b age parts unfolding map_append sorted_append by auto
  qed
  then show ?thesis using c1 c2 la(2) d(2) by blast
qed

theorem session_limit_holds_witness:
  "\<exists>slots s. create_session_with_limit demo_crypto demo_handle (Some (replicate 16 5)) demo_nonces True [auth_slot_empty] [97] 10 90 2 =
     (slots, Inr s) \<and> card (live_at demo_crypto (ah_protection demo_handle) slots (subject_tag demo_crypto demo_handle [97]) 10) \<le> 2"
proof -
  have pol: "rp_policy (ah_protection demo_handle) \<noteq> EncryptedState" by (simp add: demo_handle_def)
  obtain slots s where d: "create_session_with_limit demo_crypto demo_handle (Some (replicate 16 5)) demo_nonces True [auth_slot_empty] [97] 10 90 2 =
      (slots, Inr s)"
    by (rule create_fresh [OF demo_label _ _ pol, of 10 90 demo_crypto "replicate 16 5" demo_nonces "Some 2"])
      (simp_all add: create_session_with_limit_def u64_max_def)
  have "card (live_at demo_crypto (ah_protection demo_handle) slots (subject_tag demo_crypto demo_handle [97]) 10) \<le> 2"
    by (rule session_limit_holds [OF demo_crypto_ok demo_nonces_ok _ fresh_absent(2) _ d, THEN conjunct1]) (simp_all add: u64_max_def)
  with d show ?thesis by blast
qed

end
