(* ===== verification/Auth_Race.thy ===== *)
theory Auth_Race
  imports Auth_Map
begin

text \<open>
  Readers against the writer of one authentication slot (\<^verbatim>\<open>auth/src/table.rs\<close>, \<open>Slot::read_once\<close> and
  \<open>Slot::store\<close>), one atomic load or store at a time.  A history of the slot is the list of its contents after
  each store of its writers; writers run one after the other under the table's lock, and a writer may die
  after any of its stores, which releases the lock.
\<close>

inductive slot_history :: "crypto \<Rightarrow> record_protection \<Rightarrow> nat \<Rightarrow> auth_slot list \<Rightarrow> bool" for c p index where
  start: "slot_typed s \<Longrightarrow> slot_history c p index [s]"
| written: "slot_history c p index (hs @ [s]) \<Longrightarrow>
    auth_store c p random s r index = (foldl apply_write s (store_writes revision w), Inr revision) \<Longrightarrow>
    encode c p random index revision r = Inr w \<Longrightarrow>
    k \<le> length (store_writes revision w) \<Longrightarrow>
    slot_history c p index (hs @ [s] @ map (\<lambda>j. foldl apply_write s (take (Suc j) (store_writes revision w))) [0..<k])"

section \<open>What a writer changes\<close>

text \<open>One store of a writer leaves the active bank alone, or moves the revision on by one.\<close>

definition slot_step :: "auth_slot \<Rightarrow> auth_slot \<Rightarrow> bool" where
  "slot_step s s' \<longleftrightarrow> slot_typed s' \<and>
     (sl_revision s' = sl_revision s \<and> active_bank s' = active_bank s \<or> sl_revision s' = Suc (sl_revision s))"

lemma auth_store_revision: "auth_store c p random s r index = (s', Inr revision) \<Longrightarrow> revision = Suc (sl_revision s) \<and> sl_revision s < u64_max"
  by (auto simp: auth_store_def checked_add_def split: sum.splits option.splits if_splits)

lemma length_store_writes [simp]: "length (store_writes revision w) = Suc BANK_WORDS"
  by (simp add: store_writes_def)

lemma store_prefix:
  assumes s: "slot_typed s" and w: "length w = BANK_WORDS" and k: "k \<le> BANK_WORDS"
  defines "s' \<equiv> foldl apply_write s (take k (store_writes (Suc (sl_revision s)) w))"
  shows "slot_typed s' \<and> sl_revision s' = sl_revision s \<and> active_bank s' = active_bank s"
proof -
  let ?b = "Suc (sl_revision s) mod 2"
  have "take k (store_writes (Suc (sl_revision s)) w) = map (\<lambda>i. StBank ?b i (w ! i)) [0..<k]"
    using k by (simp add: store_writes_def take_map)
  then have s': "s' = s\<lparr>sl_banks := (sl_banks s)[?b := take k w @ drop k (sl_banks s ! ?b)]\<rparr>"
    unfolding s'_def by (simp only: partial_bank [OF s w k, of ?b])
  have other: "?b \<noteq> sl_revision s mod 2" by presburger
  have "length (sl_banks s ! ?b) = BANK_WORDS" by (rule bank_length [OF s])
  then have "slot_typed s'" using s w k unfolding s' slot_typed_def
    by (auto dest!: set_update_subset_insert [THEN subsetD])
  moreover have "active_bank s' = active_bank s" using other by (simp add: s' active_bank_def)
  ultimately show ?thesis by (simp add: s')
qed

lemma store_steps:
  assumes s: "slot_typed s" "sl_revision s < u64_max" and w: "length w = BANK_WORDS" and j: "j < Suc BANK_WORDS"
  defines "st \<equiv> \<lambda>k. foldl apply_write s (take k (store_writes (Suc (sl_revision s)) w))"
  shows "slot_step (st j) (st (Suc j))"
proof (cases "j = BANK_WORDS")
  case True
  have "st (Suc j) = foldl apply_write s (store_writes (Suc (sl_revision s)) w)" using True by (simp add: st_def)
  also have "\<dots> = s\<lparr>sl_revision := Suc (sl_revision s), sl_banks := (sl_banks s)[Suc (sl_revision s) mod 2 := w]\<rparr>"
    by (rule store_writes_commit [OF s(1) w])
  finally have e: "st (Suc j) = s\<lparr>sl_revision := Suc (sl_revision s), sl_banks := (sl_banks s)[Suc (sl_revision s) mod 2 := w]\<rparr>" .
  have "slot_typed (st (Suc j))" unfolding e using s w by (auto simp: slot_typed_def dest!: set_update_subset_insert [THEN subsetD])
  moreover have "sl_revision (st j) = sl_revision s" using store_prefix [OF s(1) w, of j] True by (simp add: st_def)
  ultimately show ?thesis by (simp add: slot_step_def e)
next
  case False
  then show ?thesis using store_prefix [OF s(1) w, of j] store_prefix [OF s(1) w, of "Suc j"] j by (simp add: slot_step_def st_def)
qed

lemma slot_history_steps:
  "slot_history c p index hs \<Longrightarrow> (\<forall>s\<in>set hs. slot_typed s) \<and> (\<forall>t. Suc t < length hs \<longrightarrow> slot_step (hs ! t) (hs ! Suc t))"
proof (induction rule: slot_history.induct)
  case (start s)
  then show ?case by simp
next
  case (written hs s random r revision w k)
  let ?st = "\<lambda>k. foldl apply_write s (take k (store_writes revision w))"
  have s: "slot_typed s" "sl_revision s < u64_max" and rev: "revision = Suc (sl_revision s)"
    using written.IH auth_store_revision [OF written.hyps(2)] by simp_all
  have w: "length w = BANK_WORDS" using encode_typed [OF written.hyps(3)] by (simp add: wire_typed_def)
  have step: "slot_step (?st j) (?st (Suc j))" if "j < Suc BANK_WORDS" for j
    using store_steps [OF s w that] by (simp add: rev)
  have form: "hs @ [s] @ map (\<lambda>j. ?st (Suc j)) [0..<k] = hs @ map ?st [0..<Suc k]"
    by (simp add: upt_conv_Cons map_Suc_upt [symmetric] del: upt_Suc)
  have nth: "(hs @ map ?st [0..<Suc k]) ! t = (if t < length hs then hs ! t else ?st (t - length hs))" if "t < length hs + Suc k" for t
    using that by (simp add: nth_append del: upt_Suc)
  have "slot_step ((hs @ map ?st [0..<Suc k]) ! t) ((hs @ map ?st [0..<Suc k]) ! Suc t)" if t: "Suc t < length hs + Suc k" for t
  proof (cases "Suc t \<le> length hs")
    case True
    have "(hs @ [s]) ! Suc t = (if Suc t < length hs then hs ! Suc t else s)" "(hs @ [s]) ! t = hs ! t" using True by (auto simp: nth_append)
    moreover have "slot_step ((hs @ [s]) ! t) ((hs @ [s]) ! Suc t)" using written.IH True by simp
    ultimately show ?thesis using nth [of t] nth [of "Suc t"] t True by (auto split: if_splits)
  next
    case False
    then have "Suc t - length hs = Suc (t - length hs)" "t - length hs < Suc BANK_WORDS"
      using t written.hyps(4) by simp_all
    then show ?thesis using nth [of t] nth [of "Suc t"] t False step [of "t - length hs"] by simp
  qed
  moreover have "\<forall>x\<in>set (hs @ map ?st [0..<Suc k]). slot_typed x"
  proof -
    have "slot_typed (?st j)" if "j < Suc k" for j
      using that s(1) step [of "j - 1"] written.hyps(4) by (cases j) (auto simp: slot_step_def)
    then show ?thesis using written.IH by auto
  qed
  ultimately show ?case unfolding form by (simp del: upt_Suc)
qed

lemma revisions_monotone:
  assumes "slot_history c p index hs" "a \<le> b" "b < length hs"
  shows "sl_revision (hs ! a) \<le> sl_revision (hs ! b) \<and> (sl_revision (hs ! a) = sl_revision (hs ! b) \<longrightarrow> active_bank (hs ! a) = active_bank (hs ! b))"
  using assms(2,3)
proof (induction b rule: dec_induct)
  case base
  then show ?case by simp
next
  case (step b)
  have "slot_step (hs ! b) (hs ! Suc b)" using slot_history_steps [OF assms(1)] step.prems by blast
  then show ?case using step by (auto simp: slot_step_def)
qed

text \<open>
  C16: a lock-free read of a slot is atomic.  Its nineteen loads may fall anywhere in the writers' stores, in
  program order; if it returns a value, that value is the revision and the whole bank of one instant during
  the read, so no mixture of two records is ever returned, even when writers come back to the bank it reads.
\<close>

theorem slot_read_atomic:
  assumes hist: "slot_history c p index hs"
    and times: "\<forall>a b. a \<le> b \<and> b \<le> Suc BANK_WORDS \<longrightarrow> t a \<le> t b" "t (Suc BANK_WORDS) < length hs"
    and val: "read_once (\<lambda>k. hs ! t k) = RdValue revision w"
  shows "\<exists>\<tau>. t 0 \<le> \<tau> \<and> \<tau> \<le> t (Suc BANK_WORDS) \<and> sl_revision (hs ! \<tau>) = revision \<and> active_bank (hs ! \<tau>) = w \<and>
    read_once (\<lambda>_. hs ! \<tau>) = RdValue revision w"
proof -
  let ?r = "\<lambda>k. sl_revision (hs ! t k)"
  have v: "?r 0 = revision" "revision \<noteq> 0" "?r (Suc BANK_WORDS) = revision"
      "w = map (\<lambda>i. sl_banks (hs ! t (Suc i)) ! (revision mod 2) ! i) [0..<BANK_WORDS]"
    using val by (auto simp: read_once_def Let_def split: if_splits)
  have typed: "slot_typed (hs ! t 0)"
    using slot_history_steps [OF hist] times by (metis le_SucI le_trans linorder_not_le nth_mem order_refl zero_le)
  have bank: "sl_banks (hs ! t k) ! (revision mod 2) = active_bank (hs ! t 0)" if k: "k \<le> Suc BANK_WORDS" for k
  proof -
    have le: "t 0 \<le> t k" "t k \<le> t (Suc BANK_WORDS)" using times(1) k by simp_all
    have "?r 0 \<le> ?r k" "?r k \<le> ?r (Suc BANK_WORDS)"
      using revisions_monotone [OF hist le(1)] revisions_monotone [OF hist le(2) times(2)] le times(2) by simp_all
    then have rk: "?r k = revision" using v by simp
    then have "active_bank (hs ! t 0) = active_bank (hs ! t k)"
      using revisions_monotone [OF hist le(1)] le times(2) v(1) by simp
    then show ?thesis by (simp add: active_bank_def rk)
  qed
  have "w = map (\<lambda>i. active_bank (hs ! t 0) ! i) [0..<BANK_WORDS]" unfolding v(4) by (rule map_cong) (simp_all add: bank)
  also have "\<dots> = active_bank (hs ! t 0)"
    using bank_length [OF typed, of "sl_revision (hs ! t 0)"] map_nth [of "active_bank (hs ! t 0)"] by (simp add: active_bank_def)
  finally have "active_bank (hs ! t 0) = w" by simp
  moreover have "t 0 \<le> t (Suc BANK_WORDS)" using times(1) by blast
  ultimately show ?thesis using v(1,2) read_now [OF typed] by (intro exI [of _ "t 0"]) simp
qed

lemma plain_history:
  assumes r: "record_typed r" "record_valid r" and pol: "rp_policy p \<noteq> EncryptedState" and s: "slot_typed s" "sl_revision s < u64_max"
  obtains w where "slot_history c p index ([] @ [s] @ map (\<lambda>j. foldl apply_write s (take (Suc j) (store_writes (Suc (sl_revision s)) w))) [0..<Suc BANK_WORDS])"
    "length w = BANK_WORDS"
proof -
  obtain w where w: "encode c p None index (Suc (sl_revision s)) r = Inr w"
    using pol by (cases "rp_policy p") (simp_all add: encode_def Let_def)
  have st: "auth_store c p None s r index = (foldl apply_write s (store_writes (Suc (sl_revision s)) w), Inr (Suc (sl_revision s)))"
    using r s w by (simp add: auth_store_def record_from_words_valid checked_add_def)
  have h0: "slot_history c p index ([] @ [s])" using s(1) by (simp add: slot_history.start)
  have "slot_history c p index ([] @ [s] @ map (\<lambda>j. foldl apply_write s (take (Suc j) (store_writes (Suc (sl_revision s)) w))) [0..<Suc BANK_WORDS])"
    by (rule slot_history.written [OF h0 st w]) simp
  then show thesis using that encode_typed [OF w] by (simp add: wire_typed_def)
qed

theorem slot_read_atomic_witness:
  "\<exists>hs w. slot_history demo_crypto \<lparr>rp_key = [9], rp_policy = UnprotectedState\<rparr> 0 hs \<and> read_once (\<lambda>k. hs ! 18) = RdValue 1 w \<and>
     active_bank (hs ! 18) = w"
proof -
  let ?p = "\<lparr>rp_key = [9], rp_policy = UnprotectedState\<rparr>"
  let ?hs = "\<lambda>w. [] @ [auth_slot_empty] @ map (\<lambda>j. foldl apply_write auth_slot_empty (take (Suc j) (store_writes (Suc (sl_revision auth_slot_empty)) w))) [0..<Suc BANK_WORDS]"
  have pol: "rp_policy ?p \<noteq> EncryptedState" by simp
  have s: "slot_typed auth_slot_empty" "sl_revision auth_slot_empty < u64_max" by (simp_all add: slot_typed_def auth_slot_empty_def u64_max_def)
  from plain_history [OF demo_record_ok pol s, of demo_crypto 0] obtain w where
    h: "slot_history demo_crypto ?p 0 (?hs w)" and w: "length w = BANK_WORDS" by metis
  have last: "?hs w ! 18 = foldl apply_write auth_slot_empty (store_writes (Suc (sl_revision auth_slot_empty)) w)"
    by (simp add: nth_append del: upt_Suc)
  have r: "read_once (\<lambda>k. ?hs w ! 18) = RdValue 1 w"
    unfolding last store_writes_commit [OF s(1) w]
    by (subst read_now) (use w s(2) in \<open>simp_all add: slot_typed_def auth_slot_empty_def active_bank_def numeral_2_eq_2\<close>)
  have "\<exists>\<tau>. 18 \<le> \<tau> \<and> \<tau> \<le> 18 \<and> sl_revision (?hs w ! \<tau>) = 1 \<and> active_bank (?hs w ! \<tau>) = w \<and> read_once (\<lambda>_. ?hs w ! \<tau>) = RdValue 1 w"
    by (rule slot_read_atomic [OF h _ _ r]) simp_all
  then have "active_bank (?hs w ! 18) = w" by (metis le_antisym)
  with h r show ?thesis by blast
qed

end
