(* ===== verification/Auth_Full.thy ===== *)
theory Auth_Full
  imports Auth_Runs
begin

text \<open>
  The table as a bounded map, and when it is full.  The probe sequence of \<^verbatim>\<open>auth/src/table.rs\<close> adds the offset
  to the first word of the key with wrap-around before it takes the remainder; it visits every slot exactly
  when the capacity divides \<open>2 ^ 64\<close>, and for other capacities it can miss slots.
\<close>

text \<open>
  C18: the scanned slots implement a bounded map of records.  \<open>find\<close> never fails and returns what the map holds;
  inserting an absent key either adds exactly that record, dropping at most one record, whose expiry has
  passed, or changes nothing and reports why; it reports a full table only if every slot of the key's probe
  sequence carries a record that has not expired.
\<close>

theorem auth_table_refines_map:
  assumes cr: "crypto_ok c" "nonces_ok random" and ok: "auth_ok c p slots" and r: "record_typed r"
    and absent: "current c p slots (ar_key r) = None"
    and ins: "insert_record c p random slots r now = (slots', res)"
  shows "(\<forall>key. \<exists>found. find_record c p slots key = Inr found \<and> map_option sn_record found = current c p slots key) \<and> auth_ok c p slots' \<and>
    (case res of
       Inr _ \<Rightarrow> \<exists>gone. (\<forall>k\<in>gone. \<exists>q. current c p slots k = Some q \<and> ar_expires_at q \<le> now) \<and> card gone \<le> 1 \<and> finite gone \<and>
                current c p slots' = ((current c p slots) |` (- gone))(ar_key r \<mapsto> r)
     | Inl e \<Rightarrow> slots' = slots \<and> (e = StateFull \<longrightarrow> (\<forall>d<length slots. \<exists>q.
                held c p slots (auth_path (length slots) (ar_key r) d) = Some q \<and> now < ar_expires_at q)))"
proof -
  have found: "\<exists>found. find_record c p slots key = Inr found \<and> map_option sn_record found = current c p slots key" for key
    by (auto simp: find_record_exact [OF ok] option.map_comp comp_def split: option.splits)
  show ?thesis
  proof (cases res)
    case (Inl e)
    then show ?thesis
      using insert_scan_cases [OF cr ok r order_refl ins [unfolded insert_record_def]] found ok
      by (auto simp: admits_def not_le)
  next
    case (Inr u)
    from insert_record_cases [OF cr ok r absent ins] Inr obtain i where i: "auth_ok c p slots'"
        "\<forall>q. held c p slots i = Some q \<longrightarrow> ar_expires_at q \<le> now"
        "\<forall>key. current c p slots' key = (if key = ar_key r then Some r
          else if \<exists>q. held c p slots i = Some q \<and> ar_key q = key then None else current c p slots key)" by auto
    define gone where "gone = ar_key ` set_option (held c p slots i)"
    have "current c p slots' = ((current c p slots) |` (- gone))(ar_key r \<mapsto> r)"
      by (rule ext) (auto simp: i(3) gone_def restrict_map_def)
    moreover have "\<exists>q. current c p slots k = Some q \<and> ar_expires_at q \<le> now" if "k \<in> gone" for k
      using that i(2) ok by (auto simp: gone_def current_Some)
    moreover have "card gone \<le> 1 \<and> finite gone" by (cases "held c p slots i") (simp_all add: gone_def)
    ultimately show ?thesis using found i(1) Inr by auto
  qed
qed

theorem auth_table_refines_map_witness:
  "\<exists>slots. insert_record demo_crypto (ah_protection demo_handle) demo_nonces [auth_slot_empty] demo_session 10 = (slots, Inr ()) \<and>
     auth_ok demo_crypto (ah_protection demo_handle) slots"
proof -
  have pol: "rp_policy (ah_protection demo_handle) \<noteq> EncryptedState" by (simp add: demo_handle_def)
  have t: "record_typed demo_session" "record_valid demo_session" using current_typed [OF demo_slots_facts(1,2)] by simp_all
  obtain slots where i: "insert_record demo_crypto (ah_protection demo_handle) demo_nonces [auth_slot_empty] demo_session 10 = (slots, Inr ())"
    by (rule insert_fresh [OF pol t])
  show ?thesis using i auth_table_refines_map [OF demo_crypto_ok demo_nonces_ok fresh_absent(2) t(1) fresh_absent(3) i] by blast
qed

lemma path_covers:
  assumes "is_power_of_two n" "n \<le> 2 ^ 64" "i < n"
  shows "\<exists>d<n. auth_path n key d = i"
proof -
  obtain k where k: "n = 2 ^ k" using assms(1) by (auto simp: is_power_of_two_iff)
  have "k \<le> 64" using assms(2) k by (metis one_less_numeral_iff power_increasing_iff semiring_norm(76))
  then have dvd: "n dvd 2 ^ 64" unfolding k by (rule le_imp_power_dvd)
  let ?f = "\<lambda>d. (hd key + d) mod n"
  have m: "u64_max + 1 = 2 ^ 64" by (simp add: u64_max_def)
  have path: "auth_path n key d = ?f d" for d
    unfolding auth_path_def wrapping_add_def m by (rule mod_mod_cancel [OF dvd])
  have "inj_on ?f {..<n}"
  proof (rule inj_onI)
    fix d e assume "d \<in> {..<n}" "e \<in> {..<n}" "?f d = ?f e"
    then show "d = e" using mod_add_left_inj [of "hd key" d n e] by simp
  qed
  moreover have "?f ` {..<n} \<subseteq> {..<n}" using assms(3) by auto
  ultimately have "?f ` {..<n} = {..<n}" by (intro endo_inj_surj finite_lessThan)
  then have "i \<in> ?f ` {..<n}" using assms(3) by simp
  then show ?thesis by (auto simp: path)
qed

text \<open>
  With a capacity that is a power of two, such as the default 1024, a refusal for lack of space is true of
  the whole table: every slot carries a record that has not expired.
\<close>

lemma auth_full_means_full:
  assumes cr: "crypto_ok c" "nonces_ok random" and ok: "auth_ok c p slots" and r: "record_typed r"
    and n: "is_power_of_two (length slots)" "length slots \<le> 2 ^ 64"
    and full: "snd (insert_record c p random slots r now) = Inl StateFull"
  shows "\<forall>i<length slots. \<exists>q. held c p slots i = Some q \<and> now < ar_expires_at q"
proof (intro allI impI)
  fix i assume "i < length slots"
  then obtain d where d: "d < length slots" "auth_path (length slots) (ar_key r) d = i" using path_covers [OF n] by blast
  obtain slots' where "insert_scan c p random slots r now [0..<length slots] = (slots', Inl StateFull)"
    using full by (metis insert_record_def prod.collapse)
  from insert_scan_cases [OF cr ok r order_refl this] have "\<not> admits c p now r slots d" using d(1) by auto
  then show "\<exists>q. held c p slots i = Some q \<and> now < ar_expires_at q" using d(2) by (auto simp: admits_def not_le)
qed

definition full_record :: "nat \<Rightarrow> auth_record" where
  "full_record k = \<lparr>ar_key = [k, 0, 0, 0], ar_subject = [1, 2, 3, 4], ar_created_at = 10, ar_expires_at = 90, ar_generation = 0, ar_status = 1\<rparr>"

definition full_slot :: "nat \<Rightarrow> auth_slot" where
  "full_slot k = \<lparr>sl_revision = 1, sl_banks = [replicate 17 0, record_words (full_record k) @ replicate 5 0]\<rparr>"

lemma full_slot_held: "slot_typed (full_slot k)" "k \<le> u64_max \<Longrightarrow> slot_record demo_crypto (ah_protection demo_handle) i (full_slot k) = Some (full_record k)"
proof -
  show t: "slot_typed (full_slot k)" by (simp add: slot_typed_def full_slot_def record_words_def full_record_def u64_max_def)
  assume k: "k \<le> u64_max"
  have r: "record_typed (full_record k)" "record_valid (full_record k)"
    using k by (simp_all add: record_typed_def record_words_def record_valid_def full_record_def status_defs u64_max_def)
  have w: "words_to_bytes (record_words (full_record k)) @ replicate 40 0 = words_to_bytes (record_words (full_record k) @ replicate 5 0)"
    by (simp add: words_to_bytes_def to_le_bytes_def eval_nat_numeral)
  have "encode demo_crypto (ah_protection demo_handle) None i 1 (full_record k) = Inr (record_words (full_record k) @ replicate 5 0)"
    unfolding encode_def Let_def w using r(1) by (simp add: demo_handle_def words_bytes_words record_words_length record_typed_def)
  from decode_encode [OF demo_crypto_ok _ r this]
  show "slot_record demo_crypto (ah_protection demo_handle) i (full_slot k) = Some (full_record k)"
    by (simp add: nonce_ok_def slot_record_def full_slot_def active_bank_def)
qed

definition full_slots :: slots where
  "full_slots = [full_slot 0, full_slot 1, auth_slot_empty]"

lemma full_slots_held:
  "held demo_crypto (ah_protection demo_handle) full_slots j = (if j < 2 then Some (full_record j) else None)"
proof -
  have none: "slot_record c p i auth_slot_empty = None" for c p i by (simp add: slot_record_def auth_slot_empty_def)
  have some: "slot_record demo_crypto (ah_protection demo_handle) 0 (full_slot 0) = Some (full_record 0)"
    "slot_record demo_crypto (ah_protection demo_handle) 1 (full_slot 1) = Some (full_record 1)"
    by (rule full_slot_held(2), simp add: u64_max_def)+
  consider "j = 0" | "j = 1" | "j = 2" | "3 \<le> j" by linarith
  then show ?thesis
  proof cases
    case 2
    then show ?thesis using some(2) by (simp add: held_def full_slots_def)
  qed (simp_all add: held_def full_slots_def none some(1))
qed

lemma full_slots_ok: "auth_ok demo_crypto (ah_protection demo_handle) full_slots"
proof -
  let ?p = "ah_protection demo_handle"
  have n: "length full_slots = 3" by (simp add: full_slots_def)
  have "slot_ok demo_crypto ?p i (full_slots ! i)" if "i < 3" for i
  proof -
    have "slot_ok demo_crypto ?p i auth_slot_empty" by (simp add: slot_ok_def slot_typed_def auth_slot_empty_def)
    moreover have "slot_ok demo_crypto ?p j (full_slot k)" if "k \<le> u64_max" for j k using full_slot_held(1) [of k] full_slot_held(2) [of k j] that by (simp add: slot_ok_def)
    ultimately show ?thesis using that by (auto simp: full_slots_def u64_max_def less_Suc_eq numeral_3_eq_3)
  qed
  moreover have "auth_path 3 (ar_key (full_record j)) 0 = j" if "j < 2" for j
    using that by (simp add: auth_path_def full_record_def wrapping_add_def u64_max_def)
  moreover have "ar_key (full_record i) = ar_key (full_record j) \<Longrightarrow> i = j" for i j by (simp add: full_record_def)
  ultimately show ?thesis
    unfolding auth_ok_def n full_slots_held by (auto split: if_splits intro!: exI [of _ 0])
qed

text \<open>
  C38: with a capacity that is not a power of two the refusal can be wrong.  The table below has three slots, of
  which the last is empty; for a key whose first word is \<open>2 ^ 64 - 1\<close> the probe sequence wraps around to the
  slots 0, 0, 1, never looks at the empty one, and the insertion is refused as if the table were full.
\<close>

theorem auth_probe_skips_free_slot:
  "auth_ok demo_crypto (ah_protection demo_handle) full_slots \<and> full_slots ! 2 = auth_slot_empty \<and> length full_slots = 3 \<and>
   map (auth_path 3 (ar_key (full_record (2 ^ 64 - 1)))) [0..<3] = [0, 0, 1] \<and>
   insert_record demo_crypto (ah_protection demo_handle) demo_nonces full_slots (full_record (2 ^ 64 - 1)) 20 = (full_slots, Inl StateFull)"
proof -
  let ?p = "ah_protection demo_handle" and ?k = "ar_key (full_record (2 ^ 64 - 1))"
  have n: "length full_slots = 3" by (simp add: full_slots_def)
  have upt3: "[0..<3] = [0, 1, 2 :: nat]" by code_simp
  have path: "auth_path 3 ?k 0 = 0" "auth_path 3 ?k 1 = 0" "auth_path 3 ?k 2 = 1"
    by (simp_all add: auth_path_def full_record_def wrapping_add_def u64_max_def)
  have at: "insert_scan demo_crypto ?p demo_nonces full_slots (full_record (2 ^ 64 - 1)) 20 (d # ds) =
      insert_scan demo_crypto ?p demo_nonces full_slots (full_record (2 ^ 64 - 1)) 20 ds" if "auth_path 3 ?k d < 2" for d ds
  proof -
    let ?i = "auth_path 3 ?k d"
    have h: "held demo_crypto ?p full_slots ?i = Some (full_record ?i)" using that by (simp add: full_slots_held)
    have "?i < length full_slots" using that n by simp
    from read_held [OF full_slots_ok this] h decode_held [OF h] show ?thesis by (simp add: n Let_def full_record_def)
  qed
  have "insert_record demo_crypto ?p demo_nonces full_slots (full_record (2 ^ 64 - 1)) 20 = (full_slots, Inl StateFull)"
    unfolding insert_record_def n upt3 using at [of 0 "[1, 2]"] at [of 1 "[2]"] at [of 2 "[]"] path by (simp only: insert_scan.simps(1))
  then show ?thesis using full_slots_ok n path by (simp add: upt3) (simp add: full_slots_def)
qed

end
